(* ===== verification/Rust_Prelude.thy ===== *)
theory Rust_Prelude
  imports Main "HOL-Library.Word" "HOL-Library.Signed_Division"
begin

text \<open>
  Shared vocabulary of the development: the machine integers of the source, the
  operations of the Rust language and standard library the source uses on them, and the
  generic lemmas on words and masks that the component theories build on.

  Integers have their widths. \<open>u8\<close>, \<open>u32\<close> and \<open>u64\<close> are words, whose arithmetic wraps;
  a signed \<open>i32\<close> or \<open>i64\<close> is an \<open>int\<close> inside its range, with the reduction to the width
  written out (\<open>wrap_i32\<close>, \<open>wrap_i64\<close>); a \<open>usize\<close> byte size or index is a \<open>nat\<close>, with
  \<open>usize_sub\<close> for a subtraction that may go below zero. The arithmetic is that of the
  release profile, which the repository calls canonical (Cargo.toml) and which its
  build instructions use: additions wrap and a shift amount is taken modulo 64. The
  operations that panic in every profile (integer division by zero, the quotient of the
  least integer by minus one, an index out of range, an explicit \<open>panic!\<close>) yield \<open>Panic\<close>.
\<close>

unbundle bit_operations_syntax

named_theorems rust_defs \<open>definitions of the Rust primitives\<close>
named_theorems mask_simps \<open>masks and truncations in arithmetic form\<close>

type_synonym u8 = "8 word"
type_synonym u32 = "32 word"
type_synonym u64 = "64 word"
type_synonym i32 = int
type_synonym i64 = int
type_synonym usize = nat

section \<open>Outcomes\<close>

datatype 'a res = Panic | Ret 'a

primrec res_bind :: "'a res \<Rightarrow> ('a \<Rightarrow> 'b res) \<Rightarrow> 'b res" where
  "res_bind Panic f = Panic"
| "res_bind (Ret x) f = f x"

primrec res_map :: "('a \<Rightarrow> 'b) \<Rightarrow> 'a res \<Rightarrow> 'b res" where
  "res_map f Panic = Panic"
| "res_map f (Ret x) = Ret (f x)"

primrec no_panic :: "'a res \<Rightarrow> bool" where
  "no_panic Panic = False"
| "no_panic (Ret x) = True"

lemma res_bind_Ret_iff [simp]: "res_bind m f = Ret y \<longleftrightarrow> (\<exists>x. m = Ret x \<and> f x = Ret y)"
  by (cases m) auto

lemma no_panic_iff: "no_panic m \<longleftrightarrow> (\<exists>x. m = Ret x)"
  by (cases m) auto

section \<open>Integer primitives of the language and its standard library\<close>

definition U64_MAX :: u64 where
  "U64_MAX = 0xffffffffffffffff"

definition shl_u64 :: "u64 \<Rightarrow> nat \<Rightarrow> u64" where
  [rust_defs]: "shl_u64 x n = push_bit (n mod 64) x"

definition shr_u64 :: "u64 \<Rightarrow> nat \<Rightarrow> u64" where
  [rust_defs]: "shr_u64 x n = drop_bit (n mod 64) x"

definition usize_sub :: "usize \<Rightarrow> usize \<Rightarrow> usize" where
  [rust_defs]: "usize_sub a b = (if b \<le> a then a - b else 2 ^ 64 - (b - a))"

definition wrap_i32 :: "int \<Rightarrow> i32" where
  [rust_defs]: "wrap_i32 i = signed_take_bit 31 i"

definition wrap_i64 :: "int \<Rightarrow> i64" where
  [rust_defs]: "wrap_i64 i = signed_take_bit 63 i"

definition as_i64 :: "u64 \<Rightarrow> i64" where
  [rust_defs]: "as_i64 x = sint x"

definition as_i32 :: "u64 \<Rightarrow> i32" where
  [rust_defs]: "as_i32 x = signed_take_bit 31 (uint x)"

definition as_u64 :: "int \<Rightarrow> u64" where
  [rust_defs]: "as_u64 i = word_of_int i"

definition bool_u64 :: "bool \<Rightarrow> u64" where
  [rust_defs]: "bool_u64 b = (if b then 1 else 0)"

definition sat_add_u64 :: "u64 \<Rightarrow> u64 \<Rightarrow> u64" where
  [rust_defs]: "sat_add_u64 a b = (if uint a + uint b < 2 ^ 64 then a + b else U64_MAX)"

definition sat_sub_u64 :: "u64 \<Rightarrow> u64 \<Rightarrow> u64" where
  [rust_defs]: "sat_sub_u64 a b = (if b \<le> a then a - b else 0)"

definition div_i64 :: "i64 \<Rightarrow> i64 \<Rightarrow> i64 res" where
  [rust_defs]: "div_i64 a b = (if b = 0 \<or> (a = - (2 ^ 63) \<and> b = - 1) then Panic else Ret (a sdiv b))"

definition rem_i64 :: "i64 \<Rightarrow> i64 \<Rightarrow> i64 res" where
  [rust_defs]: "rem_i64 a b = (if b = 0 \<or> (a = - (2 ^ 63) \<and> b = - 1) then Panic else Ret (a smod b))"

text \<open>
  \<open>i64::rem_euclid\<close>: the truncating remainder, which panics for the divisor 0 and for the least integer over minus one, corrected by
  the divisor's \<open>wrapping_abs\<close> when it is negative.
\<close>

definition rem_euclid_i64 :: "i64 \<Rightarrow> i64 \<Rightarrow> i64 res" where
  [rust_defs]: "rem_euclid_i64 a b =
     res_map (\<lambda>r. if r < 0 then wrap_i64 (r + wrap_i64 \<bar>b\<bar>) else r) (rem_i64 a b)"

text \<open>Bit counts, as \<open>u64::leading_zeros\<close>, \<open>trailing_zeros\<close> and \<open>count_ones\<close>.\<close>

fun bit_len :: "nat \<Rightarrow> nat" where
  "bit_len n = (if n = 0 then 0 else Suc (bit_len (n div 2)))"

declare bit_len.simps [simp del]

definition leading_zeros :: "u64 \<Rightarrow> nat" where
  "leading_zeros x = 64 - bit_len (unat x)"

fun low_zeros :: "nat \<Rightarrow> nat" where
  "low_zeros n = (if n = 0 \<or> odd n then 0 else Suc (low_zeros (n div 2)))"

declare low_zeros.simps [simp del]

definition trailing_zeros :: "u64 \<Rightarrow> nat" where
  "trailing_zeros x = (if x = 0 then 64 else low_zeros (unat x))"

fun one_bits :: "nat \<Rightarrow> nat" where
  "one_bits n = (if n = 0 then 0 else n mod 2 + one_bits (n div 2))"

declare one_bits.simps [simp del]

definition count_ones :: "u64 \<Rightarrow> nat" where
  "count_ones x = one_bits (unat x)"

section \<open>Lemmas on the primitives\<close>

lemma U64_MAX_eq: "U64_MAX = - 1"
  by (simp add: U64_MAX_def)

lemma U64_MAX_mask: "U64_MAX = mask 64"
  by (simp add: U64_MAX_def mask_eq_exp_minus_1)

lemma le_U64_MAX [simp]: "x \<le> U64_MAX"
  by (simp add: U64_MAX_eq)

lemma bool_u64_simps [simp]:
  "bool_u64 True = 1" "bool_u64 False = 0" "bool_u64 b = 1 \<longleftrightarrow> b" "bool_u64 b = 0 \<longleftrightarrow> \<not> b"
  by (simp_all add: bool_u64_def)

lemma bit_len_0 [simp]: "bit_len 0 = 0"
  by (simp add: bit_len.simps)

lemma bit_len_bounds:
  assumes "0 < n"
  shows "2 ^ (bit_len n - 1) \<le> n \<and> n < 2 ^ bit_len n \<and> 0 < bit_len n"
  using assms
proof (induction n rule: bit_len.induct)
  case (1 n)
  show ?case
  proof (cases "n div 2 = 0")
    case True
    with "1.prems" have "n = 1" by presburger
    then show ?thesis by (simp add: bit_len.simps)
  next
    case False
    with 1 have IH: "2 ^ (bit_len (n div 2) - 1) \<le> n div 2" "n div 2 < 2 ^ bit_len (n div 2)"
      "0 < bit_len (n div 2)"
      by simp_all
    have eq: "bit_len n = Suc (bit_len (n div 2))"
      using "1.prems" by (simp add: bit_len.simps [of n])
    obtain m where m: "bit_len (n div 2) = Suc m"
      using IH(3) by (cases "bit_len (n div 2)") auto
    from IH m eq show ?thesis by (auto simp: algebra_simps)
  qed
qed

lemma bit_len_le: "n < 2 ^ k \<Longrightarrow> bit_len n \<le> k"
proof (cases "n = 0")
  case False
  assume "n < 2 ^ k"
  with False bit_len_bounds [of n] have "(2::nat) ^ (bit_len n - 1) < 2 ^ k"
    by (meson bot_nat_0.not_eq_extremum le_less_trans)
  then have "bit_len n - 1 < k" using power_strict_increasing_iff [of "2::nat"] by simp
  then show ?thesis by linarith
qed simp

lemma bit_len_u64: "bit_len (unat (x :: u64)) \<le> 64"
  by (rule bit_len_le) (use unsigned_less [of x] in simp)

lemma low_zeros_spec:
  assumes "0 < n"
  shows "2 ^ low_zeros n dvd n \<and> \<not> 2 ^ Suc (low_zeros n) dvd n"
  using assms
proof (induction n rule: low_zeros.induct)
  case (1 n)
  show ?case
  proof (cases "odd n")
    case True
    then show ?thesis by (simp add: low_zeros.simps)
  next
    case False
    with "1.prems" obtain m where m: "n = 2 * m" "0 < m" by (auto elim: evenE)
    with 1 False have "2 ^ low_zeros m dvd m \<and> \<not> 2 ^ Suc (low_zeros m) dvd m" by simp
    moreover have "low_zeros n = Suc (low_zeros m)"
      using m by (simp add: low_zeros.simps [of "2 * m"])
    ultimately show ?thesis using m by auto
  qed
qed

text \<open>Remainders one period away from the canonical interval.\<close>

lemma mod_minus_once: "(N :: int) \<le> x \<Longrightarrow> x < 2 * N \<Longrightarrow> x mod N = x - N"
proof -
  assume "N \<le> x" and "x < 2 * N"
  then have "(x - N) mod N = x - N" by (intro mod_pos_pos_trivial) simp_all
  then show ?thesis by simp
qed

lemma mod_plus_once: "- (N :: int) \<le> x \<Longrightarrow> x < 0 \<Longrightarrow> x mod N = x + N"
proof -
  assume "- N \<le> x" and "x < 0"
  then have "(x + N) mod N = x + N" by (intro mod_pos_pos_trivial) simp_all
  then show ?thesis by simp
qed

text \<open>Masks: \<open>x AND mask n\<close> is a remainder, whatever the reading.\<close>

lemma uint_and_mask [mask_simps]: "n \<le> 64 \<Longrightarrow> uint ((x :: u64) AND mask n) = uint x mod 2 ^ n"
  by (simp only: take_bit_eq_mask [symmetric] unsigned_take_bit_eq) (simp only: take_bit_eq_mod)

lemma uint_mask_u64 [mask_simps]: "n \<le> 64 \<Longrightarrow> uint (mask n :: u64) = 2 ^ n - 1"
  by (simp only: uint_mask_eq) (simp add: min_def mask_eq_exp_minus_1)

lemmas and_mask_eq_self_iff = mask_eq_iff

lemma le_mask_u64_iff: "n \<le> 64 \<Longrightarrow> (x :: u64) \<le> mask n \<longleftrightarrow> uint x < 2 ^ n"
  by (simp add: word_le_def uint_mask_u64 zle_diff1_eq)

lemma uint_lt_u64: "uint (x :: u64) < 18446744073709551616"
  using uint_lt2p [of x] by simp

lemma uint_plus_u64 [mask_simps]: "uint ((a :: u64) + b) = (uint a + uint b) mod 2 ^ 64"
  by (simp add: uint_word_ariths)

lemma uint_minus_u64 [mask_simps]: "uint ((a :: u64) - b) = (uint a - uint b) mod 2 ^ 64"
  by (simp add: uint_word_ariths)

lemma mod_pow2_mod: "n \<le> m \<Longrightarrow> (x :: int) mod 2 ^ m mod 2 ^ n = x mod 2 ^ n"
  by (simp add: mod_mod_cancel le_imp_power_dvd)

lemma uint_plus_and_mask [mask_simps]:
  "n \<le> 64 \<Longrightarrow> uint (((a :: u64) + b) AND mask n) = (uint a + uint b) mod 2 ^ n"
  by (simp only: uint_and_mask uint_plus_u64 mod_pow2_mod)

lemma uint_minus_and_mask [mask_simps]:
  "n \<le> 64 \<Longrightarrow> uint (((a :: u64) - b) AND mask n) = (uint a - uint b) mod 2 ^ n"
  by (simp only: uint_and_mask uint_minus_u64 mod_pow2_mod)

lemma uint_sum_minus_mask:
  assumes "n \<le> 64"
  shows "uint ((a + b - c :: u64) AND mask n) = (uint a + uint b - uint c) mod 2 ^ n"
proof -
  have "uint ((a + b - c) AND mask n) = ((uint a + uint b) mod 2 ^ 64 mod 2 ^ n - uint c) mod 2 ^ n"
    using assms by (simp only: uint_minus_and_mask uint_plus_u64 mod_diff_left_eq)
  also have "\<dots> = (uint a + uint b - uint c) mod 2 ^ n" by (simp only: mod_pow2_mod [OF assms] mod_diff_left_eq)
  finally show ?thesis .
qed

lemma div_pow2_le: "0 \<le> (x :: int) \<Longrightarrow> x div 2 ^ k \<le> x"
  using zdiv_mono2 [of x 1 "2 ^ k"] by simp

lemma uint_drop_bit_u64 [mask_simps]: "uint (drop_bit n (x :: u64)) = uint x div 2 ^ n"
proof -
  have "uint (drop_bit n x) = drop_bit n (take_bit 64 (uint x))"
    by (simp only: unsigned_drop_bit_eq len_bit0 len_num1 refl) simp
  also have "take_bit 64 (uint x) = uint x"
    by (rule take_bit_int_eq_self) (use uint_lt_u64 [of x] in simp_all)
  finally show ?thesis by (simp only: drop_bit_eq_div)
qed

lemma uint_push_bit_u64 [mask_simps]: "uint (push_bit n (x :: u64)) = (uint x * 2 ^ n) mod 2 ^ 64"
  by (simp only: unsigned_push_bit_eq) (simp add: push_bit_eq_mult take_bit_eq_mod)

end
