(* ===== verification/Bit_Helpers.thy ===== *)
theory Bit_Helpers
  imports Rust_Prelude
begin

text \<open>
  The bit-level helpers every other component uses: \<open>calc_mask\<close>, sign bits, bit
  positions, covering and minimal masks (src/src/address.rs), the sign extensions and bit
  transitions of src/src/rangeutil.rs and the private helpers of src/src/opbehavior.rs.
  The lemmas give each helper its arithmetic meaning: a mask is \<open>2 ^ (8 * sz) - 1\<close>, a
  sign extension preserves the two's complement reading \<open>sval\<close>, the bit positions are the
  extreme set bits, and the covering masks are least among the masks above the value.
\<close>

unbundle bit_operations_syntax

section \<open>Definitions\<close>

definition signbit_negative :: "u64 \<Rightarrow> usize \<Rightarrow> bool" where
  "signbit_negative val sz =
     (if sz = 0 then False
      else (let m = shl_u64 0x80 (8 * (sz - 1)) in (val AND m) \<noteq> 0))"

definition calc_mask :: "usize \<Rightarrow> u64" where
  "calc_mask sz = (if sz \<ge> 8 then U64_MAX else shl_u64 1 (sz * 8) - 1)"

definition count_leading_zeros :: "u64 \<Rightarrow> i32" where
  "count_leading_zeros val = (if val = 0 then 64 else int (leading_zeros val))"

definition leastsigbit_set :: "u64 \<Rightarrow> i32" where
  "leastsigbit_set val = (if val = 0 then - 1 else int (trailing_zeros val))"

definition mostsigbit_set :: "u64 \<Rightarrow> i32" where
  "mostsigbit_set val = (if val = 0 then - 1 else 63 - int (leading_zeros val))"

definition coveringmask :: "u64 \<Rightarrow> u64" where
  "coveringmask val =
     (if val = 0 then 0
      else (let msb = mostsigbit_set val
            in if msb \<ge> 63 then U64_MAX else shl_u64 1 (nat (msb + 1)) - 1))"

definition minimalmask :: "u64 \<Rightarrow> u64" where
  "minimalmask val =
     (if val > 0xffffffff then U64_MAX
      else if val > 0xffff then 0xffffffff
      else if val > 0xff then 0xffff
      else 0xff)"

definition mask_bits :: "usize \<Rightarrow> u64" where
  "mask_bits bits = (if bits \<ge> 64 then U64_MAX else shl_u64 1 bits - 1)"

definition sign_extend_to_i64 :: "u64 \<Rightarrow> usize \<Rightarrow> i64" where
  "sign_extend_to_i64 val in_size =
     (let bits = in_size * 8
      in if bits = 0 then 0
         else if bits \<ge> 64 then as_i64 val
         else (let shift = 64 - bits in drop_bit shift (as_i64 (shl_u64 val shift))))"

definition uintb_negate :: "u64 \<Rightarrow> usize \<Rightarrow> u64" where
  "uintb_negate val size_bytes = (NOT val) AND calc_mask size_bytes"

definition zero_extend :: "i64 \<Rightarrow> usize \<Rightarrow> u64" where
  "zero_extend sres size_out = as_u64 sres AND calc_mask size_out"

fun bit_transitions_loop :: "nat \<Rightarrow> u64 \<Rightarrow> u64 \<Rightarrow> i32 \<Rightarrow> i32" where
  "bit_transitions_loop 0 v lst res = res"
| "bit_transitions_loop (Suc k) v lst res =
     (let v' = shr_u64 v 1;
          cur = v' AND 1;
          res' = (if cur \<noteq> lst then res + 1 else res);
          lst' = (if cur \<noteq> lst then cur else lst)
      in if v' = 0 then res' else bit_transitions_loop k v' lst' res')"

definition bit_transitions :: "u64 \<Rightarrow> usize \<Rightarrow> i32" where
  "bit_transitions val sz = bit_transitions_loop (8 * sz - 1) val (val AND 1) 0"

definition sign_extend_bits :: "u64 \<Rightarrow> nat \<Rightarrow> i64" where
  "sign_extend_bits val b =
     (let sa = usize_sub 64 (b + 1) mod 64 in drop_bit sa (wrap_i64 (push_bit sa (as_i64 val))))"

definition sign_extend_size :: "u64 \<Rightarrow> usize \<Rightarrow> usize \<Rightarrow> u64" where
  "sign_extend_size in_val size_in0 size_out0 =
     (let size_in = min size_in0 8; size_out = min size_out0 8
      in if size_in \<ge> size_out then in_val AND calc_mask size_out
         else (let sign_bit = shl_u64 1 (usize_sub (8 * size_in) 1)
               in if (in_val AND sign_bit) \<noteq> 0
                  then (in_val OR ((NOT (calc_mask size_in)) AND calc_mask size_out))
                         AND calc_mask size_out
                  else in_val AND calc_mask size_out))"

section \<open>Masks\<close>

text \<open>\<open>nbits sz\<close> is the number of value bits of a varnode of \<open>sz\<close> bytes held in a \<open>u64\<close>.\<close>

definition nbits :: "usize \<Rightarrow> nat" where
  "nbits sz = 8 * min sz 8"

lemma nbits_le [simp]: "nbits sz \<le> 64"
  by (simp add: nbits_def)

lemma nbits_small: "sz \<le> 8 \<Longrightarrow> nbits sz = 8 * sz"
  by (simp add: nbits_def)

lemma calc_mask_eq: "calc_mask sz = mask (nbits sz)"
proof (cases "sz \<ge> 8")
  case True
  then show ?thesis by (simp add: calc_mask_def nbits_def min_def U64_MAX_mask)
next
  case False
  then show ?thesis
    by (simp add: calc_mask_def nbits_def shl_u64_def mask_eq_exp_minus_1 push_bit_eq_mult
        mult.commute)
qed

lemma uint_calc_mask [mask_simps]: "uint (calc_mask sz) = 2 ^ nbits sz - 1"
  by (simp add: calc_mask_eq uint_mask_u64)

lemma le_calc_mask_iff: "x \<le> calc_mask sz \<longleftrightarrow> uint x < 2 ^ nbits sz"
  by (simp add: calc_mask_eq le_mask_u64_iff)

lemma and_calc_mask_self: "x \<le> calc_mask sz \<Longrightarrow> x AND calc_mask sz = x"
  unfolding calc_mask_eq and_mask_eq_self_iff by (simp add: le_mask_u64_iff)

lemma uint_and_calc_mask [mask_simps]: "uint (x AND calc_mask sz) = uint x mod 2 ^ nbits sz"
  by (simp add: calc_mask_eq uint_and_mask)

lemma and_calc_mask_le [simp]: "x AND calc_mask sz \<le> calc_mask sz"
  by (simp add: word_and_le1)

lemma mask_bits_eq: "mask_bits bits = mask (min bits 64)"
  by (simp add: mask_bits_def shl_u64_def U64_MAX_mask mask_eq_exp_minus_1 push_bit_eq_mult
      min_def)

lemma uint_uintb_negate [mask_simps]:
  "uint (uintb_negate x sz) = (- uint x - 1) mod 2 ^ nbits sz"
proof -
  have "uint (NOT x) mod 2 ^ nbits sz = ((- uint x - 1) mod 2 ^ 64) mod 2 ^ nbits sz"
    by (simp add: not_eq_complement uint_word_ariths mod_diff_left_eq)
  also have "\<dots> = (- uint x - 1) mod 2 ^ nbits sz"
    by (rule mod_pow2_mod) simp
  finally show ?thesis
    unfolding uintb_negate_def uint_and_calc_mask .
qed

section \<open>Signed readings\<close>

text \<open>The two's complement reading of the low \<open>sz\<close> bytes of a value.\<close>

definition sval :: "usize \<Rightarrow> u64 \<Rightarrow> int" where
  "sval sz x = signed_take_bit (nbits sz - 1) (uint x)"

lemma as_i64_eq: "as_i64 x = signed_take_bit 63 (uint x)"
  by (simp add: as_i64_def sint_uint)

lemma sval_bounds:
  assumes "0 < sz"
  shows "- (2 ^ (nbits sz - 1)) \<le> sval sz x" and "sval sz x < 2 ^ (nbits sz - 1)"
  by (simp_all add: sval_def signed_take_bit_int_greater_eq_minus_exp
      signed_take_bit_int_less_exp)

lemma sval_arith:
  assumes "0 < sz" and "x \<le> calc_mask sz"
  shows "sval sz x = (if uint x < 2 ^ (nbits sz - 1) then uint x else uint x - 2 ^ nbits sz)"
proof -
  from assms(1) obtain n where n: "nbits sz = Suc n"
    by (cases "nbits sz") (auto simp: nbits_def)
  have lt: "uint x < 2 * 2 ^ n"
    using assms(2) n by (simp add: le_calc_mask_iff)
  show ?thesis
  proof (cases "uint x < 2 ^ n")
    case True
    then have "signed_take_bit n (uint x) = uint x"
      by (intro signed_take_bit_int_eq_self) (auto intro: order_trans [of _ 0])
    with True n show ?thesis by (simp add: sval_def)
  next
    case False
    have "(uint x + 2 ^ n) mod (2 * 2 ^ n) = uint x + 2 ^ n - 2 * 2 ^ n"
      by (rule mod_minus_once) (use False lt in simp_all)
    then have "signed_take_bit n (uint x) = uint x - 2 ^ Suc n"
      by (simp add: signed_take_bit_eq_take_bit_shift take_bit_eq_mod)
    with False n show ?thesis by (simp add: sval_def)
  qed
qed

lemma sign_extend_to_i64_eq:
  assumes "0 < sz"
  shows "sign_extend_to_i64 x sz = sval sz x"
proof (cases "sz \<ge> 8")
  case True
  with assms show ?thesis
    by (simp add: sign_extend_to_i64_def sval_def as_i64_eq nbits_def min_def)
next
  case False
  with assms have "nbits sz = sz * 8" "0 < sz * 8" "sz * 8 < 64"
    by (simp_all add: nbits_def)
  then show ?thesis
    by (intro bit_eqI)
      (auto simp: sign_extend_to_i64_def sval_def as_i64_def shl_u64_def Let_def bit_simps min_def)
qed

lemma size_cases: "0 < sz \<Longrightarrow> sz \<le> 8 \<Longrightarrow> sz \<in> {1, 2, 3, 4, 5, 6, 7, 8 :: nat}"
  by auto

lemma signbit_negative_bit:
  assumes "0 < sz" "sz \<le> 8"
  shows "signbit_negative x sz \<longleftrightarrow> bit x (nbits sz - 1)"
proof -
  have "shl_u64 0x80 (8 * (sz - 1)) = push_bit (nbits sz - 1) 1"
    using size_cases [OF assms] by (auto simp: shl_u64_def nbits_def)
  then show ?thesis
    using assms by (simp add: signbit_negative_def Let_def and_exp_eq_0_iff_not_bit push_bit_eq_mult)
qed

lemma bit_top_iff:
  assumes "0 < sz" "x \<le> calc_mask sz"
  shows "bit x (nbits sz - 1) \<longleftrightarrow> 2 ^ (nbits sz - 1) \<le> uint x"
proof -
  obtain n where n: "nbits sz = Suc n" using assms by (cases "nbits sz") (auto simp: nbits_def)
  have n64: "n < 64" using nbits_le [of sz] n by simp
  have lt: "uint x < 2 * 2 ^ n" using assms(2) n by (simp add: le_calc_mask_iff)
  have "bit x n \<longleftrightarrow> odd (uint x div 2 ^ n)"
    using n64 by (simp add: bit_uint_iff bit_iff_odd flip: bit_iff_odd)
  also have "\<dots> \<longleftrightarrow> 2 ^ n \<le> uint x"
  proof (cases "2 ^ n \<le> uint x")
    case True
    then have "uint x div 2 ^ n = 1" using lt by (simp add: div_pos_geq div_pos_pos_trivial)
    then show ?thesis using True by simp
  qed (simp add: div_pos_pos_trivial)
  finally show ?thesis using n by simp
qed

lemma signbit_negative_iff:
  assumes "0 < sz" "sz \<le> 8" "x \<le> calc_mask sz"
  shows "signbit_negative x sz \<longleftrightarrow> sval sz x < 0"
  using assms bit_top_iff [OF assms(1,3)] sval_arith [OF assms(1,3)]
  by (simp add: signbit_negative_bit le_calc_mask_iff)

lemma sign_extend_size_eq:
  assumes "0 < si" "si \<le> so" "so \<le> 8" "x \<le> calc_mask si"
  shows "sign_extend_size x si so = as_u64 (sval si x) AND calc_mask so"
proof -
  have x: "x AND mask (8 * si) = x"
    using and_calc_mask_self [OF assms(4)] assms by (simp add: calc_mask_eq nbits_def)
  have "bit (sign_extend_size x si so) k = bit (as_u64 (sval si x) AND calc_mask so) k" if "k < 64" for k
  proof -
    have above: "\<not> bit x k" if "8 * si \<le> k"
      using arg_cong [OF x, of "\<lambda>w. bit w k"] that by (auto simp: bit_simps)
    have sb: "in_sb = push_bit (8 * si - 1) 1 \<Longrightarrow> (x AND in_sb \<noteq> 0) = bit x (8 * si - 1)" for in_sb
      by (simp add: and_exp_eq_0_iff_not_bit push_bit_eq_mult)
    have eq: "sign_extend_size x si so =
       (if bit x (8 * si - 1) \<and> si < so
        then (x OR (NOT (mask (8 * si)) AND mask (8 * so))) AND mask (8 * so)
        else x AND mask (8 * so))"
      using assms by (auto simp: sign_extend_size_def Let_def calc_mask_eq nbits_def shl_u64_def
          usize_sub_def min_def sb)
    consider "k < 8 * si - 1" | "k = 8 * si - 1" | "8 * si \<le> k" using assms by linarith
    then show ?thesis
    proof cases
      case 1
      with assms that show ?thesis
        unfolding eq by (auto simp: calc_mask_eq nbits_def as_u64_def sval_def bit_simps)
    next
      case 2
      with assms that show ?thesis
        unfolding eq by (auto simp: calc_mask_eq nbits_def as_u64_def sval_def bit_simps)
    next
      case 3
      with assms that above show ?thesis
        unfolding eq by (auto simp: calc_mask_eq nbits_def as_u64_def sval_def bit_simps min_def)
    qed
  qed
  then show ?thesis by (intro bit_word_eqI) simp
qed

section \<open>Bit positions and covering masks\<close>

lemma mostsigbit_set_bounds:
  assumes "val \<noteq> 0"
  shows "0 \<le> mostsigbit_set val" "mostsigbit_set val \<le> 63"
    "2 ^ nat (mostsigbit_set val) \<le> uint val" "uint val < 2 ^ nat (mostsigbit_set val + 1)"
proof -
  from assms have "0 < unat val" by (simp add: unat_gt_0)
  from bit_len_bounds [OF this] have b: "2 ^ (bit_len (unat val) - 1) \<le> unat val"
    "unat val < 2 ^ bit_len (unat val)" "0 < bit_len (unat val)" by auto
  have eq: "mostsigbit_set val = int (bit_len (unat val)) - 1"
    using assms bit_len_u64 [of val] by (simp add: mostsigbit_set_def leading_zeros_def)
  show "0 \<le> mostsigbit_set val" "mostsigbit_set val \<le> 63"
    using eq b(3) bit_len_u64 [of val] by auto
  have "int (2 ^ (bit_len (unat val) - 1)) \<le> int (unat val)" using b(1) by linarith
  moreover have "nat (mostsigbit_set val) = bit_len (unat val) - 1" using eq by simp
  ultimately show "2 ^ nat (mostsigbit_set val) \<le> uint val" by simp
  have "int (unat val) < int (2 ^ bit_len (unat val))" using b(2) by linarith
  moreover have "nat (mostsigbit_set val + 1) = bit_len (unat val)" using eq by simp
  ultimately show "uint val < 2 ^ nat (mostsigbit_set val + 1)" by simp
qed

lemma leastsigbit_set_spec:
  assumes "val \<noteq> 0"
  shows "0 \<le> leastsigbit_set val" "2 ^ nat (leastsigbit_set val) dvd uint val"
    "\<not> 2 ^ Suc (nat (leastsigbit_set val)) dvd uint val"
proof -
  from assms have "0 < unat val" by (simp add: unat_gt_0)
  note l = low_zeros_spec [OF this]
  have eq: "nat (leastsigbit_set val) = low_zeros (unat val)"
    using assms by (simp add: leastsigbit_set_def trailing_zeros_def)
  show "0 \<le> leastsigbit_set val" using assms by (simp add: leastsigbit_set_def)
  have "int (2 ^ low_zeros (unat val)) dvd int (unat val)"
    "\<not> int (2 ^ Suc (low_zeros (unat val))) dvd int (unat val)"
    using l by (simp_all only: int_dvd_int_iff simp_thms)
  then show "2 ^ nat (leastsigbit_set val) dvd uint val"
    "\<not> 2 ^ Suc (nat (leastsigbit_set val)) dvd uint val"
    unfolding eq by simp_all
qed

lemma coveringmask_mask:
  "coveringmask val = mask (if val = 0 then 0 else nat (mostsigbit_set val + 1))"
proof (cases "val = 0")
  case False
  note b = mostsigbit_set_bounds [OF False]
  show ?thesis
  proof (cases "mostsigbit_set val \<ge> 63")
    case True
    with b have "nat (mostsigbit_set val + 1) = 64" by simp
    with True False show ?thesis by (simp add: coveringmask_def Let_def U64_MAX_mask)
  next
    case F: False
    with False b show ?thesis
      by (simp add: coveringmask_def Let_def shl_u64_def mask_eq_exp_minus_1 push_bit_eq_mult)
  qed
qed (simp add: coveringmask_def)

text \<open>
  \<open>coveringmask val\<close> is a low mask \<open>2 ^ n - 1\<close> that covers \<open>val\<close>, and no
  smaller low mask does.
\<close>

lemma coveringmask_least:
  "val \<le> coveringmask val \<and> (\<exists>n \<le> 64. coveringmask val = mask n)
     \<and> (\<forall>n \<le> 64. val \<le> mask n \<longrightarrow> coveringmask val \<le> mask n)"
proof (cases "val = 0")
  case True
  then show ?thesis by (auto simp: coveringmask_def intro: exI [of _ 0])
next
  case False
  note b = mostsigbit_set_bounds [OF False]
  let ?k = "nat (mostsigbit_set val + 1)"
  have cm: "coveringmask val = mask ?k" using False by (simp add: coveringmask_mask)
  have k: "?k \<le> 64" using b by simp
  have "val \<le> mask ?k" using b(4) k by (simp add: le_mask_u64_iff)
  moreover have "mask ?k \<le> (mask n :: u64)" if "n \<le> 64" "val \<le> mask n" for n
  proof -
    from that have "uint val < 2 ^ n" by (simp add: le_mask_u64_iff)
    with b(3) have "(2::int) ^ nat (mostsigbit_set val) < 2 ^ n" by linarith
    then have "nat (mostsigbit_set val) < n" using power_strict_increasing_iff [of "2::int"] by simp
    then have "?k \<le> n" using b(1) by linarith
    then have "(2::int) ^ ?k \<le> 2 ^ n" by (simp add: power_increasing)
    then show ?thesis
      using uint_mask_u64 [OF k] uint_mask_u64 [OF that(1)] unfolding word_le_def by linarith
  qed
  ultimately show ?thesis using cm k by auto
qed

theorem coveringmask_least_witness:
  "0x1234 \<le> (mask 20 :: u64) \<and> coveringmask 0x1234 \<le> mask 20 \<and> coveringmask 0x1234 = 0x1fff"
proof -
  have h: "0x1234 \<le> (mask 20 :: u64)" by (simp add: mask_eq_exp_minus_1)
  have c: "coveringmask 0x1234 = 0x1fff"
    by (simp add: coveringmask_def mostsigbit_set_def leading_zeros_def bit_len.simps shl_u64_def)
  have "coveringmask 0x1234 \<le> mask 20"
    using coveringmask_least [of "0x1234"] h by (elim conjE allE [of _ 20]) simp
  with h c show ?thesis by blast
qed

text \<open>
  \<open>minimalmask val\<close> is the least of the four whole-byte masks of 1, 2, 4 and
  8 bytes that is at least \<open>val\<close>.
\<close>

lemma minimalmask_least:
  "val \<le> minimalmask val \<and> minimalmask val \<in> {calc_mask 1, calc_mask 2, calc_mask 4, calc_mask 8}
     \<and> (\<forall>m \<in> {calc_mask 1, calc_mask 2, calc_mask 4, calc_mask 8}. val \<le> m \<longrightarrow> minimalmask val \<le> m)"
proof -
  have m: "calc_mask 1 = 0xff" "calc_mask 2 = 0xffff" "calc_mask 4 = 0xffffffff"
    "calc_mask 8 = U64_MAX"
    by (simp_all add: calc_mask_def shl_u64_def)
  show ?thesis
    unfolding m minimalmask_def
    using uint_lt_u64 [of val] by (auto simp: word_le_def word_less_def U64_MAX_def)
qed

theorem minimalmask_least_witness:
  "0x1234 \<le> calc_mask 4 \<and> minimalmask 0x1234 \<le> calc_mask 4 \<and> minimalmask 0x1234 = calc_mask 2"
proof -
  have h: "0x1234 \<le> calc_mask 4" and c: "minimalmask 0x1234 = calc_mask 2" by code_simp+
  show ?thesis using minimalmask_least [of "0x1234"] h c by auto
qed

end
