(* ===== verification/Op_Codes.thy ===== *)
theory Op_Codes
  imports Rust_Prelude
begin

text \<open>
  The P-code operation codes (src/src/opcodes.rs): the enumeration with its discriminants,
  the partial inverse \<open>from_i32\<close>, the printed names, the predicates that classify
  operations and \<open>get_booleanflip\<close>, the table of complementary comparisons.
\<close>

section \<open>The enumeration\<close>

datatype (plugins only: code) opcode =
    CPUI_COPY | CPUI_LOAD | CPUI_STORE | CPUI_BRANCH | CPUI_CBRANCH | CPUI_BRANCHIND
  | CPUI_CALL | CPUI_CALLIND | CPUI_CALLOTHER | CPUI_RETURN | CPUI_INT_EQUAL
  | CPUI_INT_NOTEQUAL | CPUI_INT_SLESS | CPUI_INT_SLESSEQUAL | CPUI_INT_LESS
  | CPUI_INT_LESSEQUAL | CPUI_INT_ZEXT | CPUI_INT_SEXT | CPUI_INT_ADD | CPUI_INT_SUB
  | CPUI_INT_CARRY | CPUI_INT_SCARRY | CPUI_INT_SBORROW | CPUI_INT_2COMP | CPUI_INT_NEGATE
  | CPUI_INT_XOR | CPUI_INT_AND | CPUI_INT_OR | CPUI_INT_LEFT | CPUI_INT_RIGHT
  | CPUI_INT_SRIGHT | CPUI_INT_MULT | CPUI_INT_DIV | CPUI_INT_SDIV | CPUI_INT_REM
  | CPUI_INT_SREM | CPUI_BOOL_NEGATE | CPUI_BOOL_XOR | CPUI_BOOL_AND | CPUI_BOOL_OR
  | CPUI_FLOAT_EQUAL | CPUI_FLOAT_NOTEQUAL | CPUI_FLOAT_LESS | CPUI_FLOAT_LESSEQUAL
  | CPUI_FLOAT_NAN | CPUI_FLOAT_ADD | CPUI_FLOAT_DIV | CPUI_FLOAT_MULT | CPUI_FLOAT_SUB
  | CPUI_FLOAT_NEG | CPUI_FLOAT_ABS | CPUI_FLOAT_SQRT | CPUI_FLOAT_INT2FLOAT
  | CPUI_FLOAT_FLOAT2FLOAT | CPUI_FLOAT_TRUNC | CPUI_FLOAT_CEIL | CPUI_FLOAT_FLOOR
  | CPUI_FLOAT_ROUND | CPUI_MULTIEQUAL | CPUI_INDIRECT | CPUI_PIECE | CPUI_SUBPIECE | CPUI_CAST
  | CPUI_PTRADD | CPUI_PTRSUB | CPUI_SEGMENTOP | CPUI_CPOOLREF | CPUI_NEW | CPUI_INSERT
  | CPUI_EXTRACT | CPUI_POPCOUNT | CPUI_LZCOUNT | CPUI_MAX

definition opcode_i32 :: "opcode \<Rightarrow> i32" where
  "opcode_i32 opc = (case opc of
    CPUI_COPY \<Rightarrow> 1
  | CPUI_LOAD \<Rightarrow> 2
  | CPUI_STORE \<Rightarrow> 3
  | CPUI_BRANCH \<Rightarrow> 4
  | CPUI_CBRANCH \<Rightarrow> 5
  | CPUI_BRANCHIND \<Rightarrow> 6
  | CPUI_CALL \<Rightarrow> 7
  | CPUI_CALLIND \<Rightarrow> 8
  | CPUI_CALLOTHER \<Rightarrow> 9
  | CPUI_RETURN \<Rightarrow> 10
  | CPUI_INT_EQUAL \<Rightarrow> 11
  | CPUI_INT_NOTEQUAL \<Rightarrow> 12
  | CPUI_INT_SLESS \<Rightarrow> 13
  | CPUI_INT_SLESSEQUAL \<Rightarrow> 14
  | CPUI_INT_LESS \<Rightarrow> 15
  | CPUI_INT_LESSEQUAL \<Rightarrow> 16
  | CPUI_INT_ZEXT \<Rightarrow> 17
  | CPUI_INT_SEXT \<Rightarrow> 18
  | CPUI_INT_ADD \<Rightarrow> 19
  | CPUI_INT_SUB \<Rightarrow> 20
  | CPUI_INT_CARRY \<Rightarrow> 21
  | CPUI_INT_SCARRY \<Rightarrow> 22
  | CPUI_INT_SBORROW \<Rightarrow> 23
  | CPUI_INT_2COMP \<Rightarrow> 24
  | CPUI_INT_NEGATE \<Rightarrow> 25
  | CPUI_INT_XOR \<Rightarrow> 26
  | CPUI_INT_AND \<Rightarrow> 27
  | CPUI_INT_OR \<Rightarrow> 28
  | CPUI_INT_LEFT \<Rightarrow> 29
  | CPUI_INT_RIGHT \<Rightarrow> 30
  | CPUI_INT_SRIGHT \<Rightarrow> 31
  | CPUI_INT_MULT \<Rightarrow> 32
  | CPUI_INT_DIV \<Rightarrow> 33
  | CPUI_INT_SDIV \<Rightarrow> 34
  | CPUI_INT_REM \<Rightarrow> 35
  | CPUI_INT_SREM \<Rightarrow> 36
  | CPUI_BOOL_NEGATE \<Rightarrow> 37
  | CPUI_BOOL_XOR \<Rightarrow> 38
  | CPUI_BOOL_AND \<Rightarrow> 39
  | CPUI_BOOL_OR \<Rightarrow> 40
  | CPUI_FLOAT_EQUAL \<Rightarrow> 41
  | CPUI_FLOAT_NOTEQUAL \<Rightarrow> 42
  | CPUI_FLOAT_LESS \<Rightarrow> 43
  | CPUI_FLOAT_LESSEQUAL \<Rightarrow> 44
  | CPUI_FLOAT_NAN \<Rightarrow> 46
  | CPUI_FLOAT_ADD \<Rightarrow> 47
  | CPUI_FLOAT_DIV \<Rightarrow> 48
  | CPUI_FLOAT_MULT \<Rightarrow> 49
  | CPUI_FLOAT_SUB \<Rightarrow> 50
  | CPUI_FLOAT_NEG \<Rightarrow> 51
  | CPUI_FLOAT_ABS \<Rightarrow> 52
  | CPUI_FLOAT_SQRT \<Rightarrow> 53
  | CPUI_FLOAT_INT2FLOAT \<Rightarrow> 54
  | CPUI_FLOAT_FLOAT2FLOAT \<Rightarrow> 55
  | CPUI_FLOAT_TRUNC \<Rightarrow> 56
  | CPUI_FLOAT_CEIL \<Rightarrow> 57
  | CPUI_FLOAT_FLOOR \<Rightarrow> 58
  | CPUI_FLOAT_ROUND \<Rightarrow> 59
  | CPUI_MULTIEQUAL \<Rightarrow> 60
  | CPUI_INDIRECT \<Rightarrow> 61
  | CPUI_PIECE \<Rightarrow> 62
  | CPUI_SUBPIECE \<Rightarrow> 63
  | CPUI_CAST \<Rightarrow> 64
  | CPUI_PTRADD \<Rightarrow> 65
  | CPUI_PTRSUB \<Rightarrow> 66
  | CPUI_SEGMENTOP \<Rightarrow> 67
  | CPUI_CPOOLREF \<Rightarrow> 68
  | CPUI_NEW \<Rightarrow> 69
  | CPUI_INSERT \<Rightarrow> 70
  | CPUI_EXTRACT \<Rightarrow> 71
  | CPUI_POPCOUNT \<Rightarrow> 72
  | CPUI_LZCOUNT \<Rightarrow> 73
  | CPUI_MAX \<Rightarrow> 74)"

definition from_i32 :: "i32 \<Rightarrow> opcode option" where
  "from_i32 raw =
    (if raw = 1 then Some CPUI_COPY
     else if raw = 2 then Some CPUI_LOAD
     else if raw = 3 then Some CPUI_STORE
     else if raw = 4 then Some CPUI_BRANCH
     else if raw = 5 then Some CPUI_CBRANCH
     else if raw = 6 then Some CPUI_BRANCHIND
     else if raw = 7 then Some CPUI_CALL
     else if raw = 8 then Some CPUI_CALLIND
     else if raw = 9 then Some CPUI_CALLOTHER
     else if raw = 10 then Some CPUI_RETURN
     else if raw = 11 then Some CPUI_INT_EQUAL
     else if raw = 12 then Some CPUI_INT_NOTEQUAL
     else if raw = 13 then Some CPUI_INT_SLESS
     else if raw = 14 then Some CPUI_INT_SLESSEQUAL
     else if raw = 15 then Some CPUI_INT_LESS
     else if raw = 16 then Some CPUI_INT_LESSEQUAL
     else if raw = 17 then Some CPUI_INT_ZEXT
     else if raw = 18 then Some CPUI_INT_SEXT
     else if raw = 19 then Some CPUI_INT_ADD
     else if raw = 20 then Some CPUI_INT_SUB
     else if raw = 21 then Some CPUI_INT_CARRY
     else if raw = 22 then Some CPUI_INT_SCARRY
     else if raw = 23 then Some CPUI_INT_SBORROW
     else if raw = 24 then Some CPUI_INT_2COMP
     else if raw = 25 then Some CPUI_INT_NEGATE
     else if raw = 26 then Some CPUI_INT_XOR
     else if raw = 27 then Some CPUI_INT_AND
     else if raw = 28 then Some CPUI_INT_OR
     else if raw = 29 then Some CPUI_INT_LEFT
     else if raw = 30 then Some CPUI_INT_RIGHT
     else if raw = 31 then Some CPUI_INT_SRIGHT
     else if raw = 32 then Some CPUI_INT_MULT
     else if raw = 33 then Some CPUI_INT_DIV
     else if raw = 34 then Some CPUI_INT_SDIV
     else if raw = 35 then Some CPUI_INT_REM
     else if raw = 36 then Some CPUI_INT_SREM
     else if raw = 37 then Some CPUI_BOOL_NEGATE
     else if raw = 38 then Some CPUI_BOOL_XOR
     else if raw = 39 then Some CPUI_BOOL_AND
     else if raw = 40 then Some CPUI_BOOL_OR
     else if raw = 41 then Some CPUI_FLOAT_EQUAL
     else if raw = 42 then Some CPUI_FLOAT_NOTEQUAL
     else if raw = 43 then Some CPUI_FLOAT_LESS
     else if raw = 44 then Some CPUI_FLOAT_LESSEQUAL
     else if raw = 46 then Some CPUI_FLOAT_NAN
     else if raw = 47 then Some CPUI_FLOAT_ADD
     else if raw = 48 then Some CPUI_FLOAT_DIV
     else if raw = 49 then Some CPUI_FLOAT_MULT
     else if raw = 50 then Some CPUI_FLOAT_SUB
     else if raw = 51 then Some CPUI_FLOAT_NEG
     else if raw = 52 then Some CPUI_FLOAT_ABS
     else if raw = 53 then Some CPUI_FLOAT_SQRT
     else if raw = 54 then Some CPUI_FLOAT_INT2FLOAT
     else if raw = 55 then Some CPUI_FLOAT_FLOAT2FLOAT
     else if raw = 56 then Some CPUI_FLOAT_TRUNC
     else if raw = 57 then Some CPUI_FLOAT_CEIL
     else if raw = 58 then Some CPUI_FLOAT_FLOOR
     else if raw = 59 then Some CPUI_FLOAT_ROUND
     else if raw = 60 then Some CPUI_MULTIEQUAL
     else if raw = 61 then Some CPUI_INDIRECT
     else if raw = 62 then Some CPUI_PIECE
     else if raw = 63 then Some CPUI_SUBPIECE
     else if raw = 64 then Some CPUI_CAST
     else if raw = 65 then Some CPUI_PTRADD
     else if raw = 66 then Some CPUI_PTRSUB
     else if raw = 67 then Some CPUI_SEGMENTOP
     else if raw = 68 then Some CPUI_CPOOLREF
     else if raw = 69 then Some CPUI_NEW
     else if raw = 70 then Some CPUI_INSERT
     else if raw = 71 then Some CPUI_EXTRACT
     else if raw = 72 then Some CPUI_POPCOUNT
     else if raw = 73 then Some CPUI_LZCOUNT
     else None)"

definition opcode_name :: "opcode \<Rightarrow> string" where
  "opcode_name opc = (case opc of
    CPUI_COPY \<Rightarrow> ''COPY''
  | CPUI_LOAD \<Rightarrow> ''LOAD''
  | CPUI_STORE \<Rightarrow> ''STORE''
  | CPUI_INT_ADD \<Rightarrow> ''INT_ADD''
  | CPUI_INT_SUB \<Rightarrow> ''INT_SUB''
  | CPUI_INT_MULT \<Rightarrow> ''INT_MULT''
  | CPUI_INT_DIV \<Rightarrow> ''INT_DIV''
  | CPUI_INT_SDIV \<Rightarrow> ''INT_SDIV''
  | CPUI_INT_REM \<Rightarrow> ''INT_REM''
  | CPUI_INT_SREM \<Rightarrow> ''INT_SREM''
  | CPUI_INT_2COMP \<Rightarrow> ''INT_2COMP''
  | CPUI_INT_CARRY \<Rightarrow> ''INT_CARRY''
  | CPUI_INT_SCARRY \<Rightarrow> ''INT_SCARRY''
  | CPUI_INT_SBORROW \<Rightarrow> ''INT_SBORROW''
  | CPUI_INT_AND \<Rightarrow> ''INT_AND''
  | CPUI_INT_OR \<Rightarrow> ''INT_OR''
  | CPUI_INT_XOR \<Rightarrow> ''INT_XOR''
  | CPUI_INT_NEGATE \<Rightarrow> ''INT_NEGATE''
  | CPUI_INT_LEFT \<Rightarrow> ''INT_LEFT''
  | CPUI_INT_RIGHT \<Rightarrow> ''INT_RIGHT''
  | CPUI_INT_SRIGHT \<Rightarrow> ''INT_SRIGHT''
  | CPUI_INT_EQUAL \<Rightarrow> ''INT_EQUAL''
  | CPUI_INT_NOTEQUAL \<Rightarrow> ''INT_NOTEQUAL''
  | CPUI_INT_LESS \<Rightarrow> ''INT_LESS''
  | CPUI_INT_SLESS \<Rightarrow> ''INT_SLESS''
  | CPUI_INT_LESSEQUAL \<Rightarrow> ''INT_LESSEQUAL''
  | CPUI_INT_SLESSEQUAL \<Rightarrow> ''INT_SLESSEQUAL''
  | CPUI_INT_ZEXT \<Rightarrow> ''INT_ZEXT''
  | CPUI_INT_SEXT \<Rightarrow> ''INT_SEXT''
  | CPUI_FLOAT_ADD \<Rightarrow> ''FLOAT_ADD''
  | CPUI_FLOAT_SUB \<Rightarrow> ''FLOAT_SUB''
  | CPUI_FLOAT_MULT \<Rightarrow> ''FLOAT_MULT''
  | CPUI_FLOAT_DIV \<Rightarrow> ''FLOAT_DIV''
  | CPUI_FLOAT_NEG \<Rightarrow> ''FLOAT_NEG''
  | CPUI_FLOAT_ABS \<Rightarrow> ''FLOAT_ABS''
  | CPUI_FLOAT_SQRT \<Rightarrow> ''FLOAT_SQRT''
  | CPUI_FLOAT_EQUAL \<Rightarrow> ''FLOAT_EQUAL''
  | CPUI_FLOAT_NOTEQUAL \<Rightarrow> ''FLOAT_NOTEQUAL''
  | CPUI_FLOAT_LESS \<Rightarrow> ''FLOAT_LESS''
  | CPUI_FLOAT_LESSEQUAL \<Rightarrow> ''FLOAT_LESSEQUAL''
  | CPUI_FLOAT_NAN \<Rightarrow> ''FLOAT_NAN''
  | CPUI_FLOAT_FLOAT2FLOAT \<Rightarrow> ''FLOAT2FLOAT''
  | CPUI_FLOAT_INT2FLOAT \<Rightarrow> ''INT2FLOAT''
  | CPUI_FLOAT_TRUNC \<Rightarrow> ''TRUNC''
  | CPUI_FLOAT_CEIL \<Rightarrow> ''CEIL''
  | CPUI_FLOAT_FLOOR \<Rightarrow> ''FLOOR''
  | CPUI_FLOAT_ROUND \<Rightarrow> ''ROUND''
  | CPUI_BRANCH \<Rightarrow> ''BRANCH''
  | CPUI_CBRANCH \<Rightarrow> ''CBRANCH''
  | CPUI_BRANCHIND \<Rightarrow> ''BRANCHIND''
  | CPUI_CALL \<Rightarrow> ''CALL''
  | CPUI_CALLIND \<Rightarrow> ''CALLIND''
  | CPUI_RETURN \<Rightarrow> ''RETURN''
  | CPUI_PIECE \<Rightarrow> ''PIECE''
  | CPUI_SUBPIECE \<Rightarrow> ''SUBPIECE''
  | CPUI_BOOL_AND \<Rightarrow> ''BOOL_AND''
  | CPUI_BOOL_OR \<Rightarrow> ''BOOL_OR''
  | CPUI_BOOL_XOR \<Rightarrow> ''BOOL_XOR''
  | CPUI_BOOL_NEGATE \<Rightarrow> ''BOOL_NEGATE''
  | CPUI_POPCOUNT \<Rightarrow> ''POPCOUNT''
  | CPUI_LZCOUNT \<Rightarrow> ''LZCOUNT''
  | CPUI_CALLOTHER \<Rightarrow> ''CALLOTHER''
  | CPUI_MULTIEQUAL \<Rightarrow> ''BUILD''
  | CPUI_INDIRECT \<Rightarrow> ''DELAY_SLOT''
  | CPUI_CPOOLREF \<Rightarrow> ''CPOOLREF''
  | CPUI_NEW \<Rightarrow> ''NEW''
  | CPUI_SEGMENTOP \<Rightarrow> ''SEGMENTOP''
  | CPUI_PTRADD \<Rightarrow> ''LABEL''
  | CPUI_PTRSUB \<Rightarrow> ''CROSSBUILD''
  | CPUI_EXTRACT \<Rightarrow> ''EXTRACT''
  | CPUI_INSERT \<Rightarrow> ''INSERT''
  | CPUI_CAST \<Rightarrow> ''CAST''
  | CPUI_MAX \<Rightarrow> ''MAX'')"

definition is_block_terminator :: "opcode \<Rightarrow> bool" where
  "is_block_terminator opc \<longleftrightarrow> opc \<in>
    {CPUI_BRANCH, CPUI_CBRANCH, CPUI_BRANCHIND, CPUI_RETURN}"

definition is_commutative :: "opcode \<Rightarrow> bool" where
  "is_commutative opc \<longleftrightarrow> opc \<in>
    {CPUI_INT_ADD, CPUI_INT_MULT, CPUI_INT_AND, CPUI_INT_OR, CPUI_INT_XOR, CPUI_INT_EQUAL,
     CPUI_INT_NOTEQUAL, CPUI_INT_CARRY, CPUI_INT_SCARRY, CPUI_BOOL_AND, CPUI_BOOL_OR,
     CPUI_BOOL_XOR, CPUI_FLOAT_ADD, CPUI_FLOAT_MULT, CPUI_FLOAT_EQUAL, CPUI_FLOAT_NOTEQUAL}"

definition is_commutative_or_pure :: "opcode \<Rightarrow> bool" where
  "is_commutative_or_pure opc \<longleftrightarrow> opc \<in>
    {CPUI_INT_ADD, CPUI_INT_SUB, CPUI_INT_MULT, CPUI_INT_DIV, CPUI_INT_SDIV, CPUI_INT_REM,
     CPUI_INT_SREM, CPUI_INT_2COMP, CPUI_INT_CARRY, CPUI_INT_SCARRY, CPUI_INT_SBORROW,
     CPUI_INT_AND, CPUI_INT_OR, CPUI_INT_XOR, CPUI_INT_NEGATE, CPUI_INT_LEFT,
     CPUI_INT_RIGHT, CPUI_INT_SRIGHT, CPUI_INT_EQUAL, CPUI_INT_NOTEQUAL, CPUI_INT_LESS,
     CPUI_INT_SLESS, CPUI_INT_LESSEQUAL, CPUI_INT_SLESSEQUAL, CPUI_INT_ZEXT, CPUI_INT_SEXT,
     CPUI_SUBPIECE, CPUI_FLOAT_ADD, CPUI_FLOAT_SUB, CPUI_FLOAT_MULT, CPUI_FLOAT_DIV,
     CPUI_FLOAT_NEG, CPUI_FLOAT_ABS, CPUI_FLOAT_SQRT, CPUI_FLOAT_EQUAL, CPUI_FLOAT_NOTEQUAL,
     CPUI_FLOAT_LESS, CPUI_FLOAT_LESSEQUAL, CPUI_FLOAT_NAN, CPUI_BOOL_AND, CPUI_BOOL_OR,
     CPUI_BOOL_XOR, CPUI_BOOL_NEGATE, CPUI_POPCOUNT, CPUI_LZCOUNT, CPUI_PIECE, CPUI_SUBPIECE}"

text \<open>
  \<open>get_booleanflip\<close> writes \<open>*reorder\<close> only on the arms that flip; the second component is the
  value of \<open>*reorder\<close> after the call.
\<close>

definition get_booleanflip :: "opcode \<Rightarrow> bool \<Rightarrow> opcode \<times> bool" where
  "get_booleanflip opc reorder = (case opc of
    CPUI_INT_EQUAL \<Rightarrow> (CPUI_INT_NOTEQUAL, False)
  | CPUI_INT_NOTEQUAL \<Rightarrow> (CPUI_INT_EQUAL, False)
  | CPUI_INT_SLESS \<Rightarrow> (CPUI_INT_SLESSEQUAL, True)
  | CPUI_INT_SLESSEQUAL \<Rightarrow> (CPUI_INT_SLESS, True)
  | CPUI_INT_LESS \<Rightarrow> (CPUI_INT_LESSEQUAL, True)
  | CPUI_INT_LESSEQUAL \<Rightarrow> (CPUI_INT_LESS, True)
  | CPUI_BOOL_NEGATE \<Rightarrow> (CPUI_COPY, False)
  | CPUI_FLOAT_EQUAL \<Rightarrow> (CPUI_FLOAT_NOTEQUAL, False)
  | CPUI_FLOAT_NOTEQUAL \<Rightarrow> (CPUI_FLOAT_EQUAL, False)
  | CPUI_FLOAT_LESS \<Rightarrow> (CPUI_FLOAT_LESSEQUAL, True)
  | CPUI_FLOAT_LESSEQUAL \<Rightarrow> (CPUI_FLOAT_LESS, True)
  | _ \<Rightarrow> (CPUI_MAX, reorder))"

section \<open>Properties\<close>

lemma from_i32_opcode_i32: "opc \<noteq> CPUI_MAX \<Longrightarrow> from_i32 (opcode_i32 opc) = Some opc"
  by (cases opc) (simp_all add: from_i32_def opcode_i32_def)

lemma from_i32_SomeD: "from_i32 raw = Some opc \<Longrightarrow> opc \<noteq> CPUI_MAX \<and> opcode_i32 opc = raw"
  by (auto simp: from_i32_def opcode_i32_def split: if_split_asm)

text \<open>
  Decoding the discriminant of an operation code gives the code back, for every
  code but the end marker \<open>CPUI_MAX\<close>, and \<open>from_i32\<close> accepts no other number.
\<close>

theorem from_i32_roundtrip:
  "from_i32 raw = Some opc \<longleftrightarrow> opc \<noteq> CPUI_MAX \<and> opcode_i32 opc = raw"
  using from_i32_opcode_i32 [of opc] from_i32_SomeD [of raw opc] by auto

end
