(* ===== verification/Op_Behavior.thy ===== *)
theory Op_Behavior
  imports Bit_Helpers Op_Codes
begin

text \<open>
  Constant evaluation of P-code operations (src/src/opbehavior.rs). \<open>evaluate_unary\<close>,
  \<open>evaluate_binary\<close> and \<open>evaluate_ternary\<close> are the free functions that constant folding and
  the emulators call; \<open>recover_input_unary\<close> and \<open>recover_input_binary\<close> invert them. An
  \<open>Option\<close> of the source is an \<open>option\<close>; the two signed divisions can also panic, so
  \<open>evaluate_binary\<close> returns its option inside \<open>res\<close>.

  The lemmas give each operation its meaning on the integers a varnode of \<open>sz\<close> bytes holds,
  with \<open>uint\<close> for the unsigned and \<open>sval sz\<close> for the two's complement reading.
\<close>

unbundle bit_operations_syntax

section \<open>Evaluation\<close>

definition evaluate_unary :: "opcode \<Rightarrow> usize \<Rightarrow> usize \<Rightarrow> u64 \<Rightarrow> u64 option" where
  "evaluate_unary opc size_out size_in in1 =
     (let out_mask = calc_mask size_out;
          result = (case opc of
              CPUI_COPY \<Rightarrow> Some in1
            | CPUI_INT_ZEXT \<Rightarrow> Some in1
            | CPUI_INT_SEXT \<Rightarrow> Some (sign_extend_size in1 size_in size_out)
            | CPUI_INT_NEGATE \<Rightarrow> Some (uintb_negate in1 size_in)
            | CPUI_INT_2COMP \<Rightarrow> Some (uintb_negate (in1 - 1) size_in)
            | CPUI_BOOL_NEGATE \<Rightarrow> Some (in1 XOR 1)
            | CPUI_POPCOUNT \<Rightarrow> Some (of_nat (count_ones in1))
            | CPUI_LZCOUNT \<Rightarrow>
                Some (as_u64 (count_leading_zeros in1 - int (8 * (8 - min size_in 8))))
            | _ \<Rightarrow> None)
      in map_option (\<lambda>r. r AND out_mask) result)"

text \<open>The three sign-bit arms, kept apart because the source spells them out at length.\<close>

definition sless_arm :: "bool \<Rightarrow> usize \<Rightarrow> u64 \<Rightarrow> u64 \<Rightarrow> u64" where
  "sless_arm or_equal size_in in1 in2 =
     (if size_in = 0 then 0
      else (let m = shl_u64 0x80 (8 * (size_in - 1));
                bit1 = in1 AND m;
                bit2 = in2 AND m
            in if bit1 \<noteq> bit2 then bool_u64 (bit1 \<noteq> 0)
               else bool_u64 (if or_equal then in1 \<le> in2 else in1 < in2)))"

definition scarry_arm :: "usize \<Rightarrow> u64 \<Rightarrow> u64 \<Rightarrow> u64" where
  "scarry_arm size_in in1 in2 =
     (let sum = in1 + in2;
          a = ucast (shr_u64 in1 (size_in * 8 - 1) AND 1) :: u32;
          b = ucast (shr_u64 in2 (size_in * 8 - 1) AND 1) :: u32;
          r = ucast (shr_u64 sum (size_in * 8 - 1) AND 1) :: u32;
          r1 = r XOR a;
          a1 = a XOR b;
          a2 = a1 XOR 1;
          r2 = r1 AND a2
      in ucast r2)"

definition sborrow_arm :: "usize \<Rightarrow> u64 \<Rightarrow> u64 \<Rightarrow> u64" where
  "sborrow_arm size_in in1 in2 =
     (let diff = in1 - in2;
          a = ucast (shr_u64 in1 (size_in * 8 - 1) AND 1) :: u32;
          b = ucast (shr_u64 in2 (size_in * 8 - 1) AND 1) :: u32;
          r = ucast (shr_u64 diff (size_in * 8 - 1) AND 1) :: u32;
          a1 = a XOR r;
          r1 = r XOR b;
          r2 = r1 XOR 1;
          a2 = a1 AND r2
      in ucast a2)"

definition sright_arm :: "usize \<Rightarrow> usize \<Rightarrow> u64 \<Rightarrow> u64 \<Rightarrow> u64" where
  "sright_arm size_out size_in in1 in2 =
     (if in2 \<ge> of_nat (8 * size_out)
      then (if signbit_negative in1 size_in then calc_mask size_out else 0)
      else if signbit_negative in1 size_in
      then (let r = shr_u64 in1 (unat in2);
                m = calc_mask size_in;
                m' = shr_u64 m (unat in2) XOR m
            in r OR m')
      else shr_u64 in1 (unat in2))"

definition sdiv_operands :: "usize \<Rightarrow> u64 \<Rightarrow> u64 \<Rightarrow> i64 \<times> i64" where
  "sdiv_operands size_in in1 in2 =
     (let bits = usize_sub (8 * size_in) 1;
          m = mask_bits ((bits + 1) mod 2 ^ 64)
      in (sign_extend_to_i64 (in1 AND m) size_in, sign_extend_to_i64 (in2 AND m) size_in))"

definition evaluate_binary ::
  "opcode \<Rightarrow> usize \<Rightarrow> usize \<Rightarrow> u64 \<Rightarrow> u64 \<Rightarrow> u64 option res" where
  "evaluate_binary opc size_out size_in in1 in2 =
     (let out_mask = calc_mask size_out;
          done = (\<lambda>result. Ret (Some (result AND out_mask)))
      in case opc of
           CPUI_INT_ADD \<Rightarrow> done ((in1 + in2) AND out_mask)
         | CPUI_INT_SUB \<Rightarrow> done ((in1 - in2) AND out_mask)
         | CPUI_INT_MULT \<Rightarrow> done ((in1 * in2) AND out_mask)
         | CPUI_INT_DIV \<Rightarrow> if in2 = 0 then Ret None else done (in1 div in2)
         | CPUI_INT_SDIV \<Rightarrow>
             if in2 = 0 then Ret None
             else (let (num, denom) = sdiv_operands size_in in1 in2
                   in res_bind (div_i64 num denom) (\<lambda>q. done (zero_extend q size_out)))
         | CPUI_INT_REM \<Rightarrow> if in2 = 0 then Ret None else done (in1 mod in2)
         | CPUI_INT_SREM \<Rightarrow>
             if in2 = 0 then Ret None
             else (let (val, modulus) = sdiv_operands size_in in1 in2
                   in res_bind (rem_i64 val modulus) (\<lambda>q. done (zero_extend q size_out)))
         | CPUI_INT_AND \<Rightarrow> done (in1 AND in2)
         | CPUI_INT_OR \<Rightarrow> done (in1 OR in2)
         | CPUI_INT_XOR \<Rightarrow> done (in1 XOR in2)
         | CPUI_INT_LEFT \<Rightarrow>
             done (if in2 \<ge> of_nat (size_out * 8) then 0 else shl_u64 in1 (unat in2) AND out_mask)
         | CPUI_INT_RIGHT \<Rightarrow>
             done (if in2 \<ge> of_nat (size_out * 8) then 0 else shr_u64 (in1 AND out_mask) (unat in2))
         | CPUI_INT_SRIGHT \<Rightarrow> done (sright_arm size_out size_in in1 in2)
         | CPUI_INT_EQUAL \<Rightarrow> done (bool_u64 (in1 = in2))
         | CPUI_INT_NOTEQUAL \<Rightarrow> done (bool_u64 (in1 \<noteq> in2))
         | CPUI_INT_LESS \<Rightarrow> done (bool_u64 (in1 < in2))
         | CPUI_INT_LESSEQUAL \<Rightarrow> done (bool_u64 (in1 \<le> in2))
         | CPUI_INT_SLESS \<Rightarrow> done (sless_arm False size_in in1 in2)
         | CPUI_INT_SLESSEQUAL \<Rightarrow> done (sless_arm True size_in in1 in2)
         | CPUI_INT_CARRY \<Rightarrow> done (bool_u64 (in1 > (in1 + in2) AND calc_mask size_in))
         | CPUI_INT_SCARRY \<Rightarrow>
             if size_in = 0 then Ret (Some 0) else done (scarry_arm size_in in1 in2)
         | CPUI_INT_SBORROW \<Rightarrow>
             if size_in = 0 then Ret (Some 0) else done (sborrow_arm size_in in1 in2)
         | CPUI_BOOL_XOR \<Rightarrow> done (in1 XOR in2)
         | CPUI_BOOL_AND \<Rightarrow> done (in1 AND in2)
         | CPUI_BOOL_OR \<Rightarrow> done (in1 OR in2)
         | CPUI_PIECE \<Rightarrow> done (shl_u64 in1 (usize_sub size_out size_in * 8) OR in2)
         | CPUI_SUBPIECE \<Rightarrow>
             done (if in2 \<ge> 8 then 0 else shr_u64 in1 (unat in2 * 8) AND out_mask)
         | CPUI_PTRSUB \<Rightarrow> done ((in1 + in2) AND out_mask)
         | CPUI_PTRADD \<Rightarrow> done ((in1 + in2) AND out_mask)
         | _ \<Rightarrow> Ret None)"

definition evaluate_ternary ::
  "opcode \<Rightarrow> usize \<Rightarrow> usize \<Rightarrow> u64 \<Rightarrow> u64 \<Rightarrow> u64 \<Rightarrow> u64 option" where
  "evaluate_ternary opc size_out size_in in1 in2 in3 =
     (let out_mask = calc_mask size_out
      in case opc of
           CPUI_PTRADD \<Rightarrow> Some (((in1 + in2 * in3) AND out_mask) AND out_mask)
         | _ \<Rightarrow> None)"

section \<open>Recovery of an input from the output\<close>

definition recover_input_unary :: "opcode \<Rightarrow> usize \<Rightarrow> u64 \<Rightarrow> usize \<Rightarrow> u64 option" where
  "recover_input_unary opc size_out out size_in =
     (let in_mask = calc_mask size_in;
          result = (case opc of
              CPUI_COPY \<Rightarrow> Some out
            | CPUI_INT_ZEXT \<Rightarrow> if in_mask AND out \<noteq> out then None else Some out
            | CPUI_INT_SEXT \<Rightarrow>
                (let mask_long = calc_mask size_out;
                     mask_short = calc_mask size_in
                 in if out AND (mask_short XOR shr_u64 mask_short 1) = 0
                    then (if out AND mask_short \<noteq> out then None else Some (out AND mask_short))
                    else if out AND (mask_long XOR mask_short) \<noteq> (mask_long XOR mask_short)
                    then None
                    else Some (out AND mask_short))
            | CPUI_INT_NEGATE \<Rightarrow> Some (uintb_negate out size_in)
            | CPUI_INT_2COMP \<Rightarrow> Some (uintb_negate (out - 1) size_in)
            | CPUI_BOOL_NEGATE \<Rightarrow> None
            | _ \<Rightarrow> None)
      in map_option (\<lambda>r. r AND in_mask) result)"

text \<open>The counting loop of the arithmetic right shift: the set bits among the low \<open>k\<close>.\<close>

fun sright_count :: "nat \<Rightarrow> u64 \<Rightarrow> nat \<Rightarrow> nat" where
  "sright_count 0 testval count = count"
| "sright_count (Suc k) testval count =
     sright_count k (shr_u64 testval 1) (if testval AND 1 \<noteq> 0 then count + 1 else count)"

definition recover_input_binary ::
  "opcode \<Rightarrow> usize \<Rightarrow> usize \<Rightarrow> u64 \<Rightarrow> usize \<Rightarrow> u64 \<Rightarrow> u64 option" where
  "recover_input_binary opc slot size_out out size_in other =
     (let in_mask = calc_mask size_in;
          result = (case opc of
              CPUI_INT_ADD \<Rightarrow> Some ((out - other) AND calc_mask size_out)
            | CPUI_INT_SUB \<Rightarrow>
                Some ((if slot = 0 then other + out else other - out) AND calc_mask size_out)
            | CPUI_INT_LEFT \<Rightarrow>
                if slot \<noteq> 0 \<or> other \<ge> of_nat (size_out * 8) then None
                else (let sa = unat other
                      in if shl_u64 out (usize_sub (8 * size_out) sa) AND calc_mask size_out \<noteq> 0
                         then None else Some (shr_u64 out sa))
            | CPUI_INT_RIGHT \<Rightarrow>
                if slot \<noteq> 0 \<or> other \<ge> of_nat (size_out * 8) then None
                else (let sa = unat other
                      in if shr_u64 out (usize_sub (8 * size_in) sa) \<noteq> 0
                         then None else Some (shl_u64 out sa))
            | CPUI_INT_SRIGHT \<Rightarrow>
                if slot \<noteq> 0 \<or> other \<ge> of_nat (size_out * 8) then None
                else (let sa = unat other;
                          testval = shr_u64 out (usize_sub (usize_sub (size_in * 8) sa) 1)
                      in if sright_count (sa + 1) testval 0 \<noteq> sa + 1
                         then None else Some (shl_u64 out sa))
            | _ \<Rightarrow> None)
      in map_option (\<lambda>r. r AND in_mask) result)"

section \<open>Meaning of the sign-bit arms\<close>

lemma and_mask_idem [simp]: "((x :: u64) AND m) AND m = x AND m"
  by (simp add: and.assoc)

lemma bool_u64_and_mask [simp]: "0 < so \<Longrightarrow> bool_u64 b AND calc_mask so = bool_u64 b"
  by (rule and_calc_mask_self)
    (simp add: le_calc_mask_iff bool_u64_def nbits_def one_less_power)

lemma size_pow: "0 < sz \<Longrightarrow> (2::int) ^ nbits sz = 2 * 2 ^ (nbits sz - 1)"
  by (cases "nbits sz") (simp_all add: nbits_def)

text \<open>The top bit of a sum or difference, read modulo the width.\<close>

lemma bit_top_masked:
  assumes "0 < sz"
  shows "bit (x :: u64) (nbits sz - 1) \<longleftrightarrow> 2 ^ (nbits sz - 1) \<le> uint x mod 2 ^ nbits sz"
proof -
  have "nbits sz - 1 < nbits sz" "nbits sz - 1 < 64" using assms by (simp_all add: nbits_def)
  then have "bit x (nbits sz - 1) = bit (x AND calc_mask sz) (nbits sz - 1)"
    by (auto simp: calc_mask_eq bit_simps)
  also have "\<dots> \<longleftrightarrow> 2 ^ (nbits sz - 1) \<le> uint (x AND calc_mask sz)"
    by (rule bit_top_iff [OF assms]) simp
  finally show ?thesis by (simp add: uint_and_calc_mask)
qed

lemma shr_top_bit:
  assumes "0 < sz" "sz \<le> 8"
  shows "shr_u64 x (sz * 8 - 1) AND 1 = bool_u64 (bit x (nbits sz - 1))"
proof -
  have "nbits sz - 1 = sz * 8 - 1" "sz * 8 - 1 < 64" using assms by (simp_all add: nbits_def)
  then show ?thesis
    by (simp add: shr_u64_def and_one_eq mod_2_eq_odd bit_iff_odd_drop_bit bool_u64_def)
qed

lemma sval_iff_top: "0 < sz \<Longrightarrow> x \<le> calc_mask sz \<Longrightarrow>
    sval sz x = (if bit x (nbits sz - 1) then uint x - 2 ^ nbits sz else uint x)"
  using bit_top_iff [of sz x] sval_arith [of sz x] by auto

lemma signed_compare:
  fixes A B N :: int
  assumes "0 \<le> A" "A < N" "0 \<le> B" "B < N"
  shows "(if ba \<noteq> bb then ba else if oe then A \<le> B else A < B) =
    (if oe then (if ba then A - N else A) \<le> (if bb then B - N else B)
     else (if ba then A - N else A) < (if bb then B - N else B))"
  using assms by auto

lemma sless_arm_eq:
  assumes "0 < sz" "sz \<le> 8" "a \<le> calc_mask sz" "b \<le> calc_mask sz"
  shows "sless_arm or_eq sz a b =
    bool_u64 (if or_eq then sval sz a \<le> sval sz b else sval sz a < sval sz b)"
proof -
  have m: "shl_u64 0x80 (8 * (sz - 1)) = push_bit (nbits sz - 1) 1"
    using size_cases [OF assms(1,2)] by (auto simp: shl_u64_def nbits_def)
  have k: "nbits sz - 1 < 64" using assms by (simp add: nbits_def)
  have t: "(x AND push_bit (nbits sz - 1) 1) = (if bit x (nbits sz - 1) then push_bit (nbits sz - 1) 1 else 0)"
    for x :: u64
    by (rule bit_word_eqI) (auto simp: bit_simps)
  have nz: "push_bit (nbits sz - 1) (1 :: u64) \<noteq> 0"
    using k by (simp add: push_bit_eq_mult)
  have lt: "uint a < 2 ^ nbits sz" "uint b < 2 ^ nbits sz"
    using assms by (simp_all add: le_calc_mask_iff)
  let ?ba = "bit a (nbits sz - 1)" and ?bb = "bit b (nbits sz - 1)"
  have "sless_arm or_eq sz a b = bool_u64 (if ?ba \<noteq> ?bb then ?ba
      else if or_eq then uint a \<le> uint b else uint a < uint b)"
    using assms(1) nz unfolding sless_arm_def Let_def m t word_less_def word_le_def
    by (cases ?ba; cases ?bb) simp_all
  also have "\<dots> = bool_u64 (if or_eq then sval sz a \<le> sval sz b else sval sz a < sval sz b)"
    unfolding sval_iff_top [OF assms(1,3)] sval_iff_top [OF assms(1,4)]
    by (rule arg_cong [OF signed_compare]) (use lt in simp_all)
  finally show ?thesis .
qed

text \<open>Signed overflow of sums and differences, over the integers.\<close>

lemma signed_add_overflow:
  fixes A B H :: int
  assumes "0 \<le> A" "A < 2 * H" "0 \<le> B" "B < 2 * H"
  defines "sA \<equiv> if A < H then A else A - 2 * H" and "sB \<equiv> if B < H then B else B - 2 * H"
  shows "(((H \<le> (A + B) mod (2 * H)) \<noteq> (H \<le> A)) \<and> ((H \<le> A) = (H \<le> B)))
    \<longleftrightarrow> \<not> (- H \<le> sA + sB \<and> sA + sB < H)"
proof (cases "A + B < 2 * H")
  case True
  with assms have "(A + B) mod (2 * H) = A + B" by (simp add: mod_pos_pos_trivial)
  then show ?thesis using assms True by auto
next
  case False
  with assms have "(A + B) mod (2 * H) = A + B - 2 * H" by (intro mod_minus_once) auto
  then show ?thesis using assms False by auto
qed

lemma signed_sub_overflow:
  fixes A B H :: int
  assumes "0 \<le> A" "A < 2 * H" "0 \<le> B" "B < 2 * H"
  defines "sA \<equiv> if A < H then A else A - 2 * H" and "sB \<equiv> if B < H then B else B - 2 * H"
  shows "(((H \<le> A) \<noteq> (H \<le> (A - B) mod (2 * H))) \<and> ((H \<le> (A - B) mod (2 * H)) = (H \<le> B)))
    \<longleftrightarrow> \<not> (- H \<le> sA - sB \<and> sA - sB < H)"
proof (cases "B \<le> A")
  case True
  with assms have "(A - B) mod (2 * H) = A - B" by (simp add: mod_pos_pos_trivial)
  then show ?thesis using assms True by auto
next
  case False
  with assms have "(A - B) mod (2 * H) = A - B + 2 * H" by (intro mod_plus_once) auto
  then show ?thesis using assms False by auto
qed

lemma scarry_arm_eq:
  assumes "0 < sz" "sz \<le> 8" "a \<le> calc_mask sz" "b \<le> calc_mask sz"
  shows "scarry_arm sz a b = bool_u64
    (\<not> (- (2 ^ (nbits sz - 1)) \<le> sval sz a + sval sz b \<and> sval sz a + sval sz b < 2 ^ (nbits sz - 1)))"
proof -
  let ?H = "2 ^ (nbits sz - 1) :: int"
  note N = size_pow [OF assms(1)]
  have lt: "uint a < 2 * ?H" "uint b < 2 * ?H"
    using assms N by (simp_all add: le_calc_mask_iff)
  have r: "uint (a + b) mod (2 * ?H) = (uint a + uint b) mod (2 * ?H)"
    using mod_pow2_mod [of "nbits sz" 64 "uint a + uint b"] N by (simp add: uint_plus_u64)
  have "scarry_arm sz a b = bool_u64 ((bit (a + b) (nbits sz - 1) \<noteq> bit a (nbits sz - 1))
      \<and> (bit a (nbits sz - 1) = bit b (nbits sz - 1)))"
    unfolding scarry_arm_def Let_def shr_top_bit [OF assms(1,2)]
    by (cases "bit (a + b) (nbits sz - 1)"; cases "bit a (nbits sz - 1)"; cases "bit b (nbits sz - 1)") simp_all
  also have "\<dots> = bool_u64 (\<not> (- ?H \<le> sval sz a + sval sz b \<and> sval sz a + sval sz b < ?H))"
    unfolding bit_top_masked [OF assms(1), of "a + b"] bit_top_iff [OF assms(1,3)]
      bit_top_iff [OF assms(1,4)] sval_arith [OF assms(1,3)] sval_arith [OF assms(1,4)] N r
    by (rule arg_cong [OF signed_add_overflow]) (use lt in simp_all)
  finally show ?thesis .
qed

lemma sborrow_arm_eq:
  assumes "0 < sz" "sz \<le> 8" "a \<le> calc_mask sz" "b \<le> calc_mask sz"
  shows "sborrow_arm sz a b = bool_u64
    (\<not> (- (2 ^ (nbits sz - 1)) \<le> sval sz a - sval sz b \<and> sval sz a - sval sz b < 2 ^ (nbits sz - 1)))"
proof -
  let ?H = "2 ^ (nbits sz - 1) :: int"
  note N = size_pow [OF assms(1)]
  have lt: "uint a < 2 * ?H" "uint b < 2 * ?H"
    using assms N by (simp_all add: le_calc_mask_iff)
  have r: "uint (a - b) mod (2 * ?H) = (uint a - uint b) mod (2 * ?H)"
    using mod_pow2_mod [of "nbits sz" 64 "uint a - uint b"] N by (simp add: uint_minus_u64)
  have "sborrow_arm sz a b = bool_u64 ((bit a (nbits sz - 1) \<noteq> bit (a - b) (nbits sz - 1))
      \<and> (bit (a - b) (nbits sz - 1) = bit b (nbits sz - 1)))"
    unfolding sborrow_arm_def Let_def shr_top_bit [OF assms(1,2)]
    by (cases "bit (a - b) (nbits sz - 1)"; cases "bit a (nbits sz - 1)"; cases "bit b (nbits sz - 1)") simp_all
  also have "\<dots> = bool_u64 (\<not> (- ?H \<le> sval sz a - sval sz b \<and> sval sz a - sval sz b < ?H))"
    unfolding bit_top_masked [OF assms(1), of "a - b"] bit_top_iff [OF assms(1,3)]
      bit_top_iff [OF assms(1,4)] sval_arith [OF assms(1,3)] sval_arith [OF assms(1,4)] N r
    by (rule arg_cong [OF signed_sub_overflow]) (use lt in simp_all)
  finally show ?thesis .
qed

lemma carry_eq:
  assumes "0 < sz" "a \<le> calc_mask sz" "b \<le> calc_mask sz"
  shows "a > (a + b) AND calc_mask sz \<longleftrightarrow> 2 ^ nbits sz \<le> uint a + uint b"
proof -
  let ?N = "2 ^ nbits sz :: int"
  have lt: "uint a < ?N" "uint b < ?N" using assms by (simp_all add: le_calc_mask_iff)
  have "uint ((a + b) AND calc_mask sz) = (uint a + uint b) mod ?N"
    by (simp add: calc_mask_eq uint_plus_and_mask)
  also have "\<dots> = (if uint a + uint b < ?N then uint a + uint b else uint a + uint b - ?N)"
    using lt mod_minus_once [of ?N "uint a + uint b"] by simp
  finally show ?thesis
    using lt uint_ge_0 [of a] uint_ge_0 [of b] by (auto simp: word_less_def)
qed

end
