(* ===== verification/Op_Semantics.thy ===== *)
theory Op_Semantics
  imports Op_Behavior
begin

text \<open>
  What the constant evaluators of \<open>Op_Behavior\<close> compute: signed and unsigned comparison,
  carry and overflow flags, signed division, the three shifts and the concatenation of
  pieces, each as arithmetic on the integers the operands stand for; the algebra that
  src/src/opcodes.rs claims of the operations (commutativity, the negation of a
  comparison); and the recovery of an input from an output as an inverse of evaluation.
\<close>

unbundle bit_operations_syntax

section \<open>Evaluation of each group of operations\<close>

lemma evaluate_binary_add: "evaluate_binary CPUI_INT_ADD so si a b = Ret (Some ((a + b) AND calc_mask so))"
  and evaluate_binary_sub: "evaluate_binary CPUI_INT_SUB so si a b = Ret (Some ((a - b) AND calc_mask so))"
  and evaluate_binary_mult: "evaluate_binary CPUI_INT_MULT so si a b = Ret (Some ((a * b) AND calc_mask so))"
  by (simp_all add: evaluate_binary_def Let_def)

lemmas evaluate_arith_eqs = evaluate_binary_add evaluate_binary_sub evaluate_binary_mult

lemma evaluate_binary_compare:
  assumes "0 < so" "0 < sz" "sz \<le> 8" "a \<le> calc_mask sz" "b \<le> calc_mask sz"
  shows "evaluate_binary CPUI_INT_EQUAL so sz a b = Ret (Some (bool_u64 (a = b)))"
    and "evaluate_binary CPUI_INT_NOTEQUAL so sz a b = Ret (Some (bool_u64 (a \<noteq> b)))"
    and "evaluate_binary CPUI_INT_LESS so sz a b = Ret (Some (bool_u64 (a < b)))"
    and "evaluate_binary CPUI_INT_LESSEQUAL so sz a b = Ret (Some (bool_u64 (a \<le> b)))"
    and "evaluate_binary CPUI_INT_SLESS so sz a b = Ret (Some (bool_u64 (sval sz a < sval sz b)))"
    and "evaluate_binary CPUI_INT_SLESSEQUAL so sz a b = Ret (Some (bool_u64 (sval sz a \<le> sval sz b)))"
    and "evaluate_binary CPUI_INT_CARRY so sz a b = Ret (Some (bool_u64 (2 ^ nbits sz \<le> uint a + uint b)))"
    and "evaluate_binary CPUI_INT_SCARRY so sz a b = Ret (Some (scarry_arm sz a b))"
    and "evaluate_binary CPUI_INT_SBORROW so sz a b = Ret (Some (sborrow_arm sz a b))"
  using assms by (simp_all add: evaluate_binary_def Let_def sless_arm_eq carry_eq
      scarry_arm_eq sborrow_arm_eq)

text \<open>
  Property C19. On operands of \<open>sz\<close> bytes the four order comparisons compare the unsigned or
  the two's complement readings of the operands.
\<close>

theorem evaluate_signed_compare:
  assumes "0 < so" "0 < sz" "sz \<le> 8" "a \<le> calc_mask sz" "b \<le> calc_mask sz"
  shows "evaluate_binary CPUI_INT_SLESS so sz a b = Ret (Some (bool_u64 (sval sz a < sval sz b)))
    \<and> evaluate_binary CPUI_INT_SLESSEQUAL so sz a b = Ret (Some (bool_u64 (sval sz a \<le> sval sz b)))
    \<and> evaluate_binary CPUI_INT_LESS so sz a b = Ret (Some (bool_u64 (uint a < uint b)))
    \<and> evaluate_binary CPUI_INT_LESSEQUAL so sz a b = Ret (Some (bool_u64 (uint a \<le> uint b)))"
  using evaluate_binary_compare [OF assms] by (simp add: word_less_def word_le_def)

theorem evaluate_signed_compare_witness:
  "(0::nat) < 1 \<and> (0::nat) < 2 \<and> (2::nat) \<le> 8 \<and> 0xff00 \<le> calc_mask 2 \<and> 0x10 \<le> calc_mask 2
    \<and> evaluate_binary CPUI_INT_SLESS 1 2 0xff00 0x10 = Ret (Some (bool_u64 (sval 2 0xff00 < sval 2 0x10)))"
proof -
  have h: "0xff00 \<le> calc_mask 2" "0x10 \<le> calc_mask 2" by code_simp+
  show ?thesis using evaluate_signed_compare [of 1 2 "0xff00" "0x10", OF _ _ _ h] h by simp
qed

text \<open>
  \<open>CPUI_INT_CARRY\<close>, \<open>CPUI_INT_SCARRY\<close> and \<open>CPUI_INT_SBORROW\<close> report exactly
  the unsigned carry of the sum, and the signed overflow of the sum and of the difference.
\<close>

theorem evaluate_overflow_flags:
  assumes "0 < so" "0 < sz" "sz \<le> 8" "a \<le> calc_mask sz" "b \<le> calc_mask sz"
  shows "evaluate_binary CPUI_INT_CARRY so sz a b = Ret (Some (bool_u64 (2 ^ nbits sz \<le> uint a + uint b)))
    \<and> evaluate_binary CPUI_INT_SCARRY so sz a b = Ret (Some (bool_u64
        (\<not> (- (2 ^ (nbits sz - 1)) \<le> sval sz a + sval sz b \<and> sval sz a + sval sz b < 2 ^ (nbits sz - 1)))))
    \<and> evaluate_binary CPUI_INT_SBORROW so sz a b = Ret (Some (bool_u64
        (\<not> (- (2 ^ (nbits sz - 1)) \<le> sval sz a - sval sz b \<and> sval sz a - sval sz b < 2 ^ (nbits sz - 1)))))"
  using evaluate_binary_compare [OF assms] scarry_arm_eq [OF assms(2-5)] sborrow_arm_eq [OF assms(2-5)]
  by simp

theorem evaluate_overflow_flags_witness:
  "0x70 \<le> calc_mask 1 \<and> 0x20 \<le> calc_mask 1
    \<and> evaluate_binary CPUI_INT_SCARRY 1 1 0x70 0x20 = Ret (Some 1)
    \<and> evaluate_binary CPUI_INT_CARRY 1 1 0x70 0x20 = Ret (Some 0)"
proof -
  have h: "0x70 \<le> calc_mask 1" "0x20 \<le> calc_mask 1" by code_simp+
  have s: "sval 1 0x70 = 112" "sval 1 0x20 = 32" "nbits 1 = 8" by code_simp+
  show ?thesis using evaluate_overflow_flags [of 1 1 "0x70" "0x20", OF _ _ _ h] h by (simp add: s del: One_nat_def)
qed

text \<open>
  Property C33. The opcode and operand order \<open>get_booleanflip\<close> gives for a comparison evaluate
  to its negation.
\<close>

theorem get_booleanflip_sound:
  assumes "0 < so" "0 < sz" "sz \<le> 8" "a \<le> calc_mask sz" "b \<le> calc_mask sz"
    and "opc \<in> {CPUI_INT_EQUAL, CPUI_INT_NOTEQUAL, CPUI_INT_LESS, CPUI_INT_LESSEQUAL,
      CPUI_INT_SLESS, CPUI_INT_SLESSEQUAL}"
    and "get_booleanflip opc r0 = (opc', reorder)"
  shows "evaluate_binary opc' so sz (if reorder then b else a) (if reorder then a else b)
    = Ret (Some (bool_u64 (evaluate_binary opc so sz a b = Ret (Some 0))))"
  using assms(6,7) evaluate_binary_compare [OF assms(1-5)]
    evaluate_binary_compare [OF assms(1-3,5,4)]
  by (auto simp: get_booleanflip_def not_less not_le)

theorem get_booleanflip_sound_witness:
  "3 \<le> calc_mask 4 \<and> 9 \<le> calc_mask 4 \<and> get_booleanflip CPUI_INT_SLESS False = (CPUI_INT_SLESSEQUAL, True)
    \<and> evaluate_binary CPUI_INT_SLESSEQUAL 1 4 9 3
        = Ret (Some (bool_u64 (evaluate_binary CPUI_INT_SLESS 1 4 3 9 = Ret (Some 0))))"
proof -
  have h: "3 \<le> calc_mask 4" "9 \<le> calc_mask 4" by code_simp+
  have f: "get_booleanflip CPUI_INT_SLESS False = (CPUI_INT_SLESSEQUAL, True)" by code_simp
  show ?thesis using get_booleanflip_sound [of 1 4 3 9, OF _ _ _ h _ f] h f by simp
qed

lemma evaluate_flag_commutes:
  assumes "0 < so" "0 < sz" "sz \<le> 8" "a \<le> calc_mask sz" "b \<le> calc_mask sz"
  shows "evaluate_binary CPUI_INT_EQUAL so sz a b = evaluate_binary CPUI_INT_EQUAL so sz b a"
    and "evaluate_binary CPUI_INT_NOTEQUAL so sz a b = evaluate_binary CPUI_INT_NOTEQUAL so sz b a"
    and "evaluate_binary CPUI_INT_CARRY so sz a b = evaluate_binary CPUI_INT_CARRY so sz b a"
    and "evaluate_binary CPUI_INT_SCARRY so sz a b = evaluate_binary CPUI_INT_SCARRY so sz b a"
  unfolding evaluate_binary_compare [OF assms] evaluate_binary_compare [OF assms(1-3,5,4)]
    scarry_arm_eq [OF assms(2-5)] scarry_arm_eq [OF assms(2,3,5,4)]
  by (auto simp: add.commute bool_u64_def)

lemma evaluate_plain_commutes:
  assumes "opc \<in> {CPUI_INT_ADD, CPUI_INT_MULT, CPUI_INT_AND, CPUI_INT_OR, CPUI_INT_XOR,
    CPUI_BOOL_AND, CPUI_BOOL_OR, CPUI_BOOL_XOR, CPUI_FLOAT_ADD, CPUI_FLOAT_MULT,
    CPUI_FLOAT_EQUAL, CPUI_FLOAT_NOTEQUAL}"
  shows "evaluate_binary opc so sz a b = evaluate_binary opc so sz b a"
  using assms
  by (elim insertE emptyE)
    (simp_all add: evaluate_binary_def add.commute mult.commute and.commute or.commute xor.commute)

text \<open>
  Every operation the opcode table marks commutative evaluates to the same value
  with its operands exchanged.
\<close>

theorem evaluate_binary_commutes:
  assumes "0 < so" "0 < sz" "sz \<le> 8" "a \<le> calc_mask sz" "b \<le> calc_mask sz" "is_commutative opc"
  shows "evaluate_binary opc so sz a b = evaluate_binary opc so sz b a"
  using assms(6) evaluate_flag_commutes [OF assms(1-5)] evaluate_plain_commutes [of opc so sz a b]
  unfolding is_commutative_def by (elim insertE emptyE) simp_all

theorem evaluate_binary_commutes_witness:
  "3 \<le> calc_mask 4 \<and> 9 \<le> calc_mask 4 \<and> is_commutative CPUI_INT_SCARRY
    \<and> evaluate_binary CPUI_INT_SCARRY 1 4 3 9 = evaluate_binary CPUI_INT_SCARRY 1 4 9 3"
proof -
  have h: "3 \<le> calc_mask 4" "9 \<le> calc_mask 4" "is_commutative CPUI_INT_SCARRY" by code_simp+
  show ?thesis using evaluate_binary_commutes [of 1 4, OF _ _ _ h] h by simp
qed

text \<open>Signed division.\<close>

lemma sdiv_operands_eq:
  assumes "0 < sz" "sz \<le> 8" "a \<le> calc_mask sz" "b \<le> calc_mask sz"
  shows "sdiv_operands sz a b = (sval sz a, sval sz b)"
proof -
  have "mask_bits ((usize_sub (8 * sz) 1 + 1) mod 2 ^ 64) = calc_mask sz"
    using size_cases [OF assms(1,2)]
    by (auto simp: mask_bits_eq calc_mask_eq nbits_def usize_sub_def)
  then show ?thesis
    using assms by (simp add: sdiv_operands_def Let_def and_calc_mask_self sign_extend_to_i64_eq)
qed

lemma sval_zero_iff:
  assumes "0 < sz" "b \<le> calc_mask sz"
  shows "sval sz b = 0 \<longleftrightarrow> b = 0"
  using sval_arith [OF assms] assms(2) uint_nonnegative [of b]
  by (auto simp: le_calc_mask_iff word_uint_eq_iff split: if_splits)

lemma sval_min_iff:
  assumes "0 < sz" "sz \<le> 8"
  shows "sval sz a = - (2 ^ 63) \<longleftrightarrow> sz = 8 \<and> sval 8 a = - (2 ^ 63)"
proof (cases "sz = 8")
  case False
  with assms have "nbits sz - 1 < 63" by (simp add: nbits_def)
  then have "(2::int) ^ (nbits sz - 1) < 2 ^ 63" by (intro power_strict_increasing) simp_all
  with sval_bounds(1) [OF assms(1), of a] False show ?thesis by auto
qed simp

text \<open>
  Property C30. Signed division and remainder: no value for a zero divisor, the truncated
  quotient and remainder of the two's complement readings otherwise, and a panic on exactly
  one pair of operands, the least 8-byte integer by minus one.
\<close>

theorem evaluate_signed_division:
  assumes "0 < sz" "sz \<le> 8" "a \<le> calc_mask sz" "b \<le> calc_mask sz"
  shows "evaluate_binary CPUI_INT_SDIV sz sz a b =
      (if b = 0 then Ret None
       else if sz = 8 \<and> sval 8 a = - (2 ^ 63) \<and> sval 8 b = - 1 then Panic
       else Ret (Some (as_u64 (sval sz a sdiv sval sz b) AND calc_mask sz)))
    \<and> evaluate_binary CPUI_INT_SREM sz sz a b =
      (if b = 0 then Ret None
       else if sz = 8 \<and> sval 8 a = - (2 ^ 63) \<and> sval 8 b = - 1 then Panic
       else Ret (Some (as_u64 (sval sz a smod sval sz b) AND calc_mask sz)))"
  using sval_zero_iff [OF assms(1,4)] sval_min_iff [OF assms(1,2), of a]
  by (auto simp: evaluate_binary_def Let_def sdiv_operands_eq [OF assms] div_i64_def rem_i64_def
      zero_extend_def)

theorem evaluate_signed_division_witness:
  "0xf9 \<le> calc_mask 1 \<and> 2 \<le> calc_mask 1
    \<and> evaluate_binary CPUI_INT_SDIV 1 1 0xf9 2 = Ret (Some 0xfd)
    \<and> evaluate_binary CPUI_INT_SREM 1 1 0xf9 2 = Ret (Some 0xff)
    \<and> evaluate_binary CPUI_INT_SDIV 8 8 0x8000000000000000 0xffffffffffffffff = Panic"
proof -
  have h: "0xf9 \<le> calc_mask 1" "2 \<le> calc_mask 1" by code_simp+
  have g: "0x8000000000000000 \<le> calc_mask 8" "0xffffffffffffffff \<le> calc_mask 8" by code_simp+
  have s: "sval 1 0xf9 = - 7" "sval 1 2 = 2" "sval 8 0x8000000000000000 = - (2 ^ 63)"
    "sval 8 0xffffffffffffffff = - 1" "calc_mask 1 = 0xff" by code_simp+
  have d: "- 7 sdiv (2::int) = - 3" "- 7 smod (2::int) = - 1"
    by (simp_all add: signed_divide_int_def signed_modulo_int_def)
  show ?thesis
    using evaluate_signed_division [of 1 "0xf9" 2, OF _ _ h] h d
      evaluate_signed_division [of 8 "0x8000000000000000" "0xffffffffffffffff", OF _ _ g]
    by (simp add: s as_u64_def del: One_nat_def)
qed

text \<open>Shifts.\<close>

lemma u64_ge_of_nat: "k < 2 ^ 64 \<Longrightarrow> (x :: u64) \<ge> of_nat k \<longleftrightarrow> k \<le> unat x"
  by (simp add: word_le_nat_alt unat_of_nat take_bit_nat_eq_self)

lemma shift_guard: "sz \<le> 8 \<Longrightarrow> (x :: u64) \<ge> of_nat (sz * 8) \<longleftrightarrow> sz * 8 \<le> unat x"
  by (rule u64_ge_of_nat) simp

lemma shl_arm:
  assumes "0 < sz" "sz \<le> 8"
  shows "uint (if (b :: u64) \<ge> of_nat (sz * 8) then 0 else shl_u64 a (unat b) AND calc_mask sz)
    = (uint a * 2 ^ unat b) mod 2 ^ nbits sz"
proof (cases "sz * 8 \<le> unat b")
  case True
  have "nbits sz \<le> unat b" using True assms by (simp add: nbits_def)
  then have "(2::int) ^ nbits sz dvd 2 ^ unat b" by (rule le_imp_power_dvd)
  then have "uint a * 2 ^ unat b mod 2 ^ nbits sz = 0" by simp
  then show ?thesis using True assms(2) by (simp only: shift_guard if_True) simp
next
  case False
  then have lt: "unat b mod 64 = unat b" using assms by simp
  have "uint (push_bit (unat b) a AND calc_mask sz) = uint (push_bit (unat b) a) mod 2 ^ nbits sz"
    by (simp add: uint_and_calc_mask)
  also have "\<dots> = (uint a * 2 ^ unat b mod 2 ^ 64) mod 2 ^ nbits sz"
    by (simp only: uint_push_bit_u64)
  also have "\<dots> = (uint a * 2 ^ unat b) mod 2 ^ nbits sz" by (rule mod_pow2_mod) simp
  finally show ?thesis using False assms(2) by (simp only: shift_guard if_False shl_u64_def lt)
qed

lemma shr_arm:
  assumes "0 < sz" "sz \<le> 8" "a \<le> calc_mask sz"
  shows "uint (if (b :: u64) \<ge> of_nat (sz * 8) then 0 else shr_u64 (a AND calc_mask sz) (unat b))
    = uint a div 2 ^ unat b"
proof (cases "sz * 8 \<le> unat b")
  case True
  then have "(2::int) ^ nbits sz \<le> 2 ^ unat b"
    using assms by (intro power_increasing) (simp_all add: nbits_def)
  with assms(3) have "uint a < 2 ^ unat b"
    unfolding le_calc_mask_iff by (rule less_le_trans)
  then have "uint a div 2 ^ unat b = 0" by (simp add: div_pos_pos_trivial)
  then show ?thesis using True assms(2) by (simp only: shift_guard if_True) simp
next
  case False
  then have lt: "unat b mod 64 = unat b" using assms by simp
  show ?thesis
    using False assms(2) and_calc_mask_self [OF assms(3)]
    by (simp only: shift_guard if_False shr_u64_def lt uint_drop_bit_u64)
qed


lemma bit_below_width: "x \<le> calc_mask sz \<Longrightarrow> bit x k \<Longrightarrow> k < nbits sz"
  using arg_cong [OF and_calc_mask_self [of x sz], of "\<lambda>w. bit w k"]
  by (auto simp: calc_mask_eq bit_simps)

lemma bit_sright_arm:
  assumes "0 < sz" "sz \<le> 8" "a \<le> calc_mask sz" "unat b < nbits sz"
  shows "bit (sright_arm sz sz a b) j \<longleftrightarrow> j < nbits sz \<and> bit a (min (j + unat b) (nbits sz - 1))"
proof -
  let ?n = "nbits sz" and ?k = "unat b"
  have n: "?n = 8 * sz" "0 < ?n" "?n \<le> 64" using assms by (simp_all add: nbits_def)
  have g: "\<not> of_nat (8 * sz) \<le> b" using shift_guard [OF assms(2), of b] assms(4) n by (simp add: mult.commute)
  then have g: "\<not> 8 * word_of_nat sz \<le> b" by simp
  have k: "?k mod 64 = ?k" using assms(4) n by simp
  note top = bit_below_width [OF assms(3)]
  consider "j + ?k < ?n - 1" | "j + ?k = ?n - 1" | "?n \<le> j + ?k" using n by linarith
  then show ?thesis
  proof cases
    case 1
    with n show ?thesis
      by (auto simp: sright_arm_def g k Let_def shr_u64_def signbit_negative_bit [OF assms(1,2)]
          bit_simps calc_mask_eq add.commute)
  next
    case 2
    with n show ?thesis
      by (auto simp: sright_arm_def g k Let_def shr_u64_def signbit_negative_bit [OF assms(1,2)]
          bit_simps calc_mask_eq add.commute)
  next
    case 3
    then have "\<not> bit a (j + ?k)" using top by (meson not_less)
    with 3 n show ?thesis
      by (auto simp: sright_arm_def g k Let_def shr_u64_def signbit_negative_bit [OF assms(1,2)]
          bit_simps calc_mask_eq add.commute min_def)
  qed
qed

lemma sval_sright_arm:
  assumes "0 < sz" "sz \<le> 8" "a \<le> calc_mask sz"
  shows "sval sz (sright_arm sz sz a b) = sval sz a div 2 ^ unat b"
proof (cases "unat b < nbits sz")
  case True
  have n: "0 < nbits sz" using assms(1) by (simp add: nbits_def)
  have "min (min (nbits sz - 1) j + unat b) (nbits sz - 1) = min (nbits sz - 1) (unat b + j)"
    "min (nbits sz - 1) j < nbits sz" "min (nbits sz - 1) j < 64" for j
    using n nbits_le [of sz] by linarith+
  then have "sval sz (sright_arm sz sz a b) = drop_bit (unat b) (sval sz a)"
    using n unfolding sval_def
    by (intro bit_eqI) (simp add: bit_signed_take_bit_iff bit_drop_bit_eq bit_uint_iff
        bit_sright_arm [OF assms True] less_le_trans [OF _ nbits_le])
  then show ?thesis by (simp add: drop_bit_eq_div)
next
  case False
  then have g: "of_nat (8 * sz) \<le> b"
    using shift_guard [OF assms(2), of b] assms by (simp add: nbits_def mult.commute)
  have big: "(2::int) ^ (nbits sz - 1) \<le> 2 ^ unat b"
    using False by (intro power_increasing) simp_all
  note bd = sval_bounds [OF assms(1), of a]
  show ?thesis
  proof (cases "sval sz a < 0")
    case True
    have "sval sz a div 2 ^ unat b = - 1"
      by (rule int_div_pos_eq [where r = "sval sz a + 2 ^ unat b"]) (use True bd big in linarith)+
    moreover have "sval sz (calc_mask sz) = - 1"
      using sval_arith [OF assms(1), of "calc_mask sz"] size_pow [OF assms(1)]
        one_le_power [of "2::int" "nbits sz - 1"]
      by (simp add: uint_calc_mask not_less)
    ultimately show ?thesis using g True signbit_negative_iff [OF assms] by (simp add: sright_arm_def)
  next
    case False
    then have "sval sz a div 2 ^ unat b = 0"
      using bd big by (intro div_pos_pos_trivial) linarith+
    moreover have "sval sz 0 = 0" by (simp add: sval_def)
    ultimately show ?thesis using g False signbit_negative_iff [OF assms] by (simp add: sright_arm_def)
  qed
qed

lemma sval_and_calc_mask: "0 < sz \<Longrightarrow> sval sz (x AND calc_mask sz) = sval sz x"
  by (intro bit_eqI) (auto simp: sval_def calc_mask_eq bit_simps nbits_def)

text \<open>
  Property C31. The shifts by any amount, also past the width: a left shift multiplies modulo the
  width, a logical right shift divides the unsigned reading, an arithmetic right shift divides
  the signed reading rounding down.
\<close>

theorem evaluate_shifts:
  assumes "0 < sz" "sz \<le> 8" "a \<le> calc_mask sz"
  shows "\<exists>l r s. evaluate_binary CPUI_INT_LEFT sz sz a b = Ret (Some l)
    \<and> evaluate_binary CPUI_INT_RIGHT sz sz a b = Ret (Some r)
    \<and> evaluate_binary CPUI_INT_SRIGHT sz sz a b = Ret (Some s)
    \<and> uint l = (uint a * 2 ^ unat b) mod 2 ^ nbits sz
    \<and> uint r = uint a div 2 ^ unat b
    \<and> sval sz s = sval sz a div 2 ^ unat b"
proof -
  have r: "(uint a div 2 ^ unat b) mod 2 ^ nbits sz = uint a div 2 ^ unat b"
    using assms(3) div_pow2_le [of "uint a" "unat b"]
    by (intro mod_pos_pos_trivial) (simp_all add: le_calc_mask_iff pos_imp_zdiv_nonneg_iff)
  show ?thesis
    using shl_arm [OF assms(1,2), of b a] shr_arm [OF assms, of b] sval_sright_arm [OF assms, of b] r
      uint_and_calc_mask [of _ sz] sval_and_calc_mask [OF assms(1)]
    by (simp add: evaluate_binary_def Let_def)
qed

theorem evaluate_shifts_witness:
  "0x91 \<le> calc_mask 1 \<and> (\<exists>l r s. evaluate_binary CPUI_INT_LEFT 1 1 0x91 70 = Ret (Some l)
    \<and> evaluate_binary CPUI_INT_RIGHT 1 1 0x91 70 = Ret (Some r)
    \<and> evaluate_binary CPUI_INT_SRIGHT 1 1 0x91 70 = Ret (Some s)
    \<and> uint l = 0 \<and> uint r = 0 \<and> sval 1 s = - 1)"
proof -
  have h: "0x91 \<le> calc_mask 1" by code_simp
  have s: "sval 1 0x91 = - 111" "nbits 1 = 8" by code_simp+
  show ?thesis using evaluate_shifts [of 1 "0x91" 70, OF _ _ h] h by (simp add: s del: One_nat_def)
qed

text \<open>Concatenation and truncation.\<close>

lemma piece_bit:
  assumes "0 < sl" "sh + sl \<le> 8" "hi \<le> calc_mask sh" "lo \<le> calc_mask sl"
  shows "bit ((push_bit (8 * sl) hi OR lo) AND calc_mask (sh + sl)) j
    \<longleftrightarrow> (if j < 8 * sl then bit lo j else bit hi (j - 8 * sl))"
proof -
  have "bit lo j \<Longrightarrow> j < 8 * sl" "bit hi (j - 8 * sl) \<Longrightarrow> j - 8 * sl < 8 * sh"
    using bit_below_width [OF assms(4), of j] bit_below_width [OF assms(3), of "j - 8 * sl"] assms
    by (simp_all add: nbits_def)
  then show ?thesis using assms(1,2) by (auto simp: bit_simps calc_mask_eq nbits_def)
qed

text \<open>
  \<open>CPUI_PIECE\<close> concatenates its operands, and \<open>CPUI_SUBPIECE\<close> gets each of
  them back.
\<close>

theorem piece_subpiece_roundtrip:
  assumes "0 < sh" "0 < sl" "sh + sl \<le> 8" "hi \<le> calc_mask sh" "lo \<le> calc_mask sl"
  shows "\<exists>p. evaluate_binary CPUI_PIECE (sh + sl) sh hi lo = Ret (Some p)
    \<and> uint p = uint hi * 2 ^ (8 * sl) + uint lo
    \<and> evaluate_binary CPUI_SUBPIECE sh (sh + sl) p (of_nat sl) = Ret (Some hi)
    \<and> evaluate_binary CPUI_SUBPIECE sl (sh + sl) p 0 = Ret (Some lo)"
proof -
  let ?p = "(push_bit (8 * sl) hi OR lo) AND calc_mask (sh + sl)"
  have sl: "sl < 8" "sl * 8 mod 64 = 8 * sl" "unat (word_of_nat sl :: u64) = sl" "\<not> 8 \<le> (word_of_nat sl :: u64)"
    using assms by (simp_all add: unat_of_nat word_le_nat_alt take_bit_nat_eq_self)
  note pb = piece_bit [OF assms(2-5)]
  note wd = bit_below_width [OF assms(5)] bit_below_width [OF assms(4)]
  have e: "evaluate_binary CPUI_PIECE (sh + sl) sh hi lo = Ret (Some ?p)"
    using sl by (simp add: evaluate_binary_def shl_u64_def usize_sub_def mult.commute)
  have "drop_bit (8 * sl) ?p = hi"
    by (rule bit_word_eqI) (simp only: bit_drop_bit_eq pb o_def, simp)
  moreover have "?p AND calc_mask sl = lo"
    using wd(1) assms by (intro bit_word_eqI, simp only: bit_and_iff [of ?p] pb) (auto simp: calc_mask_eq bit_simps nbits_def)
  ultimately have s: "evaluate_binary CPUI_SUBPIECE sh (sh + sl) ?p (of_nat sl) = Ret (Some hi)"
    "evaluate_binary CPUI_SUBPIECE sl (sh + sl) ?p 0 = Ret (Some lo)"
    using sl assms and_calc_mask_self [OF assms(4)]  and_calc_mask_self [OF assms(5)]
    by (simp_all add: evaluate_binary_def shr_u64_def mult.commute)
  have "uint ?p = push_bit (8 * sl) (uint hi) OR uint lo"
  proof (rule bit_eqI)
    fix j
    have "bit hi (j - 8 * sl) \<Longrightarrow> j - 8 * sl < 8 * sh" "bit lo j \<Longrightarrow> j < 8 * sl"
      using wd assms by (simp_all add: nbits_def)
    then show "bit (uint ?p) j = bit (push_bit (8 * sl) (uint hi) OR uint lo) j"
      using assms by (auto simp: bit_uint_iff pb bit_push_bit_iff_int bit_or_int_iff)
  qed
  also have "\<dots> = uint hi * 2 ^ (8 * sl) + uint lo"
  proof -
    have "push_bit (8 * sl) (uint hi) AND uint lo = 0"
      using wd(1) assms by (intro bit_eqI) (auto simp: bit_simps nbits_def dest: leD)
    then show ?thesis by (simp add: disjunctive_add_eq_or [symmetric] push_bit_eq_mult)
  qed
  finally show ?thesis using e s by blast
qed

theorem piece_subpiece_roundtrip_witness:
  "0x12 \<le> calc_mask 1 \<and> 0x3456 \<le> calc_mask 2
    \<and> (\<exists>p. evaluate_binary CPUI_PIECE 3 1 0x12 0x3456 = Ret (Some p) \<and> uint p = 0x123456)"
proof -
  have h: "0x12 \<le> calc_mask 1" "0x3456 \<le> calc_mask 2" by code_simp+
  show ?thesis using piece_subpiece_roundtrip [of 1 2, OF _ _ _ h] h by (auto simp: numeral_3_eq_3)
qed

text \<open>Recovery of a unary input.\<close>

lemma uint_neg_mod: "uint (- (x :: u64)) mod 2 ^ nbits sz = (- uint x) mod 2 ^ nbits sz"
  using uint_minus_u64 [of 0 x] mod_pow2_mod [of "nbits sz" 64 "- uint x"] by simp

lemma and_calc_mask_self_iff: "x AND calc_mask sz = x \<longleftrightarrow> x \<le> calc_mask sz"
proof
  assume "x AND calc_mask sz = x"
  with and_calc_mask_le [of x sz] show "x \<le> calc_mask sz" by metis
qed (rule and_calc_mask_self)

lemma neg_mask_involution:
  fixes x y :: u64
  assumes "x \<le> calc_mask sz" "y \<le> calc_mask sz"
  shows "(- y) AND calc_mask sz = x \<longleftrightarrow> (- x) AND calc_mask sz = y"
proof -
  have "(- (z AND calc_mask sz)) AND calc_mask sz = (- z) AND calc_mask sz" for z
    unfolding word_uint_eq_iff uint_and_calc_mask uint_neg_mod by (simp add: mod_minus_eq)
  from this [of "- x"] this [of "- y"] show ?thesis
    using and_calc_mask_self [OF assms(1)] and_calc_mask_self [OF assms(2)] by auto
qed

lemma not_mask_involution:
  fixes x y :: u64
  assumes "x \<le> calc_mask sz" "y \<le> calc_mask sz"
  shows "(NOT y) AND calc_mask sz = x \<longleftrightarrow> (NOT x) AND calc_mask sz = y"
proof -
  have "(NOT (NOT z AND calc_mask sz)) AND calc_mask sz = z AND calc_mask sz" for z
    by (rule bit_word_eqI) (auto simp: bit_simps)
  from this [of x] this [of y] show ?thesis
    using and_calc_mask_self [OF assms(1)] and_calc_mask_self [OF assms(2)] by auto
qed

lemma uintb_negate_pred: "uintb_negate (x - 1) sz = (- x) AND calc_mask sz"
  by (simp add: uintb_negate_def not_eq_complement)

text \<open>A value of \<open>so\<close> bytes is the sign extension of its low \<open>si\<close> bytes.\<close>

definition sign_filled :: "usize \<Rightarrow> usize \<Rightarrow> u64 \<Rightarrow> bool" where
  "sign_filled si so y \<longleftrightarrow> (\<forall>j < 8 * so. bit y j = bit y (min (8 * si - 1) j))"

lemma bit_sext:
  assumes "0 < si" "si \<le> so" "so \<le> 8" "x \<le> calc_mask si"
  shows "bit (sign_extend_size x si so) j \<longleftrightarrow> j < 8 * so \<and> bit x (min (8 * si - 1) j)"
  unfolding sign_extend_size_eq [OF assms]
  using assms by (auto simp: as_u64_def sval_def calc_mask_eq nbits_def bit_simps)

lemma sext_iff:
  assumes "0 < si" "si \<le> so" "so \<le> 8" "y \<le> calc_mask so"
  shows "x \<le> calc_mask si \<and> sign_extend_size x si so = y \<longleftrightarrow>
    sign_filled si so y \<and> x = y AND calc_mask si"
proof
  assume l: "x \<le> calc_mask si \<and> sign_extend_size x si so = y"
  then have y: "bit y j \<longleftrightarrow> j < 8 * so \<and> bit x (min (8 * si - 1) j)" for j
    using bit_sext [OF assms(1-3)] by auto
  have "bit x j \<longleftrightarrow> bit (y AND calc_mask si) j" for j
  proof (cases "j < 8 * si")
    case True
    then have "min (8 * si - 1) j = j" by linarith
    with True assms show ?thesis by (simp add: bit_and_iff y calc_mask_eq bit_simps nbits_def)
  next
    case False
    with bit_below_width [of x si j] l assms show ?thesis
      by (auto simp: bit_and_iff calc_mask_eq bit_simps nbits_def)
  qed
  then have "x = y AND calc_mask si" by (intro bit_word_eqI) simp
  moreover have "min (8 * si - 1) (min (8 * si - 1) j) = min (8 * si - 1) j"
    "min (8 * si - 1) j < 8 * so" for j
    using assms by simp_all
  then have "sign_filled si so y" by (simp add: sign_filled_def y)
  ultimately show "sign_filled si so y \<and> x = y AND calc_mask si" by simp
next
  assume r: "sign_filled si so y \<and> x = y AND calc_mask si"
  then have x: "x \<le> calc_mask si" by simp
  have "bit (sign_extend_size x si so) j \<longleftrightarrow> bit y j" for j
  proof -
    have m: "min (8 * si - 1) j < nbits si" "min (8 * si - 1) j < 64" using assms by (simp_all add: nbits_def)
    then have "bit x (min (8 * si - 1) j) = bit y (min (8 * si - 1) j)"
      using r by (simp add: bit_and_iff calc_mask_eq bit_mask_iff)
    then show ?thesis
      using bit_sext [OF assms(1-3) x, of j] r bit_below_width [OF assms(4), of j] assms(3)
      by (auto simp: sign_filled_def nbits_small)
  qed
  then show "x \<le> calc_mask si \<and> sign_extend_size x si so = y"
    using x by (auto intro: bit_word_eqI)
qed

lemma recover_sext:
  assumes "0 < si" "si \<le> so" "so \<le> 8" "y \<le> calc_mask so"
  shows "recover_input_unary CPUI_INT_SEXT so y si =
    (if sign_filled si so y then Some (y AND calc_mask si) else None)"
proof -
  let ?n = "8 * si" and ?m = "8 * so"
  have n: "0 < ?n" "?n \<le> ?m" "?m \<le> 64" using assms by auto
  have top: "calc_mask si XOR shr_u64 (calc_mask si) 1 = push_bit (?n - 1) 1"
    using size_cases [of si] assms by (auto simp: calc_mask_def shr_u64_def shl_u64_def U64_MAX_def)
  have neg: "y AND (calc_mask si XOR shr_u64 (calc_mask si) 1) = 0 \<longleftrightarrow> \<not> bit y (?n - 1)"
    unfolding top using n by (simp add: and_exp_eq_0_iff_not_bit push_bit_eq_mult)
  have lo: "y AND calc_mask si = y \<longleftrightarrow> (\<forall>j. ?n \<le> j \<and> j < ?m \<longrightarrow> \<not> bit y j)"
  proof -
    have w: "bit y j \<Longrightarrow> j < ?m \<and> j < 64" for j
      using bit_below_width [OF assms(4), of j] assms(3) by (simp add: nbits_def)
    have "y AND calc_mask si = y \<longleftrightarrow> (\<forall>j < 64. bit y j \<longrightarrow> j < ?n)"
      using assms by (auto simp: bit_eq_iff bit_simps calc_mask_eq nbits_def)
    then show ?thesis using w by (meson not_le)
  qed
  have hi: "y AND (calc_mask so XOR calc_mask si) = calc_mask so XOR calc_mask si
      \<longleftrightarrow> (\<forall>j. ?n \<le> j \<and> j < ?m \<longrightarrow> bit y j)"
  proof -
    have w: "bit (calc_mask so XOR calc_mask si) j \<longleftrightarrow> ?n \<le> j \<and> j < ?m" for j
      using n by (cases "j < ?n"; cases "j < ?m")
        (simp_all add: calc_mask_eq nbits_small [OF assms(3)] nbits_small [OF order_trans [OF assms(2,3)]]
          bit_xor_iff bit_mask_iff)
    have "y AND v = v \<longleftrightarrow> (\<forall>j. bit v j \<longrightarrow> bit y j)" for v
      by (metis bit_and_iff bit_word_eqI)
    then show ?thesis by (simp add: w)
  qed
  have fill: "sign_filled si so y \<longleftrightarrow> (\<forall>j. ?n \<le> j \<and> j < ?m \<longrightarrow> bit y j = bit y (?n - 1))"
  proof -
    have "?n \<le> j \<Longrightarrow> min (?n - 1) j = ?n - 1" "\<not> ?n \<le> j \<Longrightarrow> min (?n - 1) j = j" for j
      by linarith+
    then show ?thesis unfolding sign_filled_def by metis
  qed
  have "recover_input_unary CPUI_INT_SEXT so y si =
     (if \<not> bit y (?n - 1) then if y AND calc_mask si \<noteq> y then None else Some (y AND calc_mask si)
      else if y AND (calc_mask so XOR calc_mask si) \<noteq> calc_mask so XOR calc_mask si then None
      else Some (y AND calc_mask si))"
    unfolding neg [symmetric] by (simp add: recover_input_unary_def Let_def)
  then show ?thesis
    unfolding lo hi fill by (cases "bit y (?n - 1)") simp_all
qed

lemma calc_mask_mono: "si \<le> so \<Longrightarrow> calc_mask si \<le> calc_mask so"
  unfolding word_le_def uint_calc_mask
  by (rule diff_right_mono) (simp add: nbits_def power_increasing)

lemma recover_unary_inverse:
  assumes "0 < si" "si \<le> so" "so \<le> 8" "y \<le> calc_mask so"
    and "opc \<in> {CPUI_INT_ZEXT, CPUI_INT_SEXT} \<or> opc \<in> {CPUI_COPY, CPUI_INT_NEGATE, CPUI_INT_2COMP} \<and> si = so"
  shows "recover_input_unary opc so y si = Some x \<longleftrightarrow>
    x \<le> calc_mask si \<and> evaluate_unary opc so si x = Some y"
proof -
  have self: "y AND calc_mask so = y" "x \<le> calc_mask si \<Longrightarrow> x AND calc_mask si = x"
    "x \<le> calc_mask si \<Longrightarrow> x AND calc_mask so = x"
    using assms calc_mask_mono [of si so] by (auto intro: and_calc_mask_self order_trans)
  consider "opc = CPUI_INT_ZEXT" | "opc = CPUI_INT_SEXT" | "opc = CPUI_COPY" "si = so"
    | "opc = CPUI_INT_NEGATE" "si = so" | "opc = CPUI_INT_2COMP" "si = so" using assms(5) by auto
  then show ?thesis
  proof cases
    case 1
    have "recover_input_unary opc so y si = (if y \<le> calc_mask si then Some y else None)"
      using 1 by (simp add: recover_input_unary_def Let_def and.commute and_calc_mask_self_iff and_calc_mask_self)
    moreover have "evaluate_unary opc so si x = Some x" if "x \<le> calc_mask si"
      using 1 self that by (simp add: evaluate_unary_def)
    ultimately show ?thesis by auto
  next
    case 3
    have "recover_input_unary opc so y si = Some y"
      using 3 self by (simp add: recover_input_unary_def)
    moreover have "evaluate_unary opc so si x = Some (x AND calc_mask so)"
      using 3 by (simp add: evaluate_unary_def)
    ultimately show ?thesis using 3 self assms(4) by auto
  next
    case 2
    then show ?thesis
      using sext_iff [OF assms(1-4), of x] sign_extend_size_eq [OF assms(1-3), of x]
      by (auto simp: recover_sext [OF assms(1-4)] evaluate_unary_def)
  next
    case 4
    then show ?thesis using self not_mask_involution [of x so y] assms
      by (auto simp: recover_input_unary_def evaluate_unary_def Let_def uintb_negate_def)
  next
    case 5
    then show ?thesis using self neg_mask_involution [of x so y] assms
      by (auto simp: recover_input_unary_def evaluate_unary_def Let_def uintb_negate_pred)
  qed
qed

text \<open>
  Property C20. Recovery of the input of a copy, a zero or sign extension, a negation or a complement (\<open>CPUI_COPY\<close>,
  \<open>CPUI_INT_ZEXT\<close>, \<open>CPUI_INT_SEXT\<close>, \<open>CPUI_INT_2COMP\<close>, \<open>CPUI_INT_NEGATE\<close>) is the exact inverse of evaluation:
  it returns \<open>x\<close> if and only if \<open>x\<close> is an input of its size that evaluates to the given output.
\<close>

theorem recover_input_unary_exact:
  assumes "0 < si" "si \<le> so" "so \<le> 8" "y \<le> calc_mask so"
    and "opc \<in> {CPUI_INT_ZEXT, CPUI_INT_SEXT} \<or> opc \<in> {CPUI_COPY, CPUI_INT_NEGATE, CPUI_INT_2COMP} \<and> si = so"
  shows "recover_input_unary opc so y si = Some x \<longleftrightarrow>
    x \<le> calc_mask si \<and> evaluate_unary opc so si x = Some y"
  using assms by (rule recover_unary_inverse)

theorem recover_input_unary_exact_witness:
  "0xff80 \<le> calc_mask 2 \<and> recover_input_unary CPUI_INT_SEXT 2 0xff80 1 = Some 0x80
    \<and> evaluate_unary CPUI_INT_SEXT 2 1 0x80 = Some 0xff80"
proof -
  have h: "0xff80 \<le> calc_mask 2" and r: "recover_input_unary CPUI_INT_SEXT 2 0xff80 1 = Some 0x80"
    by code_simp+
  show ?thesis
    using recover_input_unary_exact [of 1 2 "0xff80" CPUI_INT_SEXT "0x80", OF _ _ _ h] h r by simp
qed

lemma sright_count_eq: "sright_count k v c = c + card {i. i < k \<and> bit v i}"
proof (induction k arbitrary: v c)
  case (Suc k)
  have odd: "v AND 1 \<noteq> 0 \<longleftrightarrow> bit v 0"
    by (simp add: and_one_eq bit_0 odd_iff_mod_2_eq_one)
  have "{i. i < Suc k \<and> bit v i} = (if bit v 0 then {0} else {}) \<union> Suc ` {i. i < k \<and> bit (shr_u64 v 1) i}"
    by (auto simp: shr_u64_def bit_drop_bit_eq image_iff less_Suc_eq_0_disj split: if_splits)
  then have "card {i. i < Suc k \<and> bit v i} = of_bool (bit v 0) + card {i. i < k \<and> bit (shr_u64 v 1) i}"
    by (subst card_Un_disjoint [symmetric] | auto simp: card_image)+
  then show ?case by (simp add: Suc.IH odd)
qed simp

lemma sright_count_full: "sright_count k v 0 = k \<longleftrightarrow> (\<forall>i<k. bit v i)"
proof -
  have "card {i. i < k \<and> bit v i} = k \<longleftrightarrow> {i. i < k \<and> bit v i} = {..<k}"
    by (metis (no_types, lifting) card_lessThan card_subset_eq finite_lessThan lessThan_iff mem_Collect_eq subsetI)
  then show ?thesis unfolding sright_count_eq by auto
qed

lemma add_mask_left: "((x AND calc_mask sz) + y) AND calc_mask sz = (x + y) AND calc_mask sz"
  unfolding word_uint_eq_iff calc_mask_eq uint_plus_and_mask [OF nbits_le]
  by (simp only: uint_and_mask [OF nbits_le] mod_add_left_eq)

lemma sub_mask_right: "(x - (y AND calc_mask sz)) AND calc_mask sz = (x - y) AND calc_mask sz"
  unfolding word_uint_eq_iff calc_mask_eq uint_minus_and_mask [OF nbits_le]
  by (simp only: uint_and_mask [OF nbits_le] mod_diff_right_eq)

lemma recover_left_sound:
  assumes "0 < sz" "sz \<le> 8" "y \<le> calc_mask sz" "sa < 8 * sz"
    and z: "shl_u64 y (usize_sub (8 * sz) sa) AND calc_mask sz = 0"
  shows "shl_u64 (shr_u64 y sa AND calc_mask sz) sa AND calc_mask sz = y"
proof (rule bit_word_eqI)
  fix j assume "j < LENGTH(64)"
  have n: "nbits sz = 8 * sz" "sa < 64" using assms by (simp_all add: nbits_def)
  have low: "\<not> bit y k" if "k < sa" for k
  proof
    assume k: "bit y k"
    have "usize_sub (8 * sz) sa < 64" using that assms by (simp add: usize_sub_def)
    moreover define i where "i = k + (8 * sz - sa)"
    moreover have "8 * sz - sa \<le> i" "i < 8 * sz" "i < 64" "i - (8 * sz - sa) = k"
      using that assms(2,4) by (simp_all add: i_def)
    ultimately have "bit (shl_u64 y (usize_sub (8 * sz) sa) AND calc_mask sz) i"
      using k assms(4) n by (simp add: shl_u64_def usize_sub_def bit_simps calc_mask_eq)
    with z show False by simp
  qed
  show "bit (shl_u64 (shr_u64 y sa AND calc_mask sz) sa AND calc_mask sz) j = bit y j"
  proof (cases "sa \<le> j \<and> j < 8 * sz")
    case True
    then have "sa + (j - sa) = j" "j < 64" "j - sa < 64" "j - sa < 8 * sz" using assms(2) by auto
    then show ?thesis using True n by (simp add: shl_u64_def shr_u64_def bit_simps calc_mask_eq)
  next
    case False
    then show ?thesis using low [of j] n bit_below_width [OF assms(3), of j]
      by (auto simp: shl_u64_def shr_u64_def bit_simps calc_mask_eq)
  qed
qed

lemma recover_right_sound:
  assumes "0 < sz" "sz \<le> 8" "y \<le> calc_mask sz" "sa < 8 * sz"
    and z: "shr_u64 y (usize_sub (8 * sz) sa) = 0"
  shows "shr_u64 (shl_u64 y sa AND calc_mask sz) sa = y"
proof (rule bit_word_eqI)
  fix j assume "j < LENGTH(64)"
  have n: "nbits sz = 8 * sz" "sa < 64" using assms by (simp_all add: nbits_def)
  have high: "\<not> bit y k" if "8 * sz - sa \<le> k" for k
  proof
    assume k: "bit y k"
    show False
    proof (cases "usize_sub (8 * sz) sa = 64")
      case True
      then show False using z k by (simp add: shr_u64_def)
    next
      case False
      then have "usize_sub (8 * sz) sa < 64" using assms by (auto simp: usize_sub_def)
      then have "bit (shr_u64 y (usize_sub (8 * sz) sa)) (k - (8 * sz - sa))"
        using k that assms(4) by (simp add: shr_u64_def usize_sub_def bit_drop_bit_eq)
      with z show False by simp
    qed
  qed
  show "bit (shr_u64 (shl_u64 y sa AND calc_mask sz) sa) j = bit y j"
  proof (cases "8 * sz - sa \<le> j")
    case True
    then show ?thesis using high [of j] n by (auto simp: shl_u64_def shr_u64_def bit_simps)
  next
    case False
    then have "sa + j < 8 * sz" "sa + j < 64" using assms(2,4) by linarith+
    then show ?thesis using n by (simp add: shl_u64_def shr_u64_def bit_simps calc_mask_eq)
  qed
qed

lemma recover_sright_sound:
  assumes "0 < sz" "sz \<le> 8" "y \<le> calc_mask sz" "unat b < 8 * sz"
    and z: "\<forall>i < unat b + 1. bit (shr_u64 y (usize_sub (usize_sub (sz * 8) (unat b)) 1)) i"
  shows "sright_arm sz sz (shl_u64 y (unat b) AND calc_mask sz) b = y"
proof (rule bit_word_eqI)
  fix j assume "j < LENGTH(64)"
  let ?sa = "unat b" and ?x = "shl_u64 y (unat b) AND calc_mask sz"
  have n: "nbits sz = 8 * sz" "?sa < 64" "unat b < nbits sz" using assms by (simp_all add: nbits_def)
  have top: "bit y k" if "8 * sz - 1 - ?sa \<le> k" "k < 8 * sz" for k
  proof -
    have "usize_sub (usize_sub (sz * 8) ?sa) 1 = 8 * sz - 1 - ?sa" using assms(4) by (simp add: usize_sub_def mult.commute [of sz])
    moreover have "k - (8 * sz - 1 - ?sa) < ?sa + 1" using that assms(4) by linarith
    ultimately have "bit (shr_u64 y (8 * sz - 1 - ?sa)) (k - (8 * sz - 1 - ?sa))" using z by metis
    then show ?thesis using that assms(2) by (simp add: shr_u64_def bit_drop_bit_eq)
  qed
  have x: "bit ?x k \<longleftrightarrow> ?sa \<le> k \<and> k < 8 * sz \<and> bit y (k - ?sa)" for k
    using n assms(2) by (auto simp: shl_u64_def bit_simps calc_mask_eq)
  have "bit (sright_arm sz sz ?x b) j \<longleftrightarrow> j < 8 * sz \<and> bit ?x (min (j + ?sa) (8 * sz - 1))"
    using bit_sright_arm [OF assms(1,2) _ n(3), of ?x j] n by simp
  also have "\<dots> \<longleftrightarrow> bit y j"
  proof (cases "j + ?sa < 8 * sz - 1")
    case True
    then have "j < 8 * sz" "j + ?sa < 8 * sz" by linarith+
    then show ?thesis using True by (simp add: x)
  next
    case False
    then have "min (j + ?sa) (8 * sz - 1) = 8 * sz - 1" by simp
    then show ?thesis
      using False top [of j] top [of "8 * sz - 1 - ?sa"] n bit_below_width [OF assms(3), of j] assms(4)
      by (auto simp: x)
  qed
  finally show "bit (sright_arm sz sz ?x b) j = bit y j" .
qed

text \<open>
  Property C32. When binary recovery returns a value for a slot, evaluating the operation with
  that value in the slot gives the output back.
\<close>

theorem recover_input_binary_sound:
  assumes "0 < sz" "sz \<le> 8" "y \<le> calc_mask sz" "slot \<le> 1"
    and "opc \<in> {CPUI_INT_ADD, CPUI_INT_SUB, CPUI_INT_LEFT, CPUI_INT_RIGHT, CPUI_INT_SRIGHT}"
    and r: "recover_input_binary opc slot sz y sz other = Some x"
  shows "evaluate_binary opc sz sz (if slot = 0 then x else other) (if slot = 0 then other else x)
    = Ret (Some y)"
proof -
  note self = and_calc_mask_self [OF assms(3)]
  have g: "word_of_nat (sz * 8) \<le> other \<longleftrightarrow> \<not> unat other < 8 * sz"
    using shift_guard [OF assms(2), of other] by (auto simp: mult.commute)
  have xs: "x AND calc_mask sz = x" 
    using r unfolding recover_input_binary_def Let_def map_option_eq_Some by (elim exE conjE) (erule subst, rule and_mask_idem)
  consider "opc = CPUI_INT_ADD" | "opc = CPUI_INT_SUB" | "opc = CPUI_INT_LEFT"
    | "opc = CPUI_INT_RIGHT" | "opc = CPUI_INT_SRIGHT" using assms(5) by blast
  then show ?thesis
  proof cases
    case 3
    then show ?thesis
      using r recover_left_sound [OF assms(1-3), of "unat other"] self xs
      by (auto simp: recover_input_binary_def evaluate_binary_def Let_def g simp del: of_nat_mult split: if_splits)
  next
    case 4
    then show ?thesis
      using r recover_right_sound [OF assms(1-3), of "unat other"] self xs
      by (auto simp: recover_input_binary_def evaluate_binary_def Let_def g simp del: of_nat_mult split: if_splits)
  next
    case 5
    then show ?thesis
      using r recover_sright_sound [OF assms(1-3), of other] self
      by (auto simp: recover_input_binary_def evaluate_binary_def Let_def g sright_count_full
          simp del: of_nat_mult sright_count.simps split: if_splits)
  next
    case 1
    have "x = (y - other) AND calc_mask sz" using r 1 by (simp add: recover_input_binary_def)
    then show ?thesis using 1 assms(4) self add_mask_left [of "y - other" sz other]
      by (auto simp: evaluate_binary_add add.commute)
  next
    case 2
    have x: "x = (if slot = 0 then other + y else other - y) AND calc_mask sz"
      using r 2 by (simp add: recover_input_binary_def)
    show ?thesis using 2 assms(4) self add_mask_left [of "other + y" sz "- other"]
         sub_mask_right [of other "other - y" sz]
      by (auto simp: evaluate_binary_sub x)
  qed
qed

theorem recover_input_binary_sound_witness:
  "0xf0 \<le> calc_mask 1 \<and> recover_input_binary CPUI_INT_SRIGHT 0 1 0xf0 1 3 = Some 0x80
    \<and> evaluate_binary CPUI_INT_SRIGHT 1 1 0x80 3 = Ret (Some 0xf0)"
proof -
  have h: "0xf0 \<le> calc_mask 1" and r: "recover_input_binary CPUI_INT_SRIGHT 0 1 0xf0 1 3 = Some 0x80"
    by code_simp+
  show ?thesis
    using recover_input_binary_sound [of 1 "0xf0" 0 CPUI_INT_SRIGHT 3 "0x80", OF _ _ h _ _ r] h r
    by simp
qed

end
