(* ===== verification/Circle_Range.thy ===== *)
theory Circle_Range
  imports Bit_Helpers Op_Codes
begin

text \<open>
  The circular ranges of src/src/rangeutil.rs: half-open intervals with a stride over the
  integers modulo a power of two. This theory holds the type and its operations in the order
  of the source; \<open>Circle_Sets\<close> and \<open>Circle_Transfer\<close> give them their meaning as sets of values.

  A method that takes \<open>&mut self\<close> returns the updated range, paired with its result when it has
  one. The two loops that double a step can run forever in the source (a step that reaches
  zero is never large enough); they are \<open>option\<close>-valued, with \<open>None\<close> for a run that does not
  return, and so are their callers. The private \<open>calc_mask\<close> of the source is word for word
  the one of \<open>Bit_Helpers\<close>. The remainder by a zero step, on which the source panics, lies
  outside the model: the invariant of \<open>Circle_Sets\<close> excludes such ranges.
\<close>

unbundle bit_operations_syntax

record circle_range =
  cr_left :: u64
  cr_right :: u64
  cr_mask :: u64
  cr_isempty :: bool
  cr_step :: u64

definition circle_eq :: "circle_range \<Rightarrow> circle_range \<Rightarrow> bool" where
  "circle_eq a op2 =
     (if cr_isempty a \<noteq> cr_isempty op2 then False
      else if cr_isempty a then True
      else cr_left a = cr_left op2 \<and> cr_right a = cr_right op2 \<and> cr_mask a = cr_mask op2
        \<and> cr_step a = cr_step op2)"

section \<open>Construction and access\<close>

definition circle_empty :: circle_range where
  "circle_empty = \<lparr>cr_left = 0, cr_right = 0, cr_mask = 0, cr_isempty = True, cr_step = 1\<rparr>"

definition circle_full :: "usize \<Rightarrow> circle_range" where
  "circle_full sz = \<lparr>cr_left = 0, cr_right = 0, cr_mask = calc_mask sz, cr_isempty = False, cr_step = 1\<rparr>"

definition circle_single :: "u64 \<Rightarrow> usize \<Rightarrow> circle_range" where
  "circle_single val0 sz =
     (let m = calc_mask sz; val = val0 AND m
      in \<lparr>cr_left = val, cr_right = (val + 1) AND m, cr_mask = m, cr_isempty = False, cr_step = 1\<rparr>)"

text \<open>The remainder panics for the step 0, which a well-formed range does not have; here it is the left end then.\<close>

definition circle_normalize :: "circle_range \<Rightarrow> circle_range" where
  "circle_normalize r =
     (if cr_left r = cr_right r
      then (let l = (if cr_step r \<noteq> 1 then cr_left r mod cr_step r else 0)
            in r\<lparr>cr_left := l, cr_right := l\<rparr>)
      else r)"

definition circle_new :: "u64 \<Rightarrow> u64 \<Rightarrow> usize \<Rightarrow> u64 \<Rightarrow> circle_range" where
  "circle_new l r sz stp =
     (let m = calc_mask sz
      in circle_normalize \<lparr>cr_left = l AND m, cr_right = r AND m, cr_mask = m, cr_isempty = False,
           cr_step = stp\<rparr>)"

definition circle_boolean :: "bool \<Rightarrow> circle_range" where
  "circle_boolean val = circle_single (if val then 1 else 0) 1"

definition expand_mask :: "circle_range \<Rightarrow> usize \<Rightarrow> circle_range" where
  "expand_mask r sz = r\<lparr>cr_mask := calc_mask sz\<rparr>"

definition is_full :: "circle_range \<Rightarrow> bool" where
  "is_full r \<longleftrightarrow> \<not> cr_isempty r \<and> cr_step r = 1 \<and> cr_left r = cr_right r"

definition is_single :: "circle_range \<Rightarrow> bool" where
  "is_single r \<longleftrightarrow> \<not> cr_isempty r \<and> cr_right r = (cr_left r + cr_step r) AND cr_mask r"

definition set_range :: "circle_range \<Rightarrow> u64 \<Rightarrow> u64 \<Rightarrow> usize \<Rightarrow> u64 \<Rightarrow> circle_range" where
  "set_range r lft rgt sz stp =
     r\<lparr>cr_mask := calc_mask sz, cr_left := lft, cr_right := rgt, cr_step := stp, cr_isempty := False\<rparr>"

definition set_range_val :: "circle_range \<Rightarrow> u64 \<Rightarrow> usize \<Rightarrow> circle_range" where
  "set_range_val r val sz =
     r\<lparr>cr_mask := calc_mask sz, cr_step := 1, cr_left := val, cr_right := (val + 1) AND calc_mask sz,
       cr_isempty := False\<rparr>"

definition contains_val :: "circle_range \<Rightarrow> u64 \<Rightarrow> bool" where
  "contains_val r val0 =
     (if cr_isempty r then False
      else if is_full r then True
      else (let val = val0 AND cr_mask r
            in if cr_step r \<noteq> 1 \<and> (val - cr_left r) mod cr_step r \<noteq> 0 then False
               else if cr_left r < cr_right r then val \<ge> cr_left r \<and> val < cr_right r
               else val \<ge> cr_left r \<or> val < cr_right r))"

definition circle_next :: "circle_range \<Rightarrow> u64 \<Rightarrow> u64 \<times> bool" where
  "circle_next r val = (let val' = (val + cr_step r) AND cr_mask r in (val', val' \<noteq> cr_right r))"

definition get_size :: "circle_range \<Rightarrow> u64" where
  "get_size r =
     (if cr_isempty r then 0
      else if cr_left r < cr_right r then (cr_right r - cr_left r) div cr_step r
      else (let val = (cr_mask r - (cr_left r - cr_right r) + cr_step r) div cr_step r
            in if val = 0
               then (if cr_step r > 1 then cr_mask r div cr_step r + 1 else cr_mask r)
               else val))"

definition set_full :: "circle_range \<Rightarrow> usize \<Rightarrow> circle_range" where
  "set_full r sz =
     r\<lparr>cr_mask := calc_mask sz, cr_left := 0, cr_right := 0, cr_step := 1, cr_isempty := False\<rparr>"

definition complement :: "circle_range \<Rightarrow> circle_range" where
  "complement r =
     (if cr_isempty r then r\<lparr>cr_left := 0, cr_right := 0, cr_isempty := False\<rparr>
      else if cr_left r = cr_right r then r\<lparr>cr_isempty := True\<rparr>
      else r\<lparr>cr_left := cr_right r, cr_right := cr_left r\<rparr>)"

definition invert :: "circle_range \<Rightarrow> circle_range \<times> i32" where
  "invert r = (complement (r\<lparr>cr_step := 1\<rparr>), as_i32 (cr_step r))"

definition convert_to_boolean :: "circle_range \<Rightarrow> circle_range \<times> bool" where
  "convert_to_boolean r =
     (if cr_isempty r then (r, False)
      else (let contains_zero = contains_val r 0;
                contains_one = contains_val r 1;
                b = r\<lparr>cr_mask := 0xff, cr_step := 1\<rparr>
            in if contains_zero \<and> contains_one
               then (b\<lparr>cr_left := 0, cr_right := 2, cr_isempty := False\<rparr>, True)
               else if contains_zero
               then (b\<lparr>cr_left := 0, cr_right := 1, cr_isempty := False\<rparr>, False)
               else if contains_one
               then (b\<lparr>cr_left := 1, cr_right := 2, cr_isempty := False\<rparr>, False)
               else (b\<lparr>cr_isempty := True\<rparr>, False)))"

definition set_nz_mask :: "u64 \<Rightarrow> usize \<Rightarrow> circle_range option" where
  "set_nz_mask nzmask sz =
     (let trans = bit_transitions nzmask sz;
          has_step = (nzmask AND 1 = 0)
      in if trans > 2 then None
         else if \<not> has_step \<and> trans = 2 then None
         else if trans = 0
         then Some (circle_empty\<lparr>cr_isempty := False, cr_mask := calc_mask sz, cr_step := 1,
                cr_left := 0, cr_right := (if has_step then 1 else 0)\<rparr>)
         else (let stp = shl_u64 1 (nat (leastsigbit_set nzmask))
               in Some (circle_empty\<lparr>cr_isempty := False, cr_step := stp, cr_mask := calc_mask sz,
                    cr_left := 0, cr_right := (nzmask + stp) AND calc_mask sz\<rparr>)))"

section \<open>Overlaps, union and intersection\<close>

definition ARRANGE :: "char list" where
  "ARRANGE =
     ''gcgbegda'' @ ''ggggggge'' @ ''ggggcgbg'' @ ''gggggggc'' @
     ''dfgggggg'' @ ''gegdgggg'' @ ''bgggfggg'' @ ''gcgbegda''"

definition encode_range_overlaps :: "u64 \<Rightarrow> u64 \<Rightarrow> u64 \<Rightarrow> u64 \<Rightarrow> char" where
  "encode_range_overlaps op1left op1right op2left op2right =
     (let v0 = (if op1left \<le> op1right then 0x20 else 0 :: nat);
          v1 = (if op1left \<le> op2left then v0 OR 0x10 else v0);
          v2 = (if op1left \<le> op2right then v1 OR 0x8 else v1);
          v3 = (if op1right \<le> op2left then v2 OR 4 else v2);
          v4 = (if op1right \<le> op2right then v3 OR 2 else v3);
          v5 = (if op2left \<le> op2right then v4 OR 1 else v4)
      in ARRANGE ! v5)"

definition contains_range :: "circle_range \<Rightarrow> circle_range \<Rightarrow> bool" where
  "contains_range r op2 =
     (if cr_isempty r then cr_isempty op2
      else if cr_isempty op2 then True
      else if cr_step r > cr_step op2 \<and> \<not> is_single op2 then False
      else if cr_left r = cr_right r then True
      else if cr_left op2 = cr_right op2 then False
      else if cr_left r mod cr_step r \<noteq> cr_left op2 mod cr_step op2 then False
      else if cr_left r = cr_left op2 \<and> cr_right r = cr_right op2 then True
      else (let overlap_code =
              encode_range_overlaps (cr_left r) (cr_right r) (cr_left op2) (cr_right op2)
            in if overlap_code = CHR ''c'' then True
               else if overlap_code = CHR ''b'' \<and> cr_right r = cr_right op2 then True
               else False))"

definition widen :: "circle_range \<Rightarrow> circle_range \<Rightarrow> bool \<Rightarrow> circle_range" where
  "widen r op2 left_is_stable =
     circle_normalize
       (if left_is_stable
        then (if cr_step r > 0
              then (let lmod = cr_left r mod cr_step r;
                        mod_val = cr_right op2 mod cr_step r
                    in r\<lparr>cr_right :=
                           (if mod_val \<le> lmod then cr_right op2 + (lmod - mod_val)
                            else cr_right op2 - (mod_val - lmod)) AND cr_mask r\<rparr>)
              else r)
        else r\<lparr>cr_left := cr_left op2 AND cr_mask r\<rparr>)"

definition get_max_info :: "circle_range \<Rightarrow> i32" where
  "get_max_info r =
     (let half_point = cr_mask r XOR shr_u64 (cr_mask r) 1
      in if contains_val r half_point then 64 - int (leading_zeros half_point)
         else (let size_left = (if half_point AND cr_left r = 0 then int (leading_zeros (cr_left r))
                                else int (leading_zeros (NOT (cr_left r) AND cr_mask r)));
                   size_right = (if half_point AND cr_right r = 0 then int (leading_zeros (cr_right r))
                                 else int (leading_zeros (NOT (cr_right r) AND cr_mask r)))
               in 64 - min size_right size_left))"

definition set_stride :: "circle_range \<Rightarrow> u64 \<Rightarrow> u64 \<Rightarrow> circle_range" where
  "set_stride r new_step rem =
     (let iseverything = (\<not> cr_isempty r \<and> cr_left r = cr_right r)
      in if new_step = cr_step r then r
         else (let a_right = cr_right r - cr_step r;
                   r1 = r\<lparr>cr_step := new_step\<rparr>
               in if new_step = 1 then r1
                  else (let l = cr_left r1 - cr_left r1 mod new_step + rem;
                            a_right' = a_right - a_right mod new_step + rem;
                            r2 = r1\<lparr>cr_left := l, cr_right := a_right' + new_step\<rparr>
                        in if \<not> iseverything \<and> cr_left r2 = cr_right r2
                           then r2\<lparr>cr_isempty := True\<rparr> else r2)))"

text \<open>The overlap decision at the end of \<open>circle_union\<close>.\<close>

definition union_overlap ::
  "circle_range \<Rightarrow> u64 \<Rightarrow> u64 \<Rightarrow> u64 \<Rightarrow> u64 \<Rightarrow> u64 \<Rightarrow> circle_range \<times> i32" where
  "union_overlap r new_step rem a_right op2left b_right =
     (let code = encode_range_overlaps (cr_left r) a_right op2left b_right;
          put = (\<lambda>l rt. (r\<lparr>cr_left := l, cr_right := rt, cr_step := new_step\<rparr>, 0))
      in if code = CHR ''a'' \<or> code = CHR ''f''
         then (if a_right = op2left then put (cr_left r) b_right
               else if cr_left r = b_right then put op2left a_right
               else (r, 2))
         else if code = CHR ''b'' then put (cr_left r) b_right
         else if code = CHR ''c'' then put (cr_left r) a_right
         else if code = CHR ''d'' then put op2left b_right
         else if code = CHR ''e'' then put op2left a_right
         else if code = CHR ''g'' then put rem rem
         else (r, - 1))"

definition circle_union :: "circle_range \<Rightarrow> circle_range \<Rightarrow> circle_range \<times> i32" where
  "circle_union r op2 =
     (if cr_isempty op2 then (r, 0)
      else if cr_isempty r then (op2, 0)
      else if cr_mask r \<noteq> cr_mask op2 then (r, 2)
      else if cr_step r < cr_step op2 \<and> \<not> is_single r then (r, 2)
      else if cr_step op2 < cr_step r \<and> \<not> is_single op2 then (r, 2)
      else
        (let new_step = (if cr_step r < cr_step op2 then cr_step op2 else cr_step r);
             a_right = (if cr_step r < cr_step op2 then (cr_left r + new_step) AND cr_mask r
                        else cr_right r);
             b_right = (if cr_step op2 < cr_step r then (cr_left op2 + new_step) AND cr_mask r
                        else cr_right op2);
             rem = (if new_step \<noteq> 1 then cr_left r mod new_step else 0)
         in if new_step \<noteq> 1 \<and> rem \<noteq> cr_left op2 mod new_step then (r, 2)
            else if cr_left r = a_right \<or> cr_left op2 = b_right
            then (r\<lparr>cr_left := rem, cr_right := rem, cr_step := new_step\<rparr>, 0)
            else union_overlap r new_step rem a_right (cr_left op2) b_right))"

definition new_stride_owned ::
  "u64 \<Rightarrow> u64 \<Rightarrow> u64 \<Rightarrow> u32 \<Rightarrow> u64 \<Rightarrow> u64 \<Rightarrow> u64 \<times> u64 \<times> bool" where
  "new_stride_owned m stp old_step rem myleft myright =
     (if old_step \<noteq> 1 \<and> (ucast (myleft mod old_step) :: u32) \<noteq> rem mod ucast old_step
      then (myleft, myright, True)
      else
        (let orig_order = (myleft < myright);
             left_rem = (ucast (myleft mod stp) :: u32);
             right_rem = (ucast (myright mod stp) :: u32);
             l = (if left_rem > rem then myleft + (ucast rem + stp - ucast left_rem)
                  else myleft + (ucast rem - ucast left_rem)) AND m;
             r = (if right_rem > rem then myright + (ucast rem + stp - ucast right_rem)
                  else myright + (ucast rem - ucast right_rem)) AND m
         in (l, r, orig_order \<noteq> (l < r))))"

definition new_domain_owned :: "u64 \<Rightarrow> u64 \<Rightarrow> u64 \<Rightarrow> u64 \<Rightarrow> u64 \<times> u64 \<times> bool" where
  "new_domain_owned new_mask new_step myleft myright =
     (let rem = (if new_step \<noteq> 1 then myleft mod new_step else 0)
      in if myleft > new_mask \<and> myright > new_mask
         then (if myleft < myright then (myleft, myright, True) else (rem, rem, False))
         else (let l = (if myleft > new_mask then rem else myleft);
                   r = (if myright > new_mask then rem else myright)
               in if l = r then (rem, rem, False) else (l, r, False)))"

text \<open>The part of \<open>circle_intersect\<close> after strides and domains agree: the overlap decision.\<close>

definition intersect_overlap ::
  "circle_range \<Rightarrow> u64 \<Rightarrow> u64 \<Rightarrow> u64 \<Rightarrow> u64 \<Rightarrow> circle_range \<times> i32" where
  "intersect_overlap r myleft myright op2left op2right =
     (let put = (\<lambda>l rt. r\<lparr>cr_left := l, cr_right := rt\<rparr>);
          put_nonempty = (\<lambda>l rt. if l = rt then r\<lparr>cr_left := l, cr_right := rt, cr_isempty := True\<rparr>
                                 else r\<lparr>cr_left := l, cr_right := rt\<rparr>)
      in if myleft = myright then (put op2left op2right, 0)
         else if op2left = op2right then (put myleft myright, 0)
         else
           (let code = encode_range_overlaps myleft myright op2left op2right
            in if code = CHR ''a'' \<or> code = CHR ''f'' then (r\<lparr>cr_isempty := True\<rparr>, 0)
               else if code = CHR ''b'' then (put_nonempty op2left myright, 0)
               else if code = CHR ''c'' then (put op2left op2right, 0)
               else if code = CHR ''d'' then (put myleft myright, 0)
               else if code = CHR ''e'' then (put_nonempty myleft op2right, 0)
               else if code = CHR ''g''
               then (if myleft = op2right then (put_nonempty op2left myright, 0)
                     else if op2left = myright then (put_nonempty myleft op2right, 0)
                     else (r, 2))
               else (r, 2)))"

definition circle_intersect :: "circle_range \<Rightarrow> circle_range \<Rightarrow> circle_range \<times> i32" where
  "circle_intersect r op2 =
     (if cr_isempty r then (r, 0)
      else if cr_isempty op2 then (r\<lparr>cr_isempty := True\<rparr>, 0)
      else
        (let new_step = (if cr_step r < cr_step op2 then cr_step op2 else cr_step r);
             (myleft, myright, e1) =
               (if cr_step r < cr_step op2
                then new_stride_owned (cr_mask r) new_step (cr_step r)
                       (ucast (cr_left op2 mod new_step)) (cr_left r) (cr_right r)
                else (cr_left r, cr_right r, False));
             (op2left, op2right, e2) =
               (if cr_step op2 < cr_step r
                then new_stride_owned (cr_mask op2) new_step (cr_step op2)
                       (ucast (cr_left r mod new_step)) (cr_left op2) (cr_right op2)
                else (cr_left op2, cr_right op2, False))
         in if e1 \<or> e2 then (r\<lparr>cr_isempty := True\<rparr>, 0)
            else
              (let new_mask = cr_mask r AND cr_mask op2;
                   (myleft', myright', e3) =
                     (if cr_mask r \<noteq> new_mask then new_domain_owned new_mask new_step myleft myright
                      else (myleft, myright, False));
                   (op2left', op2right', e4) =
                     (if cr_mask r = new_mask \<and> cr_mask op2 \<noteq> new_mask
                      then new_domain_owned new_mask new_step op2left op2right
                      else (op2left, op2right, False))
               in if e3 \<or> e4 then (r\<lparr>cr_isempty := True\<rparr>, 0)
                  else (case intersect_overlap r myleft' myright' op2left' op2right' of (r', retval) \<Rightarrow>
                          if retval \<noteq> 0 then (r', retval)
                          else (r'\<lparr>cr_mask := new_mask, cr_step := new_step\<rparr>, 0)))))"

definition intersect_wrapper :: "circle_range \<Rightarrow> circle_range \<Rightarrow> circle_range \<times> i32" where
  "intersect_wrapper r op2 =
     (case circle_intersect r op2 of (r', res) \<Rightarrow>
        if res \<noteq> 0 then (r', 2) else if cr_isempty r' then (r', 0) else (r', 1))"

definition union_wrapper :: "circle_range \<Rightarrow> circle_range \<Rightarrow> circle_range \<times> i32" where
  "union_wrapper r op2 =
     (if cr_isempty r then (op2, 0)
      else if cr_isempty op2 then (r, 0)
      else if is_full r then (r, 2)
      else if is_full op2 then (op2, 2)
      else if cr_step r \<noteq> 1 \<or> cr_step op2 \<noteq> 1 then (r, 1)
      else if cr_left r < cr_right r \<and> cr_left op2 < cr_right op2
      then (let adjacent1 = (cr_left op2 = cr_right r);
                adjacent2 = (cr_left r = cr_right op2);
                overlap = (contains_val r (cr_left op2)
                  \<or> contains_val r ((cr_right op2 - 1) AND cr_mask r)
                  \<or> contains_val op2 (cr_left r)
                  \<or> contains_val op2 ((cr_right r - 1) AND cr_mask r))
            in if overlap \<or> adjacent1 \<or> adjacent2
               then (let r' = r\<lparr>cr_left := min (cr_left r) (cr_left op2),
                                cr_right := max (cr_right r) (cr_right op2)\<rparr>
                     in if cr_left r' = 0 \<and> cr_right r' = cr_mask r + 1 then (r', 2) else (r', 0))
               else (r, 1))
      else (r, 1))"

definition minimal_container :: "circle_range \<Rightarrow> circle_range \<Rightarrow> u64 \<Rightarrow> circle_range \<times> bool" where
  "minimal_container r op2 max_step =
     (let (min_v, max_v) =
            (if cr_left r < cr_left op2 then (cr_left r, cr_left op2) else (cr_left op2, cr_left r));
          diff = max_v - min_v
      in if is_single r \<and> is_single op2 \<and> diff > 0 \<and> diff \<le> max_step
            \<and> leastsigbit_set diff = mostsigbit_set diff
         then (r\<lparr>cr_step := diff, cr_left := min_v, cr_right := (max_v + diff) AND cr_mask r\<rparr>, False)
         else
           (let a_right = cr_right r - cr_step r + 1;
                b_right = cr_right op2 - cr_step op2 + 1;
                r1 = r\<lparr>cr_step := 1, cr_mask := cr_mask r OR cr_mask op2\<rparr>;
                code = encode_range_overlaps (cr_left r) a_right (cr_left op2) b_right;
                r2 = (if code = CHR ''a''
                      then (let vacant1 = cr_left r + (cr_mask r1 - b_right) + 1;
                                vacant2 = cr_left op2 - a_right
                            in if vacant1 < vacant2
                               then r1\<lparr>cr_left := cr_left op2, cr_right := a_right\<rparr>
                               else r1\<lparr>cr_right := b_right\<rparr>)
                      else if code = CHR ''f''
                      then (let vacant1 = cr_left op2 + (cr_mask r1 - a_right) + 1;
                                vacant2 = cr_left r - b_right
                            in if vacant1 < vacant2
                               then r1\<lparr>cr_right := b_right\<rparr>
                               else r1\<lparr>cr_left := cr_left op2, cr_right := a_right\<rparr>)
                      else if code = CHR ''b'' then r1\<lparr>cr_right := b_right\<rparr>
                      else if code = CHR ''c'' then r1\<lparr>cr_right := a_right\<rparr>
                      else if code = CHR ''d'' then r1\<lparr>cr_left := cr_left op2, cr_right := b_right\<rparr>
                      else if code = CHR ''e'' then r1\<lparr>cr_left := cr_left op2, cr_right := a_right\<rparr>
                      else if code = CHR ''g'' then r1\<lparr>cr_left := 0, cr_right := 0\<rparr>
                      else r1);
                r3 = circle_normalize r2
            in (r3, cr_left r3 = cr_right r3)))"

definition get_max_value :: "circle_range \<Rightarrow> u64" where
  "get_max_value r = (cr_right r - cr_step r) AND cr_mask r"

end
