(* ===== verification/Circle_Arcs.thy ===== *)
theory Circle_Arcs
  imports Circle_Range
begin

text \<open>
  The geometry behind the overlap table of src/src/rangeutil.rs. An arc \<open>[l, r)\<close> of the circle
  is read through \<open>arc_mem\<close>, with equal bounds for the whole circle. The table \<open>ARRANGE\<close> is
  checked row by row, and each of its seven codes is given its meaning: whether the arcs
  are disjoint, nested, or overlap at one end, at the other, or at both.
\<close>

unbundle bit_operations_syntax

definition arc_mem :: "u64 \<Rightarrow> u64 \<Rightarrow> u64 \<Rightarrow> bool" where
  "arc_mem l r x \<longleftrightarrow> (if l = r then True else if l < r then l \<le> x \<and> x < r else l \<le> x \<or> x < r)"

text \<open>The table, entry by entry: 24 of its 64 rows are orders that four bounds can have.\<close>

lemma overlap_table:
  fixes a b c d :: u64
  assumes "a \<noteq> b" "c \<noteq> d"
  shows "\<not> a \<le> b \<and> \<not> a \<le> c \<and> \<not> a \<le> d \<and> \<not> b \<le> c \<and> \<not> b \<le> d \<and> \<not> c \<le> d \<and> encode_range_overlaps a b c d = CHR ''g''
    \<or> \<not> a \<le> b \<and> \<not> a \<le> c \<and> \<not> a \<le> d \<and> \<not> b \<le> c \<and> \<not> b \<le> d \<and> c \<le> d \<and> encode_range_overlaps a b c d = CHR ''c''
    \<or> \<not> a \<le> b \<and> \<not> a \<le> c \<and> \<not> a \<le> d \<and> \<not> b \<le> c \<and> b \<le> d \<and> c \<le> d \<and> encode_range_overlaps a b c d = CHR ''b''
    \<or> \<not> a \<le> b \<and> \<not> a \<le> c \<and> \<not> a \<le> d \<and> b \<le> c \<and> \<not> b \<le> d \<and> \<not> c \<le> d \<and> encode_range_overlaps a b c d = CHR ''e''
    \<or> \<not> a \<le> b \<and> \<not> a \<le> c \<and> \<not> a \<le> d \<and> b \<le> c \<and> b \<le> d \<and> \<not> c \<le> d \<and> encode_range_overlaps a b c d = CHR ''d''
    \<or> \<not> a \<le> b \<and> \<not> a \<le> c \<and> \<not> a \<le> d \<and> b \<le> c \<and> b \<le> d \<and> c \<le> d \<and> encode_range_overlaps a b c d = CHR ''a''
    \<or> \<not> a \<le> b \<and> \<not> a \<le> c \<and> a \<le> d \<and> \<not> b \<le> c \<and> b \<le> d \<and> c \<le> d \<and> encode_range_overlaps a b c d = CHR ''g''
    \<or> \<not> a \<le> b \<and> \<not> a \<le> c \<and> a \<le> d \<and> b \<le> c \<and> b \<le> d \<and> c \<le> d \<and> encode_range_overlaps a b c d = CHR ''e''
    \<or> \<not> a \<le> b \<and> a \<le> c \<and> \<not> a \<le> d \<and> b \<le> c \<and> \<not> b \<le> d \<and> \<not> c \<le> d \<and> encode_range_overlaps a b c d = CHR ''c''
    \<or> \<not> a \<le> b \<and> a \<le> c \<and> \<not> a \<le> d \<and> b \<le> c \<and> b \<le> d \<and> \<not> c \<le> d \<and> encode_range_overlaps a b c d = CHR ''b''
    \<or> \<not> a \<le> b \<and> a \<le> c \<and> a \<le> d \<and> b \<le> c \<and> b \<le> d \<and> \<not> c \<le> d \<and> encode_range_overlaps a b c d = CHR ''g''
    \<or> \<not> a \<le> b \<and> a \<le> c \<and> a \<le> d \<and> b \<le> c \<and> b \<le> d \<and> c \<le> d \<and> encode_range_overlaps a b c d = CHR ''c''
    \<or> a \<le> b \<and> \<not> a \<le> c \<and> \<not> a \<le> d \<and> \<not> b \<le> c \<and> \<not> b \<le> d \<and> \<not> c \<le> d \<and> encode_range_overlaps a b c d = CHR ''d''
    \<or> a \<le> b \<and> \<not> a \<le> c \<and> \<not> a \<le> d \<and> \<not> b \<le> c \<and> \<not> b \<le> d \<and> c \<le> d \<and> encode_range_overlaps a b c d = CHR ''f''
    \<or> a \<le> b \<and> \<not> a \<le> c \<and> a \<le> d \<and> \<not> b \<le> c \<and> \<not> b \<le> d \<and> c \<le> d \<and> encode_range_overlaps a b c d = CHR ''e''
    \<or> a \<le> b \<and> \<not> a \<le> c \<and> a \<le> d \<and> \<not> b \<le> c \<and> b \<le> d \<and> c \<le> d \<and> encode_range_overlaps a b c d = CHR ''d''
    \<or> a \<le> b \<and> a \<le> c \<and> \<not> a \<le> d \<and> \<not> b \<le> c \<and> \<not> b \<le> d \<and> \<not> c \<le> d \<and> encode_range_overlaps a b c d = CHR ''b''
    \<or> a \<le> b \<and> a \<le> c \<and> \<not> a \<le> d \<and> b \<le> c \<and> \<not> b \<le> d \<and> \<not> c \<le> d \<and> encode_range_overlaps a b c d = CHR ''f''
    \<or> a \<le> b \<and> a \<le> c \<and> a \<le> d \<and> \<not> b \<le> c \<and> \<not> b \<le> d \<and> \<not> c \<le> d \<and> encode_range_overlaps a b c d = CHR ''g''
    \<or> a \<le> b \<and> a \<le> c \<and> a \<le> d \<and> \<not> b \<le> c \<and> \<not> b \<le> d \<and> c \<le> d \<and> encode_range_overlaps a b c d = CHR ''c''
    \<or> a \<le> b \<and> a \<le> c \<and> a \<le> d \<and> \<not> b \<le> c \<and> b \<le> d \<and> c \<le> d \<and> encode_range_overlaps a b c d = CHR ''b''
    \<or> a \<le> b \<and> a \<le> c \<and> a \<le> d \<and> b \<le> c \<and> \<not> b \<le> d \<and> \<not> c \<le> d \<and> encode_range_overlaps a b c d = CHR ''e''
    \<or> a \<le> b \<and> a \<le> c \<and> a \<le> d \<and> b \<le> c \<and> b \<le> d \<and> \<not> c \<le> d \<and> encode_range_overlaps a b c d = CHR ''d''
    \<or> a \<le> b \<and> a \<le> c \<and> a \<le> d \<and> b \<le> c \<and> b \<le> d \<and> c \<le> d \<and> encode_range_overlaps a b c d = CHR ''a''"
  using assms
  by (cases "a \<le> b"; cases "a \<le> c"; cases "a \<le> d"; cases "b \<le> c"; cases "b \<le> d"; cases "c \<le> d";
    (order | simp add: encode_range_overlaps_def ARRANGE_def))


text \<open>What each code says of the two arcs.\<close>

lemma overlap_exhaust:
  assumes "a \<noteq> b" "c \<noteq> d"
  shows "encode_range_overlaps a b c d \<in> {CHR ''a'', CHR ''b'', CHR ''c'', CHR ''d'', CHR ''e'', CHR ''f'', CHR ''g''}"
  using overlap_table [OF assms] by (elim disjE; simp)

lemma overlap_b:
  assumes "a \<noteq> b" "c \<noteq> d" "encode_range_overlaps a b c d = CHR ''b''"
  shows "arc_mem a d x = (arc_mem a b x \<or> arc_mem c d x)"
    and "c = b \<Longrightarrow> \<not> (arc_mem a b x \<and> arc_mem c d x)"
    and "c \<noteq> b \<Longrightarrow> arc_mem c b x = (arc_mem a b x \<and> arc_mem c d x)"
  using overlap_table [OF assms(1,2)] assms(1,2) unfolding assms(3) arc_mem_def
  by (simp; elim disjE; auto simp: not_le)+

lemma overlap_disjoint:
  assumes "a \<noteq> b" "c \<noteq> d" "encode_range_overlaps a b c d = CHR ''a'' \<or> encode_range_overlaps a b c d = CHR ''f''"
  shows "\<not> (arc_mem a b x \<and> arc_mem c d x)"
    and "b = c \<Longrightarrow> arc_mem a d x = (arc_mem a b x \<or> arc_mem c d x)"
    and "a = d \<Longrightarrow> arc_mem c b x = (arc_mem a b x \<or> arc_mem c d x)"
  using assms(3) overlap_table [OF assms(1,2)] assms(1,2) unfolding arc_mem_def
  by (elim disjE; simp; elim disjE; auto simp: not_le)+

lemma overlap_c:
  assumes "a \<noteq> b" "c \<noteq> d" "encode_range_overlaps a b c d = CHR ''c''"
  shows "arc_mem c d x \<Longrightarrow> arc_mem a b x"
  using overlap_table [OF assms(1,2)] assms(1,2) unfolding assms(3) arc_mem_def
  by (simp; elim disjE; auto simp: not_le split: if_splits)

lemma overlap_d:
  assumes "a \<noteq> b" "c \<noteq> d" "encode_range_overlaps a b c d = CHR ''d''"
  shows "arc_mem a b x \<Longrightarrow> arc_mem c d x"
  using overlap_table [OF assms(1,2)] assms(1,2) unfolding assms(3) arc_mem_def
  by (simp; elim disjE; auto simp: not_le split: if_splits)

lemma overlap_e:
  assumes "a \<noteq> b" "c \<noteq> d" "encode_range_overlaps a b c d = CHR ''e''"
  shows "arc_mem c b x = (arc_mem a b x \<or> arc_mem c d x)"
    and "a = d \<Longrightarrow> \<not> (arc_mem a b x \<and> arc_mem c d x)"
    and "a \<noteq> d \<Longrightarrow> arc_mem a d x = (arc_mem a b x \<and> arc_mem c d x)"
  using overlap_table [OF assms(1,2)] assms(1,2) unfolding assms(3) arc_mem_def
  by (simp; elim disjE; auto simp: not_le)+

lemma overlap_g:
  assumes "a \<noteq> b" "c \<noteq> d" "encode_range_overlaps a b c d = CHR ''g''"
  shows "arc_mem a b x \<or> arc_mem c d x"
    and "a = d \<Longrightarrow> c \<noteq> b \<and> arc_mem c b x = (arc_mem a b x \<and> arc_mem c d x)"
    and "c = b \<Longrightarrow> a \<noteq> d \<and> arc_mem a d x = (arc_mem a b x \<and> arc_mem c d x)"
  using overlap_table [OF assms(1,2)] assms(1,2) unfolding assms(3) arc_mem_def
  by (simp; elim disjE; auto simp: not_le)+

end
