(* ===== verification/Circle_Sets.thy ===== *)
theory Circle_Sets
  imports Circle_Arcs
begin

text \<open>
  Circular ranges as sets of values. \<open>circle_mem r x\<close> says that \<open>x\<close> is a value of the range and
  \<open>circle_wf\<close> is the invariant of the type: the mask is a low mask, the step a power of two that
  divides the domain, and the bounds lie in the domain and agree modulo the step. The
  theorems say what the set operations of src/src/rangeutil.rs compute.
\<close>

unbundle bit_operations_syntax

section \<open>Ranges as sets\<close>

definition circle_mem :: "circle_range \<Rightarrow> u64 \<Rightarrow> bool" where
  "circle_mem r x \<longleftrightarrow> \<not> cr_isempty r \<and> x \<le> cr_mask r \<and> x mod cr_step r = cr_left r mod cr_step r
     \<and> arc_mem (cr_left r) (cr_right r) x"

definition circle_wf :: "circle_range \<Rightarrow> bool" where
  "circle_wf r \<longleftrightarrow> (\<exists>n \<le> 64. \<exists>k \<le> n. k < 64 \<and> cr_mask r = mask n \<and> cr_step r = 2 ^ k)
     \<and> (\<not> cr_isempty r \<longrightarrow> cr_left r \<le> cr_mask r \<and> cr_right r \<le> cr_mask r
          \<and> cr_left r mod cr_step r = cr_right r mod cr_step r)"

lemma circle_wfI:
  assumes "n \<le> 64" "k \<le> n" "k < 64" "cr_mask r = mask n" "cr_step r = 2 ^ k"
    and "\<not> cr_isempty r \<Longrightarrow> cr_left r \<le> cr_mask r \<and> cr_right r \<le> cr_mask r
          \<and> cr_left r mod cr_step r = cr_right r mod cr_step r"
  shows "circle_wf r"
  using assms by (auto simp: circle_wf_def)

lemma circle_wfE:
  assumes "circle_wf r"
  obtains n k where "n \<le> 64" "k \<le> n" "k < 64" "cr_mask r = mask n" "cr_step r = 2 ^ k"
    "\<not> cr_isempty r \<Longrightarrow> cr_left r \<le> cr_mask r"  "\<not> cr_isempty r \<Longrightarrow> cr_right r \<le> cr_mask r"
    "\<not> cr_isempty r \<Longrightarrow> cr_left r mod cr_step r = cr_right r mod cr_step r"
  using assms by (auto simp: circle_wf_def)

lemma uint_pow2: "k < 64 \<Longrightarrow> uint (2 ^ k :: u64) = 2 ^ k"
  by (rule uint_2p) (simp add: word_gt_0)

lemma phase_iff: "k < 64 \<Longrightarrow> (a :: u64) mod 2 ^ k = b mod 2 ^ k \<longleftrightarrow> uint a mod 2 ^ k = uint b mod 2 ^ k"
  by (simp add: word_uint_eq_iff uint_mod_distrib uint_pow2)

lemma phase_diff: 
  assumes "k < 64"
  shows "((a :: u64) - b) mod 2 ^ k = 0 \<longleftrightarrow> a mod 2 ^ k = b mod 2 ^ k"
proof -
  have "(a - b) mod 2 ^ k = 0 \<longleftrightarrow> uint (a - b) mod 2 ^ k = 0"
    using assms by (simp add: word_uint_eq_iff uint_mod_distrib uint_pow2)
  also have "uint (a - b) mod 2 ^ k = (uint a - uint b) mod 2 ^ k"
    using assms mod_pow2_mod [of k 64 "uint a - uint b"] by (simp add: uint_minus_u64)
  also have "\<dots> = 0 \<longleftrightarrow> uint a mod 2 ^ k = uint b mod 2 ^ k"
    by (simp add: mod_eq_dvd_iff mod_eq_0_iff_dvd)
  finally show ?thesis using phase_iff [OF assms] by simp
qed

lemma step_one_phase [simp]: "(x :: u64) mod 1 = 0"
  by simp

lemma contains_val_mem:
  assumes "circle_wf r"
  shows "contains_val r v \<longleftrightarrow> circle_mem r (v AND cr_mask r)"
proof -
  from assms obtain n k where nk: "n \<le> 64" "k \<le> n" "k < 64" "cr_mask r = mask n" "cr_step r = 2 ^ k"
    by (elim circle_wfE)
  have le: "v AND cr_mask r \<le> cr_mask r" by (rule word_and_le1)
  have ph: "((v AND cr_mask r) - cr_left r) mod cr_step r \<noteq> 0 \<longleftrightarrow>
      (v AND cr_mask r) mod cr_step r \<noteq> cr_left r mod cr_step r"
    unfolding nk(5) by (simp add: phase_diff [OF nk(3)])
  show ?thesis
    using le ph by (cases "cr_step r = 1")
      (auto simp: contains_val_def circle_mem_def is_full_def arc_mem_def Let_def)
qed

lemma low_mask_le: "n \<le> 64 \<Longrightarrow> mask n = (m :: u64) \<Longrightarrow> x AND m \<le> m"
  by (simp add: word_and_le1)

lemma circle_mem_empty [simp]: "cr_isempty r \<Longrightarrow> \<not> circle_mem r x"
  by (simp add: circle_mem_def)

lemma complement_mem:
  assumes "circle_wf r" "cr_step r = 1"
  shows "circle_mem (complement r) x \<longleftrightarrow> x \<le> cr_mask r \<and> \<not> circle_mem r x"
  using assms(2) by (auto simp: complement_def circle_mem_def arc_mem_def not_le)

lemma complement_wf:
  assumes "circle_wf r"
  shows "circle_wf (complement r)"
  using assms by (elim circle_wfE, intro circle_wfI) (auto simp: complement_def)


lemma dvd_small: "(s :: int) dvd d \<Longrightarrow> \<bar>d\<bar> < s \<Longrightarrow> d = 0"
  using dvd_imp_le_int [of d s] by linarith

lemma arc_mem_uint: "arc_mem l r x \<longleftrightarrow> (if uint l = uint r then True
    else if uint l < uint r then uint l \<le> uint x \<and> uint x < uint r else uint l \<le> uint x \<or> uint x < uint r)"
  by (simp add: arc_mem_def word_le_def word_less_def word_uint_eq_iff)

lemma uint_step_mask:
  assumes "n \<le> 64" "k \<le> n" "k < 64" "l \<le> mask n"
  shows "uint ((l + 2 ^ k) AND mask n :: u64) =
    (if uint l + 2 ^ k < 2 ^ n then uint l + 2 ^ k else uint l + 2 ^ k - 2 ^ n)"
proof -
  have l: "uint l < 2 ^ n" using assms by (simp add: le_mask_u64_iff)
  have le: "(2::int) ^ k \<le> 2 ^ n" using assms(2) by (rule power_increasing) simp
  have "uint ((l + 2 ^ k) AND mask n) = (uint l + 2 ^ k) mod 2 ^ n"
    using assms(1,3) by (simp add: uint_plus_and_mask uint_pow2)
  moreover have "\<not> uint l + 2 ^ k < 2 ^ n \<Longrightarrow> (uint l + 2 ^ k) mod 2 ^ n = uint l + 2 ^ k - 2 ^ n"
    by (rule mod_minus_once) (use l le in linarith)+
  moreover have "uint l + 2 ^ k < 2 ^ n \<Longrightarrow> (uint l + 2 ^ k) mod 2 ^ n = uint l + 2 ^ k"
    by (rule mod_pos_pos_trivial) simp_all
  ultimately show ?thesis by simp
qed

lemma arc_single:
  assumes "n \<le> 64" "k \<le> n" "k < 64" "l \<le> mask n" "x \<le> mask n"
    and ph: "(x :: u64) mod 2 ^ k = l mod 2 ^ k"
  shows "arc_mem l ((l + 2 ^ k) AND mask n) x \<longleftrightarrow> x = l"
proof -
  let ?s = "2 ^ k :: int" and ?N = "2 ^ n :: int"
  have b: "uint l < ?N" "uint x < ?N" using assms by (simp_all add: le_mask_u64_iff)
  have d: "?s dvd uint x - uint l" using ph assms(3) by (simp add: phase_iff mod_eq_dvd_iff)
  moreover have sN: "?s dvd ?N" using assms(2) by (rule le_imp_power_dvd)
  ultimately have dN: "?s dvd uint x + ?N - uint l" by (metis add_diff_eq dvd_add add.commute)
  have s: "0 < ?s" by simp
  have "x = l" if "arc_mem l ((l + 2 ^ k) AND mask n) x"
  proof (rule ccontr)
    assume "x \<noteq> l"
    then have ne: "uint x \<noteq> uint l" by (simp add: word_uint_eq_iff)
    then have "\<not> \<bar>uint x - uint l\<bar> < ?s" using dvd_small [OF d] by auto
    moreover have "\<not> \<bar>uint x + ?N - uint l\<bar> < ?s"
    proof
      assume "\<bar>uint x + ?N - uint l\<bar> < ?s"
      from dvd_small [OF dN this] show False using b uint_ge_0 [of x] by linarith
    qed
    ultimately show False
      using that b uint_ge_0 [of x] uint_ge_0 [of l] unfolding arc_mem_uint uint_step_mask [OF assms(1-4)]
      by (auto split: if_splits)
  qed
  moreover have "arc_mem l ((l + 2 ^ k) AND mask n) l" by (auto simp: arc_mem_def)
  ultimately show ?thesis by blast
qed

lemma mask_u64_inj: "n \<le> 64 \<Longrightarrow> m \<le> 64 \<Longrightarrow> (mask n :: u64) = mask m \<longleftrightarrow> n = m"
  using uint_mask_u64 [of n] uint_mask_u64 [of m] by (auto simp: word_uint_eq_iff)

lemma pow2_u64_less: "j < 64 \<Longrightarrow> k < 64 \<Longrightarrow> (2 ^ j :: u64) < 2 ^ k \<longleftrightarrow> j < k"
  by (simp add: word_less_def uint_pow2)

lemma phase_step:
  assumes "n \<le> 64" "k \<le> n" "k < 64" "l \<le> mask n"
  shows "((l + 2 ^ k) AND mask n :: u64) mod 2 ^ k = l mod 2 ^ k"
proof -
  have "(2::int) ^ k dvd 2 ^ n" using assms(2) by (rule le_imp_power_dvd)
  then have "(2::int) ^ k dvd uint ((l + 2 ^ k) AND mask n) - uint l"
    unfolding uint_step_mask [OF assms] by (auto intro: dvd_diff)
  then show ?thesis using assms(3) by (simp add: phase_iff mod_eq_dvd_iff)
qed

text \<open>Two ranges of one stride, phase and domain, as the overlap decisions see them.\<close>

lemma restride_single:
  assumes "circle_wf r" "is_single r" "cr_mask r = mask n" "n \<le> 64" "k \<le> n" "k < 64"
  shows "circle_mem r x \<longleftrightarrow> x \<le> mask n \<and> x mod 2 ^ k = cr_left r mod 2 ^ k
    \<and> arc_mem (cr_left r) ((cr_left r + 2 ^ k) AND mask n) x"
proof -
  from assms(1) obtain n' k' where nk: "n' \<le> 64" "k' \<le> n'" "k' < 64" "cr_mask r = mask n'" "cr_step r = 2 ^ k'"
      "\<not> cr_isempty r \<Longrightarrow> cr_left r \<le> cr_mask r"
    by (elim circle_wfE) blast
  have n': "n' = n" using mask_u64_inj [of n n'] assms(3,4) nk by simp
  have ne: "\<not> cr_isempty r" and rt: "cr_right r = (cr_left r + 2 ^ k') AND mask n"
    using assms(2,3) nk(5) by (simp_all add: is_single_def)
  have l: "cr_left r \<le> mask n" using nk(6) ne assms(3) by simp
  have "circle_mem r x \<longleftrightarrow> x = cr_left r"
    using arc_single [of n k' "cr_left r" x] nk l ne rt assms(3) n'
    by (auto simp: circle_mem_def arc_mem_def)
  moreover have "(x \<le> mask n \<and> x mod 2 ^ k = cr_left r mod 2 ^ k
    \<and> arc_mem (cr_left r) ((cr_left r + 2 ^ k) AND mask n) x) \<longleftrightarrow> x = cr_left r"
    using arc_single [of n k "cr_left r" x] assms l by (auto simp: arc_mem_def)
  ultimately show ?thesis by simp
qed

lemma union_overlap_spec:
  assumes "cr_left r \<noteq> b" "c \<noteq> d" "union_overlap r s rem b c d = (r', code)"
  shows "code = 2 \<and> r' = r \<or> code = 0
    \<and> cr_step r' = s \<and> cr_mask r' = cr_mask r \<and> cr_isempty r' = cr_isempty r
    \<and> cr_left r' \<in> {cr_left r, c, rem} \<and> cr_right r' \<in> {b, d, rem}
    \<and> (\<forall>x. arc_mem (cr_left r') (cr_right r') x \<longleftrightarrow> arc_mem (cr_left r) b x \<or> arc_mem c d x)"
proof -
  let ?e = "encode_range_overlaps (cr_left r) b c d"
  note ov = overlap_exhaust [OF assms(1,2)]
  consider "?e = CHR ''a'' \<or> ?e = CHR ''f''" | "?e = CHR ''b''" | "?e = CHR ''c''" | "?e = CHR ''d''"
    | "?e = CHR ''e''" | "?e = CHR ''g''" using ov by blast
  then show ?thesis
  proof cases
    case 1
    then consider "b = c" "r' = r\<lparr>cr_left := cr_left r, cr_right := d, cr_step := s\<rparr>" "code = 0"
      | "cr_left r = d" "r' = r\<lparr>cr_left := c, cr_right := b, cr_step := s\<rparr>" "code = 0" | "r' = r" "code = 2"
      using assms(3) by (auto simp: union_overlap_def split: if_splits)
    then show ?thesis by cases (simp_all add: overlap_disjoint [OF assms(1,2) 1])
  next
    case 2
    then have "r' = r\<lparr>cr_right := d, cr_step := s\<rparr>" "code = 0"
      using assms(3) by (simp_all add: union_overlap_def)
    then show ?thesis by (simp add: overlap_b(1) [OF assms(1,2) 2])
  next
    case 3
    then have "r' = r\<lparr>cr_right := b, cr_step := s\<rparr>" "code = 0"
      using assms(3) by (simp_all add: union_overlap_def)
    then show ?thesis using overlap_c [OF assms(1,2) 3] by simp blast
  next
    case 4
    then have "r' = r\<lparr>cr_left := c, cr_right := d, cr_step := s\<rparr>" "code = 0"
      using assms(3) by (simp_all add: union_overlap_def)
    then show ?thesis using overlap_d [OF assms(1,2) 4] by simp blast
  next
    case 5
    then have "r' = r\<lparr>cr_left := c, cr_right := b, cr_step := s\<rparr>" "code = 0"
      using assms(3) by (simp_all add: union_overlap_def)
    then show ?thesis by (simp add: overlap_e(1) [OF assms(1,2) 5])
  next
    case 6
    then have "r' = r\<lparr>cr_left := rem, cr_right := rem, cr_step := s\<rparr>" "code = 0"
      using assms(3) by (simp_all add: union_overlap_def)
    then show ?thesis using overlap_g(1) [OF assms(1,2) 6] by (simp add: arc_mem_def [of rem rem])
  qed
qed

lemma mod_le_u64: "(x :: u64) mod m \<le> x"
  by (simp add: word_le_def uint_mod_distrib zmod_le_nonneg_dividend)

lemma mod_mod_u64 [simp]: "(x :: u64) mod m mod m = x mod m"
  by (simp add: word_uint_eq_iff uint_mod_distrib)

text \<open>A range seen at a stride \<open>2 ^ i\<close> at least its own, as both binary operations see it.\<close>

definition stride_end :: "circle_range \<Rightarrow> u64 \<Rightarrow> u64" where
  "stride_end r s = (if cr_step r < s then (cr_left r + s) AND cr_mask r else cr_right r)"

lemma stride_view:
  assumes "circle_wf r" "\<not> cr_isempty r" "cr_mask r = mask n" "n \<le> 64" "i \<le> n" "i < 64"
    and "cr_step r \<le> 2 ^ i" "cr_step r = 2 ^ i \<or> is_single r"
  shows "cr_left r \<le> mask n" "stride_end r (2 ^ i) \<le> mask n"
    "stride_end r (2 ^ i) mod 2 ^ i = cr_left r mod 2 ^ i"
    "circle_mem r x \<longleftrightarrow> x \<le> mask n \<and> x mod 2 ^ i = cr_left r mod 2 ^ i
      \<and> arc_mem (cr_left r) (stride_end r (2 ^ i)) x"
proof -
  have wf: "cr_left r \<le> mask n" "cr_right r \<le> mask n" "cr_left r mod cr_step r = cr_right r mod cr_step r"
    using assms(1-3) by (auto simp: circle_wf_def)
  show "cr_left r \<le> mask n" by (rule wf)
  have "stride_end r (2 ^ i) \<le> mask n \<and> stride_end r (2 ^ i) mod 2 ^ i = cr_left r mod 2 ^ i
    \<and> (circle_mem r x \<longleftrightarrow> x \<le> mask n \<and> x mod 2 ^ i = cr_left r mod 2 ^ i
      \<and> arc_mem (cr_left r) (stride_end r (2 ^ i)) x)"
  proof (cases "cr_step r = 2 ^ i")
    case True
    then have "stride_end r (2 ^ i) = cr_right r" by (simp add: stride_end_def)
    with wf True assms(2,3) show ?thesis by (simp add: circle_mem_def)
  next
    case False
    then have e: "stride_end r (2 ^ i) = (cr_left r + 2 ^ i) AND mask n" and "is_single r"
      using assms(7,8) by (simp_all add: stride_end_def assms(3) order.strict_iff_order)
    then show ?thesis
      unfolding e using phase_step [OF assms(4-6) wf(1)] restride_single [OF assms(1) _ assms(3-6)]
      by (simp add: word_and_le1)
  qed
  then show "stride_end r (2 ^ i) \<le> mask n" "stride_end r (2 ^ i) mod 2 ^ i = cr_left r mod 2 ^ i"
    "circle_mem r x \<longleftrightarrow> x \<le> mask n \<and> x mod 2 ^ i = cr_left r mod 2 ^ i
      \<and> arc_mem (cr_left r) (stride_end r (2 ^ i)) x"
    by blast+
qed

lemma wf_common_stride:
  assumes "circle_wf r" "circle_wf op2" "cr_mask r = cr_mask op2"
  obtains n i where "n \<le> 64" "i \<le> n" "i < 64" "cr_mask r = mask n"
    "(if cr_step r < cr_step op2 then cr_step op2 else cr_step r) = 2 ^ i"
    "cr_step r \<le> 2 ^ i" "cr_step op2 \<le> 2 ^ i"
proof -
  from assms(1) obtain n j where 1: "n \<le> 64" "j \<le> n" "j < 64" "cr_mask r = mask n" "cr_step r = 2 ^ j"
    by (elim circle_wfE) blast
  from assms(2) obtain n' k where 2: "n' \<le> 64" "k \<le> n'" "k < 64" "cr_mask op2 = mask n'" "cr_step op2 = 2 ^ k"
    by (elim circle_wfE) blast
  have n': "n' = n" using 1 2 assms(3) mask_u64_inj [of n n'] by simp
  show thesis
    by (rule that [of n "max j k"])
      (use 1 2 n' in \<open>auto simp: pow2_u64_less max_def not_less [symmetric]\<close>)
qed

lemma circle_union_unfold:
  assumes "\<not> cr_isempty r" "\<not> cr_isempty op2" "cr_mask r = cr_mask op2"
    and "(if cr_step r < cr_step op2 then cr_step op2 else cr_step r) = s"
    and "cr_step r = s \<or> is_single r" "cr_step op2 = s \<or> is_single op2"
    and "rem = (if s \<noteq> 1 then cr_left r mod s else 0)"
  shows "circle_union r op2 =
    (if s \<noteq> 1 \<and> rem \<noteq> cr_left op2 mod s then (r, 2)
     else if cr_left r = stride_end r s \<or> cr_left op2 = stride_end op2 s
     then (r\<lparr>cr_left := rem, cr_right := rem, cr_step := s\<rparr>, 0)
     else union_overlap r s rem (stride_end r s) (cr_left op2) (stride_end op2 s))"
proof (cases "cr_step r" "cr_step op2" rule: linorder_cases)
  case less
  then have "s = cr_step op2" "\<not> cr_step op2 < cr_step r" "is_single r" using assms(4,5) by auto
  with less assms(1-3,7) show ?thesis by (auto simp: circle_union_def stride_end_def Let_def)
next
  case equal
  then have "s = cr_step op2" using assms(4) by simp
  with equal assms(1-3,7) show ?thesis by (auto simp: circle_union_def stride_end_def Let_def)
next
  case greater
  then have n: "\<not> cr_step r < cr_step op2" by (rule less_not_sym)
  with greater have "s = cr_step r" "\<not> cr_step r < cr_step op2" "is_single op2" using assms(4,6) by auto
  with greater assms(1-3,7) show ?thesis by (auto simp: circle_union_def stride_end_def Let_def)
qed

lemma circle_union_spec:
  assumes "circle_wf r" "circle_wf op2"
  shows "case circle_union r op2 of (r', code) \<Rightarrow>
    if code = 0 then circle_wf r' \<and> (\<forall>x. circle_mem r' x \<longleftrightarrow> circle_mem r x \<or> circle_mem op2 x)
    else code = 2 \<and> r' = r"
proof (cases "cr_isempty r \<or> cr_isempty op2 \<or> cr_mask r \<noteq> cr_mask op2
    \<or> cr_step r < cr_step op2 \<and> \<not> is_single r \<or> cr_step op2 < cr_step r \<and> \<not> is_single op2")
  case True
  then show ?thesis using assms by (auto simp: circle_union_def)
next
  case False
  then have m: "cr_mask r = cr_mask op2" and ne: "\<not> cr_isempty r" "\<not> cr_isempty op2" by auto
  obtain n i where ni: "n \<le> 64" "i \<le> n" "i < 64" "cr_mask r = mask n"
    "(if cr_step r < cr_step op2 then cr_step op2 else cr_step r) = 2 ^ i"
    "cr_step r \<le> 2 ^ i" "cr_step op2 \<le> 2 ^ i"
    using wf_common_stride [OF assms m] by blast
  define s where "s = (2 ^ i :: u64)"
  have sg: "cr_step r = 2 ^ i \<or> is_single r" "cr_step op2 = 2 ^ i \<or> is_single op2"
    using False ni(5) by (auto split: if_splits)
  note A = stride_view [OF assms(1) ne(1) ni(4,1-3,6) sg(1), folded s_def]
  note B = stride_view [OF assms(2) ne(2) ni(4)[unfolded m] ni(1-3,7) sg(2), folded s_def]
  define rem where "rem = (if s \<noteq> 1 then cr_left r mod s else 0)"
  note eq = circle_union_unfold [OF ne m ni(5) sg, folded s_def, OF rem_def]
  show ?thesis
  proof (cases "s \<noteq> 1 \<and> rem \<noteq> cr_left op2 mod s")
    case True
    then show ?thesis unfolding eq by simp
  next
    case ph: False
    have phase: "cr_left op2 mod s = cr_left r mod s" "rem mod s = cr_left r mod s" "rem \<le> mask n"
      using ph A(1) mod_le_u64 [of "cr_left r" s] unfolding rem_def by (auto split: if_splits)
    obtain r' code where r': "circle_union r op2 = (r', code)" by fastforce
    have "code = 2 \<and> r' = r \<or> code = 0
      \<and> cr_step r' = s \<and> cr_mask r' = cr_mask r \<and> cr_isempty r' = cr_isempty r
      \<and> cr_left r' \<in> {cr_left r, cr_left op2, rem} \<and> cr_right r' \<in> {stride_end r s, stride_end op2 s, rem}
      \<and> (\<forall>x. arc_mem (cr_left r') (cr_right r') x \<longleftrightarrow>
            arc_mem (cr_left r) (stride_end r s) x \<or> arc_mem (cr_left op2) (stride_end op2 s) x)"
    proof (cases "cr_left r = stride_end r s \<or> cr_left op2 = stride_end op2 s")
      case True
      then show ?thesis using r' ph unfolding eq by (auto simp: arc_mem_def)
    next
      case False
      then have "union_overlap r s rem (stride_end r s) (cr_left op2) (stride_end op2 s) = (r', code)"
        using r' ph unfolding eq by auto
      with union_overlap_spec show ?thesis using False by blast
    qed
    then consider "code = 2" "r' = r" | (exact) "code = 0" "cr_step r' = s" "cr_mask r' = cr_mask r" "\<not> cr_isempty r'"
      "cr_left r' \<in> {cr_left r, cr_left op2, rem}" "cr_right r' \<in> {stride_end r s, stride_end op2 s, rem}"
      "\<And>x. arc_mem (cr_left r') (cr_right r') x \<longleftrightarrow>
            arc_mem (cr_left r) (stride_end r s) x \<or> arc_mem (cr_left op2) (stride_end op2 s) x"
      using ne(1) by blast
    then show ?thesis
    proof cases
      case exact
      have lr: "cr_left r' \<le> mask n" "cr_right r' \<le> mask n" "cr_left r' mod s = cr_left r mod s"
        "cr_right r' mod s = cr_left r mod s"
        using exact(5,6) A(1-3) B(1-3) phase by auto
      have "circle_wf r'"
        by (rule circle_wfI [of n i]) (use lr exact ni in \<open>simp_all add: s_def\<close>)
      moreover have "circle_mem r' x \<longleftrightarrow> circle_mem r x \<or> circle_mem op2 x" for x
        unfolding A(4) B(4) circle_mem_def [of r'] exact(2,3,7) lr(3) ni(4) phase(1) using exact(4) by blast
      ultimately show ?thesis unfolding r' using exact(1) by simp
    qed (simp add: r')
  qed
qed


lemma circle_union_wf:
  assumes "circle_wf r" "circle_wf op2"
  shows "circle_wf (fst (circle_union r op2))"
  using circle_union_spec [OF assms] assms(1) by (auto split: prod.splits if_splits)

text \<open>
  Property C17. When \<open>circle_union\<close> answers 0 its result is well formed and holds exactly the values
  of the two ranges; any other answer is 2 and leaves the range as it was.
\<close>

theorem circle_union_exact:
  assumes "circle_wf r" "circle_wf op2"
  shows "case circle_union r op2 of (r', code) \<Rightarrow>
    if code = 0 then circle_wf r' \<and> (\<forall>x. circle_mem r' x \<longleftrightarrow> circle_mem r x \<or> circle_mem op2 x)
    else code = 2 \<and> r' = r"
  by (rule circle_union_spec [OF assms])

lemma intersect_overlap_spec:
  assumes "intersect_overlap r a b c d = (r', code)" "\<not> cr_isempty r"
  shows "code = 2 \<and> r' = r \<or> code = 0 \<and> cr_mask r' = cr_mask r
    \<and> (\<not> cr_isempty r' \<longrightarrow> cr_left r' \<in> {a, c} \<and> cr_right r' \<in> {b, d})
    \<and> (\<forall>x. \<not> cr_isempty r' \<and> arc_mem (cr_left r') (cr_right r') x \<longleftrightarrow> arc_mem a b x \<and> arc_mem c d x)"
proof (cases "a = b \<or> c = d")
  case True
  then have "r' = (if a = b then r\<lparr>cr_left := c, cr_right := d\<rparr> else r\<lparr>cr_left := a, cr_right := b\<rparr>)" "code = 0"
    using assms(1) by (cases "a = b"; simp add: intersect_overlap_def)+
  with True assms(2) show ?thesis by (auto simp: arc_mem_def [of b b] arc_mem_def [of d d])
next
  case False
  then have ne: "a \<noteq> b" "c \<noteq> d" by auto
  let ?e = "encode_range_overlaps a b c d"
  consider "?e = CHR ''a'' \<or> ?e = CHR ''f''" | "?e = CHR ''b''" | "?e = CHR ''c''" | "?e = CHR ''d''"
    | "?e = CHR ''e''" | "?e = CHR ''g''" using overlap_exhaust [OF ne] by blast
  then show ?thesis
  proof cases
    case 1
    then have "r' = r\<lparr>cr_isempty := True\<rparr>" "code = 0"
      using assms(1) ne by (auto simp: intersect_overlap_def)
    then show ?thesis using overlap_disjoint(1) [OF ne 1] by simp
  next
    case 2
    then have "r' = (if c = b then r\<lparr>cr_left := c, cr_right := b, cr_isempty := True\<rparr>
        else r\<lparr>cr_left := c, cr_right := b\<rparr>)" "code = 0"
      using assms(1) ne by (auto simp: intersect_overlap_def)
    then show ?thesis using overlap_b(2,3) [OF ne 2] assms(2) by simp
  next
    case 3
    then have "r' = r\<lparr>cr_left := c, cr_right := d\<rparr>" "code = 0"
      using assms(1) ne by (auto simp: intersect_overlap_def)
    then show ?thesis using overlap_c [OF ne 3] assms(2) by simp blast
  next
    case 4
    then have "r' = r\<lparr>cr_left := a, cr_right := b\<rparr>" "code = 0"
      using assms(1) ne by (auto simp: intersect_overlap_def)
    then show ?thesis using overlap_d [OF ne 4] assms(2) by simp blast
  next
    case 5
    then have "r' = (if a = d then r\<lparr>cr_left := a, cr_right := d, cr_isempty := True\<rparr>
        else r\<lparr>cr_left := a, cr_right := d\<rparr>)" "code = 0"
      using assms(1) ne by (auto simp: intersect_overlap_def)
    then show ?thesis using overlap_e(2,3) [OF ne 5] assms(2) by simp
  next
    case 6
    note g = overlap_g(2,3) [OF ne 6]
    then consider "a = d" "c \<noteq> b" "r' = r\<lparr>cr_left := c, cr_right := b\<rparr>" "code = 0"
      | "c = b" "a \<noteq> d" "r' = r\<lparr>cr_left := a, cr_right := d\<rparr>" "code = 0" | "r' = r" "code = 2"
      using assms(1) ne 6 by (auto simp: intersect_overlap_def split: if_splits)
    then show ?thesis using g assms(2) by cases simp_all
  qed
qed

lemma new_domain_sound:
  assumes "new_domain_owned m s l r = (l', r', e)" "x \<le> m" "x mod s = l mod s" "arc_mem l r x"
  shows "\<not> e \<and> arc_mem l' r' x"
proof -
  have "l mod s \<le> x" "l mod s \<le> l" using mod_le_u64 [of x s] mod_le_u64 [of l s] assms(3) by simp_all
  then show ?thesis
    using assms(1,2,4) unfolding new_domain_owned_def Let_def arc_mem_def
    by (auto split: if_splits)
qed


lemma new_domain_phase:
  assumes "new_domain_owned m s l r = (l', r', e)"
  shows "l' mod s = l mod s"
  using assms unfolding new_domain_owned_def Let_def by (auto split: if_splits)

lemma circle_intersect_same_step:
  assumes "cr_step r = s" "cr_step op2 = s" "\<not> cr_isempty r" "\<not> cr_isempty op2"
    and nm: "cr_mask r AND cr_mask op2 = nm"
    and A: "(if cr_mask r \<noteq> nm then new_domain_owned nm s (cr_left r) (cr_right r)
       else (cr_left r, cr_right r, False)) = (a, b, e3)"
    and B: "(if cr_mask r = nm \<and> cr_mask op2 \<noteq> nm then new_domain_owned nm s (cr_left op2) (cr_right op2)
       else (cr_left op2, cr_right op2, False)) = (c, d, e4)"
  shows "circle_intersect r op2 =
    (if e3 \<or> e4 then (r\<lparr>cr_isempty := True\<rparr>, 0)
     else case intersect_overlap r a b c d of (r', retval) \<Rightarrow>
       if retval \<noteq> 0 then (r', retval) else (r'\<lparr>cr_mask := nm, cr_step := s\<rparr>, 0))"
  unfolding circle_intersect_def Let_def
  by (simp only: assms(1-4) nm less_irrefl if_False if_True case_prod_conv simp_thms A B)

lemma and_mask_min: "(mask n :: u64) AND mask m = mask (min n m)"
  by (rule bit_word_eqI) (auto simp: bit_simps)

lemma and_le_u64: "(x :: u64) \<le> mask n \<Longrightarrow> x \<le> mask m \<Longrightarrow> n \<le> 64 \<Longrightarrow> m \<le> 64 \<Longrightarrow> x \<le> mask n AND mask m"
  by (cases "n \<le> m") (auto simp: and_mask_min min_def)

text \<open>
  Property C18. Two ranges of one stride and phase: an answer 0 of \<open>circle_intersect\<close> means the result
  holds every common value, and over one domain no other; any other answer is 2 and leaves
  the range as it was.
\<close>

theorem circle_intersect_exact:
  assumes "circle_wf r" "circle_wf op2" "cr_step r = cr_step op2"
    and "cr_left r mod cr_step r = cr_left op2 mod cr_step r"
  shows "case circle_intersect r op2 of (r', code) \<Rightarrow>
    if code = 0 then (\<forall>x. circle_mem r x \<and> circle_mem op2 x \<longrightarrow> circle_mem r' x)
      \<and> (cr_mask r = cr_mask op2 \<longrightarrow> circle_wf r' \<and> (\<forall>x. circle_mem r' x \<longrightarrow> circle_mem r x \<and> circle_mem op2 x))
    else code = 2 \<and> r' = r"
proof (cases "cr_isempty r \<or> cr_isempty op2")
  case True
  have "circle_wf (r\<lparr>cr_isempty := True\<rparr>)" using assms(1) by (auto simp: circle_wf_def)
  with True assms(1) show ?thesis by (auto simp: circle_intersect_def)
next
  case False
  then have ne: "\<not> cr_isempty r" "\<not> cr_isempty op2" by auto
  define nm where "nm = cr_mask r AND cr_mask op2"
  obtain a b e3 where A: "(if cr_mask r \<noteq> nm then new_domain_owned nm (cr_step r) (cr_left r) (cr_right r)
       else (cr_left r, cr_right r, False)) = (a, b, e3)" by (metis prod_cases3)
  obtain c d e4 where B: "(if cr_mask r = nm \<and> cr_mask op2 \<noteq> nm
       then new_domain_owned nm (cr_step r) (cr_left op2) (cr_right op2)
       else (cr_left op2, cr_right op2, False)) = (c, d, e4)" by (metis prod_cases3)
  obtain n m where n: "n \<le> 64" "cr_mask r = mask n" "m \<le> 64" "cr_mask op2 = mask m"
    using assms(1,2) by (auto simp: circle_wf_def)
  let ?s = "cr_step r"
  note eq = circle_intersect_same_step [OF refl assms(3)[symmetric] ne nm_def[symmetric] A B]
  have sound: "\<not> e3 \<and> \<not> e4 \<and> x \<le> nm \<and> arc_mem a b x \<and> arc_mem c d x" if "circle_mem r x" "circle_mem op2 x" for x
  proof -
    have x: "x mod ?s = cr_left r mod ?s" "arc_mem (cr_left r) (cr_right r) x"
      "x mod ?s = cr_left op2 mod ?s" "arc_mem (cr_left op2) (cr_right op2) x" "x \<le> nm"
      using that assms(3) n and_le_u64 [of x n m] by (auto simp: circle_mem_def nm_def)
    show ?thesis
      using x A B new_domain_sound [of nm ?s "cr_left r" "cr_right r" a b e3 x]
        new_domain_sound [of nm ?s "cr_left op2" "cr_right op2" c d e4 x]
      by (auto split: if_splits)
  qed
  show ?thesis
  proof (cases "e3 \<or> e4")
    case True
    have "circle_wf (r\<lparr>cr_isempty := True\<rparr>)" using assms(1) by (auto simp: circle_wf_def)
    moreover have "\<not> (circle_mem r x \<and> circle_mem op2 x)" for x using sound True by blast
    ultimately show ?thesis unfolding eq using True by simp
  next
    case False
    obtain r1 k where r1: "intersect_overlap r a b c d = (r1, k)" by fastforce
    have ph: "a mod ?s = cr_left r mod ?s" "c mod ?s = cr_left r mod ?s"
      using A B new_domain_phase assms(4) by (auto split: if_splits)
    from intersect_overlap_spec [OF r1 ne(1)] consider "k = 2" "r1 = r" | (fit) "k = 0"
      "\<not> cr_isempty r1 \<Longrightarrow> cr_left r1 \<in> {a, c} \<and> cr_right r1 \<in> {b, d}"
      "\<And>x. \<not> cr_isempty r1 \<and> arc_mem (cr_left r1) (cr_right r1) x \<longleftrightarrow> arc_mem a b x \<and> arc_mem c d x"
      by blast
    then show ?thesis
    proof cases
      case 1
      then show ?thesis unfolding eq r1 using False by simp
    next
      case fit
      let ?r = "r1\<lparr>cr_mask := nm, cr_step := ?s\<rparr>"
      have eq': "circle_intersect r op2 = (?r, 0)" unfolding eq r1 using False fit(1) by simp
      have lp: "\<not> cr_isempty r1 \<Longrightarrow> cr_left r1 mod ?s = cr_left r mod ?s" using fit(2) ph by auto
      have mem: "circle_mem ?r x \<longleftrightarrow> x \<le> nm \<and> x mod ?s = cr_left r mod ?s \<and> arc_mem a b x \<and> arc_mem c d x" for x
        using fit(3) [of x] lp by (auto simp: circle_mem_def)
      have s1: "circle_mem ?r x" if "circle_mem r x \<and> circle_mem op2 x" for x
        using sound [of x] that unfolding mem by (auto simp: circle_mem_def)
      have "circle_wf ?r \<and> (\<forall>x. circle_mem ?r x \<longrightarrow> circle_mem r x \<and> circle_mem op2 x)"
        if "cr_mask r = cr_mask op2"
      proof
        have e: "nm = cr_mask r" "a = cr_left r" "b = cr_right r" "c = cr_left op2" "d = cr_right op2"
          using that A B by (auto simp: nm_def)
        show "circle_wf ?r"
          using assms fit(2) ne that unfolding circle_wf_def e by auto
        show "\<forall>x. circle_mem ?r x \<longrightarrow> circle_mem r x \<and> circle_mem op2 x"
          unfolding mem circle_mem_def [of r] circle_mem_def [of op2] e(2-5)
          unfolding e(1) assms(3) [symmetric] that [symmetric] using ne assms(4) by simp
      qed
      with s1 show ?thesis unfolding eq' case_prod_conv if_P [OF refl] by blast
    qed
  qed
qed

end
