(* ===== verification/Circle_Values.thy ===== *)
theory Circle_Values
  imports Circle_Sets
begin

text \<open>
  More on circular ranges as sets: the invariant across the operations of one range, the
  boolean ranges, containment, and the number of values of a range, counted along the arc
  from its left bound (src/src/rangeutil.rs, \<open>CircleRange\<close>).
\<close>

unbundle bit_operations_syntax

text \<open>Ranges over one byte, for the concrete instances.\<close>

definition byte_range :: "u64 \<Rightarrow> u64 \<Rightarrow> u64 \<Rightarrow> circle_range" where
  "byte_range l r s = \<lparr>cr_left = l, cr_right = r, cr_mask = 0xff, cr_isempty = False, cr_step = s\<rparr>"

lemma pow2_0_step: "(1 :: u64) = 2 ^ 0" by simp

lemma calc_mask_wf_form: "\<exists>n \<le> 64. \<exists>k \<le> n. k < 64 \<and> calc_mask sz = mask n \<and> (1 :: u64) = 2 ^ k"
  by (rule exI [of _ "nbits sz"]) (auto simp: calc_mask_eq intro!: exI [of _ 0])

lemma circle_full_wf: "circle_wf (circle_full sz)" and circle_full_mem: "circle_mem (circle_full sz) x \<longleftrightarrow> x \<le> calc_mask sz"
  using calc_mask_wf_form [of sz] by (simp_all add: circle_full_def circle_wf_def circle_mem_def arc_mem_def)

lemma circle_single_wf: "circle_wf (circle_single v sz)"
  using calc_mask_wf_form [of sz] by (simp add: circle_single_def circle_wf_def word_and_le1 Let_def)

lemma circle_single_mem: "circle_mem (circle_single v sz) x \<longleftrightarrow> x = v AND calc_mask sz"
proof -
  have "x \<le> calc_mask sz \<Longrightarrow> arc_mem (v AND calc_mask sz) (((v AND calc_mask sz) + 1) AND calc_mask sz) x \<longleftrightarrow> x = v AND calc_mask sz"
    using arc_single [of "nbits sz" 0 "v AND calc_mask sz" x] by (simp add: calc_mask_eq word_and_le1)
  then show ?thesis by (auto simp: circle_single_def circle_mem_def Let_def word_and_le1)
qed

lemma circle_normalize_wf: 
  assumes "circle_wf r"
  shows "circle_wf (circle_normalize r)"
proof -
  from assms show ?thesis
    using mod_le_u64 [of "cr_left r" "cr_step r"]
    by (auto simp: circle_normalize_def circle_wf_def Let_def)
qed

lemma circle_normalize_mem:
  "circle_mem (circle_normalize r) x \<longleftrightarrow> circle_mem r x"
  by (auto simp: circle_normalize_def circle_mem_def arc_mem_def Let_def)

lemma step_one_mem:
  assumes "cr_step r = 1"
  shows "circle_mem (complement r) x \<longleftrightarrow> x \<le> cr_mask r \<and> \<not> circle_mem r x"
  using assms by (auto simp: complement_def circle_mem_def arc_mem_def not_le)

lemma boolean_range:
  assumes "cr_mask b = 0xff" "cr_step b = 1" "\<not> cr_isempty b"
  shows "cr_left b = 0 \<Longrightarrow> cr_right b = 2 \<Longrightarrow> circle_mem b x \<longleftrightarrow> x = 0 \<or> x = 1"
    and "cr_left b = 0 \<Longrightarrow> cr_right b = 1 \<Longrightarrow> circle_mem b x \<longleftrightarrow> x = 0"
    and "cr_left b = 1 \<Longrightarrow> cr_right b = 2 \<Longrightarrow> circle_mem b x \<longleftrightarrow> x = 1"
  using assms by (auto simp: circle_mem_def arc_mem_def word_less_nat_alt word_le_nat_alt word_unat_eq_iff
      unat_mod_distrib)

lemma boolean_wf:
  assumes "cr_mask b = 0xff" "cr_step b = 1" "cr_isempty b \<or> cr_left b \<le> 0xff \<and> cr_right b \<le> 0xff"
  shows "circle_wf b"
  by (rule circle_wfI [of 8 0]) (use assms in \<open>auto simp: mask_eq_exp_minus_1\<close>)

lemma contains_boolean:
  assumes "circle_wf r" "1 \<le> cr_mask r"
  shows "contains_val r 0 = circle_mem r 0" "contains_val r 1 = circle_mem r 1"
proof -
  obtain n where "n \<le> 64" "cr_mask r = mask n" using assms(1) by (auto simp: circle_wf_def)
  then have "(1 :: u64) AND cr_mask r = 1" using assms(2) by (simp add: and_mask_eq_self_iff le_mask_u64_iff)
  then show "contains_val r 0 = circle_mem r 0" "contains_val r 1 = circle_mem r 1"
    by (simp_all add: contains_val_mem [OF assms(1)])
qed

lemma convert_to_boolean_mem:
  assumes "circle_wf r" "1 \<le> cr_mask r" "convert_to_boolean r = (b, both)"
  shows "circle_wf b" "circle_mem b x \<longleftrightarrow> x \<in> {0, 1} \<and> circle_mem r x"
    "both \<longleftrightarrow> circle_mem r 0 \<and> circle_mem r 1"
proof -
  note c = contains_boolean [OF assms(1,2)]
  show "circle_wf b"
    using assms(1,3) unfolding convert_to_boolean_def Let_def
    by (auto split: if_splits intro!: boolean_wf)
  show "both \<longleftrightarrow> circle_mem r 0 \<and> circle_mem r 1" "circle_mem b x \<longleftrightarrow> x \<in> {0, 1} \<and> circle_mem r x"
    using assms(3) unfolding convert_to_boolean_def Let_def c
    by (auto split: if_splits simp: boolean_range)
qed

lemma drop_step_wf:
  assumes "circle_wf r"
  shows "circle_wf (r\<lparr>cr_step := 1\<rparr>)"
proof -
  obtain n where "n \<le> 64" "cr_mask r = mask n" using assms by (auto simp: circle_wf_def)
  then show ?thesis using assms by (intro circle_wfI [of n 0]) (auto simp: circle_wf_def)
qed

text \<open>
  Property C34. The type invariant: the constructors yield well-formed ranges, and normalisation,
  complement, inversion, conversion to a boolean range and union keep a range well formed.
\<close>

theorem circle_wf_preserved:
  assumes "circle_wf r" "circle_wf op2" "1 \<le> cr_mask r"
  shows "circle_wf (circle_full sz) \<and> circle_wf (circle_single v sz) \<and> circle_wf (circle_boolean tf)
    \<and> circle_wf (circle_normalize r) \<and> circle_wf (complement r) \<and> circle_wf (fst (invert r))
    \<and> circle_wf (fst (convert_to_boolean r)) \<and> circle_wf (fst (circle_union r op2))"
proof -
  have "circle_wf (fst (circle_union r op2))"
    using circle_union_wf [OF assms(1,2)] .
  then show ?thesis
    using circle_full_wf circle_single_wf circle_normalize_wf [OF assms(1)] complement_wf [OF assms(1)]
      complement_wf [OF drop_step_wf [OF assms(1)]] convert_to_boolean_mem(1) [OF assms(1,3) prod.collapse [symmetric]]
    by (simp add: circle_boolean_def invert_def)
qed

theorem circle_wf_preserved_witness:
  "circle_wf (circle_single 7 1) \<and> circle_wf (circle_single 9 1) \<and> 1 \<le> cr_mask (circle_single 7 1)
    \<and> circle_wf (fst (circle_union (circle_single 7 1) (circle_single 9 1)))"
proof -
  have m: "1 \<le> cr_mask (circle_single 7 1)" by code_simp
  show ?thesis
    using circle_wf_preserved [OF circle_single_wf circle_single_wf m, of 1 0 True 9 1] m circle_single_wf by blast
qed

text \<open>
  \<open>contains_val\<close> decides membership of the value, truncated to the domain; the complement of a
  range of step 1 holds exactly the other values of the domain; a conversion to a boolean
  range keeps the members among 0 and 1 and tells whether both are there.
\<close>

theorem circle_membership:
  assumes "circle_wf r" "1 \<le> cr_mask r" "convert_to_boolean r = (b, both)"
  shows "contains_val r v = circle_mem r (v AND cr_mask r)
    \<and> (cr_step r = 1 \<longrightarrow> (circle_mem (complement r) x \<longleftrightarrow> x \<le> cr_mask r \<and> \<not> circle_mem r x))
    \<and> (circle_mem b x \<longleftrightarrow> x \<in> {0, 1} \<and> circle_mem r x) \<and> (both \<longleftrightarrow> circle_mem r 0 \<and> circle_mem r 1)"
  using contains_val_mem [OF assms(1)] step_one_mem [of r x] convert_to_boolean_mem(2,3) [OF assms] by blast

theorem circle_membership_witness:
  "1 \<le> cr_mask (circle_single 1 2) \<and> convert_to_boolean (circle_single 1 2) = (circle_single 1 1, False)
    \<and> contains_val (circle_single 1 2) 0x10001 = circle_mem (circle_single 1 2) 1"
proof -
  have m: "1 \<le> cr_mask (circle_single 1 2)" by code_simp
  have c: "convert_to_boolean (circle_single 1 2) = (circle_single 1 1, False)" by code_simp
  have a: "(0x10001 :: u64) AND cr_mask (circle_single 1 2) = 1" by code_simp
  show ?thesis using circle_membership [OF circle_single_wf m c, of "0x10001" 0] m c unfolding a by blast
qed

text \<open>
  When a range of step 1 is said to contain another range over the same domain, it holds all
  of that range's values.
\<close>

theorem contains_range_sound:
  assumes "circle_wf r" "circle_wf op2" "cr_mask r = cr_mask op2" "cr_step r = 1"
    and "contains_range r op2" "circle_mem op2 x"
  shows "circle_mem r x"
proof -
  have ne: "\<not> cr_isempty r" "\<not> cr_isempty op2" using assms(5,6) by (auto simp: contains_range_def circle_mem_def)
  have "arc_mem (cr_left r) (cr_right r) x"
  proof (cases "cr_left r = cr_right r \<or> cr_left r = cr_left op2 \<and> cr_right r = cr_right op2")
    case True
    then show ?thesis using assms(6) by (auto simp: arc_mem_def circle_mem_def)
  next
    case False
    let ?e = "encode_range_overlaps (cr_left r) (cr_right r) (cr_left op2) (cr_right op2)"
    have d: "cr_left r \<noteq> cr_right r" "cr_left op2 \<noteq> cr_right op2"
      and "?e = CHR ''c'' \<or> ?e = CHR ''b'' \<and> cr_right r = cr_right op2"
      using assms(5) ne False unfolding contains_range_def Let_def by (auto split: if_splits)
    then show ?thesis
      using overlap_c [OF d] overlap_b(1) [OF d, of x] assms(6) unfolding circle_mem_def by auto
  qed
  then show ?thesis using ne assms(3,4,6) by (simp add: circle_mem_def)
qed


text \<open>Arcs by distance: a value lies in an arc when it is nearer to the left bound than the right bound is.\<close>

definition arc_len :: "nat \<Rightarrow> u64 \<Rightarrow> u64 \<Rightarrow> int" where
  "arc_len n l r = (if l = r then 2 ^ n else (uint r - uint l) mod 2 ^ n)"

lemma diff_mod_cases:
  "0 \<le> a \<Longrightarrow> a < N \<Longrightarrow> 0 \<le> b \<Longrightarrow> b < N \<Longrightarrow> (a - b) mod N = (if b \<le> a then a - b else a - b + (N :: int))"
  by (auto intro: mod_pos_pos_trivial mod_plus_once)

lemma arc_mem_dist:
  assumes "n \<le> 64" "l \<le> mask n" "r \<le> mask n" "x \<le> mask n"
  shows "arc_mem l r x \<longleftrightarrow> (uint x - uint l) mod 2 ^ n < arc_len n l r"
proof -
  have b: "uint l < 2 ^ n" "uint r < 2 ^ n" "uint x < 2 ^ n"
    using assms by (simp_all add: le_mask_u64_iff)
  show ?thesis
    unfolding arc_mem_uint arc_len_def word_uint_eq_iff
      diff_mod_cases [OF uint_ge_0 b(3) uint_ge_0 b(1)] diff_mod_cases [OF uint_ge_0 b(2) uint_ge_0 b(1)]
    using b uint_ge_0 [of l] uint_ge_0 [of r] uint_ge_0 [of x] by (smt (verit))
qed

lemma arc_len_bounds:
  assumes "n \<le> 64" "l \<le> mask n" "r \<le> mask n"
  shows "0 < arc_len n l r" "arc_len n l r \<le> 2 ^ n"
proof -
  have b: "uint l < 2 ^ n" "uint r < 2 ^ n" using assms by (simp_all add: le_mask_u64_iff)
  show "0 < arc_len n l r" "arc_len n l r \<le> 2 ^ n"
    unfolding arc_len_def word_uint_eq_iff diff_mod_cases [OF uint_ge_0 b(2) uint_ge_0 b(1)]
    using b uint_ge_0 [of l] uint_ge_0 [of r] by (smt (verit))+
qed


text \<open>The values of a range, counted from its left bound.\<close>

lemma phase_dist:
  assumes "n \<le> 64" "k \<le> n" "k < 64"
  shows "(x :: u64) mod 2 ^ k = l mod 2 ^ k \<longleftrightarrow> 2 ^ k dvd (uint x - uint l) mod 2 ^ n"
proof -
  have "(2::int) ^ k dvd 2 ^ n" using assms(2) by (rule le_imp_power_dvd)
  then have "2 ^ k dvd (uint x - uint l) mod 2 ^ n \<longleftrightarrow> 2 ^ k dvd uint x - uint l"
    by (rule dvd_mod_iff)
  then show ?thesis using assms(3) by (simp add: phase_iff mod_eq_dvd_iff)
qed

lemma circle_mem_dist:
  assumes "circle_wf r" "\<not> cr_isempty r" "cr_mask r = mask n" "n \<le> 64" "cr_step r = 2 ^ k" "k \<le> n" "k < 64"
  shows "circle_mem r x \<longleftrightarrow> x \<le> mask n \<and> 2 ^ k dvd (uint x - uint (cr_left r)) mod 2 ^ n
    \<and> (uint x - uint (cr_left r)) mod 2 ^ n < arc_len n (cr_left r) (cr_right r)"
proof -
  have b: "cr_left r \<le> mask n" "cr_right r \<le> mask n" using assms(1-3) by (auto simp: circle_wf_def)
  show ?thesis
    using arc_mem_dist [OF assms(4) b] phase_dist [OF assms(4,6,7)] assms(2,3,5)
    by (auto simp: circle_mem_def)
qed

lemma dist_inj:
  fixes x y l :: u64
  assumes "n \<le> 64" "x \<le> mask n" "y \<le> mask n" "(uint x - uint l) mod 2 ^ n = (uint y - uint l) mod 2 ^ n"
  shows "x = y"
proof -
  have "uint x < 2 ^ n" "uint y < 2 ^ n" using assms by (simp_all add: le_mask_u64_iff)
  moreover have "uint x mod 2 ^ n = uint y mod 2 ^ n"
    using assms(4) by (simp add: mod_eq_dvd_iff)
  ultimately have "uint x = uint y" by simp
  then show ?thesis by (simp add: word_uint_eq_iff)
qed

lemma dist_surj:
  assumes "n \<le> 64" "0 \<le> d" "d < 2 ^ n"
  shows "\<exists>x :: u64. x \<le> mask n \<and> (uint x - uint (l :: u64)) mod 2 ^ n = d"
proof (intro exI conjI)
  let ?x = "(l + word_of_int d) AND mask n"
  show "?x \<le> mask n" by (rule word_and_le1)
  have "(2::int) ^ n \<le> 2 ^ 64" using assms(1) by (rule power_increasing) simp
  then have "uint (word_of_int d :: u64) = d"
    using assms(2,3) by (simp add: uint_word_of_int_eq take_bit_int_eq_self)
  then have "uint ?x = (uint l + d) mod 2 ^ n" using assms(1) by (simp add: uint_plus_and_mask)
  then have "(uint ?x - uint l) mod 2 ^ n = d mod 2 ^ n" by (simp add: mod_diff_left_eq)
  then show "(uint ?x - uint l) mod 2 ^ n = d" using assms(2,3) by simp
qed

lemma card_multiples:
  assumes "0 < (s :: int)" "0 \<le> m"
  shows "card {d. 0 \<le> d \<and> d < m * s \<and> s dvd d} = nat m"
proof -
  have "{d. 0 \<le> d \<and> d < m * s \<and> s dvd d} = (\<lambda>i. i * s) ` {0..<m}"
    using assms(1) by (auto simp: image_iff mult.commute elim!: dvdE) (auto simp: zero_le_mult_iff)
  moreover have "inj_on (\<lambda>i. i * s) {0..<m}" using assms(1) by (auto simp: inj_on_def)
  ultimately show ?thesis by (simp add: card_image)
qed

lemma circle_card:
  assumes "circle_wf r" "\<not> cr_isempty r" "cr_mask r = mask n" "n \<le> 64" "cr_step r = 2 ^ k" "k \<le> n" "k < 64"
  shows "card {x. circle_mem r x} = nat (arc_len n (cr_left r) (cr_right r) div 2 ^ k)"
    "2 ^ k dvd arc_len n (cr_left r) (cr_right r)"
proof -
  let ?l = "cr_left r" and ?A = "arc_len n (cr_left r) (cr_right r)"
  have b: "?l \<le> mask n" "cr_right r \<le> mask n" and ph: "?l mod 2 ^ k = cr_right r mod 2 ^ k"
    using assms(1-3,5) by (auto simp: circle_wf_def)
  note A = arc_len_bounds [OF assms(4) b]
  have "2 ^ k dvd (uint (cr_right r) - uint ?l) mod 2 ^ n"
    using ph phase_dist [OF assms(4,6,7), of "cr_right r" ?l] by simp
  then show d: "2 ^ k dvd ?A" using assms(6) by (simp add: arc_len_def le_imp_power_dvd)
  then have A': "?A = (?A div 2 ^ k) * 2 ^ k" by simp
  let ?f = "\<lambda>x :: u64. (uint x - uint ?l) mod 2 ^ n"
  have "?f ` {x. circle_mem r x} = {d. 0 \<le> d \<and> d < ?A \<and> 2 ^ k dvd d}"
  proof (intro equalityI subsetI)
    fix d assume "d \<in> {d. 0 \<le> d \<and> d < ?A \<and> 2 ^ k dvd d}"
    then have D0: "0 \<le> d" "d < ?A" "2 ^ k dvd d" by blast+
    obtain x where x: "x \<le> mask n" "?f x = d"
      using dist_surj [OF assms(4) D0(1) less_le_trans [OF D0(2) A(2)], of ?l] by blast
    then have "circle_mem r x" unfolding circle_mem_dist [OF assms] x(2) using D0 x(1) by blast
    with x(2) show "d \<in> ?f ` {x. circle_mem r x}" by (intro image_eqI [of d _ x]) simp_all
  next
    fix d assume "d \<in> ?f ` {x. circle_mem r x}"
    then obtain x where "circle_mem r x" "d = ?f x" by blast
    then show "d \<in> {d. 0 \<le> d \<and> d < ?A \<and> 2 ^ k dvd d}"
      unfolding circle_mem_dist [OF assms] by simp
  qed
  moreover have "inj_on ?f {x. circle_mem r x}"
    using dist_inj [OF assms(4)] circle_mem_dist [OF assms] by (auto intro!: inj_onI)
  ultimately have "card {x. circle_mem r x} = card {d. 0 \<le> d \<and> d < ?A \<and> 2 ^ k dvd d}"
    using card_image [of ?f "{x. circle_mem r x}"] by simp
  also have "\<dots> = card {d. 0 \<le> d \<and> d < (?A div 2 ^ k) * 2 ^ k \<and> 2 ^ k dvd d}"
    by (subst A') (rule refl)
  finally have "card {x. circle_mem r x} = card {d. 0 \<le> d \<and> d < (?A div 2 ^ k) * 2 ^ k \<and> 2 ^ k dvd d}" .
  then show "card {x. circle_mem r x} = nat (?A div 2 ^ k)"
    using card_multiples [of "2 ^ k" "?A div 2 ^ k"] A by (simp add: pos_imp_zdiv_nonneg_iff)
qed


lemma div_round_up: "0 < (s :: int) \<Longrightarrow> s dvd a \<Longrightarrow> (a - 1 + s) div s = a div s"
  by (rule int_div_pos_eq [where r = "s - 1"]) auto

lemma div_pred: "0 < (s :: int) \<Longrightarrow> s dvd a \<Longrightarrow> (a - 1) div s = a div s - 1"
  by (rule int_div_pos_eq [where r = "s - 1"]) (auto simp: algebra_simps)

lemma get_size_wrapped:
  assumes "n \<le> 64" "k \<le> n" "k < 64" "l \<le> mask n" "r \<le> l" "2 ^ k dvd uint l - uint r"
  defines "val \<equiv> (mask n - (l - r) + 2 ^ k :: u64) div 2 ^ k"
  shows "if n = 64 \<and> l = r then val = 0 else uint val = (2 ^ n - (uint l - uint r)) div 2 ^ k"
proof -
  let ?N = "2 ^ n :: int" and ?s = "2 ^ k :: int" and ?d = "uint l - uint r"
  have l: "uint l < ?N" using assms(1,4) by (simp add: le_mask_u64_iff)
  have d: "0 \<le> ?d" "uint (l - r) = ?d" using assms(5) by (simp_all add: word_le_def uint_sub_lem)
  have dN: "?d < ?N" using l uint_ge_0 [of r] by linarith
  have N: "?N \<le> 2 ^ 64" using assms(1) by (rule power_increasing) simp
  have s: "0 < ?s" "?s < 2 ^ 64" using assms(3) power_strict_increasing [of k 64 "2::int"] by simp_all
  have sN: "?s dvd ?N - ?d" using assms(2,6) by (simp add: le_imp_power_dvd)
  have "uint (mask n - (l - r)) = (?N - 1 - ?d) mod 2 ^ 64"
    using assms(1) by (simp only: uint_minus_u64 [of "mask n"] uint_mask_u64 d(2))
  then have v: "uint val = ((?N - 1 - ?d + ?s) mod 2 ^ 64) div ?s"
    using assms(3) by (simp add: val_def uint_div_distrib uint_pow2 uint_plus_u64 mod_add_left_eq)
  show ?thesis
  proof (cases "n = 64 \<and> l = r")
    case True
    then have "uint val = ((2 ^ 64 + (?s - 1)) mod 2 ^ 64) div ?s" using v by (simp add: algebra_simps)
    also have "(2 ^ 64 + (?s - 1)) mod 2 ^ 64 = ?s - 1"
      by (subst mod_minus_once) (use s in linarith)+
    also have "(?s - 1) div ?s = 0" using s by (intro div_pos_pos_trivial) linarith+
    finally show ?thesis using True by (simp add: word_uint_eq_iff)
  next
    case False
    have "?N - ?d + ?s \<le> 2 ^ 64"
    proof (cases "l = r")
      case True
      with False assms(1) have "Suc n \<le> 64" by auto
      then have "2 * ?N \<le> 2 ^ 64" using power_increasing [of "Suc n" 64 "2::int"] by simp
      moreover have "?s \<le> ?N" using assms(2) by (rule power_increasing) simp
      moreover have "?d = 0" using True by simp
      ultimately show ?thesis by linarith
    next
      case lr: False
      then have "?d \<noteq> 0" by (simp add: word_uint_eq_iff)
      then have "?s \<le> ?d" using assms(6) d(1) zdvd_imp_le [of ?s ?d] by linarith
      then show ?thesis using N by linarith
    qed
    then have "(?N - 1 - ?d + ?s) mod 2 ^ 64 = ?N - ?d - 1 + ?s"
      using dN s(1) by (subst mod_pos_pos_trivial) linarith+
    then show ?thesis using v div_round_up [OF s(1) sN] False by auto
  qed
qed

text \<open>
  \<open>get_size\<close> is the number of values of the range; for the full range of 64 bits, whose
  count does not fit, it is one less.
\<close>

theorem get_size_card:
  assumes "circle_wf r"
  shows "uint (get_size r) = (if is_full r \<and> cr_mask r = U64_MAX then 2 ^ 64 - 1 else int (card {x. circle_mem r x}))"
proof (cases "cr_isempty r")
  case True
  then show ?thesis by (simp add: get_size_def is_full_def)
next
  case False
  obtain n k where nk: "n \<le> 64" "k \<le> n" "k < 64" "cr_mask r = mask n" "cr_step r = 2 ^ k"
    "cr_left r \<le> mask n" "cr_right r \<le> mask n" "cr_left r mod 2 ^ k = cr_right r mod 2 ^ k"
    using assms False by (auto simp: circle_wf_def)
  let ?l = "cr_left r" and ?r = "cr_right r"
  have b: "uint ?l < 2 ^ n" "uint ?r < 2 ^ n" using nk by (simp_all add: le_mask_u64_iff)
  have card: "int (card {x. circle_mem r x}) = arc_len n ?l ?r div 2 ^ k"
    using circle_card(1) [OF assms False nk(4,1,5,2,3)] arc_len_bounds(1) [OF nk(1,6,7)]
    by (simp add: pos_imp_zdiv_nonneg_iff)
  have len: "arc_len n ?l ?r = (if ?l < ?r then uint ?r - uint ?l else 2 ^ n - (uint ?l - uint ?r))"
    unfolding arc_len_def word_uint_eq_iff word_less_def diff_mod_cases [OF uint_ge_0 b(2) uint_ge_0 b(1)] by auto
  have full: "is_full r \<and> cr_mask r = U64_MAX \<longleftrightarrow> ?l = ?r \<and> n = 64 \<and> k = 0"
    using False nk pow2_u64_less [of 0 k] mask_u64_inj [of n 64] by (auto simp: is_full_def U64_MAX_mask)
  show ?thesis
  proof (cases "?l < ?r")
    case True
    then have "uint (get_size r) = (uint ?r - uint ?l) div 2 ^ k"
      using False nk(3,5) by (simp add: get_size_def uint_div_distrib uint_pow2 uint_sub_lem [THEN iffD1] word_less_def)
    then show ?thesis using True full by (auto simp: card len)
  next
    case lr: False
    have d: "2 ^ k dvd uint ?l - uint ?r" using nk(3,8) by (simp add: phase_iff mod_eq_dvd_iff)
    define val where "val = (mask n - (?l - ?r) + 2 ^ k :: u64) div 2 ^ k"
    have gs: "get_size r = (if val = 0 then if 2 ^ k > (1 :: u64) then mask n div 2 ^ k + 1 else mask n else val)"
      using False lr nk(4,5) by (simp add: get_size_def val_def)
    note w = get_size_wrapped [OF nk(1-3,6) _ d, folded val_def]
    show ?thesis
    proof (cases "n = 64 \<and> ?l = ?r")
      case True
      then have v: "val = 0" using w lr by simp
      show ?thesis
      proof (cases "k = 0")
        case k: False
        then have gt: "2 ^ k > (1 :: u64)" using pow2_u64_less [of 0 k] nk(3) by simp
        have "uint (mask 64 div 2 ^ k :: u64) = (2 ^ 64 - 1) div 2 ^ k"
          using nk(3) uint_mask_u64 [of 64] by (simp add: uint_div_distrib uint_pow2)
        also have "\<dots> = 2 ^ (64 - k) - 1"
          using div_pred [of "2 ^ k" "2 ^ 64"] nk(3) power_diff [of "2::int" k 64]
            le_imp_power_dvd [of k 64 "2::int"] by simp
        finally have "uint (mask 64 div 2 ^ k + 1 :: u64) = 2 ^ (64 - k) mod 2 ^ 64"
          by (simp add: uint_plus_u64)
        also have "\<dots> = 2 ^ (64 - k)"
          by (rule mod_pos_pos_trivial) (use k power_strict_increasing [of "64 - k" 64 "2::int"] in simp_all)
        finally show ?thesis
          using True gs v gt full k nk(3) power_diff [of "2::int" k 64] by (auto simp: card arc_len_def)
      qed (use True gs v full in \<open>simp add: uint_mask_u64\<close>)
    next
      case N: False
      then have v: "uint val = arc_len n ?l ?r div 2 ^ k" using w lr by (auto simp: len not_less)
      have "0 < arc_len n ?l ?r div 2 ^ k"
        using circle_card(2) [OF assms False nk(4,1,5,2,3)] arc_len_bounds(1) [OF nk(1,6,7)]
        by (auto elim!: dvdE simp: zero_less_mult_iff)
      with v have "val \<noteq> 0" by auto
      then show ?thesis using gs v full N card by auto
    qed
  qed
qed

lemma byte_range_wf:
  assumes "l \<le> 0xff" "r \<le> 0xff" "k \<le> 8" "l mod 2 ^ k = r mod 2 ^ k"
  shows "circle_wf \<lparr>cr_left = l, cr_right = r, cr_mask = 0xff, cr_isempty = False, cr_step = 2 ^ k\<rparr>"
  by (rule circle_wfI [of 8 k]) (use assms in \<open>auto simp: mask_eq_exp_minus_1\<close>)

theorem circle_union_exact_witness:
  "circle_wf (byte_range 0x10 0x20 4) \<and> circle_wf (byte_range 0x1c 0x30 4)
    \<and> circle_union (byte_range 0x10 0x20 4) (byte_range 0x1c 0x30 4) = (byte_range 0x10 0x30 4, 0)
    \<and> (circle_mem (byte_range 0x10 0x30 4) 0x24
        \<longleftrightarrow> circle_mem (byte_range 0x10 0x20 4) 0x24 \<or> circle_mem (byte_range 0x1c 0x30 4) 0x24)"
proof -
  have w: "circle_wf (byte_range 0x10 0x20 4)" "circle_wf (byte_range 0x1c 0x30 4)"
    using byte_range_wf [of "0x10" "0x20" 2] byte_range_wf [of "0x1c" "0x30" 2] by (simp_all add: byte_range_def)
  have u: "circle_union (byte_range 0x10 0x20 4) (byte_range 0x1c 0x30 4) = (byte_range 0x10 0x30 4, 0)"
    by code_simp
  show ?thesis using circle_union_exact [OF w, unfolded u case_prod_conv if_P [OF refl]] w u by blast
qed

theorem circle_intersect_exact_witness:
  "circle_wf (byte_range 0x10 0x20 4) \<and> circle_wf (byte_range 0x18 0x30 4)
    \<and> circle_intersect (byte_range 0x10 0x20 4) (byte_range 0x18 0x30 4) = (byte_range 0x18 0x20 4, 0)
    \<and> circle_mem (byte_range 0x18 0x20 4) 0x1c
    \<and> circle_mem (byte_range 0x10 0x20 4) 0x1c \<and> circle_mem (byte_range 0x18 0x30 4) 0x1c"
proof -
  have w: "circle_wf (byte_range 0x10 0x20 4)" "circle_wf (byte_range 0x18 0x30 4)"
    using byte_range_wf [of "0x10" "0x20" 2] byte_range_wf [of "0x18" "0x30" 2] by (simp_all add: byte_range_def)
  have u: "circle_intersect (byte_range 0x10 0x20 4) (byte_range 0x18 0x30 4) = (byte_range 0x18 0x20 4, 0)"
    by code_simp
  have s: "cr_step (byte_range 0x10 0x20 4) = cr_step (byte_range 0x18 0x30 4)"
    "cr_left (byte_range 0x10 0x20 4) mod cr_step (byte_range 0x10 0x20 4)
      = cr_left (byte_range 0x18 0x30 4) mod cr_step (byte_range 0x10 0x20 4)"
    "cr_mask (byte_range 0x10 0x20 4) = cr_mask (byte_range 0x18 0x30 4)"
    by (simp_all add: byte_range_def)
  have m: "circle_mem (byte_range 0x18 0x20 4) 0x1c" by code_simp
  show ?thesis using circle_intersect_exact [OF w s(1,2), unfolded u case_prod_conv if_P [OF refl]] w u s(3) m by blast
qed

theorem contains_range_sound_witness:
  "circle_wf (byte_range 0xf0 0x20 1) \<and> circle_wf (byte_range 0 0x10 1)
    \<and> contains_range (byte_range 0xf0 0x20 1) (byte_range 0 0x10 1)
    \<and> circle_mem (byte_range 0 0x10 1) 5 \<and> circle_mem (byte_range 0xf0 0x20 1) 5"
proof -
  have w: "circle_wf (byte_range 0xf0 0x20 1)" "circle_wf (byte_range 0 0x10 1)"
    using byte_range_wf [of "0xf0" "0x20" 0] byte_range_wf [of 0 "0x10" 0] by (simp_all add: byte_range_def)
  have c: "contains_range (byte_range 0xf0 0x20 1) (byte_range 0 0x10 1)" "circle_mem (byte_range 0 0x10 1) 5"
    by code_simp+
  show ?thesis using contains_range_sound [OF w _ _ c] w c by (simp add: byte_range_def)
qed

theorem get_size_card_witness:
  "circle_wf (byte_range 0xf0 0x20 4)
    \<and> uint (get_size (byte_range 0xf0 0x20 4)) = int (card {x. circle_mem (byte_range 0xf0 0x20 4) x})"
proof -
  have w: "circle_wf (byte_range 0xf0 0x20 4)"
    using byte_range_wf [of "0xf0" "0x20" 2] by (simp add: byte_range_def)
  show ?thesis using get_size_card [OF w] w by (simp add: is_full_def byte_range_def)
qed

end
