(* ===== verification/Circle_Flow.thy ===== *)
theory Circle_Flow
  imports Circle_Range
begin

text \<open>
  Pull-back and push-forward of circular ranges through p-code operations, and the translation
  of a range into a comparison (src/src/rangeutil.rs). The arms of the two large matches are
  definitions of their own. The varnodes and the operation that \<open>pull_back\<close> reads through locks
  are the records \<open>varnode_view\<close> and \<open>pcode_view\<close>, with one field for each accessor it calls.
\<close>

unbundle bit_operations_syntax

section \<open>Pull-back through a unary operation\<close>

definition pull_back_unary :: "circle_range \<Rightarrow> opcode \<Rightarrow> usize \<Rightarrow> usize \<Rightarrow> circle_range \<times> bool" where
  "pull_back_unary r opc in_size out_size =
     (if cr_isempty r then (r, True)
      else case opc of
        CPUI_BOOL_NEGATE \<Rightarrow>
          (case convert_to_boolean r of (b, both) \<Rightarrow>
             if both then (b, True)
             else (let l = cr_left b XOR 1 in (b\<lparr>cr_left := l, cr_right := l + 1\<rparr>, True)))
      | CPUI_COPY \<Rightarrow> (r, True)
      | CPUI_INT_2COMP \<Rightarrow>
          (let val = NOT (cr_left r + 1 + cr_step r) AND cr_mask r;
               l = NOT (cr_right r + 1 + cr_step r) AND cr_mask r
           in (r\<lparr>cr_left := l, cr_right := val\<rparr>, True))
      | CPUI_INT_NEGATE \<Rightarrow>
          (let val = NOT (cr_left r + cr_step r) AND cr_mask r;
               l = NOT (cr_right r + cr_step r) AND cr_mask r
           in (r\<lparr>cr_left := l, cr_right := val\<rparr>, True))
      | CPUI_INT_ZEXT \<Rightarrow>
          (let in_mask = calc_mask in_size;
               rem = cr_left r mod cr_step r;
               zext = \<lparr>cr_left = rem, cr_right = in_mask + 1 + rem, cr_mask = cr_mask r,
                       cr_isempty = False, cr_step = cr_step r\<rparr>;
               (r', res) = circle_intersect r zext
           in if res \<noteq> 0 then (r', False)
              else (r'\<lparr>cr_left := cr_left r' AND in_mask, cr_right := cr_right r' AND in_mask,
                       cr_mask := cr_mask r' AND in_mask\<rparr>, True))
      | CPUI_INT_SEXT \<Rightarrow>
          (let in_mask = calc_mask in_size;
               rem = cr_left r AND cr_step r;
               band_left = (in_mask XOR shr_u64 in_mask 1) + rem;
               sextrange = \<lparr>cr_left = band_left, cr_right = sign_extend_size band_left in_size out_size,
                            cr_mask = cr_mask r, cr_isempty = False, cr_step = cr_step r\<rparr>;
               (s', res) = circle_intersect sextrange r
           in if res \<noteq> 0 then (r, False)
              else if \<not> cr_isempty s' then (r, False)
              else (r\<lparr>cr_left := cr_left r AND in_mask, cr_right := cr_right r AND in_mask,
                      cr_mask := cr_mask r AND in_mask\<rparr>, True))
      | _ \<Rightarrow> (r, False))"

section \<open>Pull-back through a binary operation\<close>

text \<open>
  The frame of the comparison arms: convert to a boolean range, move to the domain of the
  input, and take the complement of the arm's range when the outcome to pull back is false.
\<close>

definition pull_compare ::
  "circle_range \<Rightarrow> usize \<Rightarrow> (circle_range \<Rightarrow> circle_range) \<Rightarrow> circle_range \<times> bool" where
  "pull_compare r in_size arm =
     (case convert_to_boolean r of (b, both) \<Rightarrow>
        (let b1 = b\<lparr>cr_mask := calc_mask in_size\<rparr>
         in if both then (b1, True)
            else (let yes_comp = (cr_left b1 = 0); b2 = arm b1
                  in (if yes_comp then complement b2 else b2, True))))"

definition equal_arm :: "u64 \<Rightarrow> circle_range \<Rightarrow> circle_range" where
  "equal_arm val b = b\<lparr>cr_left := val, cr_right := (val + 1) AND cr_mask b\<rparr>"

definition notequal_arm :: "u64 \<Rightarrow> circle_range \<Rightarrow> circle_range" where
  "notequal_arm val b = b\<lparr>cr_left := (val + 1) AND cr_mask b, cr_right := val\<rparr>"

definition less_arm :: "u64 \<Rightarrow> i32 \<Rightarrow> circle_range \<Rightarrow> circle_range" where
  "less_arm val slot b =
     (if slot = 0
      then (if val = 0 then b\<lparr>cr_isempty := True\<rparr> else b\<lparr>cr_left := 0, cr_right := val\<rparr>)
      else if val = cr_mask b then b\<lparr>cr_isempty := True\<rparr>
      else b\<lparr>cr_left := (val + 1) AND cr_mask b, cr_right := 0\<rparr>)"

definition lessequal_arm :: "u64 \<Rightarrow> i32 \<Rightarrow> circle_range \<Rightarrow> circle_range" where
  "lessequal_arm val slot b =
     (if slot = 0 then b\<lparr>cr_left := 0, cr_right := (val + 1) AND cr_mask b\<rparr>
      else b\<lparr>cr_left := val, cr_right := 0\<rparr>)"

definition sless_pull_arm :: "u64 \<Rightarrow> i32 \<Rightarrow> circle_range \<Rightarrow> circle_range" where
  "sless_pull_arm val slot b =
     (if slot = 0
      then (if val = shr_u64 (cr_mask b) 1 + 1 then b\<lparr>cr_isempty := True\<rparr>
            else b\<lparr>cr_left := shr_u64 (cr_mask b) 1 + 1, cr_right := val\<rparr>)
      else if val = shr_u64 (cr_mask b) 1 then b\<lparr>cr_isempty := True\<rparr>
      else b\<lparr>cr_left := (val + 1) AND cr_mask b, cr_right := shr_u64 (cr_mask b) 1 + 1\<rparr>)"

definition slessequal_arm :: "u64 \<Rightarrow> i32 \<Rightarrow> circle_range \<Rightarrow> circle_range" where
  "slessequal_arm val slot b =
     (if slot = 0
      then b\<lparr>cr_left := shr_u64 (cr_mask b) 1 + 1, cr_right := (val + 1) AND cr_mask b\<rparr>
      else b\<lparr>cr_left := val, cr_right := shr_u64 (cr_mask b) 1 + 1\<rparr>)"

definition carry_arm :: "u64 \<Rightarrow> circle_range \<Rightarrow> circle_range" where
  "carry_arm val b =
     (if val = 0 then b\<lparr>cr_isempty := True\<rparr>
      else b\<lparr>cr_left := (cr_mask b - val + 1) AND cr_mask b, cr_right := 0\<rparr>)"

definition right_pull_arm :: "circle_range \<Rightarrow> u64 \<Rightarrow> usize \<Rightarrow> circle_range \<times> bool" where
  "right_pull_arm r val in_size =
     (if cr_step r = 1
      then (let right_bound = shr_u64 (calc_mask in_size) (unat val) + 1;
                covers = (cr_left r \<ge> right_bound \<and> cr_right r \<ge> right_bound \<and> cr_left r \<ge> cr_right r
                  \<or> cr_left r = 0 \<and> cr_right r \<ge> right_bound
                  \<or> cr_left r = cr_right r)
            in if covers then (r\<lparr>cr_left := 0, cr_right := 0\<rparr>, True)
               else (let l = (if cr_left r > right_bound then right_bound else cr_left r);
                         rt = (if cr_right r > right_bound then 0 else cr_right r);
                         r' = r\<lparr>cr_left := shl_u64 l (unat val) AND cr_mask r,
                                cr_right := shl_u64 rt (unat val) AND cr_mask r\<rparr>
                     in (if cr_left r' = cr_right r' then r'\<lparr>cr_isempty := True\<rparr> else r', True)))
      else (r, False))"

definition sright_pull_arm :: "circle_range \<Rightarrow> u64 \<Rightarrow> usize \<Rightarrow> circle_range \<times> bool" where
  "sright_pull_arm r val in_size =
     (if cr_step r = 1
      then (let rightb_orig = calc_mask in_size;
                leftb0 = shr_u64 rightb_orig (unat (val + 1));
                new_rightb = leftb0 XOR rightb_orig;
                leftb = leftb0 + 1
            in if cr_left r \<ge> leftb \<and> cr_left r \<le> new_rightb \<and> cr_right r \<ge> leftb
                  \<and> cr_right r \<le> new_rightb \<and> cr_left r \<ge> cr_right r
                  \<or> cr_left r = cr_right r
               then (r\<lparr>cr_left := 0, cr_right := 0\<rparr>, True)
               else (let l = (if cr_left r > leftb \<and> cr_left r < new_rightb then leftb else cr_left r);
                         rt = (if cr_right r > leftb \<and> cr_right r < new_rightb then new_rightb
                               else cr_right r);
                         r' = r\<lparr>cr_left := shl_u64 l (unat val) AND cr_mask r,
                                cr_right := shl_u64 rt (unat val) AND cr_mask r\<rparr>
                     in (if cr_left r' = cr_right r' then r'\<lparr>cr_isempty := True\<rparr> else r', True)))
      else (r, False))"

definition pull_back_binary ::
  "circle_range \<Rightarrow> opcode \<Rightarrow> u64 \<Rightarrow> i32 \<Rightarrow> usize \<Rightarrow> usize \<Rightarrow> circle_range \<times> bool" where
  "pull_back_binary r opc val slot in_size out_size =
     (if cr_isempty r then (r, True)
      else case opc of
        CPUI_INT_EQUAL \<Rightarrow> pull_compare r in_size (equal_arm val)
      | CPUI_INT_NOTEQUAL \<Rightarrow> pull_compare r in_size (notequal_arm val)
      | CPUI_INT_LESS \<Rightarrow> pull_compare r in_size (less_arm val slot)
      | CPUI_INT_LESSEQUAL \<Rightarrow> pull_compare r in_size (lessequal_arm val slot)
      | CPUI_INT_SLESS \<Rightarrow> pull_compare r in_size (sless_pull_arm val slot)
      | CPUI_INT_SLESSEQUAL \<Rightarrow> pull_compare r in_size (slessequal_arm val slot)
      | CPUI_INT_CARRY \<Rightarrow> pull_compare r in_size (carry_arm val)
      | CPUI_INT_ADD \<Rightarrow>
          (r\<lparr>cr_left := (cr_left r - val) AND cr_mask r, cr_right := (cr_right r - val) AND cr_mask r\<rparr>, True)
      | CPUI_INT_SUB \<Rightarrow>
          if slot = 0
          then (r\<lparr>cr_left := (cr_left r + val) AND cr_mask r, cr_right := (cr_right r + val) AND cr_mask r\<rparr>, True)
          else (r\<lparr>cr_left := (val - cr_left r) AND cr_mask r, cr_right := (val - cr_right r) AND cr_mask r\<rparr>, True)
      | CPUI_INT_RIGHT \<Rightarrow> right_pull_arm r val in_size
      | CPUI_INT_SRIGHT \<Rightarrow> sright_pull_arm r val in_size
      | _ \<Rightarrow> (r, False))"

section \<open>Pull-back through an operation of the program\<close>

record varnode_view =
  vn_is_constant :: bool
  vn_size :: usize
  vn_offset :: u64
  vn_nz_mask :: u64
  vn_has_symbol_entry :: bool

record pcode_view =
  pv_opcode :: opcode
  pv_inputs :: "varnode_view list"
  pv_output :: "varnode_view option"

text \<open>The last step: restrict by the mask of the bits of the input that may be nonzero.\<close>

definition pull_back_nz :: "circle_range \<Rightarrow> varnode_view \<Rightarrow> bool \<Rightarrow> circle_range" where
  "pull_back_nz r vn usenzmask =
     (if usenzmask
      then (case set_nz_mask (vn_nz_mask vn) (vn_size vn) of
              None \<Rightarrow> r
            | Some nzrange \<Rightarrow> fst (circle_intersect r nzrange))
      else r)"

definition pull_back ::
  "circle_range \<Rightarrow> pcode_view \<Rightarrow> bool \<Rightarrow> varnode_view option
     \<Rightarrow> circle_range \<times> varnode_view option \<times> varnode_view option" where
  "pull_back r op usenzmask const_markup =
     (case (pv_inputs op, pv_output op) of
        ([vn], out) \<Rightarrow>
          if vn_is_constant vn then (r, const_markup, None)
          else (case out of
                  None \<Rightarrow> (r, const_markup, None)
                | Some o_vn \<Rightarrow>
                    (case pull_back_unary r (pv_opcode op) (vn_size vn) (vn_size o_vn) of (r', ok) \<Rightarrow>
                       if \<not> ok then (r', const_markup, None)
                       else (pull_back_nz r' vn usenzmask, const_markup, Some vn)))
      | ([in0, in1], out) \<Rightarrow>
          if vn_is_constant in0 = vn_is_constant in1 then (r, const_markup, None)
          else (let slot = (if vn_is_constant in0 then 1 else 0);
                    vn = (if vn_is_constant in0 then in1 else in0);
                    constvn = (if vn_is_constant in0 then in0 else in1);
                    val = vn_offset constvn
                in case out of
                     None \<Rightarrow> (r, const_markup, None)
                   | Some o_vn \<Rightarrow>
                       (case pull_back_binary r (pv_opcode op) val slot (vn_size vn) (vn_size o_vn) of (r1, ok) \<Rightarrow>
                          (let salvage = (usenzmask \<and> pv_opcode op = CPUI_SUBPIECE \<and> val = 0);
                               msbset = (mostsigbit_set (vn_nz_mask vn) + 8) div 8;
                               markup' = (if vn_has_symbol_entry constvn then Some constvn else const_markup)
                           in if \<not> ok \<and> \<not> salvage then (r1, const_markup, None)
                              else if \<not> ok \<and> vn_size o_vn < nat msbset then (r1, const_markup, None)
                              else (let r2 = (if ok then r1 else expand_mask r1 (vn_size vn))
                                    in (pull_back_nz r2 vn usenzmask, markup', Some vn)))))
      | _ \<Rightarrow> (r, const_markup, None))"

section \<open>Push-forward\<close>

definition boolean_outcome :: "circle_range \<Rightarrow> circle_range" where
  "boolean_outcome r = r\<lparr>cr_isempty := False, cr_mask := 0xff, cr_step := 1, cr_left := 0, cr_right := 2\<rparr>"

definition push_zext :: "circle_range \<Rightarrow> circle_range \<Rightarrow> usize \<Rightarrow> circle_range \<times> bool" where
  "push_zext r in1 out_size =
     (let r0 = r\<lparr>cr_isempty := False, cr_step := cr_step in1, cr_mask := calc_mask out_size\<rparr>
      in if cr_left in1 = cr_right in1
         then (let l = cr_left in1 mod cr_step in1
               in (r0\<lparr>cr_left := l, cr_right := cr_mask in1 + 1 + l\<rparr>, True))
         else (let r1 = r0\<lparr>cr_left := cr_left in1, cr_right := (cr_right in1 - cr_step in1) AND cr_mask in1\<rparr>
               in if cr_right r1 < cr_left r1 then (r1, False)
                  else (r1\<lparr>cr_right := cr_right r1 + cr_step r1\<rparr>, True)))"

definition push_sext :: "circle_range \<Rightarrow> circle_range \<Rightarrow> usize \<Rightarrow> usize \<Rightarrow> circle_range \<times> bool" where
  "push_sext r in1 in_size out_size =
     (let r0 = r\<lparr>cr_isempty := False, cr_step := cr_step in1, cr_mask := calc_mask out_size\<rparr>
      in if cr_left in1 = cr_right in1
         then (let rem = cr_left in1 mod cr_step in1;
                   half = shr_u64 (calc_mask in_size) 1
               in (r0\<lparr>cr_left := (calc_mask out_size XOR half) + rem, cr_right := half + 1 + rem\<rparr>, True))
         else (let r1 = r0\<lparr>cr_left := sign_extend_size (cr_left in1) in_size out_size,
                           cr_right := sign_extend_size ((cr_right in1 - cr_step in1) AND cr_mask in1)
                                         in_size out_size\<rparr>
               in if as_i64 (cr_right r1) < as_i64 (cr_left r1) then (r1, False)
                  else (r1\<lparr>cr_right := (cr_right r1 + cr_step r1) AND cr_mask r1\<rparr>, True)))"

definition push_forward_unary ::
  "circle_range \<Rightarrow> opcode \<Rightarrow> circle_range \<Rightarrow> usize \<Rightarrow> usize \<Rightarrow> circle_range \<times> bool" where
  "push_forward_unary r opc in1 in_size out_size =
     (if cr_isempty in1 then (r\<lparr>cr_isempty := True\<rparr>, True)
      else case opc of
        CPUI_CAST \<Rightarrow> (in1, True)
      | CPUI_COPY \<Rightarrow> (in1, True)
      | CPUI_INT_ZEXT \<Rightarrow> push_zext r in1 out_size
      | CPUI_INT_SEXT \<Rightarrow> push_sext r in1 in_size out_size
      | CPUI_INT_2COMP \<Rightarrow>
          (circle_normalize (r\<lparr>cr_isempty := False, cr_step := cr_step in1, cr_mask := cr_mask in1,
             cr_right := (NOT (cr_left in1) + 1 + cr_step in1) AND cr_mask in1,
             cr_left := (NOT (cr_right in1) + 1 + cr_step in1) AND cr_mask in1\<rparr>), True)
      | CPUI_INT_NEGATE \<Rightarrow>
          (circle_normalize (r\<lparr>cr_isempty := False, cr_step := cr_step in1, cr_mask := cr_mask in1,
             cr_left := (NOT (cr_right in1) + cr_step in1) AND cr_mask in1,
             cr_right := (NOT (cr_left in1) + cr_step in1) AND cr_mask in1\<rparr>), True)
      | CPUI_BOOL_NEGATE \<Rightarrow> (boolean_outcome r, True)
      | CPUI_FLOAT_NAN \<Rightarrow> (boolean_outcome r, True)
      | _ \<Rightarrow> (r, False))"

text \<open>The span of a range as the additions compare it.\<close>

definition circle_span :: "circle_range \<Rightarrow> u64" where
  "circle_span r =
     (if cr_left r < cr_right r then cr_right r - cr_left r
      else cr_mask r - (cr_left r - cr_right r) + cr_step r)"

definition push_add :: "circle_range \<Rightarrow> circle_range \<Rightarrow> circle_range \<Rightarrow> circle_range" where
  "push_add r in1 in2 =
     (let m = cr_mask in1 OR cr_mask in2;
          r0 = r\<lparr>cr_isempty := False, cr_mask := m\<rparr>
      in if cr_left in1 = cr_right in1 \<or> cr_left in2 = cr_right in2
         then (let stp = min (cr_step in1) (cr_step in2);
                   l = (cr_left in1 + cr_left in2) mod stp
               in r0\<lparr>cr_step := stp, cr_left := l, cr_right := l\<rparr>)
         else if is_single in2
         then r0\<lparr>cr_step := cr_step in1, cr_left := (cr_left in1 + cr_left in2) AND m,
                 cr_right := (cr_right in1 + cr_left in2) AND m\<rparr>
         else if is_single in1
         then r0\<lparr>cr_step := cr_step in2, cr_left := (cr_left in2 + cr_left in1) AND m,
                 cr_right := (cr_right in2 + cr_left in1) AND m\<rparr>
         else (let stp = min (cr_step in1) (cr_step in2);
                   size1 = circle_span in1;
                   r1 = r0\<lparr>cr_step := stp, cr_left := (cr_left in1 + cr_left in2) AND m,
                           cr_right := (cr_right in1 - cr_step in1 + cr_right in2 - cr_step in2 + stp) AND m\<rparr>;
                   sizenew = circle_span r1
               in circle_normalize (if sizenew < size1 then r1\<lparr>cr_right := cr_left r1\<rparr> else r1)))"

text \<open>
  The two step-doubling loops. Both state components are zero after 64 rounds and stay so: a
  run that has not stopped by then never does.
\<close>

fun mult_step_loop :: "nat \<Rightarrow> i32 \<Rightarrow> u64 \<Rightarrow> u32 \<Rightarrow> u64 option" where
  "mult_step_loop fuel max_step stp tmp =
     (if \<not> as_i32 stp < max_step then Some stp
      else if tmp AND 1 \<noteq> 0 then Some stp
      else case fuel of 0 \<Rightarrow> None
        | Suc f \<Rightarrow> mult_step_loop f max_step (shl_u64 stp 1) (drop_bit 1 tmp))"

declare mult_step_loop.simps [simp del]

fun left_step_loop :: "nat \<Rightarrow> i32 \<Rightarrow> u64 \<Rightarrow> u64" where
  "left_step_loop 0 max_step stp = stp"
| "left_step_loop (Suc tmp) max_step stp =
     (if as_i32 stp < max_step then left_step_loop tmp max_step (shl_u64 stp 1) else stp)"

definition push_mult ::
  "circle_range \<Rightarrow> circle_range \<Rightarrow> circle_range \<Rightarrow> i32 \<Rightarrow> (circle_range \<times> bool) option" where
  "push_mult r in1 in2 max_step =
     (let m = cr_mask in1 OR cr_mask in2;
          r0 = r\<lparr>cr_isempty := False, cr_mask := m\<rparr>
      in if \<not> is_single in1 \<and> \<not> is_single in2 then Some (r0, False)
         else
           (let const_val = (if is_single in1 then cr_left in1 else cr_left in2);
                stp0 = (if is_single in1 then cr_step in2 else cr_step in1)
            in case mult_step_loop 64 max_step stp0 (ucast const_val) of
                 None \<Rightarrow> None
               | Some stp \<Rightarrow>
                   (let r1 = r0\<lparr>cr_step := stp\<rparr>;
                        whole_size = 64 - int (leading_zeros m)
                    in if get_max_info in1 + get_max_info in2 > whole_size
                       then (let l = (cr_left in1 * cr_left in2) mod stp
                             in Some (circle_normalize (r1\<lparr>cr_left := l, cr_right := l\<rparr>), True))
                       else if const_val AND (m XOR shr_u64 m 1) \<noteq> 0
                       then Some (r1\<lparr>cr_left := ((cr_right in1 - cr_step in1) * (cr_right in2 - cr_step in2)) AND m,
                                     cr_right := (cr_left in1 * cr_left in2 + stp) AND m\<rparr>, True)
                       else Some (r1\<lparr>cr_left := (cr_left in1 * cr_left in2) AND m,
                                     cr_right := ((cr_right in1 - cr_step in1) * (cr_right in2 - cr_step in2) + stp) AND m\<rparr>,
                                  True))))"

definition push_left :: "circle_range \<Rightarrow> circle_range \<Rightarrow> circle_range \<Rightarrow> i32 \<Rightarrow> circle_range \<times> bool" where
  "push_left r in1 in2 max_step =
     (if \<not> is_single in2 then (r, False)
      else
        (let sa = (ucast (cr_left in2) :: u32);
             stp = left_step_loop (unat sa) max_step (cr_step in1);
             m = cr_mask in1;
             r1 = r\<lparr>cr_isempty := False, cr_mask := m, cr_step := stp,
                    cr_left := shl_u64 (cr_left in1) (unat sa) AND m,
                    cr_right := shl_u64 (cr_right in1) (unat sa) AND m\<rparr>;
             whole_size = 64 - leading_zeros m
         in if unat (word_of_int (get_max_info in1) + sa) > whole_size
            then (circle_normalize (r1\<lparr>cr_right := cr_left r1\<rparr>), True)
            else (r1, True)))"

definition push_subpiece :: "circle_range \<Rightarrow> circle_range \<Rightarrow> circle_range \<Rightarrow> usize \<Rightarrow> circle_range \<times> bool" where
  "push_subpiece r in1 in2 out_size =
     (if \<not> is_single in2 then (r, False)
      else
        (let sa = as_u64 (wrap_i32 (as_i32 (cr_left in2) * 8));
             m = calc_mask out_size;
             stp = (if sa = 0 then cr_step in1 else 1);
             r0 = r\<lparr>cr_isempty := False, cr_mask := m, cr_step := stp\<rparr>;
             range = (if cr_left in1 < cr_right in1 then cr_right in1 - cr_left in1
                      else cr_left in1 - cr_right in1)
         in if range = 0 \<or> shr_u64 range (unat sa) > m
            then (r0\<lparr>cr_left := 0, cr_right := 0\<rparr>, True)
            else (circle_normalize (r0\<lparr>cr_left := shr_u64 (cr_left in1) (unat sa) AND m,
                    cr_right := (shr_u64 (cr_right in1 - cr_step in1) (unat sa) + stp) AND m\<rparr>), True)))"

definition push_right :: "circle_range \<Rightarrow> circle_range \<Rightarrow> circle_range \<Rightarrow> usize \<Rightarrow> circle_range \<times> bool" where
  "push_right r in1 in2 out_size =
     (if \<not> is_single in2 then (r, False)
      else
        (let sa = unat (cr_left in2 AND 63);
             m = calc_mask out_size;
             l = (if cr_left in1 < cr_right in1 then shr_u64 (cr_left in1) sa else 0);
             rt = (if cr_left in1 < cr_right in1 then shr_u64 (cr_right in1 - cr_step in1) sa + 1
                   else shr_u64 (cr_mask in1) sa)
         in (r\<lparr>cr_isempty := False, cr_mask := m, cr_step := 1, cr_left := l,
               cr_right := (if l = rt then (l + 1) AND m else rt)\<rparr>, True)))"

definition push_sright ::
  "circle_range \<Rightarrow> circle_range \<Rightarrow> circle_range \<Rightarrow> usize \<Rightarrow> usize \<Rightarrow> circle_range \<times> bool" where
  "push_sright r in1 in2 in_size out_size =
     (if \<not> is_single in2 then (r, False)
      else
        (let sa = unat (cr_left in2 AND 63);
             m = calc_mask out_size;
             bit_pos = usize_sub (8 * in_size) 1 mod 2 ^ 32;
             val_left0 = sign_extend_bits (cr_left in1) bit_pos;
             val_right0 = sign_extend_bits (cr_right in1) bit_pos;
             val_right = (if val_left0 \<ge> val_right0 then as_i64 (shr_u64 m 1) else val_right0);
             val_left = (if val_left0 \<ge> val_right0
                         then sign_extend_bits (as_u64 (wrap_i64 (val_right + 1))) bit_pos
                         else val_left0);
             l = as_u64 (drop_bit sa val_left) AND m;
             rt = as_u64 (wrap_i64 (drop_bit sa (wrap_i64 (val_right - as_i64 (cr_step in1))) + 1)) AND m
         in (r\<lparr>cr_isempty := False, cr_mask := m, cr_step := 1, cr_left := l,
               cr_right := (if l = rt then (l + 1) AND m else rt)\<rparr>, True)))"

definition push_forward_binary ::
  "circle_range \<Rightarrow> opcode \<Rightarrow> circle_range \<Rightarrow> circle_range \<Rightarrow> usize \<Rightarrow> usize \<Rightarrow> i32
     \<Rightarrow> (circle_range \<times> bool) option" where
  "push_forward_binary r opc in1 in2 in_size out_size max_step =
     (if cr_isempty in1 \<or> cr_isempty in2 then Some (r\<lparr>cr_isempty := True\<rparr>, True)
      else if opc = CPUI_PTRSUB \<or> opc = CPUI_INT_ADD then Some (push_add r in1 in2, True)
      else if opc = CPUI_INT_MULT then push_mult r in1 in2 max_step
      else if opc = CPUI_INT_LEFT then Some (push_left r in1 in2 max_step)
      else if opc = CPUI_SUBPIECE then Some (push_subpiece r in1 in2 out_size)
      else if opc = CPUI_INT_RIGHT then Some (push_right r in1 in2 out_size)
      else if opc = CPUI_INT_SRIGHT then Some (push_sright r in1 in2 in_size out_size)
      else if opc \<in> {CPUI_INT_EQUAL, CPUI_INT_NOTEQUAL, CPUI_INT_SLESS, CPUI_INT_SLESSEQUAL,
          CPUI_INT_LESS, CPUI_INT_LESSEQUAL, CPUI_INT_CARRY, CPUI_INT_SCARRY, CPUI_INT_SBORROW,
          CPUI_BOOL_XOR, CPUI_BOOL_AND, CPUI_BOOL_OR, CPUI_FLOAT_EQUAL, CPUI_FLOAT_NOTEQUAL,
          CPUI_FLOAT_LESS, CPUI_FLOAT_LESSEQUAL}
      then Some (boolean_outcome r, True)
      else Some (r, False))"

definition push_forward_trinary ::
  "circle_range \<Rightarrow> opcode \<Rightarrow> circle_range \<Rightarrow> circle_range \<Rightarrow> circle_range \<Rightarrow> usize \<Rightarrow> usize \<Rightarrow> i32
     \<Rightarrow> (circle_range \<times> bool) option" where
  "push_forward_trinary r opc in1 in2 in3 in_size out_size max_step =
     (if opc \<noteq> CPUI_PTRADD then Some (r, False)
      else case push_forward_binary (circle_full in_size) CPUI_INT_MULT in2 in3 in_size in_size max_step of
             None \<Rightarrow> None
           | Some (tmp_range, ok) \<Rightarrow>
               if \<not> ok then Some (r, False)
               else push_forward_binary r CPUI_INT_ADD in1 tmp_range in_size out_size max_step)"

section \<open>Translation into a comparison\<close>

text \<open>An error \<open>Err code\<close> of the source is \<open>Inl code\<close>.\<close>

definition translate_to_op :: "circle_range \<Rightarrow> i32 + opcode \<times> u64 \<times> i32" where
  "translate_to_op r =
     (if cr_isempty r then Inl 3
      else if cr_step r \<noteq> 1 then Inl 2
      else if cr_right r = (cr_left r + 1) AND cr_mask r then Inr (CPUI_INT_EQUAL, cr_left r, 0)
      else if cr_left r = (cr_right r + 1) AND cr_mask r then Inr (CPUI_INT_NOTEQUAL, cr_right r, 0)
      else if cr_left r = cr_right r then Inl 1
      else if cr_left r = 0 then Inr (CPUI_INT_LESS, cr_right r, 1)
      else if cr_right r = 0 then Inr (CPUI_INT_LESS, (cr_left r - 1) AND cr_mask r, 0)
      else if cr_left r = shr_u64 (cr_mask r) 1 + 1 then Inr (CPUI_INT_SLESS, cr_right r, 1)
      else if cr_right r = shr_u64 (cr_mask r) 1 + 1
      then Inr (CPUI_INT_SLESS, (cr_left r - 1) AND cr_mask r, 0)
      else Inl 2)"

end
