(* ===== verification/Circle_Pull.thy ===== *)
theory Circle_Pull
  imports Op_Semantics Circle_Values Circle_Flow
begin

text \<open>
  What pull-back computes (src/src/rangeutil.rs): the arms of \<open>pull_back_binary\<close> are compared
  with \<open>evaluate_binary\<close> of src/src/opbehavior.rs. A comparison with a constant pulls back to
  exactly the inputs with an allowed outcome, an addition to the rotated range, and
  \<open>translate_to_op\<close> names a comparison true of exactly the range. The last section evaluates
  the inputs on which the code loses a value.
\<close>

unbundle bit_operations_syntax

section \<open>Ranges of step 1 over a whole number of bytes\<close>

lemma mask_wf_step1:
  assumes "cr_mask r = calc_mask sz" "cr_step r = 1" "cr_isempty r \<or> cr_left r \<le> calc_mask sz \<and> cr_right r \<le> calc_mask sz"
  shows "circle_wf r"
  by (rule circle_wfI [of "nbits sz" 0]) (use assms in \<open>auto simp: calc_mask_eq\<close>)

lemma mem_step1:
  assumes "cr_mask r = calc_mask sz" "cr_step r = 1"
  shows "circle_mem r x \<longleftrightarrow> \<not> cr_isempty r \<and> x \<le> calc_mask sz \<and> arc_mem (cr_left r) (cr_right r) x"
  using assms by (auto simp: circle_mem_def)

text \<open>The successor modulo the domain.\<close>

lemma calc_mask_pos: "0 < sz \<Longrightarrow> calc_mask sz \<noteq> 0"
  using le_calc_mask_iff [of 1 sz] by (auto simp: nbits_def one_less_power)

lemma succ_uint:
  assumes "v \<le> calc_mask sz" "v \<noteq> calc_mask sz"
  shows "uint (v + 1) = uint v + 1"
proof -
  have "uint v < 2 ^ nbits sz" "uint v \<noteq> 2 ^ nbits sz - 1"
    using assms uint_calc_mask [of sz] by (auto simp: le_calc_mask_iff word_uint_eq_iff)
  moreover have "(2 :: int) ^ nbits sz \<le> 2 ^ 64" by (rule power_increasing) simp_all
  ultimately have "uint v + 1 < 2 ^ 64" by linarith
  then show ?thesis by (simp add: uint_plus_u64 mod_pos_pos_trivial)
qed

lemma succ_mask:
  assumes "0 < sz" "v \<le> calc_mask sz"
  shows "(v + 1) AND calc_mask sz = (if v = calc_mask sz then 0 else v + 1)"
proof (cases "v = calc_mask sz")
  case True
  have "uint ((v + 1) AND calc_mask sz) = (uint v + 1) mod 2 ^ nbits sz"
    by (simp add: calc_mask_eq uint_plus_and_mask)
  also have "uint v + 1 = 2 ^ nbits sz" using True uint_calc_mask [of sz] by simp
  finally have "(v + 1) AND calc_mask sz = 0" by (simp add: word_uint_eq_iff)
  then show ?thesis using True by simp
next
  case False
  have "uint v < 2 ^ nbits sz" "uint v \<noteq> 2 ^ nbits sz - 1"
    using assms False uint_calc_mask [of sz] by (auto simp: le_calc_mask_iff word_uint_eq_iff)
  then have "v + 1 \<le> calc_mask sz" using succ_uint [OF assms(2) False] by (simp add: le_calc_mask_iff)
  then show ?thesis using False and_calc_mask_self by simp
qed

lemma half_mask:
  assumes "0 < sz" "sz \<le> 8"
  shows "uint (shr_u64 (calc_mask sz) 1 + 1) = 2 ^ (nbits sz - 1)"
    and "uint (shr_u64 (calc_mask sz) 1) = 2 ^ (nbits sz - 1) - 1"
  using size_cases [OF assms] by (auto simp: calc_mask_def shr_u64_def shl_u64_def nbits_def U64_MAX_def)


lemma arc_swap: "l \<noteq> r \<Longrightarrow> arc_mem r l x \<longleftrightarrow> \<not> arc_mem l r x"
  by (auto simp: arc_mem_def not_le not_less)

lemmas pull_arm_defs = equal_arm_def notequal_arm_def less_arm_def lessequal_arm_def sless_pull_arm_def
  slessequal_arm_def carry_arm_def

lemma arc_unit:
  assumes "v \<le> calc_mask sz" "x \<le> calc_mask sz"
  shows "arc_mem v ((v + 1) AND calc_mask sz) x \<longleftrightarrow> x = v"
  using arc_single [of "nbits sz" 0 v x] assms by (simp add: calc_mask_eq)

text \<open>The value sets of the comparison arms, over a nonempty range of step 1.\<close>

lemma pull_unsigned_arms:
  assumes b: "cr_mask b = calc_mask sz" "cr_step b = 1" "\<not> cr_isempty b"
    and sz: "0 < sz" and v: "val \<le> calc_mask sz" and x: "x \<le> calc_mask sz"
  shows "circle_mem (equal_arm val b) x \<longleftrightarrow> x = val"
    and "circle_mem (notequal_arm val b) x \<longleftrightarrow> x \<noteq> val"
    and "circle_mem (less_arm val slot b) x \<longleftrightarrow> (if slot = 0 then x < val else val < x)"
    and "circle_mem (lessequal_arm val slot b) x \<longleftrightarrow> (if slot = 0 then x \<le> val else val \<le> x)"
proof -
  note mem = mem_step1 [of _ sz]
  have ne: "(val + 1) AND calc_mask sz \<noteq> val"
    using calc_mask_pos [OF sz] by (auto simp: succ_mask [OF sz v])
  show "circle_mem (equal_arm val b) x \<longleftrightarrow> x = val"
    using b x arc_unit [OF v x] by (simp add: mem equal_arm_def)
  show "circle_mem (notequal_arm val b) x \<longleftrightarrow> x \<noteq> val"
    using b x arc_unit [OF v x] arc_swap [OF ne [symmetric]] by (simp add: mem notequal_arm_def)
  have gt: "val \<noteq> calc_mask sz \<Longrightarrow> val + 1 \<le> x \<longleftrightarrow> val < x"
    using succ_uint [OF v] by (auto simp: word_le_def word_less_def)
  have nz: "val \<noteq> calc_mask sz \<Longrightarrow> val + 1 \<noteq> 0"
  proof
    assume "val \<noteq> calc_mask sz" and z: "val + 1 = 0"
    then have "uint (0 :: u64) = uint val + 1" using succ_uint [OF v] by simp
    then show False using uint_ge_0 [of val] by simp
  qed
  have less: "circle_mem (less_arm val slot b) x \<longleftrightarrow> (if slot = 0 then x < val else val < x)" for slot
    using b x v gt nz by (auto simp: mem less_arm_def succ_mask [OF sz v] arc_mem_def word_gt_0)
  have z: "(val + 1) AND calc_mask sz = 0 \<longleftrightarrow> val = calc_mask sz" using succ_mask [OF sz v] nz by auto
  have "circle_mem (lessequal_arm val slot b) x \<longleftrightarrow> \<not> circle_mem (less_arm val (if slot = 0 then 1 else 0) b) x"
    using b x z arc_swap [of "(val + 1) AND calc_mask sz" 0 x] arc_swap [of 0 val x]
    by (auto simp: mem lessequal_arm_def less_arm_def arc_mem_def [of 0 0])
  then show "circle_mem (lessequal_arm val slot b) x \<longleftrightarrow> (if slot = 0 then x \<le> val else val \<le> x)"
    by (auto simp: less not_less)
  show "circle_mem (less_arm val slot b) x \<longleftrightarrow> (if slot = 0 then x < val else val < x)" by (rule less)
qed

text \<open>Signed orders as orders from the least integer: \<open>H\<close> is half the modulus.\<close>

lemma signed_arc:
  fixes X V H :: int
  assumes "0 \<le> X" "X < 2 * H" "0 \<le> V" "V < 2 * H"
  defines "sX \<equiv> if X < H then X else X - 2 * H" and "sV \<equiv> if V < H then V else V - 2 * H"
  shows "V \<noteq> H \<Longrightarrow> (if H < V then H \<le> X \<and> X < V else H \<le> X \<or> X < V) \<longleftrightarrow> sX < sV"
    and "V = H \<Longrightarrow> \<not> sX < sV"
    and "V \<noteq> H - 1 \<Longrightarrow> sV < sX \<longleftrightarrow> (if V + 1 = 2 * H then X < H else if V + 1 < H then V + 1 \<le> X \<and> X < H else V + 1 \<le> X \<or> X < H)"
    and "V = H - 1 \<Longrightarrow> \<not> sV < sX"
  using assms by auto

lemma pull_signed_arms:
  assumes b: "cr_mask b = calc_mask sz" "cr_step b = 1" "\<not> cr_isempty b"
    and sz: "0 < sz" "sz \<le> 8" and v: "val \<le> calc_mask sz" and x: "x \<le> calc_mask sz"
  shows "circle_mem (sless_pull_arm val slot b) x \<longleftrightarrow>
      (if slot = 0 then sval sz x < sval sz val else sval sz val < sval sz x)"
    and "circle_mem (slessequal_arm val slot b) x \<longleftrightarrow>
      (if slot = 0 then sval sz x \<le> sval sz val else sval sz val \<le> sval sz x)"
proof -
  let ?H = "2 ^ (nbits sz - 1) :: int" and ?h = "shr_u64 (calc_mask sz) 1 + 1"
  note N = size_pow [OF sz(1)]
  have lt: "uint x < 2 * ?H" "uint val < 2 * ?H" using v x N by (simp_all add: le_calc_mask_iff)
  note sv = sval_arith [OF sz(1) x, unfolded N] sval_arith [OF sz(1) v, unfolded N]
  note ar = signed_arc [OF uint_ge_0 lt(1) uint_ge_0 lt(2), folded sv]
  have h: "val = ?h \<longleftrightarrow> uint val = ?H" "val = shr_u64 (calc_mask sz) 1 \<longleftrightarrow> uint val = ?H - 1"
    using half_mask [OF sz] by (auto simp: word_uint_eq_iff)
  have m: "val = calc_mask sz \<longleftrightarrow> uint val + 1 = 2 * ?H" using uint_calc_mask [of sz] N by (auto simp: word_uint_eq_iff)
  have s: "uint ((val + 1) AND calc_mask sz) = (if uint val + 1 = 2 * ?H then 0 else uint val + 1)"
    using succ_mask [OF sz(1) v] succ_uint [OF v] m by auto
  have H: "1 \<le> ?H" by simp
  note mem = mem_step1 [of _ sz]
  have sless: "circle_mem (sless_pull_arm val slot b) x \<longleftrightarrow>
      (if slot = 0 then sval sz x < sval sz val else sval sz val < sval sz x)" for slot
  proof (cases "slot = 0")
    case True
    then have "circle_mem (sless_pull_arm val slot b) x \<longleftrightarrow> uint val \<noteq> ?H \<and>
        (if ?H < uint val then ?H \<le> uint x \<and> uint x < uint val else ?H \<le> uint x \<or> uint x < uint val)"
      using b x by (simp add: mem sless_pull_arm_def arc_mem_uint half_mask [OF sz] h del: One_nat_def)
    then show ?thesis using ar(1,2) True by auto
  next
    case False
    then have "circle_mem (sless_pull_arm val slot b) x \<longleftrightarrow> uint val \<noteq> ?H - 1 \<and>
        (if uint val + 1 = 2 * ?H then uint x < ?H
         else if uint val + 1 < ?H then uint val + 1 \<le> uint x \<and> uint x < ?H else uint val + 1 \<le> uint x \<or> uint x < ?H)"
      using b x H uint_ge_0 [of x] by (auto simp: mem sless_pull_arm_def arc_mem_uint half_mask [OF sz] h s simp del: One_nat_def)
    then show ?thesis using ar(3,4) False by auto
  qed
  show "circle_mem (sless_pull_arm val slot b) x \<longleftrightarrow>
      (if slot = 0 then sval sz x < sval sz val else sval sz val < sval sz x)" by (rule sless)
  have sh: "(val + 1) AND calc_mask sz = ?h \<longleftrightarrow> val = shr_u64 (calc_mask sz) 1"
    using s h(2) half_mask(1) [OF sz] H by (auto simp: word_uint_eq_iff [of "_ AND _"] simp del: One_nat_def)
  have "circle_mem (slessequal_arm val slot b) x \<longleftrightarrow> \<not> circle_mem (sless_pull_arm val (if slot = 0 then 1 else 0) b) x"
    using b x arc_swap [of "(val + 1) AND calc_mask sz" ?h x] arc_swap [of ?h val x] sh
    by (auto simp: mem slessequal_arm_def sless_pull_arm_def arc_mem_def [of ?h ?h] simp del: One_nat_def)
  then show "circle_mem (slessequal_arm val slot b) x \<longleftrightarrow>
      (if slot = 0 then sval sz x \<le> sval sz val else sval sz val \<le> sval sz x)"
    by (auto simp: sless)
qed


lemma pull_carry_arm:
  assumes b: "cr_mask b = calc_mask sz" "cr_step b = 1" "\<not> cr_isempty b"
    and sz: "0 < sz" and v: "val \<le> calc_mask sz" and x: "x \<le> calc_mask sz"
  shows "circle_mem (carry_arm val b) x \<longleftrightarrow> 2 ^ nbits sz \<le> uint x + uint val"
proof (cases "val = 0")
  case True
  then show ?thesis using b x by (simp add: carry_arm_def mem_step1 [of _ sz] le_calc_mask_iff)
next
  case False
  let ?N = "2 ^ nbits sz :: int"
  have "0 < val" using False by (simp add: word_gt_0)
  then have lt: "uint val < ?N" "0 < uint val" "uint x < ?N"
    using v x by (simp_all add: le_calc_mask_iff word_less_def)
  have "uint ((calc_mask sz - val + 1) AND calc_mask sz) = (uint (calc_mask sz - val) + 1) mod ?N"
    by (simp add: calc_mask_eq uint_plus_and_mask)
  also have "\<dots> = (?N - uint val) mod ?N" 
    using lt uint_sub_lem [of val "calc_mask sz"] v by (simp add: word_le_def uint_calc_mask)
  also have "\<dots> = ?N - uint val" using lt by (intro mod_pos_pos_trivial) linarith+
  finally show ?thesis
    using b x lt False uint_ge_0 [of x] by (auto simp: carry_arm_def mem_step1 [of _ sz] arc_mem_uint)
qed

text \<open>The frame of the comparisons.\<close>

lemma left_mem: "circle_wf r \<Longrightarrow> \<not> cr_isempty r \<Longrightarrow> circle_mem r (cr_left r)"
  by (auto simp: circle_mem_def circle_wf_def arc_mem_def)

lemma pull_compare_mem:
  assumes r: "circle_wf r" "\<not> cr_isempty r" "1 \<le> cr_mask r" "\<not> (circle_mem r 0 \<and> circle_mem r 1)"
    and keep: "\<And>b. cr_mask (arm b) = cr_mask b \<and> cr_step (arm b) = cr_step b \<and> (cr_isempty b \<longrightarrow> cr_isempty (arm b))"
    and arm: "\<And>b. cr_mask b = calc_mask sz \<Longrightarrow> cr_step b = 1 \<Longrightarrow> \<not> cr_isempty b \<Longrightarrow> circle_mem (arm b) x \<longleftrightarrow> P"
    and x: "x \<le> calc_mask sz"
  shows "circle_mem (fst (pull_compare r sz arm)) x \<longleftrightarrow> circle_mem r (bool_u64 P)"
proof -
  obtain b both where c: "convert_to_boolean r = (b, both)" by fastforce
  note B = convert_to_boolean_mem [OF r(1,3) c]
  have nb: "\<not> both" using B(3) r(4) by simp
  note cv = contains_boolean [OF r(1,3)]
  have "cr_left r \<noteq> 0" if "\<not> circle_mem r 0" using left_mem [OF r(1,2)] that by auto
  then have st: "cr_step b = 1" "(cr_isempty b \<and> \<not> circle_mem r 0 \<and> \<not> circle_mem r 1 \<and> cr_left b \<noteq> 0)
      \<or> (\<not> cr_isempty b \<and> cr_left b = (if circle_mem r 0 then 0 else 1) \<and> (circle_mem r 0 \<or> circle_mem r 1))"
    using c r(2,4) unfolding convert_to_boolean_def Let_def cv
    by (cases "circle_mem r 0"; cases "circle_mem r 1"; auto)+
  let ?b = "b\<lparr>cr_mask := calc_mask sz\<rparr>"
  have eq: "fst (pull_compare r sz arm) = (if cr_left b = 0 then complement (arm ?b) else arm ?b)"
    using c nb by (simp add: pull_compare_def Let_def)
  have k: "cr_mask (arm ?b) = calc_mask sz" "cr_step (arm ?b) = 1" using keep [of ?b] st(1) by simp_all
  from st(2) show ?thesis
  proof
    assume "cr_isempty b \<and> \<not> circle_mem r 0 \<and> \<not> circle_mem r 1 \<and> cr_left b \<noteq> 0"
    then show ?thesis unfolding eq using keep [of ?b] by (auto simp: bool_u64_def)
  next
    assume a: "\<not> cr_isempty b \<and> cr_left b = (if circle_mem r 0 then 0 else 1) \<and> (circle_mem r 0 \<or> circle_mem r 1)"
    then have m: "circle_mem (arm ?b) x \<longleftrightarrow> P" using arm [of ?b] st(1) by simp
    show ?thesis
      unfolding eq using a m r(4) step_one_mem [OF k(2), of x] k(1) x by (auto simp: bool_u64_def)
  qed
qed


lemma arms_keep:
  "cr_mask (equal_arm v b) = cr_mask b \<and> cr_step (equal_arm v b) = cr_step b \<and> (cr_isempty b \<longrightarrow> cr_isempty (equal_arm v b))"
  "cr_mask (notequal_arm v b) = cr_mask b \<and> cr_step (notequal_arm v b) = cr_step b \<and> (cr_isempty b \<longrightarrow> cr_isempty (notequal_arm v b))"
  "cr_mask (less_arm v sl b) = cr_mask b \<and> cr_step (less_arm v sl b) = cr_step b \<and> (cr_isempty b \<longrightarrow> cr_isempty (less_arm v sl b))"
  "cr_mask (lessequal_arm v sl b) = cr_mask b \<and> cr_step (lessequal_arm v sl b) = cr_step b \<and> (cr_isempty b \<longrightarrow> cr_isempty (lessequal_arm v sl b))"
  "cr_mask (sless_pull_arm v sl b) = cr_mask b \<and> cr_step (sless_pull_arm v sl b) = cr_step b \<and> (cr_isempty b \<longrightarrow> cr_isempty (sless_pull_arm v sl b))"
  "cr_mask (slessequal_arm v sl b) = cr_mask b \<and> cr_step (slessequal_arm v sl b) = cr_step b \<and> (cr_isempty b \<longrightarrow> cr_isempty (slessequal_arm v sl b))"
  "cr_mask (carry_arm v b) = cr_mask b \<and> cr_step (carry_arm v b) = cr_step b \<and> (cr_isempty b \<longrightarrow> cr_isempty (carry_arm v b))"
  by (simp_all add: pull_arm_defs)

text \<open>
  Property C1. Pull-back through a comparison is exact: unless the range holds both outcomes, the values it
  pulls back are exactly those inputs for which the comparison with the constant evaluates to
  a value of the range, for either slot of the input.
\<close>

theorem pull_back_compare_exact:
  assumes "circle_wf r" "\<not> cr_isempty r" "1 \<le> cr_mask r" "\<not> (circle_mem r 0 \<and> circle_mem r 1)"
    and "0 < so" "0 < sz" "sz \<le> 8" "val \<le> calc_mask sz" "x \<le> calc_mask sz"
    and "opc \<in> {CPUI_INT_EQUAL, CPUI_INT_NOTEQUAL, CPUI_INT_LESS, CPUI_INT_LESSEQUAL,
      CPUI_INT_SLESS, CPUI_INT_SLESSEQUAL, CPUI_INT_CARRY}"
  shows "circle_mem (fst (pull_back_binary r opc val slot sz so)) x \<longleftrightarrow>
    (\<exists>v. evaluate_binary opc so sz (if slot = 0 then x else val) (if slot = 0 then val else x) = Ret (Some v)
       \<and> circle_mem r v)"
proof -
  note pc = pull_compare_mem [OF assms(1-4) arms_keep(1) _ assms(9)] pull_compare_mem [OF assms(1-4) arms_keep(2) _ assms(9)]
    pull_compare_mem [OF assms(1-4) arms_keep(3) _ assms(9)] pull_compare_mem [OF assms(1-4) arms_keep(4) _ assms(9)]
    pull_compare_mem [OF assms(1-4) arms_keep(5) _ assms(9)] pull_compare_mem [OF assms(1-4) arms_keep(6) _ assms(9)]
    pull_compare_mem [OF assms(1-4) arms_keep(7) _ assms(9)]
  note a = pull_unsigned_arms [OF _ _ _ assms(6,8,9)] pull_signed_arms [OF _ _ _ assms(6,7,8,9)]
    pull_carry_arm [OF _ _ _ assms(6,8,9)]
  note ev = evaluate_binary_compare [OF assms(5-7) assms(9,8)] evaluate_binary_compare [OF assms(5-7) assms(8,9)]
  have pb: "pull_back_binary r CPUI_INT_EQUAL val slot sz so = pull_compare r sz (equal_arm val)"
    "pull_back_binary r CPUI_INT_NOTEQUAL val slot sz so = pull_compare r sz (notequal_arm val)"
    "pull_back_binary r CPUI_INT_LESS val slot sz so = pull_compare r sz (less_arm val slot)"
    "pull_back_binary r CPUI_INT_LESSEQUAL val slot sz so = pull_compare r sz (lessequal_arm val slot)"
    "pull_back_binary r CPUI_INT_SLESS val slot sz so = pull_compare r sz (sless_pull_arm val slot)"
    "pull_back_binary r CPUI_INT_SLESSEQUAL val slot sz so = pull_compare r sz (slessequal_arm val slot)"
    "pull_back_binary r CPUI_INT_CARRY val slot sz so = pull_compare r sz (carry_arm val)" for slot
    using assms(2) by (simp_all add: pull_back_binary_def)
  note pm = pc(1)[OF a(1)] pc(2)[OF a(2)] pc(3)[OF a(3)] pc(4)[OF a(4)] pc(5)[OF a(5)] pc(6)[OF a(6)] pc(7)[OF a(7)]
  have "circle_mem (fst (pull_back_binary r opc val slot sz so)) x \<longleftrightarrow> circle_mem r v"
    if "evaluate_binary opc so sz (if slot = 0 then x else val) (if slot = 0 then val else x) = Ret (Some v)" for v
    using assms(10) that
    by (elim insertE emptyE; cases "slot = 0")
      (simp_all add: pb pm ev eq_commute [of val x] add.commute [of "uint val"])
  moreover have "\<exists>v. evaluate_binary opc so sz (if slot = 0 then x else val) (if slot = 0 then val else x) = Ret (Some v)"
    using assms(10) by (elim insertE emptyE) (simp_all add: ev)
  ultimately show ?thesis by auto
qed


text \<open>Rotation of a range.\<close>

lemma rotate_mem:
  assumes "circle_wf r" "\<not> cr_isempty r" "cr_mask r = mask n" "n \<le> 64"
    and L: "uint (cr_left r') = (uint (cr_left r) + t) mod 2 ^ n"
    and R: "uint (cr_right r') = (uint (cr_right r) + t) mod 2 ^ n"
    and k: "cr_mask r' = cr_mask r" "cr_step r' = cr_step r" "\<not> cr_isempty r'"
  shows "circle_wf r'"
    and "x \<le> mask n \<Longrightarrow> y \<le> mask n \<Longrightarrow> uint y = (uint x - t) mod 2 ^ n \<Longrightarrow>
      circle_mem r' x \<longleftrightarrow> circle_mem r y"
proof -
  from assms(1-4) obtain j where j: "j \<le> n" "j < 64" "cr_step r = 2 ^ j"
    by (auto simp: circle_wf_def mask_u64_inj)
  let ?l = "cr_left r" and ?r = "cr_right r" and ?N = "2 ^ n :: int"
  have b: "?l \<le> mask n" "?r \<le> mask n" "?l mod 2 ^ j = ?r mod 2 ^ j"
    using assms(1-3) j by (auto simp: circle_wf_def)
  have b': "cr_left r' \<le> mask n" "cr_right r' \<le> mask n"
    using assms(4) L R by (simp_all add: le_mask_u64_iff)
  have d: "(uint (cr_right r') - uint (cr_left r')) mod ?N = (uint ?r - uint ?l) mod ?N"
    unfolding L R by (simp add: mod_diff_eq)
  have wf: "cr_left r' mod 2 ^ j = cr_right r' mod 2 ^ j"
    using b(3) phase_dist [OF assms(4) j(1,2), of "cr_right r'" "cr_left r'"]
      phase_dist [OF assms(4) j(1,2), of ?r ?l] d by simp
  show wf': "circle_wf r'"
    by (rule circle_wfI [of n j]) (use assms j k b' wf in simp_all)
  have eq: "cr_left r' = cr_right r' \<longleftrightarrow> ?l = ?r"
    using dist_inj [OF assms(4) b'(2,1), of "cr_left r'"] dist_inj [OF assms(4) b(2,1), of ?l] d by auto
  then have len: "arc_len n (cr_left r') (cr_right r') = arc_len n ?l ?r" using d by (simp add: arc_len_def)
  assume x: "x \<le> mask n" "y \<le> mask n" "uint y = (uint x - t) mod 2 ^ n"
  have "(uint x - uint (cr_left r')) mod ?N = (uint y - uint ?l) mod ?N"
    unfolding L x(3) by (simp add: mod_diff_left_eq mod_diff_right_eq algebra_simps)
  then show "circle_mem r' x \<longleftrightarrow> circle_mem r y"
    using circle_mem_dist [OF assms(1-4) j(3,1,2), of y] x k j assms(3)
      circle_mem_dist [OF wf' k(3), of n j x] assms(4) len by simp
qed

text \<open>
  Pull-back through an addition of a constant, or through a subtraction from the input, is exact for
  every range: it keeps the range well formed and holds exactly the inputs whose sum or
  difference with the constant lies in the range.
\<close>

theorem pull_back_add_exact:
  assumes "circle_wf r" "\<not> cr_isempty r" "cr_mask r = calc_mask sz" "x \<le> calc_mask sz"
  shows "circle_wf (fst (pull_back_binary r CPUI_INT_ADD val slot sz sz))
    \<and> circle_wf (fst (pull_back_binary r CPUI_INT_SUB val 0 sz sz))
    \<and> (circle_mem (fst (pull_back_binary r CPUI_INT_ADD val slot sz sz)) x
      \<longleftrightarrow> (\<exists>v. evaluate_binary CPUI_INT_ADD sz sz x val = Ret (Some v) \<and> circle_mem r v))
    \<and> (circle_mem (fst (pull_back_binary r CPUI_INT_SUB val 0 sz sz)) x
      \<longleftrightarrow> (\<exists>v. evaluate_binary CPUI_INT_SUB sz sz x val = Ret (Some v) \<and> circle_mem r v))"
proof -
  note m = assms(3) [unfolded calc_mask_eq]
  let ?a = "fst (pull_back_binary r CPUI_INT_ADD val slot sz sz)" and ?s = "fst (pull_back_binary r CPUI_INT_SUB val 0 sz sz)"
  have a: "cr_left ?a = (cr_left r - val) AND mask (nbits sz)" "cr_right ?a = (cr_right r - val) AND mask (nbits sz)"
    "cr_mask ?a = cr_mask r" "cr_step ?a = cr_step r" "\<not> cr_isempty ?a"
    using assms(2) m by (simp_all add: pull_back_binary_def)
  have s: "cr_left ?s = (cr_left r + val) AND mask (nbits sz)" "cr_right ?s = (cr_right r + val) AND mask (nbits sz)"
    "cr_mask ?s = cr_mask r" "cr_step ?s = cr_step r" "\<not> cr_isempty ?s"
    using assms(2) m by (simp_all add: pull_back_binary_def)
  note A = rotate_mem [OF assms(1,2) m nbits_le _ _ a(3-5), of "- uint val"]
  note S = rotate_mem [OF assms(1,2) m nbits_le _ _ s(3-5), of "uint val"]
  have x: "x \<le> mask (nbits sz)" using assms(4) by (simp add: calc_mask_eq)
  show ?thesis
    using A S(1) A(2) [of x "(x + val) AND mask (nbits sz)"] S(2) [of x "(x - val) AND mask (nbits sz)"] x
    by (simp add: a s evaluate_binary_add evaluate_binary_sub uint_plus_and_mask uint_minus_and_mask calc_mask_eq word_and_le1)
qed


text \<open>A range in one of the forms \<open>translate_to_op\<close> recognises is the value set of that comparison.\<close>

lemma pred_succ_mask:
  assumes "0 < sz" "l \<le> calc_mask sz" "l \<noteq> 0"
  shows "(l - 1) AND calc_mask sz = l - 1" "((l - 1) + 1) AND calc_mask sz = l" "l - 1 \<noteq> calc_mask sz"
    "l - 1 \<le> calc_mask sz"
proof -
  have "0 < l" using assms(3) by (simp add: word_gt_0)
  then have "uint (l - 1) = uint l - 1" by (simp add: uint_minus_u64 word_less_def mod_pos_pos_trivial uint_lt_u64 [THEN less_imp_le, THEN order.strict_trans1] )
  then have "uint (l - 1) + 1 < 2 ^ nbits sz" using assms(2) by (simp add: le_calc_mask_iff)
  then show "l - 1 \<le> calc_mask sz" "l - 1 \<noteq> calc_mask sz"
    using uint_calc_mask [of sz] by (auto simp: le_calc_mask_iff)
  then show "(l - 1) AND calc_mask sz = l - 1" "((l - 1) + 1) AND calc_mask sz = l"
    using assms(2) by (simp_all add: and_calc_mask_self)
qed

lemma arm_fixpoints:
  assumes "\<not> cr_isempty r"
  shows "cr_right r = (cr_left r + 1) AND cr_mask r \<Longrightarrow> equal_arm (cr_left r) r = r"
    and "cr_left r = (cr_right r + 1) AND cr_mask r \<Longrightarrow> notequal_arm (cr_right r) r = r"
    and "cr_left r = 0 \<Longrightarrow> cr_right r \<noteq> 0 \<Longrightarrow> less_arm (cr_right r) 0 r = r"
    and "(c + 1) AND cr_mask r = cr_left r \<Longrightarrow> c \<noteq> cr_mask r \<Longrightarrow> cr_right r = 0 \<Longrightarrow> less_arm c 1 r = r"
    and "cr_left r = shr_u64 (cr_mask r) 1 + 1 \<Longrightarrow> cr_right r \<noteq> cr_left r \<Longrightarrow> sless_pull_arm (cr_right r) 0 r = r"
    and "(c + 1) AND cr_mask r = cr_left r \<Longrightarrow> c \<noteq> shr_u64 (cr_mask r) 1 \<Longrightarrow>
      cr_right r = shr_u64 (cr_mask r) 1 + 1 \<Longrightarrow> sless_pull_arm c 1 r = r"
  using assms by (cases r; simp add: pull_arm_defs)+

definition compare_opcodes :: "opcode set" where
  "compare_opcodes = {CPUI_INT_EQUAL, CPUI_INT_NOTEQUAL, CPUI_INT_LESS, CPUI_INT_LESSEQUAL, CPUI_INT_SLESS, CPUI_INT_SLESSEQUAL}"

text \<open>The comparison with the constant \<open>c\<close> in the slot \<open>cslot\<close> is true of exactly the values of the range.\<close>

definition compares :: "usize \<Rightarrow> usize \<Rightarrow> circle_range \<Rightarrow> opcode \<Rightarrow> u64 \<Rightarrow> i32 \<Rightarrow> bool" where
  "compares so sz r opc c cslot \<longleftrightarrow> c \<le> calc_mask sz \<and> (\<forall>x \<le> calc_mask sz.
     circle_mem r x \<longleftrightarrow> evaluate_binary opc so sz (if cslot = 0 then c else x) (if cslot = 0 then x else c) = Ret (Some 1))"

text \<open>The arcs that are the value sets of comparisons: those that \<open>translate_to_op\<close> looks for.\<close>

definition compare_shape :: "usize \<Rightarrow> u64 \<Rightarrow> u64 \<Rightarrow> bool" where
  "compare_shape sz l r \<longleftrightarrow> r = (l + 1) AND calc_mask sz \<or> l = (r + 1) AND calc_mask sz \<or> l = r \<or> l = 0 \<or> r = 0 \<or>
     l = shr_u64 (calc_mask sz) 1 + 1 \<or> r = shr_u64 (calc_mask sz) 1 + 1"

lemma half_le_mask: "0 < sz \<Longrightarrow> sz \<le> 8 \<Longrightarrow> shr_u64 (calc_mask sz) 1 + 1 \<le> calc_mask sz"
  using half_mask [of sz] size_pow [of sz] by (simp add: le_calc_mask_iff)

lemma comparison_arc:
  assumes "0 < so" and "0 < sz" and "sz \<le> 8" and "c \<le> calc_mask sz" and "opc \<in> compare_opcodes"
  shows "\<exists>r'. (cr_isempty r' \<or> cr_left r' \<le> calc_mask sz \<and> cr_right r' \<le> calc_mask sz \<and> compare_shape sz (cr_left r') (cr_right r')) \<and>
    cr_mask r' = calc_mask sz \<and> cr_step r' = 1 \<and> compares so sz r' opc c cslot"
proof -
  let ?b = "\<lparr>cr_left = 0, cr_right = 0, cr_mask = calc_mask sz, cr_isempty = False, cr_step = 1\<rparr>"
  let ?s = "if cslot = 0 then 1 else 0 :: i32"
  have b: "cr_mask ?b = calc_mask sz" "cr_step ?b = 1" "\<not> cr_isempty ?b" by simp_all
  note un = pull_unsigned_arms [OF b assms(2,4)] and sg = pull_signed_arms [OF b assms(2-4)]
  note ev = evaluate_binary_compare [OF assms(1-3) assms(4)] evaluate_binary_compare [OF assms(1-3) _ assms(4)]
  let ?r = "case opc of CPUI_INT_EQUAL \<Rightarrow> equal_arm c ?b | CPUI_INT_NOTEQUAL \<Rightarrow> notequal_arm c ?b
    | CPUI_INT_LESS \<Rightarrow> less_arm c ?s ?b | CPUI_INT_LESSEQUAL \<Rightarrow> lessequal_arm c ?s ?b
    | CPUI_INT_SLESS \<Rightarrow> sless_pull_arm c ?s ?b | CPUI_INT_SLESSEQUAL \<Rightarrow> slessequal_arm c ?s ?b | _ \<Rightarrow> ?b"
  have "cr_mask ?r = calc_mask sz \<and> cr_step ?r = 1" using arms_keep by (cases opc) simp_all
  moreover have "compares so sz ?r opc c cslot"
    using assms(4,5) unfolding compares_def compare_opcodes_def
    by (elim insertE emptyE) (auto simp: un sg ev eq_commute [of c])
  moreover have "cr_isempty ?r \<or> cr_left ?r \<le> calc_mask sz \<and> cr_right ?r \<le> calc_mask sz \<and> compare_shape sz (cr_left ?r) (cr_right ?r)"
    using assms(4,5) half_le_mask [OF assms(2,3)] unfolding compare_opcodes_def
    by (elim insertE emptyE) (auto simp: pull_arm_defs compare_shape_def word_and_le1)
  ultimately show ?thesis by blast
qed

text \<open>A proper arc is determined by its members, and so is its end.\<close>

lemma arc_ends_order:
  fixes l :: "'a :: linorder"
  assumes "l < r \<and> l \<le> l' \<and> l' < r \<and> (r' < l \<or> r \<le> r') \<or> r < l \<and> (l \<le> l' \<or> l' < r) \<and> r' < l \<and> r \<le> r'"
    and "l' < r' \<and> l' \<le> l \<and> l < r' \<and> (r < l' \<or> r' \<le> r) \<or> r' < l' \<and> (l' \<le> l \<or> l < r') \<and> r < l' \<and> r' \<le> r"
  shows "l = l' \<and> r = r'"
  using assms by (elim disjE conjE; intro conjI; order)

lemma arc_mem_both:
  assumes "a \<noteq> b"
  shows "arc_mem a b x \<and> \<not> arc_mem a b y \<longleftrightarrow>
    a < b \<and> a \<le> x \<and> x < b \<and> (y < a \<or> b \<le> y) \<or> b < a \<and> (a \<le> x \<or> x < b) \<and> y < a \<and> b \<le> y"
  using assms by (auto simp: arc_mem_def not_le not_less)

lemma arc_ends_unique:
  assumes "l \<noteq> r" and "l' \<noteq> r'" and "\<And>x. x \<in> {l, r, l', r'} \<Longrightarrow> arc_mem l r x \<longleftrightarrow> arc_mem l' r' x"
  shows "l = l' \<and> r = r'"
proof -
  have "arc_mem l r l" "\<not> arc_mem l r r" "arc_mem l' r' l'" "\<not> arc_mem l' r' r'"
    using assms(1,2) by (simp_all add: arc_mem_def)
  then have "arc_mem l r l' \<and> \<not> arc_mem l r r'" and "arc_mem l' r' l \<and> \<not> arc_mem l' r' r" using assms(3) by simp_all
  then show ?thesis unfolding arc_mem_both [OF assms(1)] arc_mem_both [OF assms(2)] by (rule arc_ends_order)
qed

lemma step1_same_arc:
  assumes "cr_mask r = calc_mask sz" and "cr_step r = 1" and "\<not> cr_isempty r" and "cr_left r \<le> calc_mask sz" and "cr_right r \<le> calc_mask sz"
    and "cr_left r \<noteq> cr_right r"
    and "cr_mask r' = calc_mask sz" and "cr_step r' = 1" and "cr_isempty r' \<or> cr_left r' \<le> calc_mask sz \<and> cr_right r' \<le> calc_mask sz"
    and same: "\<And>x. x \<le> calc_mask sz \<Longrightarrow> circle_mem r x \<longleftrightarrow> circle_mem r' x"
  shows "\<not> cr_isempty r' \<and> cr_left r = cr_left r' \<and> cr_right r = cr_right r'"
proof -
  have mem: "circle_mem r x \<longleftrightarrow> arc_mem (cr_left r) (cr_right r) x" if "x \<le> calc_mask sz" for x
    using assms(1-3) that by (simp add: circle_mem_def)
  have "circle_mem r (cr_left r)" using mem [OF assms(4)] assms(6) by (simp add: arc_mem_def)
  then have ne: "\<not> cr_isempty r'" using same [OF assms(4)] by (auto simp: circle_mem_def)
  have mem': "circle_mem r' x \<longleftrightarrow> arc_mem (cr_left r') (cr_right r') x" if "x \<le> calc_mask sz" for x
    using assms(7,8) ne that by (simp add: circle_mem_def)
  have "\<not> circle_mem r (cr_right r)" using mem [OF assms(5)] assms(6) by (auto simp: arc_mem_def)
  then have "cr_left r' \<noteq> cr_right r'" using same [OF assms(5)] mem' [OF assms(5)] by (auto simp: arc_mem_def)
  from arc_ends_unique [OF assms(6) this] ne show ?thesis using assms(4,5,9) mem mem' same by blast
qed

text \<open>A range with a stride and more than one value is not an arc: it ends after its first value and after its second one.\<close>

lemma stride_power:
  assumes "circle_wf r" "cr_mask r = mask n" "n \<le> 64"
  shows "\<exists>k \<le> n. k < 64 \<and> cr_step r = 2 ^ k"
proof -
  obtain m k where mk: "m \<le> 64" "k \<le> m" "k < 64" "cr_mask r = mask m" "cr_step r = 2 ^ k" using assms(1) unfolding circle_wf_def by blast
  then have "mask m = (mask n :: u64)" using assms(2) by metis
  then have "m = n" using mask_u64_inj [OF mk(1) assms(3)] by blast
  with mk show ?thesis by blast
qed

lemma stride_single:
  assumes "circle_wf r" "\<not> cr_isempty r" "cr_mask r = mask n" "n \<le> 64" "cr_step r = 2 ^ k" "k \<le> n" "k < 64"
    and "arc_len n (cr_left r) (cr_right r) = 2 ^ k"
  shows "is_single r"
proof -
  have b: "cr_left r \<le> mask n" "cr_right r \<le> mask n" using assms(1-3) by (auto simp: circle_wf_def)
  then have u: "uint (cr_left r) < 2 ^ n" "uint (cr_right r) < 2 ^ n" using assms(4) by (simp_all add: le_mask_u64_iff)
  have "uint ((cr_left r + 2 ^ k) AND mask n) = (uint (cr_left r) + 2 ^ k) mod 2 ^ n"
    using assms(4,7) by (simp add: uint_plus_and_mask uint_pow2)
  also have "\<dots> = uint (cr_right r)"
  proof (cases "cr_left r = cr_right r")
    case True
    then have "(2 :: int) ^ k = 2 ^ n" using assms(8) by (simp add: arc_len_def)
    then show ?thesis using True u by simp
  next
    case False
    then have "(uint (cr_left r) + (uint (cr_right r) - uint (cr_left r)) mod 2 ^ n) mod 2 ^ n = uint (cr_right r)"
      using u by (simp add: mod_add_right_eq)
    then show ?thesis using False assms(8) by (simp add: arc_len_def)
  qed
  finally have "(cr_left r + 2 ^ k) AND mask n = cr_right r" by (simp only: word_uint_eq_iff)
  then show ?thesis using assms(2,3,5) by (simp add: is_single_def)
qed

lemma stride_not_arc:
  assumes r: "circle_wf r" "\<not> cr_isempty r" "cr_mask r = mask n" "n \<le> 64" "cr_step r = 2 ^ k" "k \<le> n" "k < 64"
    and "0 < k" and "\<not> is_single r" and l': "l' \<le> mask n" "r' \<le> mask n"
    and same: "\<And>x. x \<le> mask n \<Longrightarrow> circle_mem r x \<longleftrightarrow> arc_mem l' r' x"
  shows False
proof -
  let ?A = "arc_len n (cr_left r) (cr_right r)" and ?s = "2 ^ k :: int" and ?N = "2 ^ n :: int" and ?L = "arc_len n l' r'"
  define dist where "dist x = (uint x - uint (cr_left r)) mod ?N" for x :: u64
  define dist' where "dist' x = (uint x - uint l') mod ?N" for x :: u64
  have b: "cr_left r \<le> mask n" "cr_right r \<le> mask n" using r(1-3) by (auto simp: circle_wf_def)
  note A = arc_len_bounds [OF r(4) b] and L = arc_len_bounds [OF r(4) l']
  obtain m where m: "?A = ?s * m" using circle_card(2) [OF r(1-7)] by (elim dvdE)
  moreover have "?A \<noteq> ?s" using stride_single [OF r(1-7)] assms(9) by blast
  ultimately have "0 < m" "m \<noteq> 1" using A(1) by (simp_all add: zero_less_mult_iff)
  then have A2: "2 * ?s \<le> ?A" using mult_left_mono [of 2 m ?s] by (simp add: m)
  have s2: "2 \<le> ?s" using power_increasing [of 1 k "2 :: int"] assms(8) by simp
  have arc: "?s dvd dist x \<and> dist x < ?A \<longleftrightarrow> dist' x < ?L" if "x \<le> mask n" for x
    using same [OF that] circle_mem_dist [OF r(1-7), of x] arc_mem_dist [OF r(4) l' that] that by (simp add: dist_def dist'_def)
  have ends: "dist' y = ?L \<and> l' \<noteq> r'" if "x \<le> mask n" "y \<le> mask n" "dist y = dist x + 1" "dist' x < ?L" "\<not> dist' y < ?L" for x y
  proof -
    define t where "t = uint (cr_left r) - uint l'"
    have "dist' y = (dist y + t) mod ?N" "dist' x = (dist x + t) mod ?N" by (simp_all add: dist_def dist'_def t_def mod_add_left_eq)
    moreover have "dist y + t = dist x + t + 1" using that(3) by simp
    ultimately have "dist' y = (dist' x + 1) mod ?N" by (simp only: mod_add_left_eq)
    moreover have "0 \<le> dist' x" "dist' x < ?N" by (simp_all add: dist'_def)
    ultimately have "dist' y = (if dist' x + 1 = ?N then 0 else dist' x + 1)" by (simp add: mod_pos_pos_trivial)
    with that(4,5) L have y: "dist' y = ?L" by (auto split: if_splits)
    then have "?L < ?N" by (simp add: dist'_def flip: y)
    with y show ?thesis by (auto simp: arc_len_def)
  qed
  have point: "\<exists>x. x \<le> mask n \<and> dist x = d" if "0 \<le> d" "d < ?N" for d
    using dist_surj [OF r(4) that, of "cr_left r"] by (simp add: dist_def)
  have no: "\<not> ?s dvd d + 1" if "?s dvd d" for d using that s2 by (auto simp: dvd_add_right_iff dest: zdvd_imp_le)
  have N: "0 < ?N" "1 < ?N" "?s < ?N" "?s + 1 < ?N" "0 \<le> ?s" "0 \<le> ?s + 1" using s2 A2 A(2) by linarith+
  obtain x0 where x0: "x0 \<le> mask n" "dist x0 = 0" using point [of 0] N by auto
  obtain x1 where x1: "x1 \<le> mask n" "dist x1 = 1" using point [of 1] N by auto
  obtain xs where xs: "xs \<le> mask n" "dist xs = ?s" using point [of ?s] N by auto
  obtain xt where xt: "xt \<le> mask n" "dist xt = ?s + 1" using point [of "?s + 1"] N by auto
  note x = x0 x1 xs xt
  have "dist' x1 = ?L" using ends [OF x(1,3)] arc [OF x(1)] arc [OF x(3)] no [of 0] x(2,4) A(1) by simp
  moreover have "dist' xt = ?L" using ends [OF x(5,7)] arc [OF x(5)] arc [OF x(7)] no [of ?s] x(6,8) A2 s2 by simp
  ultimately have "x1 = xt" using dist_inj [OF r(4) x(3,7), of l'] by (simp add: dist'_def)
  then show False using x(4,8) s2 by simp
qed

text \<open>Where \<open>translate_to_op\<close> gives up on a range of step 1, no comparison has its values; with a stride, only single values have one.\<close>

lemma compares_same:
  assumes "compares so sz r opc c cslot" and "compares so sz r' opc c cslot" and "x \<le> calc_mask sz"
  shows "circle_mem r x \<longleftrightarrow> circle_mem r' x"
  using assms by (auto simp: compares_def)

lemma no_comparison:
  assumes "circle_wf r" "cr_mask r = calc_mask sz" "0 < so" "0 < sz" "sz \<le> 8" and code: "translate_to_op r = Inl 2"
    and opc: "opc \<in> compare_opcodes" and c: "compares so sz r opc c cslot"
  shows "cr_step r \<noteq> 1 \<and> is_single r"
proof -
  have ne: "\<not> cr_isempty r" using code by (auto simp: translate_to_op_def)
  have cb: "c \<le> calc_mask sz" using c by (simp add: compares_def)
  obtain r' where r': "cr_isempty r' \<or> cr_left r' \<le> calc_mask sz \<and> cr_right r' \<le> calc_mask sz \<and> compare_shape sz (cr_left r') (cr_right r')"
    "cr_mask r' = calc_mask sz" "cr_step r' = 1" "compares so sz r' opc c cslot"
    using comparison_arc [OF assms(3-5) cb opc] by blast
  note same = compares_same [OF c r'(4)]
  have lr: "cr_left r \<le> calc_mask sz" "cr_right r \<le> calc_mask sz" using assms(1,2) ne by (auto simp: circle_wf_def)
  have "cr_step r \<noteq> 1"
  proof
    assume s: "cr_step r = 1"
    have "cr_left r \<noteq> cr_right r" and shape: "\<not> compare_shape sz (cr_left r) (cr_right r)"
      using code ne s assms(2) by (auto simp: translate_to_op_def compare_shape_def split: if_splits)
    from step1_same_arc [OF assms(2) s ne lr this(1) r'(2,3) _ same] r'(1) shape show False by auto
  qed
  moreover have "is_single r"
  proof (rule ccontr)
    assume single: "\<not> is_single r"
    note m = assms(2) [unfolded calc_mask_eq]
    obtain k where k: "k \<le> nbits sz" "k < 64" "cr_step r = 2 ^ k" using stride_power [OF assms(1) m nbits_le] by blast
    then have "0 < k" using \<open>cr_step r \<noteq> 1\<close> by (cases k) auto
    have "circle_mem r (cr_left r)" using ne lr assms(2) by (simp add: circle_mem_def arc_mem_def)
    then have ne': "\<not> cr_isempty r'" using same [OF lr(1)] by (auto simp: circle_mem_def)
    then have "circle_mem r x \<longleftrightarrow> arc_mem (cr_left r') (cr_right r') x" if "x \<le> mask (nbits sz)" for x
      using same [of x] that r'(2,3) by (simp add: circle_mem_def calc_mask_eq)
    with r'(1) ne' show False
      using stride_not_arc [OF assms(1) ne m nbits_le k(3,1,2) \<open>0 < k\<close> single, of "cr_left r'" "cr_right r'"] by (simp add: calc_mask_eq)
  qed
  ultimately show ?thesis by blast
qed

lemma translate_to_op_point:
  assumes "circle_wf r" "cr_mask r = calc_mask sz" "0 < so" "0 < sz" "sz \<le> 8" "x \<le> calc_mask sz"
  shows "case translate_to_op r of
      Inr (opc, c, cslot) \<Rightarrow> c \<le> calc_mask sz \<and> (circle_mem r x \<longleftrightarrow>
        evaluate_binary opc so sz (if cslot = 0 then c else x) (if cslot = 0 then x else c) = Ret (Some 1))
    | Inl code \<Rightarrow> (code = 3 \<longleftrightarrow> cr_isempty r) \<and> (code = 1 \<longleftrightarrow> is_full r) \<and> code \<in> {1, 2, 3}"
proof (cases "cr_isempty r \<or> cr_step r \<noteq> 1")
  case True
  then show ?thesis by (auto simp: translate_to_op_def is_full_def)
next
  case False
  then have b: "cr_mask r = calc_mask sz" "cr_step r = 1" "\<not> cr_isempty r" using assms(2) by auto
  let ?l = "cr_left r" and ?r = "cr_right r" and ?M = "calc_mask sz" and ?h = "shr_u64 (calc_mask sz) 1"
  have lr: "?l \<le> ?M" "?r \<le> ?M" using assms(1,2) b by (auto simp: circle_wf_def)
  note un = pull_unsigned_arms [OF b assms(4) _ assms(6)] and sg = pull_signed_arms [OF b assms(4,5) _ assms(6)]
  note ev = evaluate_binary_compare [OF assms(3-5)] and fx = arm_fixpoints [OF b(3), unfolded b(1)]
  have ne: "(v + 1) AND ?M \<noteq> v" if "v \<le> ?M" for v
    using succ_mask [OF assms(4) that] calc_mask_pos [OF assms(4)] by auto
  consider (eq) "?r = (?l + 1) AND ?M" | (neq) "?r \<noteq> (?l + 1) AND ?M" "?l = (?r + 1) AND ?M"
    | (full) "?l = ?r" | (less0) "?r \<noteq> (?l + 1) AND ?M" "?l \<noteq> (?r + 1) AND ?M" "?l \<noteq> ?r" "?l = 0"
    | (less1) "?r \<noteq> (?l + 1) AND ?M" "?l \<noteq> (?r + 1) AND ?M" "?l \<noteq> ?r" "?l \<noteq> 0" "?r = 0"
    | (sless0) "?r \<noteq> (?l + 1) AND ?M" "?l \<noteq> (?r + 1) AND ?M" "?l \<noteq> ?r" "?l \<noteq> 0" "?r \<noteq> 0" "?l = ?h + 1"
    | (sless1) "?r \<noteq> (?l + 1) AND ?M" "?l \<noteq> (?r + 1) AND ?M" "?l \<noteq> ?r" "?l \<noteq> 0" "?r \<noteq> 0" "?l \<noteq> ?h + 1" "?r = ?h + 1"
    | (none) "?r \<noteq> (?l + 1) AND ?M" "?l \<noteq> (?r + 1) AND ?M" "?l \<noteq> ?r" "?l \<noteq> 0" "?r \<noteq> 0" "?l \<noteq> ?h + 1" "?r \<noteq> ?h + 1"
    by blast
  then show ?thesis
  proof cases
    case eq
    then have "translate_to_op r = Inr (CPUI_INT_EQUAL, ?l, 0)" using b by (simp add: translate_to_op_def)
    then show ?thesis using un(1) [OF lr(1)] fx(1) eq lr ev(1) [OF lr(1) assms(6)] by auto
  next
    case neq
    then have "translate_to_op r = Inr (CPUI_INT_NOTEQUAL, ?r, 0)" using b by (simp add: translate_to_op_def)
    then show ?thesis using un(2) [OF lr(2)] fx(2) neq lr ev(2) [OF lr(2) assms(6)] by auto
  next
    case full
    then have "translate_to_op r = Inl 1" using b ne [OF lr(1)] ne [OF lr(2)] by (simp add: translate_to_op_def)
    then show ?thesis using full b by (simp add: is_full_def)
  next
    case less0
    then have "translate_to_op r = Inr (CPUI_INT_LESS, ?r, 1)" using b by (simp add: translate_to_op_def)
    then show ?thesis using un(3) [OF lr(2), of 0] fx(3) less0 lr ev(3) [OF assms(6) lr(2)] by auto
  next
    case less1
    note p = pred_succ_mask [OF assms(4) lr(1) less1(4)]
    have "translate_to_op r = Inr (CPUI_INT_LESS, ?l - 1, 0)" using b less1 p by (simp add: translate_to_op_def)
    then show ?thesis using un(3) [OF p(4), of 1] fx(4) [of "?l - 1"] p less1 ev(3) [OF p(4) assms(6)] by auto
  next
    case sless0
    then have "translate_to_op r = Inr (CPUI_INT_SLESS, ?r, 1)" using b by (simp add: translate_to_op_def)
    then show ?thesis using sg(1) [OF lr(2), of 0] fx(5) sless0 lr ev(5) [OF assms(6) lr(2)] by auto
  next
    case sless1
    note p = pred_succ_mask [OF assms(4) lr(1) sless1(4)]
    have h: "?l - 1 \<noteq> ?h" using sless1(6) by (metis diff_add_cancel)
    have "translate_to_op r = Inr (CPUI_INT_SLESS, ?l - 1, 0)" using b sless1 p by (simp add: translate_to_op_def)
    then show ?thesis using sg(1) [OF p(4), of 1] fx(6) [of "?l - 1"] p h sless1 ev(5) [OF p(4) assms(6)] by auto
  next
    case none
    then have "translate_to_op r = Inl 2" using b by (simp add: translate_to_op_def)
    then show ?thesis using none b by (simp add: is_full_def)
  qed
qed

lemma translate_to_op_opcode: "translate_to_op r = Inr (opc, c, cslot) \<Longrightarrow> opc \<in> compare_opcodes"
  by (auto simp: translate_to_op_def compare_opcodes_def split: if_splits)

text \<open>
  Property C21. The comparison \<open>translate_to_op\<close> finds for a range is true of exactly the values of the range. The error code 1 means the full range
  and 3 the empty one. The code 2 means that no equality, order or signed order with any constant in either slot, or negation of one, is true of exactly
  the values of the range, with one exception: a single value given with a stride other than 1, for which an equality exists
  (\<open>translate_single_stride\<close>).
\<close>

theorem translate_to_op_exact:
  assumes "circle_wf r" "cr_mask r = calc_mask sz" "0 < so" "0 < sz" "sz \<le> 8"
  shows "case translate_to_op r of
      Inr (opc, c, cslot) \<Rightarrow> opc \<in> compare_opcodes \<and> compares so sz r opc c cslot
    | Inl code \<Rightarrow> (code = 3 \<longleftrightarrow> cr_isempty r) \<and> (code = 1 \<longleftrightarrow> is_full r) \<and> code \<in> {1, 2, 3} \<and>
        (code = 2 \<longrightarrow> (\<forall>opc \<in> compare_opcodes. \<forall>c cslot. compares so sz r opc c cslot \<longrightarrow> cr_step r \<noteq> 1 \<and> is_single r))"
proof (cases "translate_to_op r")
  case (Inl code)
  with translate_to_op_point [OF assms, of 0] have "(code = 3 \<longleftrightarrow> cr_isempty r) \<and> (code = 1 \<longleftrightarrow> is_full r) \<and> code \<in> {1, 2, 3}"
    by (simp only: sum.case zero_le simp_thms) auto
  moreover have "\<forall>opc \<in> compare_opcodes. \<forall>c cslot. compares so sz r opc c cslot \<longrightarrow> cr_step r \<noteq> 1 \<and> is_single r" if "code = 2"
    using no_comparison [OF assms] Inl that by blast
  ultimately show ?thesis unfolding Inl sum.case by blast
next
  case (Inr t)
  then obtain opc c cslot where t: "translate_to_op r = Inr (opc, c, cslot)" by (metis prod_cases3)
  with translate_to_op_point [OF assms] translate_to_op_opcode [OF t] show ?thesis by (auto simp: compares_def)
qed

text \<open>A single value with a stride: the code answers 2, and the equality with the value is exact.\<close>

lemma translate_single_stride:
  assumes "circle_wf r" "cr_mask r = calc_mask sz" "0 < so" "0 < sz" "sz \<le> 8" "is_single r" "cr_step r \<noteq> 1"
  shows "translate_to_op r = Inl 2 \<and> compares so sz r CPUI_INT_EQUAL (cr_left r) 0"
proof -
  have ne: "\<not> cr_isempty r" using assms(6) by (simp add: is_single_def)
  note m = assms(2) [unfolded calc_mask_eq]
  obtain k where k: "k \<le> nbits sz" "k < 64" "cr_step r = 2 ^ k" using stride_power [OF assms(1) m nbits_le] by blast
  have l: "cr_left r \<le> calc_mask sz" using assms(1,2) ne by (auto simp: circle_wf_def)
  have "circle_mem r x \<longleftrightarrow> x = cr_left r" if "x \<le> calc_mask sz" for x
    using arc_single [of "nbits sz" k "cr_left r" x] assms(6) that l ne m k
    by (auto simp: circle_mem_def is_single_def calc_mask_eq arc_mem_def)
  then show ?thesis using ne assms(7) l evaluate_binary_compare(1) [OF assms(3-5) l] by (auto simp: translate_to_op_def compares_def)
qed

section \<open>Concrete ranges\<close>

lemma witness_ranges:
  "circle_wf (byte_range 1 2 1)" "circle_wf (byte_range 0xf0 0x20 4)" "circle_wf (byte_range 0x10 0x20 2)"
  using byte_range_wf [of 1 2 0] byte_range_wf [of "0xf0" "0x20" 2] byte_range_wf [of "0x10" "0x20" 1]
  by (simp_all add: byte_range_def)

lemma byte_mask: "calc_mask 1 = 0xff" by code_simp

theorem pull_back_compare_exact_witness:
  "circle_wf (byte_range 1 2 1) \<and> circle_mem (fst (pull_back_binary (byte_range 1 2 1) CPUI_INT_SLESS 5 0 1 1)) 0x80"
proof -
  have c: "\<not> cr_isempty (byte_range 1 2 1)" "1 \<le> cr_mask (byte_range 1 2 1)"
    "\<not> (circle_mem (byte_range 1 2 1) 0 \<and> circle_mem (byte_range 1 2 1) 1)" "(5 :: u64) \<le> calc_mask 1" "(0x80 :: u64) \<le> calc_mask 1"
    "evaluate_binary CPUI_INT_SLESS 1 1 0x80 5 = Ret (Some 1) \<and> circle_mem (byte_range 1 2 1) 1"
    by code_simp+
  show ?thesis
    using pull_back_compare_exact [OF witness_ranges(1) c(1-3) _ _ _ c(4,5), of 1 CPUI_INT_SLESS 0] c(6) witness_ranges(1) by simp
qed

theorem pull_back_add_exact_witness:
  "circle_wf (fst (pull_back_binary (byte_range 0xf0 0x20 4) CPUI_INT_ADD 3 0 1 1))
    \<and> (circle_mem (fst (pull_back_binary (byte_range 0xf0 0x20 4) CPUI_INT_SUB 3 0 1 1)) 7
      \<longleftrightarrow> (\<exists>v. evaluate_binary CPUI_INT_SUB 1 1 7 3 = Ret (Some v) \<and> circle_mem (byte_range 0xf0 0x20 4) v))"
proof -
  have c: "\<not> cr_isempty (byte_range 0xf0 0x20 4)" "cr_mask (byte_range 0xf0 0x20 4) = calc_mask 1" "(7 :: u64) \<le> calc_mask 1"
    by code_simp+
  show ?thesis using pull_back_add_exact [OF witness_ranges(2) c, of 3 0] by blast
qed

theorem translate_to_op_exact_witness:
  "compares 1 1 (byte_range 1 2 1) CPUI_INT_EQUAL 1 0 \<and>
   \<not> (\<exists>opc \<in> compare_opcodes. \<exists>c cslot. compares 1 1 (byte_range 0x10 0x20 2) opc c cslot)"
proof -
  have c: "cr_mask (byte_range 1 2 1) = calc_mask 1" "cr_mask (byte_range 0x10 0x20 2) = calc_mask 1"
    "translate_to_op (byte_range 1 2 1) = Inr (CPUI_INT_EQUAL, 1, 0)" "translate_to_op (byte_range 0x10 0x20 2) = Inl 2"
    "\<not> is_single (byte_range 0x10 0x20 2)" by code_simp+
  then show ?thesis
    using translate_to_op_exact [OF witness_ranges(1) c(1), of 1] translate_to_op_exact [OF witness_ranges(3) c(2), of 1] by auto
qed

section \<open>Values pull-back loses\<close>

theorem pull_back_negation_loses:
  "evaluate_unary CPUI_INT_2COMP 1 1 0xff = Some 1 \<and> circle_mem (byte_range 1 2 1) 1
    \<and> \<not> circle_mem (fst (pull_back_unary (byte_range 1 2 1) CPUI_INT_2COMP 1 1)) 0xff"
  "evaluate_unary CPUI_INT_NEGATE 1 1 0xfe = Some 1 \<and> circle_mem (byte_range 1 2 1) 1
    \<and> \<not> circle_mem (fst (pull_back_unary (byte_range 1 2 1) CPUI_INT_NEGATE 1 1)) 0xfe"
  by code_simp+

theorem pull_back_reverse_sub_loses:
  "evaluate_binary CPUI_INT_SUB 1 1 30 15 = Ret (Some 15) \<and> circle_mem (byte_range 10 20 1) 15
    \<and> \<not> circle_mem (fst (pull_back_binary (byte_range 10 20 1) CPUI_INT_SUB 30 1 1 1)) 15"
  by code_simp

theorem pull_back_shift_slot_loses:
  "evaluate_binary CPUI_INT_RIGHT 1 1 8 1 = Ret (Some 4) \<and> circle_mem (byte_range 4 5 1) 4
    \<and> \<not> circle_mem (fst (pull_back_binary (byte_range 4 5 1) CPUI_INT_RIGHT 8 1 1 1)) 1"
  by code_simp

theorem pull_back_right_zero_loses:
  "evaluate_binary CPUI_INT_RIGHT 8 8 5 0 = Ret (Some 5)
    \<and> circle_mem \<lparr>cr_left = 5, cr_right = 10, cr_mask = calc_mask 8, cr_isempty = False, cr_step = 1\<rparr> 5
    \<and> cr_isempty (fst (pull_back_binary \<lparr>cr_left = 5, cr_right = 10, cr_mask = calc_mask 8, cr_isempty = False, cr_step = 1\<rparr> CPUI_INT_RIGHT 0 0 8 8))"
  by code_simp

theorem pull_back_both_outcomes_loses:
  "evaluate_binary CPUI_INT_EQUAL 1 1 5 3 = Ret (Some 0) \<and> circle_mem (byte_range 0 2 1) 0
    \<and> \<not> circle_mem (fst (pull_back_binary (byte_range 0 2 1) CPUI_INT_EQUAL 3 0 1 1)) 5"
  by code_simp

end
