(* ===== verification/Circle_Push.thy ===== *)
theory Circle_Push
  imports Circle_Pull
begin

text \<open>
  What push-forward computes (src/src/rangeutil.rs): negation and complement reflect a range,
  an addition of ranges covers every sum, a zero extension keeps the values, and the loop that
  widens the step of a product stops. The operations are compared with \<open>evaluate_unary\<close> and
  \<open>evaluate_binary\<close> of src/src/opbehavior.rs.
\<close>

unbundle bit_operations_syntax

section \<open>Negation and complement\<close>

text \<open>Reflection of a range.\<close>

lemma reflect_dist:
  fixes D N S e :: int
  assumes "0 < S" "S dvd D" "S dvd N" "0 < D" "D \<le> N" "0 \<le> e" "e < N" "S dvd e"
  shows "(D - S - e) mod N < D \<longleftrightarrow> e < D"
proof (cases "e < D")
  case True
  have "S \<le> D - e" using True assms(1,2,8) by (intro zdvd_imp_le) (auto intro: dvd_diff)
  then have "(D - S - e) mod N = D - S - e" using assms by (intro mod_pos_pos_trivial) linarith+
  then show ?thesis using True assms by linarith
next
  case False
  have "S \<le> N - e" using assms by (intro zdvd_imp_le) (auto intro: dvd_diff)
  then have "(D - S - e) mod N = D - S - e + N" using False assms by (intro mod_plus_once) linarith+
  then show ?thesis using False \<open>S \<le> N - e\<close> by linarith
qed

lemma reflect_mem:
  assumes "circle_wf r" "\<not> cr_isempty r" "cr_mask r = mask n" "n \<le> 64"
    and L: "uint (cr_left r') = (c - uint (cr_right r) + uint (cr_step r)) mod 2 ^ n"
    and R: "uint (cr_right r') = (c - uint (cr_left r) + uint (cr_step r)) mod 2 ^ n"
    and k: "cr_mask r' = cr_mask r" "cr_step r' = cr_step r" "\<not> cr_isempty r'"
  shows "circle_wf r'"
    and "x \<le> mask n \<Longrightarrow> y \<le> mask n \<Longrightarrow> uint x = (c - uint y) mod 2 ^ n \<Longrightarrow>
      circle_mem r' x \<longleftrightarrow> circle_mem r y"
proof -
  from assms(1-4) obtain j where j: "j \<le> n" "j < 64" "cr_step r = 2 ^ j"
    by (auto simp: circle_wf_def mask_u64_inj)
  let ?l = "cr_left r" and ?r = "cr_right r" and ?N = "2 ^ n :: int" and ?S = "2 ^ j :: int"
  have b: "?l \<le> mask n" "?r \<le> mask n" "?l mod 2 ^ j = ?r mod 2 ^ j"
    using assms(1-3) j by (auto simp: circle_wf_def)
  have b': "cr_left r' \<le> mask n" "cr_right r' \<le> mask n"
    using assms(4) L R by (simp_all add: le_mask_u64_iff)
  have S: "uint (cr_step r) = ?S" using j by (simp add: uint_pow2)
  have d: "(uint (cr_right r') - uint (cr_left r')) mod ?N = (uint ?r - uint ?l) mod ?N"
    unfolding L R by (simp add: mod_diff_eq)
  have wf: "cr_left r' mod 2 ^ j = cr_right r' mod 2 ^ j"
    using b(3) phase_dist [OF assms(4) j(1,2), of "cr_right r'" "cr_left r'"]
      phase_dist [OF assms(4) j(1,2), of ?r ?l] d by simp
  show wf': "circle_wf r'"
    by (rule circle_wfI [of n j]) (use assms j k b' wf in simp_all)
  have eq: "cr_left r' = cr_right r' \<longleftrightarrow> ?l = ?r"
    using dist_inj [OF assms(4) b'(2,1), of "cr_left r'"] dist_inj [OF assms(4) b(2,1), of ?l] d by auto
  let ?D = "arc_len n ?l ?r"
  have len: "arc_len n (cr_left r') (cr_right r') = ?D" using d eq by (simp add: arc_len_def)
  have D: "?D mod ?N = (uint ?r - uint ?l) mod ?N" by (simp add: arc_len_def)
  assume x: "x \<le> mask n" "y \<le> mask n" "uint x = (c - uint y) mod 2 ^ n"
  define e where "e = (uint y - uint ?l) mod ?N"
  have "(uint x - uint (cr_left r')) mod ?N = (uint ?r - uint ?l - ?S - (uint y - uint ?l)) mod ?N"
    unfolding L x(3) S mod_diff_eq by (rule arg_cong [of _ _ "\<lambda>z. z mod ?N"]) simp
  also have "\<dots> = (?D - ?S - e) mod ?N"
    using mod_diff_cong [OF mod_diff_cong [OF D [symmetric] refl [of "?S mod ?N"]], of "uint y - uint ?l" e] by (simp add: e_def)
  finally have dist: "(uint x - uint (cr_left r')) mod ?N = (?D - ?S - e) mod ?N" .
  note A = arc_len_bounds [OF assms(4) b(1,2)] circle_card(2) [OF assms(1-4) j(3,1,2)]
  have sN: "?S dvd ?N" using j(1) by (rule le_imp_power_dvd)
  have "?S dvd (?D - ?S - e) mod ?N \<longleftrightarrow> ?S dvd e"
    using dvd_mod_iff [OF sN, of "?D - ?S - e"] A(3) dvd_diff_right_iff [of ?S "?D - ?S" e]
    by (simp add: dvd_diff_left_iff)
  moreover have "?S dvd e \<Longrightarrow> (?D - ?S - e) mod ?N < ?D \<longleftrightarrow> e < ?D"
    using A sN by (intro reflect_dist) (simp_all add: e_def)
  ultimately show "circle_mem r' x \<longleftrightarrow> circle_mem r y"
    using circle_mem_dist [OF assms(1-4) j(3,1,2), of y] x k j assms(3)
      circle_mem_dist [OF wf' k(3), of n j x] assms(4) len dist unfolding e_def [symmetric] by auto
qed


lemma uint_not_plus_mask:
  assumes "n \<le> 64"
  shows "uint ((NOT (x :: u64) + 1 + s) AND mask n) = (0 - uint x + uint s) mod 2 ^ n"
    and "uint ((NOT x + s) AND mask n) = (- 1 - uint x + uint s) mod 2 ^ n"
proof -
  have e: "NOT x + 1 + s = s - x" "NOT x + s = s - x - 1" by (simp_all add: not_eq_complement)
  show "uint ((NOT x + 1 + s) AND mask n) = (0 - uint x + uint s) mod 2 ^ n"
    unfolding e by (simp add: uint_minus_and_mask assms)
  have "uint ((s - x - 1) AND mask n) = ((uint s - uint x) mod 2 ^ 64 - 1) mod 2 ^ n"
    by (simp add: uint_minus_and_mask assms uint_minus_u64)
  also have "\<dots> = ((uint s - uint x) mod 2 ^ 64 mod 2 ^ n - 1) mod 2 ^ n" by (simp only: mod_diff_left_eq)
  also have "\<dots> = (uint s - uint x - 1) mod 2 ^ n" by (simp only: mod_pow2_mod [OF assms] mod_diff_left_eq)
  finally show "uint ((NOT x + s) AND mask n) = (- 1 - uint x + uint s) mod 2 ^ n"
    unfolding e by (simp add: algebra_simps)
qed

lemma evaluate_unary_negations:
  "evaluate_unary CPUI_INT_2COMP sz sz x = Some ((- x) AND calc_mask sz)"
  "evaluate_unary CPUI_INT_NEGATE sz sz x = Some ((NOT x) AND calc_mask sz)"
  by (simp_all add: evaluate_unary_def uintb_negate_def Let_def not_eq_complement)

lemma uint_negations:
  "uint ((- x) AND calc_mask sz) = (0 - uint x) mod 2 ^ nbits sz"
  "uint ((NOT x) AND calc_mask sz) = (- 1 - uint x) mod 2 ^ nbits sz"
  using uint_not_plus_mask [OF nbits_le, of x 0 sz] by (simp_all add: calc_mask_eq not_eq_complement)


lemma reflect_image:
  assumes "circle_wf r" "\<not> cr_isempty r" "cr_mask r = calc_mask sz"
    and "\<And>x. uint (f x) = (c - uint x) mod 2 ^ nbits sz"
    and "uint (cr_left r') = (c - uint (cr_right r) + uint (cr_step r)) mod 2 ^ nbits sz"
    and "uint (cr_right r') = (c - uint (cr_left r) + uint (cr_step r)) mod 2 ^ nbits sz"
    and "cr_mask r' = cr_mask r" "cr_step r' = cr_step r" "\<not> cr_isempty r'" "y \<le> calc_mask sz"
  shows "circle_wf r'" and "circle_mem r' y \<longleftrightarrow> (\<exists>x. circle_mem r x \<and> f x = y)"
proof -
  note R = reflect_mem [OF assms(1,2) assms(3) [unfolded calc_mask_eq] nbits_le assms(5-9)]
  show "circle_wf r'" by (rule R(1))
  have le: "x \<le> calc_mask sz" if "circle_mem r x" for x using that assms(3) by (simp add: circle_mem_def)
  have f: "f y \<le> calc_mask sz" "f (f y) = y"
    using assms(10) by (simp_all add: le_calc_mask_iff assms(4) word_uint_eq_iff mod_diff_right_eq mod_pos_pos_trivial)
  have "circle_mem r' (f x) \<longleftrightarrow> circle_mem r x" if "x \<le> calc_mask sz" for x
    using R(2) [of "f x" x] that by (simp add: calc_mask_eq [symmetric] assms(4) le_calc_mask_iff)
  then show "circle_mem r' y \<longleftrightarrow> (\<exists>x. circle_mem r x \<and> f x = y)" using le f by metis
qed

text \<open>
  Pushing a range forward through a two's complement negation or a bitwise complement is exact: the
  result is well formed and holds exactly the values the operation evaluates to on the values
  of the input range, whatever its step and whether or not it wraps.
\<close>

theorem push_forward_negation_exact:
  assumes "circle_wf in1" "\<not> cr_isempty in1" "cr_mask in1 = calc_mask sz" "y \<le> calc_mask sz"
    and "opc \<in> {CPUI_INT_2COMP, CPUI_INT_NEGATE}"
  shows "circle_wf (fst (push_forward_unary r opc in1 sz sz))
    \<and> (circle_mem (fst (push_forward_unary r opc in1 sz sz)) y
      \<longleftrightarrow> (\<exists>x. circle_mem in1 x \<and> evaluate_unary opc sz sz x = Some y))"
proof -
  let ?l = "cr_left in1" and ?r = "cr_right in1" and ?s = "cr_step in1" and ?m = "cr_mask in1"
  let ?c = "r\<lparr>cr_isempty := False, cr_step := ?s, cr_mask := ?m, cr_right := (NOT ?l + 1 + ?s) AND ?m, cr_left := (NOT ?r + 1 + ?s) AND ?m\<rparr>"
  let ?n = "r\<lparr>cr_isempty := False, cr_step := ?s, cr_mask := ?m, cr_left := (NOT ?r + ?s) AND ?m, cr_right := (NOT ?l + ?s) AND ?m\<rparr>"
  have eq: "push_forward_unary r CPUI_INT_2COMP in1 sz sz = (circle_normalize ?c, True)"
    "push_forward_unary r CPUI_INT_NEGATE in1 sz sz = (circle_normalize ?n, True)"
    using assms(2) by (simp_all add: push_forward_unary_def)
  note u = uint_not_plus_mask [OF nbits_le, of _ _ sz, folded calc_mask_eq, folded assms(3)]
  have "circle_wf ?c" "circle_mem ?c y \<longleftrightarrow> (\<exists>x. circle_mem in1 x \<and> (- x) AND calc_mask sz = y)"
    by (rule reflect_image [OF assms(1-3) uint_negations(1) _ _ _ _ _ assms(4)]; simp add: u)+
  moreover have "circle_wf ?n" "circle_mem ?n y \<longleftrightarrow> (\<exists>x. circle_mem in1 x \<and> (NOT x) AND calc_mask sz = y)"
    by (rule reflect_image [OF assms(1-3) uint_negations(2) _ _ _ _ _ assms(4)]; simp add: u)+
  ultimately show ?thesis
    using assms(5) by (elim insertE emptyE) (simp_all only: eq fst_conv circle_normalize_wf circle_normalize_mem
      evaluate_unary_negations option.inject simp_thms)
qed

section \<open>Addition\<close>

lemma phase_coarser: "k < 64 \<Longrightarrow> j \<le> k \<Longrightarrow> (x :: u64) mod 2 ^ k = l mod 2 ^ k \<Longrightarrow> x mod 2 ^ j = l mod 2 ^ j"
  using phase_iff [of k x l] phase_iff [of j x l] mod_pow2_mod [of j k "uint x"] mod_pow2_mod [of j k "uint l"] by simp

lemma uint_diff_ge: "(b :: u64) \<le> a \<Longrightarrow> uint (a - b) = uint a - uint b"
  by (simp add: uint_sub_lem [THEN iffD1] word_le_def)

lemma circle_span_bounds:
  assumes "circle_wf r" "\<not> cr_isempty r" "cr_mask r = mask n" "n \<le> 64" "cr_step r = 2 ^ k" "k \<le> n" "k < 64"
    and "cr_left r \<noteq> cr_right r"
  defines "D \<equiv> arc_len n (cr_left r) (cr_right r)"
  shows "D \<le> uint (circle_span r)" "uint (circle_span r) \<le> D - 1 + 2 ^ k" "D + 2 ^ k \<le> 2 ^ n" "2 ^ k \<le> D"
proof -
  let ?l = "cr_left r" and ?r = "cr_right r" and ?N = "2 ^ n :: int"
  have b: "?l \<le> mask n" "?r \<le> mask n" using assms(1-3) by (auto simp: circle_wf_def)
  have u: "uint ?l < ?N" "uint ?r < ?N" using b assms(4) by (simp_all add: le_mask_u64_iff)
  have N: "?N \<le> 2 ^ 64" using assms(4) by (rule power_increasing) simp
  have dv: "2 ^ k dvd D" "(2 :: int) ^ k dvd ?N"
    using circle_card(2) [OF assms(1-7)] assms(6) by (simp_all add: D_def le_imp_power_dvd)
  have D: "D = (if ?l \<le> ?r then uint ?r - uint ?l else uint ?r - uint ?l + ?N)"
    using assms(8) diff_mod_cases [OF uint_ge_0 u(2) uint_ge_0 u(1)] by (simp add: D_def arc_len_def word_le_def)
  have pos: "0 < D" "D < ?N"
    using arc_len_bounds [OF assms(4) b] assms(8) by (simp_all add: D_def arc_len_def)
  show "2 ^ k \<le> D" using dv pos by (intro zdvd_imp_le) simp_all
  have "2 ^ k \<le> ?N - D" using dv pos by (intro zdvd_imp_le) (simp_all add: dvd_diff)
  then show lt: "D + 2 ^ k \<le> ?N" by simp
  have "uint (circle_span r) = (if ?l \<le> ?r then D else D - 1 + 2 ^ k)"
  proof (cases "?l < ?r")
    case True
    then show ?thesis using D by (simp add: circle_span_def uint_diff_ge less_imp_le)
  next
    case False
    then have g: "?r < ?l" using assms(8) by simp
    have "?l - ?r \<le> mask n" using g b(1) u uint_ge_0 [of ?r] assms(4)
      by (simp only: le_mask_u64_iff uint_diff_ge [OF less_imp_le [OF g]])
    then have "uint (mask n - (?l - ?r)) = ?N - 1 - (uint ?l - uint ?r)"
      using assms(4) by (simp add: uint_diff_ge less_imp_le [OF g] uint_mask_u64)
    moreover have "uint ((2 :: u64) ^ k) = 2 ^ k" using assms(7) by (rule uint_pow2)
    moreover have "circle_span r = mask n - (?l - ?r) + 2 ^ k" using g assms(3,5) False by (simp add: circle_span_def)
    moreover have "?N - 1 - (uint ?l - uint ?r) = D - 1" using D g by simp
    ultimately have "uint (circle_span r) = (D - 1 + 2 ^ k) mod 2 ^ 64" by (simp only: uint_plus_u64)
    also have "\<dots> = D - 1 + 2 ^ k" using pos lt N zero_less_power [of "2 :: int" k] by (intro mod_pos_pos_trivial) linarith+
    finally have u: "uint (circle_span r) = D - 1 + 2 ^ k" .
    have "\<not> ?l \<le> ?r" using g by (simp only: not_le)
    then show ?thesis by (simp only: u if_False)
  qed
  then show "D \<le> uint (circle_span r)" "uint (circle_span r) \<le> D - 1 + 2 ^ k" by simp_all
qed

lemma single_mem:
  assumes "circle_wf r" "is_single r" "circle_mem r x"
  shows "x = cr_left r"
proof -
  obtain n k where w: "n \<le> 64" "k \<le> n" "k < 64" "cr_mask r = mask n" "cr_step r = 2 ^ k" "cr_left r \<le> cr_mask r"
    using assms by (auto simp: circle_wf_def is_single_def)
  then show ?thesis using assms(2,3) arc_single [of n k "cr_left r" x] by (auto simp: is_single_def circle_mem_def)
qed


lemma mod_sum_dist:
  "((a + b - c) mod N - (d + e) mod N) mod (N :: int) = ((a - d) mod N + (b - e) mod N - c) mod N"
proof -
  have "((a - d) mod N + (b - e) mod N - c) mod N = (((a - d) mod N + (b - e) mod N) mod N - c) mod N"
    by (simp only: mod_diff_left_eq)
  also have "\<dots> = (a - d + (b - e) - c) mod N" by (simp only: mod_add_eq mod_diff_left_eq)
  also have "a - d + (b - e) - c = a + b - c - (d + e)" by simp
  finally show ?thesis by (simp only: mod_diff_eq)
qed

text \<open>The bounds of a sum of two ranges that are neither full nor single values.\<close>

lemma sum_bounds:
  assumes r: "circle_wf r1" "\<not> cr_isempty r1" "cr_mask r1 = mask n" "cr_step r1 = 2 ^ k1" "k1 \<le> n" "k1 < 64" "cr_left r1 \<noteq> cr_right r1"
    and q: "circle_wf r2" "\<not> cr_isempty r2" "cr_mask r2 = mask n" "cr_step r2 = 2 ^ k2" "k2 \<le> n" "k2 < 64" "cr_left r2 \<noteq> cr_right r2"
    and n: "n \<le> 64" and k: "k = min k1 k2"
    and s: "cr_mask s = mask n" "cr_step s = 2 ^ k" "\<not> cr_isempty s"
      "cr_left s = (cr_left r1 + cr_left r2) AND mask n"
      "cr_right s = (cr_right r1 - cr_step r1 + cr_right r2 - cr_step r2 + 2 ^ k) AND mask n"
  defines "D \<equiv> arc_len n (cr_left r1) (cr_right r1) - 2 ^ k1 + (arc_len n (cr_left r2) (cr_right r2) - 2 ^ k2) + 2 ^ k"
  shows "circle_wf s" "cr_left s = cr_right s \<or> circle_span s < circle_span r1
    \<or> D < 2 ^ n \<and> arc_len n (cr_left s) (cr_right s) = D"
proof -
  let ?N = "2 ^ n :: int" and ?D1 = "arc_len n (cr_left r1) (cr_right r1)" and ?D2 = "arc_len n (cr_left r2) (cr_right r2)"
  note B1 = circle_span_bounds [OF r(1-3) n r(4-7)] and B2 = circle_span_bounds [OF q(1-3) n q(4-7)]
  have k': "k \<le> n" "k < 64" "k \<le> k1" "k \<le> k2" "k = k1 \<or> k = k2" using r(5,6) k by (auto simp: min_def)
  have L: "uint (cr_left s) = (uint (cr_left r1) + uint (cr_left r2)) mod ?N" using s(4) n by (simp add: uint_plus_and_mask)
  obtain g where g: "g \<in> {k1, k2}" "(2 :: int) ^ k1 + 2 ^ k2 - 2 ^ k = 2 ^ g" "(2 :: u64) ^ k1 + 2 ^ k2 - 2 ^ k = 2 ^ g"
    using k'(5) that [of k1] that [of k2] by auto
  have e: "cr_right r1 - cr_step r1 + cr_right r2 - cr_step r2 + 2 ^ k = cr_right r1 + cr_right r2 - 2 ^ g"
    using r(4) q(4) by (simp add: g(3) [symmetric])
  have "uint ((2 :: u64) ^ g) = 2 ^ g" using g(1) r(6) q(6) by (intro uint_pow2) auto
  then have R: "uint (cr_right s) = (uint (cr_right r1) + uint (cr_right r2) - 2 ^ g) mod ?N"
    unfolding s(5) e uint_sum_minus_mask [OF n] by simp
  have "(uint (cr_right s) - uint (cr_left s)) mod ?N
      = ((uint (cr_right r1) - uint (cr_left r1)) mod ?N + (uint (cr_right r2) - uint (cr_left r2)) mod ?N - 2 ^ g) mod ?N"
    unfolding L R by (rule mod_sum_dist)
  also have "\<dots> = (?D1 + ?D2 - 2 ^ g) mod ?N" using r(7) q(7) by (simp only: arc_len_def if_False)
  also have "?D1 + ?D2 - 2 ^ g = D" unfolding D_def g(2) [symmetric] by simp
  finally have d: "(uint (cr_right s) - uint (cr_left s)) mod ?N = D mod ?N" .
  have pk: "(2 :: int) ^ k dvd 2 ^ k1" "(2 :: int) ^ k dvd 2 ^ k2" using k' by (simp_all add: le_imp_power_dvd)
  note dD = dvd_trans [OF pk(1) circle_card(2) [OF r(1-3) n r(4-6)]] dvd_trans [OF pk(2) circle_card(2) [OF q(1-3) n q(4-6)]]
  have sD: "(2 :: int) ^ k dvd D" unfolding D_def by (intro dvd_add dvd_diff dvd_refl pk dD)
  have ph: "cr_left s mod 2 ^ k = cr_right s mod 2 ^ k"
    using phase_dist [OF n k'(1,2), of "cr_right s" "cr_left s"] sD d k'(1) by (simp add: dvd_mod le_imp_power_dvd)
  have b: "cr_left s \<le> mask n" "cr_right s \<le> mask n" using s(4,5) by (simp_all add: word_and_le1)
  show wf: "circle_wf s" by (rule circle_wfI [OF n k'(1,2)]) (use s b ph in auto)
  show "cr_left s = cr_right s \<or> circle_span s < circle_span r1 \<or> D < ?N \<and> arc_len n (cr_left s) (cr_right s) = D"
  proof (cases "cr_left s = cr_right s")
    case False
    note B = circle_span_bounds [OF wf s(3,1) n s(2) k'(1,2) False]
    have len: "arc_len n (cr_left s) (cr_right s) = D mod ?N" using False d by (simp add: arc_len_def)
    have p: "(2::int) ^ k \<le> 2 ^ k1" "(2::int) ^ k \<le> 2 ^ k2" "(0::int) < 2 ^ k" using k' by (simp_all add: power_increasing)
    have D0: "0 < D" using B1(4) B2(4) p(3) unfolding D_def by linarith
    show ?thesis
    proof (cases "D < ?N")
      case True
      then show ?thesis using len D0 by (simp add: mod_pos_pos_trivial)
    next
      case F: False
      have "D - ?N < ?N" using B1(3) B2(3) p unfolding D_def by linarith
      then have "D mod ?N = D - ?N" using F mod_pos_geq [of ?N D] mod_pos_pos_trivial [of "D - ?N" ?N] by linarith
      then have "uint (circle_span s) \<le> D - ?N - 1 + 2 ^ k" using B(2) len by simp
      also have "\<dots> < ?D1" using B2(3) p unfolding D_def by linarith
      finally show ?thesis using B1(1) by (simp add: word_less_def)
    qed
  qed simp
qed


lemma step_dist: "0 < (s :: int) \<Longrightarrow> s dvd d \<Longrightarrow> s dvd D \<Longrightarrow> d < D \<Longrightarrow> d \<le> D - s"
  using zdvd_imp_le [of s "D - d"] by (simp add: dvd_diff)

lemma push_add_sound:
  assumes r: "circle_wf in1" "\<not> cr_isempty in1" "cr_mask in1 = mask n" and q: "circle_wf in2" "\<not> cr_isempty in2" "cr_mask in2 = mask n"
    and n: "n \<le> 64" and x: "circle_mem in1 x" and y: "circle_mem in2 y"
  shows "circle_wf (push_add r in1 in2)" "circle_mem (push_add r in1 in2) ((x + y) AND mask n)"
proof -
  from r n obtain k1 where k1: "cr_step in1 = 2 ^ k1" "k1 \<le> n" "k1 < 64" by (auto simp: circle_wf_def mask_u64_inj)
  from q n obtain k2 where k2: "cr_step in2 = 2 ^ k2" "k2 \<le> n" "k2 < 64" by (auto simp: circle_wf_def mask_u64_inj)
  define k where "k = min k1 k2"
  let ?z = "(x + y) AND mask n" and ?s = "push_add r in1 in2" and ?N = "2 ^ n :: int"
  have k: "k \<le> n" "k < 64" "k \<le> k1" "k \<le> k2" using k1 k2 by (auto simp: k_def)
  have st: "min (cr_step in1) (cr_step in2) = 2 ^ k"
    using pow2_u64_less [OF k1(3) k2(3)] pow2_u64_less [OF k2(3) k1(3)] k1 k2 by (auto simp: k_def min_def not_le)
  have b: "x \<le> mask n" "y \<le> mask n" "cr_left in1 \<le> mask n" "cr_left in2 \<le> mask n"
    "cr_right in1 \<le> mask n" "cr_right in2 \<le> mask n"
    using x y r q by (auto simp: circle_mem_def circle_wf_def)
  have z: "?z \<le> mask n" "uint ?z = (uint x + uint y) mod ?N" using n by (simp_all add: word_and_le1 uint_plus_and_mask)
  consider (full) "cr_left in1 = cr_right in1 \<or> cr_left in2 = cr_right in2"
    | (s2) "cr_left in1 \<noteq> cr_right in1" "cr_left in2 \<noteq> cr_right in2" "is_single in2"
    | (s1) "cr_left in1 \<noteq> cr_right in1" "cr_left in2 \<noteq> cr_right in2" "\<not> is_single in2" "is_single in1"
    | (two) "cr_left in1 \<noteq> cr_right in1" "cr_left in2 \<noteq> cr_right in2" "\<not> is_single in2" "\<not> is_single in1" by blast
  then have "circle_wf ?s \<and> circle_mem ?s ?z"
  proof cases
    case full
    then have s: "cr_left ?s = (cr_left in1 + cr_left in2) mod 2 ^ k" "cr_right ?s = cr_left ?s" "cr_mask ?s = mask n" "cr_step ?s = 2 ^ k" "\<not> cr_isempty ?s"
      by (simp_all add: push_add_def Let_def st r q)
    have ph: "x mod 2 ^ k = cr_left in1 mod 2 ^ k" "y mod 2 ^ k = cr_left in2 mod 2 ^ k"
      using x y k1 k2 k by (auto simp: circle_mem_def intro: phase_coarser)
    have "uint ?z mod 2 ^ k = (uint x mod 2 ^ k + uint y mod 2 ^ k) mod 2 ^ k"
      using mod_pow2_mod [OF k(1), of "uint x + uint y"] by (simp add: z(2) mod_add_eq)
    also have "\<dots> = uint (cr_left in1 + cr_left in2) mod 2 ^ k"
      using ph k(2) mod_pow2_mod [of k 64 "uint (cr_left in1) + uint (cr_left in2)"]
      by (simp add: phase_iff uint_plus_u64 mod_add_eq)
    finally have "?z mod 2 ^ k = cr_left ?s mod 2 ^ k" using k(2) s(1) by (simp add: phase_iff)
    moreover have "uint (cr_left ?s) < 2 ^ k" using s(1) k(2) by (simp add: uint_mod_distrib uint_pow2)
    then have "cr_left ?s \<le> mask n"
      unfolding le_mask_u64_iff [OF n] by (rule order.strict_trans2) (use k(1) in \<open>simp add: power_increasing\<close>)
    ultimately show ?thesis using s z(1) n k by (auto simp: circle_mem_def arc_mem_def circle_wf_def)
  next
    case s2
    then have s: "cr_left ?s = (cr_left in1 + cr_left in2) AND mask n" "cr_right ?s = (cr_right in1 + cr_left in2) AND mask n"
       "cr_mask ?s = cr_mask in1" "cr_step ?s = cr_step in1" "\<not> cr_isempty ?s"
      by (simp_all add: push_add_def Let_def r q)
    note R = rotate_mem [OF r n _ _ s(3-5), of "uint (cr_left in2)"]
    show ?thesis using R(1) R(2) [OF _ _ z(1) b(1)] x single_mem [OF q(1) s2(3) y] s n b
      by (simp add: uint_plus_and_mask z(2) mod_diff_left_eq le_mask_u64_iff mod_pos_pos_trivial)
  next
    case s1
    then have s: "cr_left ?s = (cr_left in2 + cr_left in1) AND mask n" "cr_right ?s = (cr_right in2 + cr_left in1) AND mask n"
       "cr_mask ?s = cr_mask in2" "cr_step ?s = cr_step in2" "\<not> cr_isempty ?s"
      by (simp_all add: push_add_def Let_def r q)
    note R = rotate_mem [OF q n _ _ s(3-5), of "uint (cr_left in1)"]
    show ?thesis using R(1) R(2) [OF _ _ z(1) b(2)] y single_mem [OF r(1) s1(4) x] s n b
      by (simp add: uint_plus_and_mask z(2) mod_diff_left_eq le_mask_u64_iff mod_pos_pos_trivial)
  next
    case two
    define t where "t = r\<lparr>cr_isempty := False, cr_mask := mask n, cr_step := 2 ^ k, cr_left := (cr_left in1 + cr_left in2) AND mask n,
        cr_right := (cr_right in1 - cr_step in1 + cr_right in2 - cr_step in2 + 2 ^ k) AND mask n\<rparr>"
    have eq: "?s = circle_normalize (if circle_span t < circle_span in1 then t\<lparr>cr_right := cr_left t\<rparr> else t)"
      using two by (simp add: push_add_def Let_def r q st t_def)
    have t: "cr_mask t = mask n" "cr_step t = 2 ^ k" "\<not> cr_isempty t" "cr_left t = (cr_left in1 + cr_left in2) AND mask n"
      "cr_right t = (cr_right in1 - cr_step in1 + cr_right in2 - cr_step in2 + 2 ^ k) AND mask n" by (simp_all add: t_def)
    note B = sum_bounds [OF r k1 two(1) q k2 two(2) n k_def t]
    let ?t = "t\<lparr>cr_right := cr_left t\<rparr>" and ?d = "(uint ?z - uint (cr_left t)) mod ?N"
    let ?d1 = "(uint x - uint (cr_left in1)) mod ?N" and ?d2 = "(uint y - uint (cr_left in2)) mod ?N"
    have wt: "circle_wf ?t" using B(1) by (auto simp: circle_wf_def)
    have d: "?d = (?d1 + ?d2) mod ?N"
      using mod_sum_dist [of "uint x" "uint y" 0 ?N] t(4) n by (simp add: z(2) uint_plus_and_mask)
    note M1 = x [unfolded circle_mem_dist [OF r n k1]] and M2 = y [unfolded circle_mem_dist [OF q n k2]]
    note le1 = step_dist [OF _ _ circle_card(2) [OF r n k1]] and le2 = step_dist [OF _ _ circle_card(2) [OF q n k2]]
    have sm: "?d1 \<le> arc_len n (cr_left in1) (cr_right in1) - 2 ^ k1" "?d2 \<le> arc_len n (cr_left in2) (cr_right in2) - 2 ^ k2"
      using M1 M2 by (auto intro!: le1 le2)
    have pk: "(2 :: int) ^ k dvd 2 ^ k1" "(2 :: int) ^ k dvd 2 ^ k2" "(2 :: int) ^ k dvd 2 ^ n"
      using k by (simp_all add: le_imp_power_dvd)
    have "2 ^ k dvd ?d1" "2 ^ k dvd ?d2" using M1 M2 dvd_trans [OF pk(1)] dvd_trans [OF pk(2)] by blast+
    then have dv: "2 ^ k dvd ?d" unfolding d by (rule dvd_mod [OF dvd_add pk(3)])
    have ft: "circle_mem ?t ?z" 
      using circle_mem_dist [OF wt, of n k ?z] t n k z(1) dv by (simp add: arc_len_def)
    have "circle_mem t ?z" if "\<not> circle_span t < circle_span in1"
    proof (cases "cr_left t = cr_right t")
      case True
      then have "t = ?t" by simp
      then show ?thesis using ft by simp
    next
      case False
      then have l: "arc_len n (cr_left in1) (cr_right in1) - 2 ^ k1 + (arc_len n (cr_left in2) (cr_right in2) - 2 ^ k2) + 2 ^ k < ?N"
        "arc_len n (cr_left t) (cr_right t) = arc_len n (cr_left in1) (cr_right in1) - 2 ^ k1 + (arc_len n (cr_left in2) (cr_right in2) - 2 ^ k2) + 2 ^ k"
        using B(2) that by auto
      have "?d \<le> ?d1 + ?d2" unfolding d by (rule zmod_le_nonneg_dividend) simp
      then have "?d < arc_len n (cr_left t) (cr_right t)" using sm l(2) zero_less_power [of "2 :: int" k] by linarith
      then show ?thesis using circle_mem_dist [OF B(1) t(3,1) n t(2) k(1,2), of ?z] z(1) dv by blast
    qed
    then show ?thesis unfolding eq circle_normalize_mem using ft wt B(1) by (auto simp: circle_normalize_wf)
  qed
  then show "circle_wf (push_add r in1 in2)" "circle_mem (push_add r in1 in2) ((x + y) AND mask n)" by simp_all
qed

section \<open>Zero extension\<close>

lemma multiple_gap:
  fixes S N Y R :: int
  assumes "0 < S" "S dvd N" "0 \<le> R" "R < S" "Y mod S = R" "Y < R + N"
  shows "Y \<le> R + N - S"
proof -
  have "Y mod S = R mod S" using assms(3-5) by (simp only: mod_pos_pos_trivial)
  then have "S dvd R - Y" by (simp only: mod_eq_dvd_iff [symmetric])
  then have "S dvd (R - Y) + N" using assms(2) by (rule dvd_add)
  then have "S dvd R + N - Y" by (simp only: diff_add_eq)
  then show ?thesis using zdvd_imp_le [of S "R + N - Y"] assms(6) by linarith
qed

lemma zext_arc:
  fixes S N L R Y :: int
  assumes "0 < S" "S dvd N" "0 \<le> L" "L < N" "0 \<le> R" "R < N" "0 \<le> Y" "L \<noteq> R" "S \<le> N"
    and ph: "L mod S = R mod S" "Y mod S = L mod S" and last: "L \<le> (R - S) mod N"
  shows "Y < N \<and> (if L < R then L \<le> Y \<and> Y < R else L \<le> Y \<or> Y < R) \<longleftrightarrow> L \<le> Y \<and> Y < (R - S) mod N + S"
    and "(R - S) mod N + S < 2 * N" "L < (R - S) mod N + S" "((R - S) mod N + S) mod S = L mod S"
proof -
  have m: "(R - S) mod N = (if S \<le> R then R - S else R - S + N)"
    using assms by (auto intro: mod_pos_pos_trivial mod_plus_once)
  show "(R - S) mod N + S < 2 * N" "L < (R - S) mod N + S" using m assms by (auto split: if_splits)
  show "((R - S) mod N + S) mod S = L mod S"
    using assms(2) ph(1) unfolding m by (auto elim!: dvdE)
  show "Y < N \<and> (if L < R then L \<le> Y \<and> Y < R else L \<le> Y \<or> Y < R) \<longleftrightarrow> L \<le> Y \<and> Y < (R - S) mod N + S"
  proof (cases "S \<le> R")
    case True
    then show ?thesis using last m assms by auto
  next
    case False
    then have R: "R mod S = R" "L mod S = R" "Y mod S = R" using assms ph by (simp_all add: mod_pos_pos_trivial)
    have "R \<le> L" "R \<le> Y" using R assms zmod_le_nonneg_dividend [of L S] zmod_le_nonneg_dividend [of Y S] by simp_all
    moreover have "Y < R + N \<Longrightarrow> Y \<le> R + N - S" using False assms R(3) by (intro multiple_gap) auto
    ultimately show ?thesis using False last m assms by auto
  qed
qed

lemma zext_full:
  fixes S N L Y :: int
  assumes "0 < S" "S dvd N" "0 \<le> L" "0 \<le> Y" "Y mod S = L mod S"
  shows "Y < N \<longleftrightarrow> L mod S \<le> Y \<and> Y < N + L mod S"
proof -
  have m: "0 \<le> L mod S" "L mod S < S" using assms(1) by simp_all
  have "L mod S \<le> Y" using zmod_le_nonneg_dividend [OF assms(4), of S] assms(5) by simp
  moreover have "Y < L mod S + N \<Longrightarrow> Y \<le> L mod S + N - S" using assms m by (intro multiple_gap) simp_all
  ultimately show ?thesis using m by linarith
qed

lemma push_zext_exact:
  assumes in1: "circle_wf in1" "\<not> cr_isempty in1" "cr_mask in1 = calc_mask a" and ab: "a < b" "b \<le> 8"
    and ok: "snd (push_zext r in1 b)"
  shows "circle_wf (fst (push_zext r in1 b))" "circle_mem (fst (push_zext r in1 b)) y \<longleftrightarrow> circle_mem in1 y"
proof -
  let ?n = "nbits a" and ?l = "cr_left in1" and ?r = "cr_right in1" and ?q = "fst (push_zext r in1 b)"
  have m: "cr_mask in1 = mask ?n" using in1(3) by (simp add: calc_mask_eq)
  from in1 m obtain k where k: "cr_step in1 = 2 ^ k" "k \<le> ?n" "k < 64" by (auto simp: circle_wf_def mask_u64_inj)
  let ?N = "2 ^ ?n :: int" and ?S = "2 ^ k :: int"
  have nn: "?n + 8 \<le> nbits b" "nbits b \<le> 64" using ab by (auto simp: nbits_def)
  have NN: "2 * ?N \<le> 2 ^ nbits b" "(2 :: int) ^ nbits b \<le> 2 ^ 64"
    using nn power_increasing [of "Suc ?n" "nbits b" "2 :: int"] power_increasing [of "nbits b" 64 "2 :: int"] by simp_all
  have S: "0 < ?S" "?S dvd ?N" "?S \<le> ?N" "uint (cr_step in1) = ?S"
    using k by (simp_all add: le_imp_power_dvd power_increasing uint_pow2)
  have b': "uint ?l < ?N" "uint ?r < ?N" and ph: "uint ?l mod ?S = uint ?r mod ?S"
    using in1(1,2) k m by (auto simp: circle_wf_def le_mask_u64_iff [symmetric] phase_iff [symmetric])
  have keep: "cr_mask ?q = calc_mask b" "cr_step ?q = 2 ^ k" "\<not> cr_isempty ?q"
    using k by (simp_all add: push_zext_def Let_def)
  have mem: "circle_mem in1 y \<longleftrightarrow> uint y < ?N \<and> uint y mod ?S = uint ?l mod ?S \<and> arc_mem ?l ?r y"
    using in1(2) m k by (auto simp: circle_mem_def le_mask_u64_iff phase_iff)
  have memq: "circle_mem ?q y \<longleftrightarrow> uint y < 2 ^ nbits b \<and> uint y mod ?S = uint (cr_left ?q) mod ?S \<and> arc_mem (cr_left ?q) (cr_right ?q) y"
    using keep k by (auto simp: circle_mem_def le_calc_mask_iff phase_iff)
  have wfI: "circle_wf ?q" if "uint (cr_left ?q) < 2 ^ nbits b" "uint (cr_right ?q) < 2 ^ nbits b" "uint (cr_left ?q) mod ?S = uint (cr_right ?q) mod ?S"
    by (rule circle_wfI [OF nn(2) _ k(3)]) (use that keep k(2) nn(1) in \<open>auto simp: le_calc_mask_iff [symmetric] calc_mask_eq [symmetric] phase_iff [OF k(3)]\<close>)
  have nowrap: "uint (u + v) = uint u + uint v" if "uint u + uint v < 2 * ?N" for u v :: u64
    unfolding uint_plus_u64 using that NN by (intro mod_pos_pos_trivial) (simp, linarith)
  have "circle_wf ?q \<and> (circle_mem ?q y \<longleftrightarrow> circle_mem in1 y)"
  proof (cases "?l = ?r")
    case True
    let ?m = "uint ?l mod ?S"
    have L: "cr_left ?q = ?l mod 2 ^ k" "cr_right ?q = calc_mask a + 1 + cr_left ?q"
      using True k in1(3) by (simp_all add: push_zext_def Let_def)
    then have l: "uint (cr_left ?q) = ?m" using k by (simp add: uint_mod_distrib uint_pow2)
    have mm: "0 \<le> ?m" "?m < ?S" using S(1) by simp_all
    have "uint (calc_mask a + 1) = ?N" using nowrap [of "calc_mask a" 1] S by (simp add: uint_calc_mask)
    then have r: "uint (cr_right ?q) = ?N + ?m" using nowrap [of "calc_mask a + 1" "cr_left ?q"] L(2) l mm S(3) by simp
    have lt: "?m < 2 ^ nbits b" "?N + ?m < 2 ^ nbits b" using NN(1) mm S(3) by linarith+
    have "uint (cr_left ?q) mod ?S = uint (cr_right ?q) mod ?S" using S(2) unfolding l r by (auto elim!: dvdE)
    then show ?thesis
      using wfI zext_full [OF S(1,2) uint_ge_0 [of ?l] uint_ge_0 [of y]] True mm S(1) lt
      unfolding mem memq l r arc_mem_uint by auto
  next
    case False
    let ?last = "(?r - cr_step in1) AND calc_mask a"
    have rl: "uint ?last = (uint ?r - ?S) mod ?N" using S(4) by (simp add: calc_mask_eq uint_minus_and_mask)
    have L: "cr_left ?q = ?l" "cr_right ?q = ?last + cr_step in1" "?l \<le> ?last"
      using False in1(3) ok by (auto simp: push_zext_def Let_def split: if_splits)
    have ne: "uint ?l \<noteq> uint ?r" using False by (simp add: word_uint_eq_iff)
    note Z = zext_arc [OF S(1,2) uint_ge_0 b'(1) uint_ge_0 b'(2) uint_ge_0 ne S(3) ph _ L(3) [unfolded word_le_def rl]]
    note Z' = Z(2-4) [OF refl]
    have r: "uint (cr_right ?q) = (uint ?r - ?S) mod ?N + ?S"
      unfolding L(2) using nowrap [of ?last "cr_step in1"] Z'(1) by (simp only: S(4) rl)
    have "uint ?l < 2 ^ nbits b" "uint (cr_right ?q) < 2 ^ nbits b" using b'(1) NN(1) Z'(1) r S(1,3) by linarith+
    then have "circle_wf ?q" using Z'(3) L(1) r by (intro wfI) simp_all
    moreover have "circle_mem ?q y \<longleftrightarrow> circle_mem in1 y"
    proof (cases "uint y mod ?S = uint ?l mod ?S")
      case True
      have "arc_mem ?l (cr_right ?q) y \<longleftrightarrow> uint ?l \<le> uint y \<and> uint y < uint (cr_right ?q)"
        using Z'(2) by (simp add: arc_mem_uint r)
      then show ?thesis
        using Z(1) [OF True] True ne \<open>uint (cr_right ?q) < 2 ^ nbits b\<close>
        unfolding mem memq L(1) r arc_mem_uint [of ?l ?r] by auto
    qed (simp add: mem memq L(1))
    ultimately show ?thesis by blast
  qed
  then show "circle_wf ?q" "circle_mem ?q y \<longleftrightarrow> circle_mem in1 y" by simp_all
qed


text \<open>The loop that widens the step for a multiplication.\<close>

lemma as_i32_pow2: "k \<le> 30 \<Longrightarrow> as_i32 (2 ^ k :: u64) = 2 ^ k"
  using power_strict_increasing [of k 31 "2 :: int"] order_trans [of "- (2 ^ 31)" 0 "2 ^ k :: int"]
  by (simp add: as_i32_def uint_pow2 signed_take_bit_int_eq_self_iff)

lemma mult_step_loop_done:
  assumes "k + j = 30" "j \<le> fuel" "max_step \<le> 2 ^ 30"
  shows "\<exists>i. k \<le> i \<and> i \<le> 30 \<and> mult_step_loop fuel max_step (2 ^ k) tmp = Some (2 ^ i)"
  using assms
proof (induction j arbitrary: k fuel tmp)
  case 0
  then show ?case by (intro exI [of _ k]) (use as_i32_pow2 [of 30] in \<open>simp add: mult_step_loop.simps [of fuel]\<close>)
next
  case (Suc j)
  show ?case
  proof (cases "\<not> as_i32 (2 ^ k :: u64) < max_step \<or> tmp AND 1 \<noteq> 0")
    case True
    then show ?thesis using Suc.prems by (intro exI [of _ k]) (auto simp: mult_step_loop.simps [of fuel])
  next
    case False
    obtain f where f: "fuel = Suc f" using Suc.prems(2) by (cases fuel) simp_all
    have "shl_u64 (2 ^ k) 1 = 2 ^ Suc k" by (simp add: shl_u64_def push_bit_eq_mult)
    then have "mult_step_loop fuel max_step (2 ^ k) tmp = mult_step_loop f max_step (2 ^ Suc k) (drop_bit 1 tmp)"
      using False f by (simp add: mult_step_loop.simps [of "Suc f"])
    moreover have "\<exists>i. Suc k \<le> i \<and> i \<le> 30 \<and> mult_step_loop f max_step (2 ^ Suc k) (drop_bit 1 tmp) = Some (2 ^ i)"
      using Suc.prems f by (intro Suc.IH) simp_all
    ultimately show ?thesis by (metis Suc_leD)
  qed
qed


text \<open>
  Property C35. The step-doubling loop of the forward multiplication stops for every multiplier, zero
  included, when the step is a power of two of at most \<open>2 ^ 30\<close> and so is the largest allowed
  step: a push-forward through a multiplication always returns.
\<close>

theorem push_mult_returns:
  assumes "k1 \<le> 30" "k2 \<le> 30" "cr_step in1 = 2 ^ k1" "cr_step in2 = 2 ^ k2" "max_step \<le> 2 ^ 30"
  shows "\<exists>res. push_forward_binary r CPUI_INT_MULT in1 in2 in_size out_size max_step = Some res"
proof -
  have "\<exists>i. mult_step_loop 64 max_step (if is_single in1 then cr_step in2 else cr_step in1) t = Some (2 ^ i)" for t
  proof -
    have "30 - k1 \<le> 64" "30 - k2 \<le> 64" by simp_all
    then show ?thesis using assms(3,4) mult_step_loop_done [OF le_add_diff_inverse [OF assms(1)] _ assms(5)]
        mult_step_loop_done [OF le_add_diff_inverse [OF assms(2)] _ assms(5)]
      by (cases "is_single in1") (simp, blast)+
  qed
  then obtain i where "mult_step_loop 64 max_step (if is_single in1 then cr_step in2 else cr_step in1)
      (ucast (if is_single in1 then cr_left in1 else cr_left in2)) = Some (2 ^ i)" by blast
  then show ?thesis by (auto simp: push_forward_binary_def push_mult_def Let_def)
qed

text \<open>
  Property C12. Forward addition is sound: the pushed range is well formed and holds the sum of any two
  values of the input ranges, with the carry out of the domain dropped.
\<close>

theorem push_forward_add_sound:
  assumes "circle_wf in1" "circle_wf in2" "cr_mask in1 = calc_mask sz" "cr_mask in2 = calc_mask sz"
    and "circle_mem in1 x" "circle_mem in2 y"
  shows "\<exists>out v. push_forward_binary r CPUI_INT_ADD in1 in2 sz sz max_step = Some (out, True)
    \<and> circle_wf out \<and> evaluate_binary CPUI_INT_ADD sz sz x y = Ret (Some v) \<and> circle_mem out v"
proof -
  have e: "\<not> cr_isempty in1" "\<not> cr_isempty in2" using assms(5,6) by (auto simp: circle_mem_def)
  note s = push_add_sound [OF assms(1) e(1) assms(3) [unfolded calc_mask_eq] assms(2) e(2)
      assms(4) [unfolded calc_mask_eq] nbits_le assms(5,6)]
  show ?thesis using e s by (simp add: push_forward_binary_def evaluate_binary_add calc_mask_eq)
qed

text \<open>
  Forward zero extension, when it succeeds, is exact: the wider range holds exactly the values of
  the narrow one, which are what the operation evaluates to.
\<close>

theorem push_forward_zext_exact:
  assumes "circle_wf in1" "\<not> cr_isempty in1" "cr_mask in1 = calc_mask a" "a < b" "b \<le> 8"
    and "push_forward_unary r CPUI_INT_ZEXT in1 a b = (out, True)"
  shows "circle_wf out \<and> (circle_mem out y \<longleftrightarrow> (\<exists>x. circle_mem in1 x \<and> evaluate_unary CPUI_INT_ZEXT b a x = Some y))"
proof -
  have p: "push_zext r in1 b = (out, True)" using assms(2,6) by (simp add: push_forward_unary_def)
  have "evaluate_unary CPUI_INT_ZEXT b a x = Some x" if "circle_mem in1 x" for x
  proof -
    have "x \<le> calc_mask a" using that assms(3) by (simp add: circle_mem_def)
    then have "uint x < 2 ^ nbits a" by (simp add: le_calc_mask_iff)
    also have "(2 :: int) ^ nbits a \<le> 2 ^ nbits b" using assms(4) by (intro power_increasing) (auto simp: nbits_def)
    finally have "x \<le> calc_mask b" by (simp add: le_calc_mask_iff)
    then show ?thesis by (simp add: evaluate_unary_def and_calc_mask_self)
  qed
  then show ?thesis using push_zext_exact [OF assms(1-5), where r = r] p by auto
qed

section \<open>Concrete ranges\<close>

theorem push_forward_negation_exact_witness:
  "circle_wf (fst (push_forward_unary (circle_full 1) CPUI_INT_2COMP (byte_range 0xf0 0x20 4) 1 1))
    \<and> (circle_mem (fst (push_forward_unary (circle_full 1) CPUI_INT_2COMP (byte_range 0xf0 0x20 4) 1 1)) 8
      \<longleftrightarrow> (\<exists>x. circle_mem (byte_range 0xf0 0x20 4) x \<and> evaluate_unary CPUI_INT_2COMP 1 1 x = Some 8))"
proof -
  have c: "\<not> cr_isempty (byte_range 0xf0 0x20 4)" "cr_mask (byte_range 0xf0 0x20 4) = calc_mask 1" "(8 :: u64) \<le> calc_mask 1"
    by code_simp+
  show ?thesis by (rule push_forward_negation_exact [OF witness_ranges(2) c]) simp
qed

theorem push_mult_returns_witness:
  "\<exists>res. push_forward_binary (circle_full 1) CPUI_INT_MULT (byte_range 0x10 0x20 2) (circle_single 0 1) 1 1 32 = Some res"
  by (rule push_mult_returns [of 1 0]) code_simp+

theorem push_forward_add_sound_witness:
  "\<exists>out v. push_forward_binary (circle_full 1) CPUI_INT_ADD (byte_range 0xf0 0x20 4) (byte_range 0x10 0x20 2) 1 1 32 = Some (out, True)
    \<and> circle_wf out \<and> evaluate_binary CPUI_INT_ADD 1 1 0xf4 0x12 = Ret (Some v) \<and> circle_mem out v"
  by (rule push_forward_add_sound [OF witness_ranges(2,3)]) code_simp+

theorem push_forward_zext_exact_witness:
  "circle_wf (fst (push_forward_unary (circle_full 4) CPUI_INT_ZEXT (byte_range 0x10 0x20 2) 1 4))
    \<and> (circle_mem (fst (push_forward_unary (circle_full 4) CPUI_INT_ZEXT (byte_range 0x10 0x20 2) 1 4)) 0x12
      \<longleftrightarrow> (\<exists>x. circle_mem (byte_range 0x10 0x20 2) x \<and> evaluate_unary CPUI_INT_ZEXT 4 1 x = Some 0x12))"
proof -
  have c: "\<not> cr_isempty (byte_range 0x10 0x20 2)" "cr_mask (byte_range 0x10 0x20 2) = calc_mask 1"
    "snd (push_forward_unary (circle_full 4) CPUI_INT_ZEXT (byte_range 0x10 0x20 2) 1 4)" by code_simp+
  show ?thesis by (rule push_forward_zext_exact [OF witness_ranges(3) c(1,2), where r = "circle_full 4"])
      (use c(3) in \<open>simp_all add: prod_eq_iff\<close>)
qed

section \<open>A value push-forward loses, and a loop that does not stop\<close>

theorem push_right_loses_max:
  "circle_mem (circle_full 1) 0xff \<and> evaluate_binary CPUI_INT_RIGHT 1 1 0xff 1 = Ret (Some 0x7f)
    \<and> \<not> circle_mem (fst (the (push_forward_binary (circle_full 1) CPUI_INT_RIGHT (circle_full 1) (circle_single 1 1) 1 1 32))) 0x7f"
  by code_simp

theorem mult_step_loop_stuck: "mult_step_loop 64 0x7fffffff 1 0 = None"
  by code_simp

end
