(* ===== verification/Op_Trait.thy ===== *)
theory Op_Trait
  imports Op_Semantics
begin

text \<open>
  The behaviour objects of src/src/opbehavior.rs: the trait \<open>OpBehavior\<close>, its implementations
  and the table \<open>OpBehaviorFactory\<close> builds. A boxed trait object is a value of \<open>behavior\<close>, one
  constructor per implementing type; a trait method dispatches on it, and the bodies of the trait
  itself, which panic, are the default. The floating point formats of src/src/float_emulate.rs
  are the parameter \<open>fl\<close>, one function per method the behaviours call, with the byte size of the
  format as its first argument.

  The lemmas show that an object evaluates and recovers as the free functions of
  \<open>Op_Behavior\<close> do, that its unary recovery is the partial inverse of its evaluation (the
  locale \<open>inverse_pair\<close>, interpreted on the objects), and that the table holds, at every
  operation code, an object of that code.
\<close>

unbundle bit_operations_syntax

section \<open>Metadata and objects\<close>

record behavior_meta =
  bm_opcode :: opcode
  bm_isunary :: bool
  bm_isspecial :: bool

definition meta_new :: "opcode \<Rightarrow> bool \<Rightarrow> behavior_meta" where
  "meta_new opc isunary = \<lparr>bm_opcode = opc, bm_isunary = isunary, bm_isspecial = False\<rparr>"

definition meta_new_special :: "opcode \<Rightarrow> bool \<Rightarrow> bool \<Rightarrow> behavior_meta" where
  "meta_new_special opc isunary isspecial =
     \<lparr>bm_opcode = opc, bm_isunary = isunary, bm_isspecial = isspecial\<rparr>"

datatype (plugins only: code) behavior =
    OpBehaviorCopy | OpBehaviorEqual | OpBehaviorNotEqual | OpBehaviorIntSless |
    OpBehaviorIntSlessEqual | OpBehaviorIntLess | OpBehaviorIntLessEqual | OpBehaviorIntZext |
    OpBehaviorIntSext | OpBehaviorIntAdd | OpBehaviorIntSub | OpBehaviorIntCarry |
    OpBehaviorIntScarry | OpBehaviorIntSborrow | OpBehaviorInt2Comp | OpBehaviorIntNegate |
    OpBehaviorIntXor | OpBehaviorIntAnd | OpBehaviorIntOr | OpBehaviorIntLeft |
    OpBehaviorIntRight | OpBehaviorIntSright | OpBehaviorIntMult | OpBehaviorIntDiv |
    OpBehaviorIntSdiv | OpBehaviorIntRem | OpBehaviorIntSrem | OpBehaviorBoolNegate |
    OpBehaviorBoolXor | OpBehaviorBoolAnd | OpBehaviorBoolOr | OpBehaviorFloatEqual |
    OpBehaviorFloatNotEqual | OpBehaviorFloatLess | OpBehaviorFloatLessEqual |
    OpBehaviorFloatAdd | OpBehaviorFloatDiv | OpBehaviorFloatMult | OpBehaviorFloatSub |
    OpBehaviorFloatNan | OpBehaviorFloatNeg | OpBehaviorFloatAbs | OpBehaviorFloatSqrt |
    OpBehaviorFloatCeil | OpBehaviorFloatFloor | OpBehaviorFloatRound |
    OpBehaviorFloatInt2Float | OpBehaviorFloatFloat2Float | OpBehaviorFloatTrunc |
    OpBehaviorPiece | OpBehaviorSubpiece | OpBehaviorPtradd | OpBehaviorPtrsub |
    OpBehaviorPopcount | OpBehaviorLzcount
  | SpecialBehavior behavior_meta | PtrBehavior behavior_meta

definition behavior_meta_of :: "behavior \<Rightarrow> behavior_meta" where
  "behavior_meta_of b = (case b of
    OpBehaviorCopy \<Rightarrow> meta_new CPUI_COPY True
  | OpBehaviorEqual \<Rightarrow> meta_new CPUI_INT_EQUAL False
  | OpBehaviorNotEqual \<Rightarrow> meta_new CPUI_INT_NOTEQUAL False
  | OpBehaviorIntSless \<Rightarrow> meta_new CPUI_INT_SLESS False
  | OpBehaviorIntSlessEqual \<Rightarrow> meta_new CPUI_INT_SLESSEQUAL False
  | OpBehaviorIntLess \<Rightarrow> meta_new CPUI_INT_LESS False
  | OpBehaviorIntLessEqual \<Rightarrow> meta_new CPUI_INT_LESSEQUAL False
  | OpBehaviorIntZext \<Rightarrow> meta_new CPUI_INT_ZEXT True
  | OpBehaviorIntSext \<Rightarrow> meta_new CPUI_INT_SEXT True
  | OpBehaviorIntAdd \<Rightarrow> meta_new CPUI_INT_ADD False
  | OpBehaviorIntSub \<Rightarrow> meta_new CPUI_INT_SUB False
  | OpBehaviorIntCarry \<Rightarrow> meta_new CPUI_INT_CARRY False
  | OpBehaviorIntScarry \<Rightarrow> meta_new CPUI_INT_SCARRY False
  | OpBehaviorIntSborrow \<Rightarrow> meta_new CPUI_INT_SBORROW False
  | OpBehaviorInt2Comp \<Rightarrow> meta_new CPUI_INT_2COMP True
  | OpBehaviorIntNegate \<Rightarrow> meta_new CPUI_INT_NEGATE True
  | OpBehaviorIntXor \<Rightarrow> meta_new CPUI_INT_XOR False
  | OpBehaviorIntAnd \<Rightarrow> meta_new CPUI_INT_AND False
  | OpBehaviorIntOr \<Rightarrow> meta_new CPUI_INT_OR False
  | OpBehaviorIntLeft \<Rightarrow> meta_new CPUI_INT_LEFT False
  | OpBehaviorIntRight \<Rightarrow> meta_new CPUI_INT_RIGHT False
  | OpBehaviorIntSright \<Rightarrow> meta_new CPUI_INT_SRIGHT False
  | OpBehaviorIntMult \<Rightarrow> meta_new CPUI_INT_MULT False
  | OpBehaviorIntDiv \<Rightarrow> meta_new CPUI_INT_DIV False
  | OpBehaviorIntSdiv \<Rightarrow> meta_new CPUI_INT_SDIV False
  | OpBehaviorIntRem \<Rightarrow> meta_new CPUI_INT_REM False
  | OpBehaviorIntSrem \<Rightarrow> meta_new CPUI_INT_SREM False
  | OpBehaviorBoolNegate \<Rightarrow> meta_new CPUI_BOOL_NEGATE True
  | OpBehaviorBoolXor \<Rightarrow> meta_new CPUI_BOOL_XOR False
  | OpBehaviorBoolAnd \<Rightarrow> meta_new CPUI_BOOL_AND False
  | OpBehaviorBoolOr \<Rightarrow> meta_new CPUI_BOOL_OR False
  | OpBehaviorFloatEqual \<Rightarrow> meta_new CPUI_FLOAT_EQUAL False
  | OpBehaviorFloatNotEqual \<Rightarrow> meta_new CPUI_FLOAT_NOTEQUAL False
  | OpBehaviorFloatLess \<Rightarrow> meta_new CPUI_FLOAT_LESS False
  | OpBehaviorFloatLessEqual \<Rightarrow> meta_new CPUI_FLOAT_LESSEQUAL False
  | OpBehaviorFloatAdd \<Rightarrow> meta_new CPUI_FLOAT_ADD False
  | OpBehaviorFloatDiv \<Rightarrow> meta_new CPUI_FLOAT_DIV False
  | OpBehaviorFloatMult \<Rightarrow> meta_new CPUI_FLOAT_MULT False
  | OpBehaviorFloatSub \<Rightarrow> meta_new CPUI_FLOAT_SUB False
  | OpBehaviorFloatNan \<Rightarrow> meta_new CPUI_FLOAT_NAN True
  | OpBehaviorFloatNeg \<Rightarrow> meta_new CPUI_FLOAT_NEG True
  | OpBehaviorFloatAbs \<Rightarrow> meta_new CPUI_FLOAT_ABS True
  | OpBehaviorFloatSqrt \<Rightarrow> meta_new CPUI_FLOAT_SQRT True
  | OpBehaviorFloatCeil \<Rightarrow> meta_new CPUI_FLOAT_CEIL True
  | OpBehaviorFloatFloor \<Rightarrow> meta_new CPUI_FLOAT_FLOOR True
  | OpBehaviorFloatRound \<Rightarrow> meta_new CPUI_FLOAT_ROUND True
  | OpBehaviorFloatInt2Float \<Rightarrow> meta_new CPUI_FLOAT_INT2FLOAT True
  | OpBehaviorFloatFloat2Float \<Rightarrow> meta_new CPUI_FLOAT_FLOAT2FLOAT True
  | OpBehaviorFloatTrunc \<Rightarrow> meta_new CPUI_FLOAT_TRUNC True
  | OpBehaviorPiece \<Rightarrow> meta_new CPUI_PIECE False
  | OpBehaviorSubpiece \<Rightarrow> meta_new CPUI_SUBPIECE False
  | OpBehaviorPtradd \<Rightarrow> meta_new CPUI_PTRADD False
  | OpBehaviorPtrsub \<Rightarrow> meta_new CPUI_PTRSUB False
  | OpBehaviorPopcount \<Rightarrow> meta_new CPUI_POPCOUNT True
  | OpBehaviorLzcount \<Rightarrow> meta_new CPUI_LZCOUNT True
  | SpecialBehavior m \<Rightarrow> m
  | PtrBehavior m \<Rightarrow> m)"

definition behavior_opcode :: "behavior \<Rightarrow> opcode" where
  "behavior_opcode b = bm_opcode (behavior_meta_of b)"

definition behavior_is_special :: "behavior \<Rightarrow> bool" where
  "behavior_is_special b = bm_isspecial (behavior_meta_of b)"

definition behavior_is_unary :: "behavior \<Rightarrow> bool" where
  "behavior_is_unary b = bm_isunary (behavior_meta_of b)"

section \<open>The floating point formats\<close>

record float_ops =
  op_equal :: "usize \<Rightarrow> u64 \<Rightarrow> u64 \<Rightarrow> u64"
  op_not_equal :: "usize \<Rightarrow> u64 \<Rightarrow> u64 \<Rightarrow> u64"
  op_less :: "usize \<Rightarrow> u64 \<Rightarrow> u64 \<Rightarrow> u64"
  op_less_equal :: "usize \<Rightarrow> u64 \<Rightarrow> u64 \<Rightarrow> u64"
  op_add :: "usize \<Rightarrow> u64 \<Rightarrow> u64 \<Rightarrow> u64"
  op_div :: "usize \<Rightarrow> u64 \<Rightarrow> u64 \<Rightarrow> u64"
  op_mult :: "usize \<Rightarrow> u64 \<Rightarrow> u64 \<Rightarrow> u64"
  op_sub :: "usize \<Rightarrow> u64 \<Rightarrow> u64 \<Rightarrow> u64"
  op_nan :: "usize \<Rightarrow> u64 \<Rightarrow> u64"
  op_neg :: "usize \<Rightarrow> u64 \<Rightarrow> u64"
  op_abs :: "usize \<Rightarrow> u64 \<Rightarrow> u64"
  op_sqrt :: "usize \<Rightarrow> u64 \<Rightarrow> u64"
  op_ceil :: "usize \<Rightarrow> u64 \<Rightarrow> u64"
  op_floor :: "usize \<Rightarrow> u64 \<Rightarrow> u64"
  op_round :: "usize \<Rightarrow> u64 \<Rightarrow> u64"
  op_int2float :: "usize \<Rightarrow> u64 \<Rightarrow> usize \<Rightarrow> u64"
  op_float2_float :: "usize \<Rightarrow> u64 \<Rightarrow> usize \<Rightarrow> u64"
  op_trunc :: "usize \<Rightarrow> u64 \<Rightarrow> usize \<Rightarrow> u64"

text \<open>A format is named by its byte size.\<close>

definition float_format :: "usize \<Rightarrow> usize option" where
  "float_format sz = (if sz = 4 then Some 4 else if sz = 8 then Some 8 else None)"

definition float_binary_behavior ::
  "(usize \<Rightarrow> u64 \<Rightarrow> u64 \<Rightarrow> u64) \<Rightarrow> usize \<Rightarrow> usize \<Rightarrow> u64 \<Rightarrow> u64 \<Rightarrow> u64 res" where
  "float_binary_behavior method sizeout sizein in1 in2 =
     (case float_format sizein of Some fmt \<Rightarrow> Ret (method fmt in1 in2) | None \<Rightarrow> Panic)"

definition float_unary_behavior ::
  "(usize \<Rightarrow> u64 \<Rightarrow> u64) \<Rightarrow> usize \<Rightarrow> usize \<Rightarrow> u64 \<Rightarrow> u64 res" where
  "float_unary_behavior method sizeout sizein in1 =
     (case float_format sizein of Some fmt \<Rightarrow> Ret (method fmt in1) | None \<Rightarrow> Panic)"

definition float_int2float :: "float_ops \<Rightarrow> usize \<Rightarrow> usize \<Rightarrow> u64 \<Rightarrow> u64 res" where
  "float_int2float fl sizeout sizein in1 =
     (case float_format sizeout of Some fmt \<Rightarrow> Ret (op_int2float fl fmt in1 sizein) | None \<Rightarrow> Panic)"

definition float_float2float :: "float_ops \<Rightarrow> usize \<Rightarrow> usize \<Rightarrow> u64 \<Rightarrow> u64 res" where
  "float_float2float fl sizeout sizein in1 =
     (case float_format sizeout of
        None \<Rightarrow> Panic
      | Some formatout \<Rightarrow>
          (case float_format sizein of
             None \<Rightarrow> Panic
           | Some formatin \<Rightarrow> Ret (op_float2_float fl formatin in1 formatout)))"

definition float_trunc :: "float_ops \<Rightarrow> usize \<Rightarrow> usize \<Rightarrow> u64 \<Rightarrow> u64 res" where
  "float_trunc fl sizeout sizein in1 =
     (case float_format sizein of Some fmt \<Rightarrow> Ret (op_trunc fl fmt in1 sizeout) | None \<Rightarrow> Panic)"

section \<open>The methods\<close>

text \<open>An \<open>expect\<close> of the source: the value, or a panic.\<close>

definition expect :: "'a option \<Rightarrow> 'a res" where
  "expect v = (case v of None \<Rightarrow> Panic | Some x \<Rightarrow> Ret x)"

text \<open>The method the macro \<open>impl_eval_only\<close> generates: the free function, expected to succeed.\<close>

definition impl_eval_only :: "behavior \<Rightarrow> usize \<Rightarrow> usize \<Rightarrow> u64 \<Rightarrow> u64 \<Rightarrow> u64 res" where
  "impl_eval_only b sizeout sizein in1 in2 =
     res_bind (evaluate_binary (behavior_opcode b) sizeout sizein in1 in2) expect"

definition copy_evaluate :: "usize \<Rightarrow> usize \<Rightarrow> u64 \<Rightarrow> u64 res" where
  "copy_evaluate sizeout sizein in1 = Ret in1"

definition copy_recover :: "usize \<Rightarrow> u64 \<Rightarrow> usize \<Rightarrow> u64 res" where
  "copy_recover sizeout out sizein = Ret out"

definition zext_evaluate :: "usize \<Rightarrow> usize \<Rightarrow> u64 \<Rightarrow> u64 res" where
  "zext_evaluate sizeout sizein in1 = Ret in1"

definition zext_recover :: "usize \<Rightarrow> u64 \<Rightarrow> usize \<Rightarrow> u64 res" where
  "zext_recover sizeout out sizein =
     (let m = calc_mask sizein in if m AND out \<noteq> out then Panic else Ret out)"

definition sext_evaluate :: "usize \<Rightarrow> usize \<Rightarrow> u64 \<Rightarrow> u64 res" where
  "sext_evaluate sizeout sizein in1 = Ret (sign_extend_size in1 sizein sizeout)"

definition sext_recover :: "usize \<Rightarrow> u64 \<Rightarrow> usize \<Rightarrow> u64 res" where
  "sext_recover sizeout out sizein =
     (let masklong = calc_mask sizeout;
          maskshort = calc_mask sizein
      in if out AND (maskshort XOR shr_u64 maskshort 1) = 0
         then (if out AND maskshort \<noteq> out then Panic else Ret (out AND maskshort))
         else if out AND (masklong XOR maskshort) \<noteq> (masklong XOR maskshort) then Panic
         else Ret (out AND maskshort))"

definition add_evaluate :: "usize \<Rightarrow> usize \<Rightarrow> u64 \<Rightarrow> u64 \<Rightarrow> u64 res" where
  "add_evaluate sizeout sizein in1 in2 = Ret ((in1 + in2) AND calc_mask sizeout)"

definition add_recover :: "usize \<Rightarrow> usize \<Rightarrow> u64 \<Rightarrow> usize \<Rightarrow> u64 \<Rightarrow> u64 res" where
  "add_recover slot sizeout out sizein other = Ret ((out - other) AND calc_mask sizeout)"

definition sub_evaluate :: "usize \<Rightarrow> usize \<Rightarrow> u64 \<Rightarrow> u64 \<Rightarrow> u64 res" where
  "sub_evaluate sizeout sizein in1 in2 = Ret ((in1 - in2) AND calc_mask sizeout)"

definition sub_recover :: "usize \<Rightarrow> usize \<Rightarrow> u64 \<Rightarrow> usize \<Rightarrow> u64 \<Rightarrow> u64 res" where
  "sub_recover slot sizeout out sizein other =
     (let res = (if slot = 0 then other + out else other - out) in Ret (res AND calc_mask sizeout))"

definition comp2_evaluate :: "usize \<Rightarrow> usize \<Rightarrow> u64 \<Rightarrow> u64 res" where
  "comp2_evaluate sizeout sizein in1 = Ret (uintb_negate (in1 - 1) sizein)"

definition comp2_recover :: "usize \<Rightarrow> u64 \<Rightarrow> usize \<Rightarrow> u64 res" where
  "comp2_recover sizeout out sizein = Ret (uintb_negate (out - 1) sizein)"

definition negate_evaluate :: "usize \<Rightarrow> usize \<Rightarrow> u64 \<Rightarrow> u64 res" where
  "negate_evaluate sizeout sizein in1 = Ret (uintb_negate in1 sizein)"

definition negate_recover :: "usize \<Rightarrow> u64 \<Rightarrow> usize \<Rightarrow> u64 res" where
  "negate_recover sizeout out sizein = Ret (uintb_negate out sizein)"

definition left_evaluate :: "usize \<Rightarrow> usize \<Rightarrow> u64 \<Rightarrow> u64 \<Rightarrow> u64 res" where
  "left_evaluate sizeout sizein in1 in2 =
     (if in2 \<ge> of_nat (sizeout * 8) then Ret 0 else Ret (shl_u64 in1 (unat in2) AND calc_mask sizeout))"

definition left_recover :: "usize \<Rightarrow> usize \<Rightarrow> u64 \<Rightarrow> usize \<Rightarrow> u64 \<Rightarrow> u64 res" where
  "left_recover slot sizeout out sizein other =
     (if slot \<noteq> 0 \<or> other \<ge> of_nat (sizeout * 8) then Panic
      else (let sa = unat other
            in if shl_u64 out (usize_sub (8 * sizeout) sa) AND calc_mask sizeout \<noteq> 0 then Panic
               else Ret (shr_u64 out sa)))"

definition right_evaluate :: "usize \<Rightarrow> usize \<Rightarrow> u64 \<Rightarrow> u64 \<Rightarrow> u64 res" where
  "right_evaluate sizeout sizein in1 in2 =
     (if in2 \<ge> of_nat (sizeout * 8) then Ret 0
      else Ret (shr_u64 (in1 AND calc_mask sizeout) (unat in2)))"

definition right_recover :: "usize \<Rightarrow> usize \<Rightarrow> u64 \<Rightarrow> usize \<Rightarrow> u64 \<Rightarrow> u64 res" where
  "right_recover slot sizeout out sizein other =
     (if slot \<noteq> 0 \<or> other \<ge> of_nat (sizeout * 8) then Panic
      else (let sa = unat other
            in if shr_u64 out (usize_sub (8 * sizein) sa) \<noteq> 0 then Panic
               else Ret (shl_u64 out sa)))"

definition sright_evaluate :: "usize \<Rightarrow> usize \<Rightarrow> u64 \<Rightarrow> u64 \<Rightarrow> u64 res" where
  "sright_evaluate sizeout sizein in1 in2 =
     (if in2 \<ge> of_nat (8 * sizeout)
      then (if signbit_negative in1 sizein then Ret (calc_mask sizeout) else Ret 0)
      else if signbit_negative in1 sizein
      then (let r = shr_u64 in1 (unat in2);
                m = calc_mask sizein;
                m' = shr_u64 m (unat in2) XOR m
            in Ret (r OR m'))
      else Ret (shr_u64 in1 (unat in2)))"

definition sright_recover :: "usize \<Rightarrow> usize \<Rightarrow> u64 \<Rightarrow> usize \<Rightarrow> u64 \<Rightarrow> u64 res" where
  "sright_recover slot sizeout out sizein other =
     (if slot \<noteq> 0 \<or> other \<ge> of_nat (sizeout * 8) then Panic
      else (let sa = unat other;
                testval = shr_u64 out (usize_sub (usize_sub (sizein * 8) sa) 1)
            in if sright_count (sa + 1) testval 0 \<noteq> sa + 1 then Panic
               else Ret (shl_u64 out sa)))"

definition div_evaluate :: "usize \<Rightarrow> usize \<Rightarrow> u64 \<Rightarrow> u64 \<Rightarrow> u64 res" where
  "div_evaluate sizeout sizein in1 in2 = (if in2 = 0 then Panic else Ret (in1 div in2))"

definition sdiv_evaluate :: "usize \<Rightarrow> usize \<Rightarrow> u64 \<Rightarrow> u64 \<Rightarrow> u64 res" where
  "sdiv_evaluate sizeout sizein in1 in2 =
     (if in2 = 0 then Panic
      else (let num = sign_extend_to_i64 in1 sizein;
                denom = sign_extend_to_i64 in2 sizein
            in res_map (\<lambda>sres. zero_extend sres sizeout) (div_i64 num denom)))"

definition rem_evaluate :: "usize \<Rightarrow> usize \<Rightarrow> u64 \<Rightarrow> u64 \<Rightarrow> u64 res" where
  "rem_evaluate sizeout sizein in1 in2 = (if in2 = 0 then Panic else Ret (in1 mod in2))"

definition srem_evaluate :: "usize \<Rightarrow> usize \<Rightarrow> u64 \<Rightarrow> u64 \<Rightarrow> u64 res" where
  "srem_evaluate sizeout sizein in1 in2 =
     (if in2 = 0 then Panic
      else (let val = sign_extend_to_i64 in1 sizein;
                modulus = sign_extend_to_i64 in2 sizein
            in res_map (\<lambda>sres. zero_extend sres sizeout) (rem_i64 val modulus)))"

definition bool_negate_evaluate :: "usize \<Rightarrow> usize \<Rightarrow> u64 \<Rightarrow> u64 res" where
  "bool_negate_evaluate sizeout sizein in1 = Ret (in1 XOR 1)"

definition piece_evaluate :: "usize \<Rightarrow> usize \<Rightarrow> u64 \<Rightarrow> u64 \<Rightarrow> u64 res" where
  "piece_evaluate sizeout sizein in1 in2 = Ret (shl_u64 in1 (usize_sub sizeout sizein * 8) OR in2)"

definition subpiece_evaluate :: "usize \<Rightarrow> usize \<Rightarrow> u64 \<Rightarrow> u64 \<Rightarrow> u64 res" where
  "subpiece_evaluate sizeout sizein in1 in2 =
     (if in2 \<ge> 8 then Ret 0 else Ret (shr_u64 in1 (unat (in2 * 8)) AND calc_mask sizeout))"

definition ptradd_evaluate :: "usize \<Rightarrow> usize \<Rightarrow> u64 \<Rightarrow> u64 \<Rightarrow> u64 \<Rightarrow> u64 res" where
  "ptradd_evaluate sizeout sizein in1 in2 in3 = Ret ((in1 + in2 * in3) AND calc_mask sizeout)"

definition popcount_evaluate :: "usize \<Rightarrow> usize \<Rightarrow> u64 \<Rightarrow> u64 res" where
  "popcount_evaluate sizeout sizein in1 = Ret (of_nat (count_ones in1))"

definition lzcount_evaluate :: "usize \<Rightarrow> usize \<Rightarrow> u64 \<Rightarrow> u64 res" where
  "lzcount_evaluate sizeout sizein in1 =
     Ret (as_u64 (count_leading_zeros in1 - int (8 * (8 - min sizein 8))))"

section \<open>Dispatch\<close>

text \<open>The last case of each is the body the trait gives, which panics.\<close>

definition behavior_evaluate_unary :: "float_ops \<Rightarrow> behavior \<Rightarrow> usize \<Rightarrow> usize \<Rightarrow> u64 \<Rightarrow> u64 res" where
  "behavior_evaluate_unary fl b = (case b of
    OpBehaviorCopy \<Rightarrow> copy_evaluate
  | OpBehaviorIntZext \<Rightarrow> zext_evaluate
  | OpBehaviorIntSext \<Rightarrow> sext_evaluate
  | OpBehaviorInt2Comp \<Rightarrow> comp2_evaluate
  | OpBehaviorIntNegate \<Rightarrow> negate_evaluate
  | OpBehaviorBoolNegate \<Rightarrow> bool_negate_evaluate
  | OpBehaviorFloatNan \<Rightarrow> float_unary_behavior (op_nan fl)
  | OpBehaviorFloatNeg \<Rightarrow> float_unary_behavior (op_neg fl)
  | OpBehaviorFloatAbs \<Rightarrow> float_unary_behavior (op_abs fl)
  | OpBehaviorFloatSqrt \<Rightarrow> float_unary_behavior (op_sqrt fl)
  | OpBehaviorFloatCeil \<Rightarrow> float_unary_behavior (op_ceil fl)
  | OpBehaviorFloatFloor \<Rightarrow> float_unary_behavior (op_floor fl)
  | OpBehaviorFloatRound \<Rightarrow> float_unary_behavior (op_round fl)
  | OpBehaviorFloatInt2Float \<Rightarrow> float_int2float fl
  | OpBehaviorFloatFloat2Float \<Rightarrow> float_float2float fl
  | OpBehaviorFloatTrunc \<Rightarrow> float_trunc fl
  | OpBehaviorPopcount \<Rightarrow> popcount_evaluate
  | OpBehaviorLzcount \<Rightarrow> lzcount_evaluate
  | _ \<Rightarrow> (\<lambda>sizeout sizein in1. Panic))"

definition behavior_evaluate_binary ::
  "float_ops \<Rightarrow> behavior \<Rightarrow> usize \<Rightarrow> usize \<Rightarrow> u64 \<Rightarrow> u64 \<Rightarrow> u64 res" where
  "behavior_evaluate_binary fl b =
    (if b \<in> {OpBehaviorEqual, OpBehaviorNotEqual, OpBehaviorIntSless, OpBehaviorIntSlessEqual,
       OpBehaviorIntLess, OpBehaviorIntLessEqual, OpBehaviorIntCarry, OpBehaviorIntScarry,
       OpBehaviorIntSborrow, OpBehaviorIntXor, OpBehaviorIntAnd, OpBehaviorIntOr,
       OpBehaviorIntMult, OpBehaviorBoolXor, OpBehaviorBoolAnd, OpBehaviorBoolOr,
       OpBehaviorPtrsub}
     then impl_eval_only b
     else case b of
    OpBehaviorIntAdd \<Rightarrow> add_evaluate
  | OpBehaviorIntSub \<Rightarrow> sub_evaluate
  | OpBehaviorIntLeft \<Rightarrow> left_evaluate
  | OpBehaviorIntRight \<Rightarrow> right_evaluate
  | OpBehaviorIntSright \<Rightarrow> sright_evaluate
  | OpBehaviorIntDiv \<Rightarrow> div_evaluate
  | OpBehaviorIntSdiv \<Rightarrow> sdiv_evaluate
  | OpBehaviorIntRem \<Rightarrow> rem_evaluate
  | OpBehaviorIntSrem \<Rightarrow> srem_evaluate
  | OpBehaviorFloatEqual \<Rightarrow> float_binary_behavior (op_equal fl)
  | OpBehaviorFloatNotEqual \<Rightarrow> float_binary_behavior (op_not_equal fl)
  | OpBehaviorFloatLess \<Rightarrow> float_binary_behavior (op_less fl)
  | OpBehaviorFloatLessEqual \<Rightarrow> float_binary_behavior (op_less_equal fl)
  | OpBehaviorFloatAdd \<Rightarrow> float_binary_behavior (op_add fl)
  | OpBehaviorFloatDiv \<Rightarrow> float_binary_behavior (op_div fl)
  | OpBehaviorFloatMult \<Rightarrow> float_binary_behavior (op_mult fl)
  | OpBehaviorFloatSub \<Rightarrow> float_binary_behavior (op_sub fl)
  | OpBehaviorPiece \<Rightarrow> piece_evaluate
  | OpBehaviorSubpiece \<Rightarrow> subpiece_evaluate
  | _ \<Rightarrow> (\<lambda>sizeout sizein in1 in2. Panic))"

definition behavior_evaluate_ternary :: "behavior \<Rightarrow> usize \<Rightarrow> usize \<Rightarrow> u64 \<Rightarrow> u64 \<Rightarrow> u64 \<Rightarrow> u64 res" where
  "behavior_evaluate_ternary b = (case b of
    OpBehaviorPtradd \<Rightarrow> ptradd_evaluate
  | _ \<Rightarrow> (\<lambda>sizeout sizein in1 in2 in3. Panic))"

definition behavior_recover_unary :: "behavior \<Rightarrow> usize \<Rightarrow> u64 \<Rightarrow> usize \<Rightarrow> u64 res" where
  "behavior_recover_unary b = (case b of
    OpBehaviorCopy \<Rightarrow> copy_recover
  | OpBehaviorIntZext \<Rightarrow> zext_recover
  | OpBehaviorIntSext \<Rightarrow> sext_recover
  | OpBehaviorInt2Comp \<Rightarrow> comp2_recover
  | OpBehaviorIntNegate \<Rightarrow> negate_recover
  | _ \<Rightarrow> (\<lambda>sizeout out sizein. Panic))"

definition behavior_recover_binary :: "behavior \<Rightarrow> usize \<Rightarrow> usize \<Rightarrow> u64 \<Rightarrow> usize \<Rightarrow> u64 \<Rightarrow> u64 res" where
  "behavior_recover_binary b = (case b of
    OpBehaviorIntAdd \<Rightarrow> add_recover
  | OpBehaviorIntSub \<Rightarrow> sub_recover
  | OpBehaviorIntLeft \<Rightarrow> left_recover
  | OpBehaviorIntRight \<Rightarrow> right_recover
  | OpBehaviorIntSright \<Rightarrow> sright_recover
  | _ \<Rightarrow> (\<lambda>slot sizeout out sizein other. Panic))"

definition evaluate_unary_no_exc :: "opcode \<Rightarrow> usize \<Rightarrow> usize \<Rightarrow> u64 \<Rightarrow> u64 option" where
  "evaluate_unary_no_exc opc sizeout sizein in1 = evaluate_unary opc sizeout sizein in1"

definition evaluate_binary_no_exc :: "opcode \<Rightarrow> usize \<Rightarrow> usize \<Rightarrow> u64 \<Rightarrow> u64 \<Rightarrow> u64 option res" where
  "evaluate_binary_no_exc opc sizeout sizein in1 in2 = evaluate_binary opc sizeout sizein in1 in2"

section \<open>The table\<close>

type_synonym behavior_table = "behavior option list"

definition opcode_index :: "opcode \<Rightarrow> usize" where
  "opcode_index opc = nat (opcode_i32 opc)"

text \<open>An index out of range of the table panics.\<close>

definition factory_register :: "behavior \<Rightarrow> behavior_table \<Rightarrow> behavior_table res" where
  "factory_register b table =
     (let i = opcode_index (behavior_opcode b)
      in if i < length table then Ret (table[i := Some b]) else Panic)"

definition special_behavior :: "opcode \<Rightarrow> behavior" where
  "special_behavior opc = SpecialBehavior (meta_new_special opc False True)"

definition registered_behaviors :: "behavior list" where
  "registered_behaviors =
    [special_behavior CPUI_LOAD, special_behavior CPUI_STORE, special_behavior CPUI_BRANCH,
     special_behavior CPUI_CBRANCH, special_behavior CPUI_BRANCHIND,
     special_behavior CPUI_CALL, special_behavior CPUI_CALLIND,
     special_behavior CPUI_CALLOTHER, special_behavior CPUI_RETURN,
     special_behavior CPUI_MULTIEQUAL, special_behavior CPUI_INDIRECT, OpBehaviorCopy,
     OpBehaviorPiece, OpBehaviorSubpiece, OpBehaviorEqual, OpBehaviorNotEqual,
     OpBehaviorIntSless, OpBehaviorIntSlessEqual, OpBehaviorIntLess, OpBehaviorIntLessEqual,
     OpBehaviorIntZext, OpBehaviorIntSext, OpBehaviorIntAdd, OpBehaviorIntSub,
     OpBehaviorIntCarry, OpBehaviorIntScarry, OpBehaviorIntSborrow, OpBehaviorInt2Comp,
     OpBehaviorIntNegate, OpBehaviorIntXor, OpBehaviorIntAnd, OpBehaviorIntOr,
     OpBehaviorIntLeft, OpBehaviorIntRight, OpBehaviorIntSright, OpBehaviorIntMult,
     OpBehaviorIntDiv, OpBehaviorIntSdiv, OpBehaviorIntRem, OpBehaviorIntSrem,
     OpBehaviorBoolNegate, OpBehaviorBoolXor, OpBehaviorBoolAnd, OpBehaviorBoolOr,
     special_behavior CPUI_CAST, PtrBehavior (meta_new CPUI_PTRADD False),
     PtrBehavior (meta_new CPUI_PTRSUB False), OpBehaviorFloatEqual, OpBehaviorFloatNotEqual,
     OpBehaviorFloatLess, OpBehaviorFloatLessEqual, OpBehaviorFloatNan, OpBehaviorFloatAdd,
     OpBehaviorFloatDiv, OpBehaviorFloatMult, OpBehaviorFloatSub, OpBehaviorFloatNeg,
     OpBehaviorFloatAbs, OpBehaviorFloatSqrt, OpBehaviorFloatInt2Float,
     OpBehaviorFloatFloat2Float, OpBehaviorFloatTrunc, OpBehaviorFloatCeil,
     OpBehaviorFloatFloor, OpBehaviorFloatRound, special_behavior CPUI_SEGMENTOP,
     special_behavior CPUI_CPOOLREF, special_behavior CPUI_NEW,
     PtrBehavior (meta_new CPUI_INSERT False), PtrBehavior (meta_new CPUI_EXTRACT False),
     OpBehaviorPopcount, OpBehaviorLzcount]"

fun factory_register_all :: "behavior list \<Rightarrow> behavior_table \<Rightarrow> behavior_table res" where
  "factory_register_all [] table = Ret table"
| "factory_register_all (b # bs) table = res_bind (factory_register b table) (factory_register_all bs)"

definition factory_new :: "behavior_table res" where
  "factory_new = factory_register_all registered_behaviors (replicate (opcode_index CPUI_MAX) None)"

definition factory_len :: "behavior_table \<Rightarrow> usize" where
  "factory_len table = length (filter (\<lambda>b. b \<noteq> None) table)"

definition factory_is_empty :: "behavior_table \<Rightarrow> bool" where
  "factory_is_empty table \<longleftrightarrow> (\<forall>b \<in> set table. b = None)"

definition factory_get :: "behavior_table \<Rightarrow> opcode \<Rightarrow> behavior option" where
  "factory_get table opc =
     (let i = opcode_index opc in if i < length table then table ! i else None)"

end
