(* ===== verification/Op_Trait_Laws.thy ===== *)
theory Op_Trait_Laws
  imports Op_Trait
begin

text \<open>
  Laws of the behaviour objects and of their table (src/src/opbehavior.rs).
\<close>

unbundle bit_operations_syntax

section \<open>Definitions of the statements\<close>

definition is_float_opcode :: "opcode \<Rightarrow> bool" where
  "is_float_opcode opc \<longleftrightarrow> 41 \<le> opcode_i32 opc \<and> opcode_i32 opc \<le> 59"

text \<open>The unary objects whose recovery inverts evaluation, and the sizes it does so for.\<close>

definition invertible :: "behavior \<Rightarrow> usize \<Rightarrow> usize \<Rightarrow> bool" where
  "invertible b si so \<longleftrightarrow> 0 < si \<and> si \<le> so \<and> so \<le> 8 \<and>
     (b \<in> {OpBehaviorIntZext, OpBehaviorIntSext}
      \<or> b \<in> {OpBehaviorCopy, OpBehaviorInt2Comp, OpBehaviorIntNegate} \<and> si = so)"

section \<open>The table\<close>

text \<open>Registration keeps the other entries: the table is a map updated at one code.\<close>

lemma register_all_length: "factory_register_all bs t = Ret t' \<Longrightarrow> length t' = length t"
  by (induction bs arbitrary: t) (auto simp: factory_register_def Let_def split: if_splits)

lemma register_all_total:
  "(\<forall>b \<in> set bs. opcode_index (behavior_opcode b) < length t) \<Longrightarrow> \<exists>t'. factory_register_all bs t = Ret t'"
  by (induction bs arbitrary: t) (auto simp: factory_register_def Let_def)

lemma register_all_get:
  assumes "distinct (map (\<lambda>b. opcode_index (behavior_opcode b)) bs)" "factory_register_all bs t = Ret t'"
  shows "b \<in> set bs \<Longrightarrow> t' ! opcode_index (behavior_opcode b) = Some b"
    and "i \<notin> (\<lambda>b. opcode_index (behavior_opcode b)) ` set bs \<Longrightarrow> t' ! i = t ! i"
proof -
  have "(\<forall>b \<in> set bs. t' ! opcode_index (behavior_opcode b) = Some b)
      \<and> (\<forall>i. i \<notin> (\<lambda>b. opcode_index (behavior_opcode b)) ` set bs \<longrightarrow> t' ! i = t ! i)"
    using assms
  proof (induction bs arbitrary: t)
    case (Cons b bs)
    let ?i = "opcode_index (behavior_opcode b)"
    from Cons.prems(2) have i: "?i < length t" "factory_register_all bs (t[?i := Some b]) = Ret t'"
      by (auto simp: factory_register_def Let_def split: if_splits)
    have "?i \<notin> (\<lambda>b. opcode_index (behavior_opcode b)) ` set bs" using Cons.prems(1) by auto
    then show ?case using Cons.IH [OF _ i(2)] Cons.prems(1) i(1) by auto
  qed simp
  then show "b \<in> set bs \<Longrightarrow> t' ! opcode_index (behavior_opcode b) = Some b"
    "i \<notin> (\<lambda>b. opcode_index (behavior_opcode b)) ` set bs \<Longrightarrow> t' ! i = t ! i" by blast+
qed

lemma registered_codes:
  "map behavior_opcode registered_behaviors =
    [CPUI_LOAD, CPUI_STORE, CPUI_BRANCH, CPUI_CBRANCH, CPUI_BRANCHIND, CPUI_CALL, CPUI_CALLIND,
     CPUI_CALLOTHER, CPUI_RETURN, CPUI_MULTIEQUAL, CPUI_INDIRECT, CPUI_COPY, CPUI_PIECE,
     CPUI_SUBPIECE, CPUI_INT_EQUAL, CPUI_INT_NOTEQUAL, CPUI_INT_SLESS, CPUI_INT_SLESSEQUAL,
     CPUI_INT_LESS, CPUI_INT_LESSEQUAL, CPUI_INT_ZEXT, CPUI_INT_SEXT, CPUI_INT_ADD,
     CPUI_INT_SUB, CPUI_INT_CARRY, CPUI_INT_SCARRY, CPUI_INT_SBORROW, CPUI_INT_2COMP,
     CPUI_INT_NEGATE, CPUI_INT_XOR, CPUI_INT_AND, CPUI_INT_OR, CPUI_INT_LEFT, CPUI_INT_RIGHT,
     CPUI_INT_SRIGHT, CPUI_INT_MULT, CPUI_INT_DIV, CPUI_INT_SDIV, CPUI_INT_REM, CPUI_INT_SREM,
     CPUI_BOOL_NEGATE, CPUI_BOOL_XOR, CPUI_BOOL_AND, CPUI_BOOL_OR, CPUI_CAST, CPUI_PTRADD,
     CPUI_PTRSUB, CPUI_FLOAT_EQUAL, CPUI_FLOAT_NOTEQUAL, CPUI_FLOAT_LESS, CPUI_FLOAT_LESSEQUAL,
     CPUI_FLOAT_NAN, CPUI_FLOAT_ADD, CPUI_FLOAT_DIV, CPUI_FLOAT_MULT, CPUI_FLOAT_SUB,
     CPUI_FLOAT_NEG, CPUI_FLOAT_ABS, CPUI_FLOAT_SQRT, CPUI_FLOAT_INT2FLOAT,
     CPUI_FLOAT_FLOAT2FLOAT, CPUI_FLOAT_TRUNC, CPUI_FLOAT_CEIL, CPUI_FLOAT_FLOOR,
     CPUI_FLOAT_ROUND, CPUI_SEGMENTOP, CPUI_CPOOLREF, CPUI_NEW, CPUI_INSERT, CPUI_EXTRACT,
     CPUI_POPCOUNT, CPUI_LZCOUNT]"
  by code_simp

lemma registered_every_code: "opc \<in> behavior_opcode ` set registered_behaviors \<longleftrightarrow> opc \<noteq> CPUI_MAX"
  unfolding set_map [symmetric] registered_codes by (cases opc) simp_all

lemma registered_indices:
  "distinct (map (\<lambda>b. opcode_index (behavior_opcode b)) registered_behaviors)"
  "\<forall>b \<in> set registered_behaviors. opcode_index (behavior_opcode b) < opcode_index CPUI_MAX"
  "length registered_behaviors = 72"
  by code_simp+


lemma res_map_eq_Ret: "res_map f m = Ret y \<longleftrightarrow> (\<exists>x. m = Ret x \<and> y = f x)"
  by (cases m) auto

lemma factory_new_entries:
  assumes "factory_new = Ret table"
  shows "length table = opcode_index CPUI_MAX"
    and "b \<in> set registered_behaviors \<Longrightarrow> factory_get table (behavior_opcode b) = Some b"
proof -
  note g = assms [unfolded factory_new_def]
  show l: "length table = opcode_index CPUI_MAX" using register_all_length [OF g] by simp
  show "b \<in> set registered_behaviors \<Longrightarrow> factory_get table (behavior_opcode b) = Some b"
    using register_all_get(1) [OF registered_indices(1) g, of b] registered_indices(2) l
    by (simp add: factory_get_def Let_def)
qed

lemma factory_new_get:
  assumes "factory_new = Ret table"
  shows "factory_get table opc = Some b \<longleftrightarrow> b \<in> set registered_behaviors \<and> behavior_opcode b = opc"
proof (cases "opc = CPUI_MAX")
  case True
  have "factory_get table opc = None" using factory_new_entries(1) [OF assms] True by (simp add: factory_get_def Let_def)
  moreover have "behavior_opcode b \<noteq> opc" if "b \<in> set registered_behaviors"
    using registered_every_code [of CPUI_MAX] imageI [OF that, of behavior_opcode] True by auto
  ultimately show ?thesis by auto
next
  case False
  then obtain c where c: "c \<in> set registered_behaviors" "behavior_opcode c = opc"
    using registered_every_code [of opc] by blast
  have "factory_get table opc = Some c" using factory_new_entries(2) [OF assms c(1)] c(2) by simp
  moreover have "b = c" if "b \<in> set registered_behaviors" "behavior_opcode b = opc"
    using registered_indices(1) that c unfolding distinct_map by (metis inj_onD)
  ultimately show ?thesis using c by auto
qed

lemma factory_new_len: "res_map factory_len factory_new = Ret 72"
  by code_simp

text \<open>
  Property C22. Building the table of behaviours does not panic, and the table is complete: it has one
  entry per operation code, 72 in all, the entry at a code is an object whose metadata names
  that code, and only the sentinel \<open>CPUI_MAX\<close> has none.
\<close>

theorem factory_complete:
  "\<exists>table. factory_new = Ret table \<and> factory_len table = 72 \<and> \<not> factory_is_empty table
    \<and> (\<forall>opc. map_option behavior_opcode (factory_get table opc) = (if opc = CPUI_MAX then None else Some opc))"
proof -
  obtain table where t: "factory_new = Ret table" "factory_len table = 72"
    using factory_new_len unfolding res_map_eq_Ret by auto
  have "filter (\<lambda>b. b \<noteq> None) table \<noteq> []" using t(2) unfolding factory_len_def by force
  then have "\<not> factory_is_empty table" unfolding factory_is_empty_def filter_empty_conv by blast
  moreover have "map_option behavior_opcode (factory_get table opc) = (if opc = CPUI_MAX then None else Some opc)" for opc
    using factory_new_get [OF t(1), of opc] registered_every_code [of opc]
    by (cases "factory_get table opc"; cases "opc = CPUI_MAX") (force simp: image_iff)+
  ultimately show ?thesis using t by blast
qed


section \<open>Evaluation\<close>

lemma le_mask_and: "x \<le> calc_mask si \<Longrightarrow> si \<le> so \<Longrightarrow> x AND calc_mask so = x"
  using calc_mask_mono [of si so] by (auto intro: and_calc_mask_self order_trans)

lemma shr_le: "shr_u64 x k \<le> x"
  by (simp add: shr_u64_def word_le_def uint_drop_bit_u64 div_pow2_le)

lemma or_le_calc_mask: "x \<le> calc_mask sz \<Longrightarrow> y \<le> calc_mask sz \<Longrightarrow> x OR y \<le> calc_mask sz"
  using and_calc_mask_self [of x sz] and_calc_mask_self [of y sz] and_calc_mask_le [of "x OR y" sz]
  by (simp add: bit.conj_disj_distrib2)

lemma xor_le_calc_mask: "x \<le> calc_mask sz \<Longrightarrow> y \<le> calc_mask sz \<Longrightarrow> x XOR y \<le> calc_mask sz"
  using and_calc_mask_self [of x sz] and_calc_mask_self [of y sz] and_calc_mask_le [of "x XOR y" sz]
  by (metis bit.conj_xor_distrib2)

lemma evaluate_shift_objects:
  assumes "0 < si" "si \<le> so" "so \<le> 8" "a \<le> calc_mask si"
  shows "left_evaluate so si a c = res_bind (evaluate_binary CPUI_INT_LEFT so si a c) expect"
    and "right_evaluate so si a c = res_bind (evaluate_binary CPUI_INT_RIGHT so si a c) expect"
    and "sright_evaluate so si a c = res_bind (evaluate_binary CPUI_INT_SRIGHT so si a c) expect"
proof -
  show "left_evaluate so si a c = res_bind (evaluate_binary CPUI_INT_LEFT so si a c) expect"
    by (simp add: left_evaluate_def evaluate_binary_def expect_def)
  have "shr_u64 (a AND calc_mask so) k \<le> calc_mask so" for k using shr_le and_calc_mask_le by (rule order_trans)
  then show "right_evaluate so si a c = res_bind (evaluate_binary CPUI_INT_RIGHT so si a c) expect"
    by (simp add: right_evaluate_def evaluate_binary_def expect_def and_calc_mask_self)
  have m: "calc_mask si \<le> calc_mask so" using calc_mask_mono [OF assms(2)] .
  have s: "shr_u64 a k \<le> calc_mask so" "shr_u64 (calc_mask si) k \<le> calc_mask so" for k
    using shr_le assms(4) m by (meson order_trans)+
  have "sright_arm so si a c \<le> calc_mask so"
    unfolding sright_arm_def Let_def using m s by (auto intro!: or_le_calc_mask xor_le_calc_mask)
  then have "sright_arm so si a c AND calc_mask so = sright_arm so si a c" by (rule and_calc_mask_self)
  then show "sright_evaluate so si a c = res_bind (evaluate_binary CPUI_INT_SRIGHT so si a c) expect"
    by (simp add: evaluate_binary_def expect_def) (simp add: sright_evaluate_def sright_arm_def Let_def)
qed

lemma evaluate_division_objects:
  assumes "0 < si" "si \<le> so" "so \<le> 8" "a \<le> calc_mask si" "c \<le> calc_mask si"
  shows "div_evaluate so si a c = res_bind (evaluate_binary CPUI_INT_DIV so si a c) expect"
    and "rem_evaluate so si a c = res_bind (evaluate_binary CPUI_INT_REM so si a c) expect"
    and "sdiv_evaluate so si a c = res_bind (evaluate_binary CPUI_INT_SDIV so si a c) expect"
    and "srem_evaluate so si a c = res_bind (evaluate_binary CPUI_INT_SREM so si a c) expect"
proof -
  have sz: "si \<le> 8" using assms by simp
  have "a div c \<le> a" "a mod c \<le> a" by (simp_all add: word_le_nat_alt unat_div unat_mod)
  then have "a div c AND calc_mask so = a div c" "a mod c AND calc_mask so = a mod c"
    using assms(4) by (auto intro!: le_mask_and [OF _ assms(2)] intro: order_trans)
  then show "div_evaluate so si a c = res_bind (evaluate_binary CPUI_INT_DIV so si a c) expect"
    "rem_evaluate so si a c = res_bind (evaluate_binary CPUI_INT_REM so si a c) expect"
    by (simp_all add: div_evaluate_def rem_evaluate_def evaluate_binary_def expect_def)
  note o = sdiv_operands_eq [OF assms(1) sz assms(4,5)]
  note e = sign_extend_to_i64_eq
  show "sdiv_evaluate so si a c = res_bind (evaluate_binary CPUI_INT_SDIV so si a c) expect"
    "srem_evaluate so si a c = res_bind (evaluate_binary CPUI_INT_SREM so si a c) expect"
    using assms sz by (simp_all add: sdiv_evaluate_def srem_evaluate_def evaluate_binary_def o e expect_def zero_extend_def div_i64_def rem_i64_def Let_def)
qed


lemma evaluate_piece_objects:
  assumes "0 < si" "si \<le> so" "so \<le> 8" "a \<le> calc_mask si" "c \<le> calc_mask (so - si)"
  shows "piece_evaluate so si a c = res_bind (evaluate_binary CPUI_PIECE so si a c) expect"
proof -
  let ?k = "(so - si) * 8"
  have k: "usize_sub so si * 8 = ?k" "?k < 64" "nbits so = nbits si + ?k" "nbits so \<le> 64"
    using assms by (auto simp: usize_sub_def nbits_def)
  have lt: "uint a < 2 ^ nbits si" using assms(4) by (simp add: le_calc_mask_iff)
  then have "uint a * 2 ^ ?k < 2 ^ nbits so" by (simp add: k(3) power_add)
  moreover have "(2 :: int) ^ nbits so \<le> 2 ^ 64" using k(4) by (rule power_increasing) simp
  ultimately have "uint (shl_u64 a ?k) < 2 ^ nbits so"
    using k(2) by (simp add: shl_u64_def uint_push_bit_u64 mod_pos_pos_trivial)
  then have "shl_u64 a ?k \<le> calc_mask so" by (simp add: le_calc_mask_iff)
  moreover have "c \<le> calc_mask so" using assms(5) calc_mask_mono [of "so - si" so] by (auto intro: order_trans)
  ultimately have "shl_u64 a ?k OR c \<le> calc_mask so" by (rule or_le_calc_mask)
  then show ?thesis by (simp add: piece_evaluate_def evaluate_binary_def expect_def k(1) and_calc_mask_self)
qed

lemma evaluate_plain_objects:
  "add_evaluate so si a c = res_bind (evaluate_binary CPUI_INT_ADD so si a c) expect"
  "sub_evaluate so si a c = res_bind (evaluate_binary CPUI_INT_SUB so si a c) expect"
  "subpiece_evaluate so si a c = res_bind (evaluate_binary CPUI_SUBPIECE so si a c) expect"
proof -
  show "add_evaluate so si a c = res_bind (evaluate_binary CPUI_INT_ADD so si a c) expect"
    "sub_evaluate so si a c = res_bind (evaluate_binary CPUI_INT_SUB so si a c) expect"
    by (simp_all add: add_evaluate_def sub_evaluate_def evaluate_binary_def expect_def)
  have "unat (c * 8) = unat c * 8" if "\<not> 8 \<le> c"
  proof -
    have "unat c < 8" using that by (simp add: word_le_nat_alt)
    then show ?thesis by (simp add: unat_word_ariths)
  qed
  then show "subpiece_evaluate so si a c = res_bind (evaluate_binary CPUI_SUBPIECE so si a c) expect"
    by (simp add: subpiece_evaluate_def evaluate_binary_def expect_def)
qed

lemma one_bits_le: "one_bits n \<le> bit_len n"
proof (induction n rule: bit_len.induct)
  case (1 n)
  then show ?case by (cases "n = 0") (auto simp: one_bits.simps [of n] one_bits.simps [of 0] bit_len.simps [of n])
qed

lemma small_and_calc_mask: "0 < so \<Longrightarrow> 0 \<le> i \<Longrightarrow> i \<le> 64 \<Longrightarrow> as_u64 i AND calc_mask so = as_u64 i"
proof (rule and_calc_mask_self)
  assume a: "0 < so" "0 \<le> i" "i \<le> 64"
  have "(2 :: int) ^ 8 \<le> 2 ^ nbits so" by (rule power_increasing) (use a(1) in \<open>auto simp: nbits_def\<close>)
  then show "as_u64 i \<le> calc_mask so"
    using a by (simp add: le_calc_mask_iff as_u64_def uint_word_of_int_eq take_bit_int_eq_self)
qed

lemma evaluate_unary_objects:
  assumes "0 < si" "si \<le> so" "so \<le> 8" "a \<le> calc_mask si"
  shows "copy_evaluate so si a = expect (evaluate_unary CPUI_COPY so si a)"
    and "zext_evaluate so si a = expect (evaluate_unary CPUI_INT_ZEXT so si a)"
    and "sext_evaluate so si a = expect (evaluate_unary CPUI_INT_SEXT so si a)"
    and "comp2_evaluate so si a = expect (evaluate_unary CPUI_INT_2COMP so si a)"
    and "negate_evaluate so si a = expect (evaluate_unary CPUI_INT_NEGATE so si a)"
    and "bool_negate_evaluate so si a = expect (evaluate_unary CPUI_BOOL_NEGATE so si a)"
    and "popcount_evaluate so si a = expect (evaluate_unary CPUI_POPCOUNT so si a)"
    and "lzcount_evaluate so si a = expect (evaluate_unary CPUI_LZCOUNT so si a)"
proof -
  have s: "a AND calc_mask so = a" using assms(4,2) by (rule le_mask_and)
  then show "copy_evaluate so si a = expect (evaluate_unary CPUI_COPY so si a)"
    "zext_evaluate so si a = expect (evaluate_unary CPUI_INT_ZEXT so si a)"
    by (simp_all add: copy_evaluate_def zext_evaluate_def evaluate_unary_def expect_def)
  have "uintb_negate x si AND calc_mask so = uintb_negate x si" for x
    by (rule le_mask_and [OF _ assms(2)]) (simp add: uintb_negate_def)
  then show "comp2_evaluate so si a = expect (evaluate_unary CPUI_INT_2COMP so si a)"
    "negate_evaluate so si a = expect (evaluate_unary CPUI_INT_NEGATE so si a)"
    by (simp_all add: comp2_evaluate_def negate_evaluate_def evaluate_unary_def expect_def)
  have one: "1 \<le> calc_mask si" using assms(1) by (simp add: le_calc_mask_iff nbits_def one_less_power)
  have "(a XOR 1) AND calc_mask so = a XOR 1"
    by (rule le_mask_and [OF xor_le_calc_mask [OF assms(4) one] assms(2)])
  then show "bool_negate_evaluate so si a = expect (evaluate_unary CPUI_BOOL_NEGATE so si a)"
    by (simp add: bool_negate_evaluate_def evaluate_unary_def expect_def)
  show "sext_evaluate so si a = expect (evaluate_unary CPUI_INT_SEXT so si a)"
    using assms(2,3) by (simp add: sext_evaluate_def evaluate_unary_def expect_def sign_extend_size_def Let_def min_def)
  show "popcount_evaluate so si a = expect (evaluate_unary CPUI_POPCOUNT so si a)"
    using small_and_calc_mask [of so "int (count_ones a)"] assms(1,2) bit_len_u64 [of a] one_bits_le [of "unat a"]
    by (simp add: popcount_evaluate_def evaluate_unary_def expect_def as_u64_def count_ones_def)
  have "unat a < 2 ^ nbits si" using assms(4) unfolding le_calc_mask_iff uint_nat of_nat_less_iff [symmetric, where ?'a = int] by simp
  then have "bit_len (unat a) \<le> 8 * si" using assms by (simp add: bit_len_le nbits_def)
  then have "0 \<le> count_leading_zeros a - int (8 * (8 - min si 8))" "count_leading_zeros a - int (8 * (8 - min si 8)) \<le> 64"
    using assms bit_len_u64 [of a] by (auto simp: count_leading_zeros_def leading_zeros_def min_def)
  then show "lzcount_evaluate so si a = expect (evaluate_unary CPUI_LZCOUNT so si a)"
    using small_and_calc_mask [of so] assms(1,2) by (simp add: lzcount_evaluate_def evaluate_unary_def expect_def)
qed


lemmas behavior_codes = behavior_opcode_def behavior_meta_of_def meta_new_def meta_new_special_def special_behavior_def

lemma registered_cases:
  assumes "b \<in> set registered_behaviors"
  shows "b \<noteq> OpBehaviorPtradd" "b \<noteq> OpBehaviorPtrsub"
    "b = SpecialBehavior m \<Longrightarrow> bm_opcode m \<in> {CPUI_LOAD, CPUI_STORE, CPUI_BRANCH, CPUI_CBRANCH, CPUI_BRANCHIND, CPUI_CALL,
       CPUI_CALLIND, CPUI_CALLOTHER, CPUI_RETURN, CPUI_MULTIEQUAL, CPUI_INDIRECT, CPUI_CAST, CPUI_SEGMENTOP, CPUI_CPOOLREF, CPUI_NEW}"
    "b = PtrBehavior m \<Longrightarrow> bm_opcode m \<in> {CPUI_PTRADD, CPUI_PTRSUB, CPUI_INSERT, CPUI_EXTRACT}"
  using assms by (auto simp: registered_behaviors_def special_behavior_def meta_new_def meta_new_special_def)


lemma expect_simps [simp]: "expect None = Panic" "expect (Some v) = Ret v"
  by (simp_all add: expect_def)

lemma free_none:
  "opc \<in> {CPUI_LOAD, CPUI_STORE, CPUI_BRANCH, CPUI_CBRANCH, CPUI_BRANCHIND, CPUI_CALL, CPUI_CALLIND,
      CPUI_CALLOTHER, CPUI_RETURN, CPUI_MULTIEQUAL, CPUI_INDIRECT, CPUI_CAST, CPUI_SEGMENTOP, CPUI_CPOOLREF,
      CPUI_NEW, CPUI_INSERT, CPUI_EXTRACT} \<Longrightarrow>
    evaluate_binary opc so si a c = Ret None \<and> evaluate_unary opc so si a = None"
  by (elim insertE emptyE) (simp_all add: evaluate_binary_def evaluate_unary_def)

lemma unary_free_none:
  "opc \<in> {CPUI_COPY, CPUI_INT_ZEXT, CPUI_INT_SEXT, CPUI_INT_2COMP, CPUI_INT_NEGATE, CPUI_BOOL_NEGATE,
      CPUI_POPCOUNT, CPUI_LZCOUNT} \<Longrightarrow> evaluate_binary opc so si a c = Ret None"
  by (elim insertE emptyE) (simp_all add: evaluate_binary_def)

lemma behavior_binary_free:
  assumes "b \<in> set registered_behaviors" "\<not> is_float_opcode (behavior_opcode b)"
    "behavior_opcode b \<notin> {CPUI_PTRADD, CPUI_PTRSUB}"
    and sz: "0 < si" "si \<le> so" "so \<le> 8" "a \<le> calc_mask si" "c \<le> calc_mask si"
    and "behavior_opcode b = CPUI_PIECE \<longrightarrow> c \<le> calc_mask (so - si)"
  shows "behavior_evaluate_binary fl b so si a c = res_bind (evaluate_binary (behavior_opcode b) so si a c) expect"
proof -
  note objects = evaluate_plain_objects evaluate_shift_objects [OF sz(1-4)] evaluate_division_objects [OF sz]
    evaluate_piece_objects [OF sz(1-4)]
  show ?thesis
    using assms(2,3,9) registered_cases [OF assms(1)]
    by (cases b) (simp_all add: behavior_evaluate_binary_def impl_eval_only_def behavior_codes is_float_opcode_def
      opcode_i32_def objects unary_free_none, auto simp: free_none)
qed


lemma behavior_unary_free:
  assumes "b \<in> set registered_behaviors" "\<not> is_float_opcode (behavior_opcode b)"
    "behavior_opcode b \<notin> {CPUI_PTRADD, CPUI_PTRSUB}"
    and sz: "0 < si" "si \<le> so" "so \<le> 8" "a \<le> calc_mask si"
  shows "behavior_evaluate_unary fl b so si a = expect (evaluate_unary (behavior_opcode b) so si a)"
proof -
  note objects = evaluate_unary_objects [OF sz]
  have none: "evaluate_unary opc so si a = None" if "behavior_opcode b = opc" "\<not> behavior_is_unary b" for opc
    using assms(2) that registered_cases(3,4) [OF assms(1)]
    by (cases b) (auto simp: behavior_is_unary_def behavior_codes evaluate_unary_def is_float_opcode_def opcode_i32_def)
  show ?thesis
  proof (cases "behavior_is_unary b")
    case True
    then show ?thesis using assms(2,3) registered_cases [OF assms(1)]
      by (cases b) (simp_all add: behavior_evaluate_unary_def behavior_is_unary_def behavior_codes is_float_opcode_def
        opcode_i32_def objects, auto simp: free_none)
  next
    case False
    then have "behavior_evaluate_unary fl b so si a = Panic"
      by (cases b) (simp_all add: behavior_evaluate_unary_def behavior_is_unary_def behavior_codes)
    then show ?thesis using none [OF refl False] by simp
  qed
qed

text \<open>
  Property C13. The behaviour objects refine the free functions: looked up in the table, the object of a
  code that is neither floating point nor one of the pointer placeholders evaluates operands
  of their size exactly as the free function does, and panics exactly where that returns
  \<open>None\<close> or panics.
\<close>

theorem behavior_refines_free:
  assumes "factory_new = Ret table" "factory_get table opc = Some b"
    and "\<not> is_float_opcode opc" "opc \<notin> {CPUI_PTRADD, CPUI_PTRSUB}"
    and "0 < si" "si \<le> so" "so \<le> 8" "a \<le> calc_mask si" "c \<le> calc_mask si"
    and "opc = CPUI_PIECE \<longrightarrow> c \<le> calc_mask (so - si)"
  shows "behavior_evaluate_binary fl b so si a c = res_bind (evaluate_binary opc so si a c) expect
    \<and> behavior_evaluate_unary fl b so si a = expect (evaluate_unary opc so si a)"
proof -
  have b: "b \<in> set registered_behaviors" "behavior_opcode b = opc"
    using factory_new_get [OF assms(1)] assms(2) by auto
  show ?thesis
    using behavior_binary_free [OF b(1) _ _ assms(5-9), of fl] behavior_unary_free [OF b(1) _ _ assms(5-8), of fl]
      assms(3,4,10) b(2) by simp
qed


section \<open>Recovery\<close>

text \<open>An operation and a partial inverse of it, exact on the range.\<close>

locale inverse_pair =
  fixes dom ran :: "u64 \<Rightarrow> bool" and ev rc :: "u64 \<Rightarrow> u64 res"
  assumes ev_range: "dom x \<Longrightarrow> \<exists>y. ev x = Ret y \<and> ran y"
    and rc_exact: "ran y \<Longrightarrow> rc y = Ret x \<longleftrightarrow> dom x \<and> ev x = Ret y"
begin

lemma round_trip: "dom x \<Longrightarrow> res_bind (ev x) rc = Ret x"
  using ev_range [of x] rc_exact by auto

lemma ev_inj: "dom x \<Longrightarrow> dom x' \<Longrightarrow> ev x = ev x' \<Longrightarrow> x = x'"
  using ev_range [of x] rc_exact [of _ x] rc_exact [of _ x'] by (metis res.inject)

lemma rc_panics: "ran y \<Longrightarrow> rc y = Panic \<longleftrightarrow> \<not> (\<exists>x. dom x \<and> ev x = Ret y)"
  using rc_exact [of y] by (cases "rc y") auto

end

lemma recover_objects:
  assumes "y \<le> calc_mask so"
  shows "si = so \<Longrightarrow> copy_recover so y si = expect (recover_input_unary CPUI_COPY so y si)"
    and "zext_recover so y si = expect (recover_input_unary CPUI_INT_ZEXT so y si)"
    and "sext_recover so y si = expect (recover_input_unary CPUI_INT_SEXT so y si)"
    and "comp2_recover so y si = expect (recover_input_unary CPUI_INT_2COMP so y si)"
    and "negate_recover so y si = expect (recover_input_unary CPUI_INT_NEGATE so y si)"
proof -
  show "sext_recover so y si = expect (recover_input_unary CPUI_INT_SEXT so y si)"
    by (simp add: sext_recover_def recover_input_unary_def Let_def)
qed (use and_calc_mask_self [OF assms] in \<open>simp_all add: copy_recover_def zext_recover_def comp2_recover_def
    negate_recover_def recover_input_unary_def uintb_negate_def Let_def and.commute\<close>)

lemma invertible_objects:
  assumes "invertible b si so"
  shows "x \<le> calc_mask si \<Longrightarrow> behavior_evaluate_unary fl b so si x = expect (evaluate_unary (behavior_opcode b) so si x)"
    and "y \<le> calc_mask so \<Longrightarrow> behavior_recover_unary b so y si = expect (recover_input_unary (behavior_opcode b) so y si)"
    and "x \<le> calc_mask si \<Longrightarrow> \<exists>y. evaluate_unary (behavior_opcode b) so si x = Some y \<and> y \<le> calc_mask so"
  using assms evaluate_unary_objects [of si so x] recover_objects [of y so si] unfolding invertible_def
  by (auto simp: behavior_evaluate_unary_def behavior_recover_unary_def behavior_codes evaluate_unary_def)

lemma expect_Ret_iff [simp]: "expect v = Ret x \<longleftrightarrow> v = Some x"
  by (cases v) simp_all

interpretation unary_object: inverse_pair
  "\<lambda>x. invertible b si so \<and> x \<le> calc_mask si" "\<lambda>y. invertible b si so \<and> y \<le> calc_mask so"
  "behavior_evaluate_unary fl b so si" "\<lambda>y. behavior_recover_unary b so y si"
  for fl b so si
proof (unfold_locales, goal_cases)
  case (1 x)
  then show ?case using invertible_objects(1,3) [of b si so x] by auto
next
  case (2 y x)
  then have i: "invertible b si so" and y: "y \<le> calc_mask so" by simp_all
  have "recover_input_unary (behavior_opcode b) so y si = Some x \<longleftrightarrow>
      x \<le> calc_mask si \<and> evaluate_unary (behavior_opcode b) so si x = Some y"
    using i y by (intro recover_unary_inverse) (auto simp: invertible_def behavior_codes)
  then show ?case using invertible_objects(1,2) [OF i] i y by auto
qed

text \<open>
  The object of an invertible unary operation recovers its input: evaluating an operand of its
  size and recovering from the output gives the operand back, and recovery panics exactly on
  the outputs no operand produces.
\<close>

theorem behavior_recover_roundtrip:
  assumes "invertible b si so" "x \<le> calc_mask si" "y \<le> calc_mask so"
  shows "res_bind (behavior_evaluate_unary fl b so si x) (\<lambda>v. behavior_recover_unary b so v si) = Ret x
    \<and> (behavior_recover_unary b so y si = Panic
        \<longleftrightarrow> \<not> (\<exists>v. v \<le> calc_mask si \<and> behavior_evaluate_unary fl b so si v = Ret y))"
  using unary_object.round_trip [of b si so x] unary_object.rc_panics [of b si so y] assms by simp


theorem behavior_recover_roundtrip_witness:
  "invertible OpBehaviorIntSext 1 2 \<and> (\<forall>fl.
    res_bind (behavior_evaluate_unary fl OpBehaviorIntSext 2 1 0x80) (\<lambda>v. behavior_recover_unary OpBehaviorIntSext 2 v 1) = Ret 0x80
    \<and> \<not> (\<exists>v. v \<le> calc_mask 1 \<and> behavior_evaluate_unary fl OpBehaviorIntSext 2 1 v = Ret 0x100))"
proof -
  have c: "invertible OpBehaviorIntSext 1 2" "(0x80 :: u64) \<le> calc_mask 1" "(0x100 :: u64) \<le> calc_mask 2"
    "behavior_recover_unary OpBehaviorIntSext 2 0x100 1 = Panic" by code_simp+
  show ?thesis using behavior_recover_roundtrip [OF c(1-3)] c(1,4) by simp
qed

theorem behavior_refines_free_witness:
  "\<exists>table. factory_new = Ret table \<and> factory_get table CPUI_INT_SRIGHT = Some OpBehaviorIntSright
    \<and> (\<forall>fl. behavior_evaluate_binary fl OpBehaviorIntSright 1 1 0xf9 1 = Ret 0xfc)"
proof -
  obtain table where t: "factory_new = Ret table" using factory_new_len unfolding res_map_eq_Ret by auto
  have c: "OpBehaviorIntSright \<in> set registered_behaviors" "behavior_opcode OpBehaviorIntSright = CPUI_INT_SRIGHT"
    "\<not> is_float_opcode CPUI_INT_SRIGHT" "CPUI_INT_SRIGHT \<notin> {CPUI_PTRADD, CPUI_PTRSUB}"
    "(0xf9 :: u64) \<le> calc_mask 1" "(1 :: u64) \<le> calc_mask 1"
    "res_bind (evaluate_binary CPUI_INT_SRIGHT 1 1 0xf9 1) expect = Ret 0xfc" by code_simp+
  have g: "factory_get table CPUI_INT_SRIGHT = Some OpBehaviorIntSright" using factory_new_get [OF t] c(1,2) by simp
  show ?thesis using behavior_refines_free [OF t g c(3,4) _ _ _ c(5,6)] t g c(7) by auto
qed

text \<open>
  The recovery of an arithmetic right shift, as the object computes it, is not truncated to the size of the
  operand: here a one-byte operand comes back as \<open>0x180\<close>.
\<close>

theorem sright_recover_untruncated:
  "behavior_recover_binary OpBehaviorIntSright 0 1 0xc0 1 1 = Ret 0x180
    \<and> recover_input_binary CPUI_INT_SRIGHT 0 1 0xc0 1 1 = Some 0x80"
  by code_simp

end
