(* ===== verification/Addr_Space.thy ===== *)
theory Addr_Space
  imports Bit_Helpers
begin

text \<open>
  Address spaces and addresses. \<open>addr_space\<close> is the record behind a handle of src/src/space.rs
  (\<open>AddrSpaceInner\<close>) together with the identity of its allocation, which is what two handles are
  compared by. \<open>space_address\<close>, \<open>address\<close> and \<open>seq_num\<close> are the types of
  src/src/address.rs. A legacy \<open>address\<close> names its space by a tag, an index into the interning
  table, which is an argument of the operations that resolve it.
\<close>

unbundle bit_operations_syntax

section \<open>Orderings\<close>

datatype ordering = Less | Equal | Greater

definition cmp :: "'a :: linorder \<Rightarrow> 'a \<Rightarrow> ordering" where
  "cmp a b = (if a < b then Less else if a = b then Equal else Greater)"

definition then_with :: "ordering \<Rightarrow> ordering \<Rightarrow> ordering" where
  "then_with x y = (if x = Equal then y else x)"

section \<open>Spaces\<close>

datatype space_type = Constant | Processor | SpaceBaseType | Internal | Fspec | Iop | Join

record addr_space =
  sp_identity :: nat
  sp_type :: space_type
  sp_flags :: u32
  sp_highest :: u64
  sp_lower_bound :: u64
  sp_upper_bound :: u64
  sp_shortcut :: char
  sp_name :: string
  sp_address_size :: u32
  sp_word_size :: u32
  sp_minimum_pointer_size :: i32
  sp_index :: i32
  sp_delay :: i32
  sp_deadcode_delay :: i32
  sp_refcount :: i32

definition BIG_ENDIAN :: u32 where "BIG_ENDIAN = 1"
definition HERITAGED :: u32 where "HERITAGED = 2"
definition DOES_DEADCODE :: u32 where "DOES_DEADCODE = 4"
definition REVERSE_JUSTIFICATION :: u32 where "REVERSE_JUSTIFICATION = 16"
definition FORMAL_STACKSPACE :: u32 where "FORMAL_STACKSPACE = 0x20"
definition OVERLAY :: u32 where "OVERLAY = 0x40"
definition OVERLAYBASE :: u32 where "OVERLAYBASE = 0x80"
definition TRUNCATED :: u32 where "TRUNCATED = 0x100"
definition HASPHYSICAL :: u32 where "HASPHYSICAL = 0x200"
definition IS_OTHERSPACE :: u32 where "IS_OTHERSPACE = 0x400"
definition HAS_NEARPOINTERS :: u32 where "HAS_NEARPOINTERS = 0x800"

text \<open>\<open>space::calc_mask\<close>, the table form: the index is the size as unsigned, capped at 8.\<close>

definition UINTBMASKS :: "u64 list" where
  "UINTBMASKS = [0, 0xff, 0xffff, 0xffffff, 0xffffffff, 0xffffffffff, 0xffffffffffff,
     0xffffffffffffff, 0xffffffffffffffff]"

definition space_calc_mask :: "u32 \<Rightarrow> u64" where
  "space_calc_mask sz = UINTBMASKS ! (if sz < 8 then unat sz else 8)"

definition calc_scale_mask :: "addr_space \<Rightarrow> addr_space" where
  "calc_scale_mask s =
     (let h = space_calc_mask (sp_address_size s) * ucast (sp_word_size s) + (ucast (sp_word_size s) - 1);
          buffer_size = (if sp_address_size s < 3 then 0x100 else 0x1000)
      in s\<lparr>sp_highest := h, sp_lower_bound := buffer_size, sp_upper_bound := h - buffer_size\<rparr>)"

definition set_flags :: "u32 \<Rightarrow> addr_space \<Rightarrow> addr_space" where
  "set_flags fl s = s\<lparr>sp_flags := sp_flags s OR fl\<rparr>"

definition clear_flags :: "u32 \<Rightarrow> addr_space \<Rightarrow> addr_space" where
  "clear_flags fl s = s\<lparr>sp_flags := sp_flags s AND NOT fl\<rparr>"

text \<open>The identity of the new allocation is the first argument.\<close>

definition new_space ::
  "nat \<Rightarrow> space_type \<Rightarrow> string \<Rightarrow> bool \<Rightarrow> u32 \<Rightarrow> u32 \<Rightarrow> i32 \<Rightarrow> u32 \<Rightarrow> i32 \<Rightarrow> i32 \<Rightarrow> addr_space" where
  "new_space ident ty name big_end sz ws ind fl dl dead =
     (let s = \<lparr>sp_identity = ident, sp_type = ty, sp_flags = fl AND HASPHYSICAL, sp_highest = 0,
               sp_lower_bound = 0, sp_upper_bound = 0, sp_shortcut = CHR '' '', sp_name = name,
               sp_address_size = sz, sp_word_size = ws, sp_minimum_pointer_size = 0, sp_index = ind,
               sp_delay = dl, sp_deadcode_delay = dead, sp_refcount = 0\<rparr>;
          s1 = (if big_end then set_flags BIG_ENDIAN s else s)
      in calc_scale_mask (set_flags (HERITAGED OR DOES_DEADCODE) s1))"

definition new_constant_space :: "nat \<Rightarrow> bool \<Rightarrow> addr_space" where
  "new_constant_space ident host_big_endian =
     (let s = clear_flags (HERITAGED OR DOES_DEADCODE OR BIG_ENDIAN)
                (new_space ident Constant ''const'' False 8 1 0 0 0 0)
      in if host_big_endian then set_flags BIG_ENDIAN s else s)"

definition new_other_space :: "nat \<Rightarrow> addr_space" where
  "new_other_space ident =
     set_flags IS_OTHERSPACE (clear_flags (HERITAGED OR DOES_DEADCODE)
       (new_space ident Processor ''OTHER'' False 8 1 1 0 0 0))"

definition new_unique_space :: "nat \<Rightarrow> i32 \<Rightarrow> u32 \<Rightarrow> bool \<Rightarrow> addr_space" where
  "new_unique_space ident ind fl target_big_endian =
     set_flags HASPHYSICAL (new_space ident Internal ''unique'' target_big_endian 4 1 ind fl 0 0)"

definition new_join_space :: "nat \<Rightarrow> i32 \<Rightarrow> bool \<Rightarrow> addr_space" where
  "new_join_space ident ind target_big_endian =
     clear_flags HERITAGED (new_space ident Join ''join'' target_big_endian 4 1 ind 0 0 0)"

definition new_iop_space :: "nat \<Rightarrow> i32 \<Rightarrow> bool \<Rightarrow> addr_space" where
  "new_iop_space ident ind host_big_endian =
     (let s = clear_flags (HERITAGED OR DOES_DEADCODE OR BIG_ENDIAN)
                (new_space ident Iop ''iop'' False 8 1 ind 0 1 1)
      in if host_big_endian then set_flags BIG_ENDIAN s else s)"

definition new_fspec_space :: "nat \<Rightarrow> i32 \<Rightarrow> bool \<Rightarrow> addr_space" where
  "new_fspec_space ident ind host_big_endian =
     (let s = clear_flags (HERITAGED OR DOES_DEADCODE OR BIG_ENDIAN)
                (new_space ident Fspec ''fspec'' False 8 1 ind 0 1 1)
      in if host_big_endian then set_flags BIG_ENDIAN s else s)"

definition new_external_space :: "nat \<Rightarrow> i32 \<Rightarrow> bool \<Rightarrow> addr_space" where
  "new_external_space ident ind target_big_endian =
     new_space ident Processor ''EXTERNAL'' target_big_endian 4 1 ind 0 0 0"

definition truncate_space :: "u32 \<Rightarrow> addr_space \<Rightarrow> addr_space" where
  "truncate_space newsize s =
     calc_scale_mask (s\<lparr>sp_flags := sp_flags s OR TRUNCATED, sp_address_size := newsize,
                        sp_minimum_pointer_size := sint newsize\<rparr>)"

definition is_heritaged :: "addr_space \<Rightarrow> bool" where
  "is_heritaged s \<longleftrightarrow> sp_flags s AND HERITAGED \<noteq> 0"

definition does_deadcode :: "addr_space \<Rightarrow> bool" where
  "does_deadcode s \<longleftrightarrow> sp_flags s AND DOES_DEADCODE \<noteq> 0"

definition has_physical :: "addr_space \<Rightarrow> bool" where
  "has_physical s \<longleftrightarrow> sp_flags s AND HASPHYSICAL \<noteq> 0"

definition space_is_big_endian :: "addr_space \<Rightarrow> bool" where
  "space_is_big_endian s \<longleftrightarrow> sp_flags s AND BIG_ENDIAN \<noteq> 0"

definition is_reverse_justified :: "addr_space \<Rightarrow> bool" where
  "is_reverse_justified s \<longleftrightarrow> sp_flags s AND REVERSE_JUSTIFICATION \<noteq> 0"

definition is_formal_stackspace :: "addr_space \<Rightarrow> bool" where
  "is_formal_stackspace s \<longleftrightarrow> sp_flags s AND FORMAL_STACKSPACE \<noteq> 0"

definition is_overlay :: "addr_space \<Rightarrow> bool" where
  "is_overlay s \<longleftrightarrow> sp_flags s AND OVERLAY \<noteq> 0"

definition is_overlay_base :: "addr_space \<Rightarrow> bool" where
  "is_overlay_base s \<longleftrightarrow> sp_flags s AND OVERLAYBASE \<noteq> 0"

definition is_other_space :: "addr_space \<Rightarrow> bool" where
  "is_other_space s \<longleftrightarrow> sp_flags s AND IS_OTHERSPACE \<noteq> 0"

definition is_truncated :: "addr_space \<Rightarrow> bool" where
  "is_truncated s \<longleftrightarrow> sp_flags s AND TRUNCATED \<noteq> 0"

definition has_near_pointers :: "addr_space \<Rightarrow> bool" where
  "has_near_pointers s \<longleftrightarrow> sp_flags s AND HAS_NEARPOINTERS \<noteq> 0"

text \<open>
  The remainder panics when the size of the space wraps to zero, as it does for the 64-bit spaces. The test in front of it keeps such spaces out:
  theorem \<open>wrap_offset_bounds\<close> shows that \<open>wrap_offset_checked\<close> always returns. \<open>wrap_offset\<close> is the offset it returns.
\<close>

definition wrap_offset_checked :: "addr_space \<Rightarrow> u64 \<Rightarrow> u64 res" where
  "wrap_offset_checked s off =
     (if off \<le> sp_highest s then Ret off
      else (let modulus = wrap_i64 (as_i64 (sp_highest s) + 1)
            in res_map (\<lambda>res. as_u64 (if res < 0 then wrap_i64 (res + modulus) else res)) (rem_euclid_i64 (as_i64 off) modulus)))"

definition wrap_offset :: "addr_space \<Rightarrow> u64 \<Rightarrow> u64" where
  "wrap_offset s off = (case wrap_offset_checked s off of Ret r \<Rightarrow> r | Panic \<Rightarrow> 0)"

definition same_space :: "addr_space \<Rightarrow> addr_space \<Rightarrow> bool" where
  "same_space a b \<longleftrightarrow> sp_identity a = sp_identity b"

definition compare_by_index :: "addr_space \<Rightarrow> addr_space \<Rightarrow> bool" where
  "compare_by_index a b \<longleftrightarrow> sp_index a < sp_index b"

definition address_to_byte :: "u64 \<Rightarrow> u32 \<Rightarrow> u64" where
  "address_to_byte val ws = val * ucast ws"

definition byte_to_address :: "u64 \<Rightarrow> u32 \<Rightarrow> u64 res" where
  "byte_to_address val ws = (if ws = 0 then Panic else Ret (val div ucast ws))"

definition address_to_byte_int :: "i64 \<Rightarrow> u32 \<Rightarrow> i64" where
  "address_to_byte_int val ws = wrap_i64 (val * uint ws)"

definition byte_to_address_int :: "i64 \<Rightarrow> u32 \<Rightarrow> i64 res" where
  "byte_to_address_int val ws = div_i64 val (uint ws)"

section \<open>Addresses that carry their space\<close>

datatype space_base = NullBase | SpaceOf addr_space | Maximal

record space_address =
  sa_base :: space_base
  sa_offset :: u64

definition sa_invalid :: space_address where
  "sa_invalid = \<lparr>sa_base = NullBase, sa_offset = 0\<rparr>"

definition sa_minimal :: space_address where
  "sa_minimal = sa_invalid"

definition sa_maximal :: space_address where
  "sa_maximal = \<lparr>sa_base = Maximal, sa_offset = U64_MAX\<rparr>"

definition sa_new :: "addr_space \<Rightarrow> u64 \<Rightarrow> space_address" where
  "sa_new spc off = \<lparr>sa_base = SpaceOf spc, sa_offset = off\<rparr>"

definition sa_from_offset :: "u64 \<Rightarrow> space_address" where
  "sa_from_offset off = \<lparr>sa_base = NullBase, sa_offset = off\<rparr>"

definition same_base :: "space_address \<Rightarrow> space_address \<Rightarrow> bool" where
  "same_base a b = (case (sa_base a, sa_base b) of
      (NullBase, NullBase) \<Rightarrow> True
    | (Maximal, Maximal) \<Rightarrow> True
    | (SpaceOf s, SpaceOf t) \<Rightarrow> same_space s t
    | _ \<Rightarrow> False)"

definition sa_is_invalid :: "space_address \<Rightarrow> bool" where
  "sa_is_invalid a \<longleftrightarrow> sa_base a = NullBase"

definition sa_get_space :: "space_address \<Rightarrow> addr_space option" where
  "sa_get_space a = (case sa_base a of SpaceOf s \<Rightarrow> Some s | _ \<Rightarrow> None)"

definition sa_expect_space :: "space_address \<Rightarrow> addr_space res" where
  "sa_expect_space a = (case sa_base a of SpaceOf s \<Rightarrow> Ret s | _ \<Rightarrow> Panic)"

definition sa_get_addr_size :: "space_address \<Rightarrow> u32 res" where
  "sa_get_addr_size a = res_map sp_address_size (sa_expect_space a)"

definition sa_get_shortcut :: "space_address \<Rightarrow> char res" where
  "sa_get_shortcut a = res_map sp_shortcut (sa_expect_space a)"

definition sa_is_big_endian :: "space_address \<Rightarrow> bool" where
  "sa_is_big_endian a = (case sa_base a of SpaceOf s \<Rightarrow> space_is_big_endian s | _ \<Rightarrow> False)"

definition sa_add :: "space_address \<Rightarrow> i64 \<Rightarrow> space_address" where
  "sa_add a off =
     (let raw = sa_offset a + as_u64 off
      in a\<lparr>sa_offset := (case sa_base a of SpaceOf s \<Rightarrow> wrap_offset s raw | _ \<Rightarrow> raw)\<rparr>)"

definition sa_sub :: "space_address \<Rightarrow> i64 \<Rightarrow> space_address" where
  "sa_sub a off =
     (let raw = sa_offset a - as_u64 off
      in a\<lparr>sa_offset := (case sa_base a of SpaceOf s \<Rightarrow> wrap_offset s raw | _ \<Rightarrow> raw)\<rparr>)"

definition sa_is_constant :: "space_address \<Rightarrow> bool" where
  "sa_is_constant a = (case sa_base a of SpaceOf s \<Rightarrow> sp_type s = Constant | _ \<Rightarrow> False)"

definition sa_is_join :: "space_address \<Rightarrow> bool" where
  "sa_is_join a = (case sa_base a of SpaceOf s \<Rightarrow> sp_type s = Join | _ \<Rightarrow> False)"

definition contained_by :: "space_address \<Rightarrow> i32 \<Rightarrow> space_address \<Rightarrow> i32 \<Rightarrow> bool" where
  "contained_by a sz op2 sz2 =
     (if \<not> same_base a op2 then False
      else if sa_offset op2 > sa_offset a then False
      else (let off1 = sa_offset a + as_u64 (wrap_i32 (sz - 1));
                off2 = sa_offset op2 + as_u64 (wrap_i32 (sz2 - 1))
            in off2 \<ge> off1))"

definition justified_contain :: "space_address \<Rightarrow> i32 \<Rightarrow> space_address \<Rightarrow> i32 \<Rightarrow> bool \<Rightarrow> i32" where
  "justified_contain a sz op2 sz2 forceleft =
     (if \<not> same_base a op2 then - 1
      else if sa_offset op2 < sa_offset a then - 1
      else (let off1 = sa_offset a + as_u64 (wrap_i32 (sz - 1));
                off2 = sa_offset op2 + as_u64 (wrap_i32 (sz2 - 1))
            in if off2 > off1 then - 1
               else if sa_is_big_endian a \<and> \<not> forceleft then as_i32 ((off1 - off2) AND 0xffffffff)
               else as_i32 ((sa_offset op2 - sa_offset a) AND 0xffffffff)))"

definition sa_overlap :: "space_address \<Rightarrow> i64 \<Rightarrow> space_address \<Rightarrow> i32 \<Rightarrow> i32" where
  "sa_overlap a skip op sz = (case (sa_base a, sa_base op) of
      (SpaceOf s, SpaceOf t) \<Rightarrow>
        if \<not> same_space s t then - 1
        else if sp_type s = Constant then - 1
        else (let dist = wrap_offset s (sa_offset a + as_u64 skip - sa_offset op)
              in if dist \<ge> as_u64 sz then - 1 else as_i32 dist)
    | _ \<Rightarrow> - 1)"

definition is_contiguous :: "space_address \<Rightarrow> i32 \<Rightarrow> space_address \<Rightarrow> i32 \<Rightarrow> bool" where
  "is_contiguous a sz loaddr losz =
     (if \<not> same_base a loaddr then False
      else case sa_get_space a of
             None \<Rightarrow> False
           | Some s \<Rightarrow>
               if space_is_big_endian s
               then wrap_offset s (sa_offset a + as_u64 sz) = sa_offset loaddr
               else wrap_offset s (sa_offset loaddr + as_u64 losz) = sa_offset a)"

definition sa_eq :: "space_address \<Rightarrow> space_address \<Rightarrow> bool" where
  "sa_eq a b \<longleftrightarrow> same_base a b \<and> sa_offset a = sa_offset b"

text \<open>The two \<open>expect_space\<close> calls are made where both bases are real spaces.\<close>

definition sa_cmp :: "space_address \<Rightarrow> space_address \<Rightarrow> ordering" where
  "sa_cmp a b =
     (if \<not> same_base a b
      then (if sa_is_invalid a then Less
            else if sa_base a = Maximal then Greater
            else if sa_is_invalid b then Greater
            else if sa_base b = Maximal then Less
            else case (sa_base a, sa_base b) of
                   (SpaceOf s, SpaceOf t) \<Rightarrow>
                     (case cmp (sp_index s) (sp_index t) of
                        Equal \<Rightarrow> cmp (sp_identity s) (sp_identity t)
                      | order \<Rightarrow> order)
                 | _ \<Rightarrow> Equal)
      else cmp (sa_offset a) (sa_offset b))"

section \<open>Legacy addresses\<close>

text \<open>
  A tag \<open>SpaceTag n\<close> is the number \<open>n - 1\<close> of its slot in the table of interned spaces. A tag
  the table does not hold panics, as \<open>resolve_space_tag\<close> does.
\<close>

type_synonym space_table = "addr_space list"

record address =
  ad_offset :: u64
  ad_space :: "nat option"

fun find_space :: "nat \<Rightarrow> space_table \<Rightarrow> nat \<Rightarrow> nat option" where
  "find_space ident [] slot = None"
| "find_space ident (s # ss) slot =
     (if sp_identity s = ident then Some slot else find_space ident ss (Suc slot))"

definition intern_space :: "space_table \<Rightarrow> addr_space \<Rightarrow> space_table \<times> nat" where
  "intern_space tbl spc = (case find_space (sp_identity spc) tbl 0 of
      Some slot \<Rightarrow> (tbl, slot)
    | None \<Rightarrow> (tbl @ [spc], length tbl))"

definition resolve_space_tag :: "space_table \<Rightarrow> nat \<Rightarrow> addr_space res" where
  "resolve_space_tag tbl tag = (if tag < length tbl then Ret (tbl ! tag) else Panic)"

definition ad_new :: "u64 \<Rightarrow> address" where
  "ad_new off = \<lparr>ad_offset = off, ad_space = None\<rparr>"

definition ad_with_space :: "space_table \<Rightarrow> addr_space \<Rightarrow> u64 \<Rightarrow> space_table \<times> address" where
  "ad_with_space tbl spc off =
     (case intern_space tbl spc of (tbl', tag) \<Rightarrow> (tbl', \<lparr>ad_offset = off, ad_space = Some tag\<rparr>))"

definition ad_get_space :: "space_table \<Rightarrow> address \<Rightarrow> addr_space option res" where
  "ad_get_space tbl a = (case ad_space a of
      None \<Rightarrow> Ret None
    | Some tag \<Rightarrow> res_map Some (resolve_space_tag tbl tag))"

definition ad_from_space_address :: "space_table \<Rightarrow> space_address \<Rightarrow> (space_table \<times> address) res" where
  "ad_from_space_address tbl sa = (case sa_base sa of
      SpaceOf spc \<Rightarrow> Ret (ad_with_space tbl spc (sa_offset sa))
    | NullBase \<Rightarrow> Ret (tbl, ad_new (sa_offset sa))
    | Maximal \<Rightarrow> Panic)"

definition ad_to_space_address :: "space_table \<Rightarrow> address \<Rightarrow> space_address res" where
  "ad_to_space_address tbl a = (case ad_space a of
      Some tag \<Rightarrow> res_map (\<lambda>spc. sa_new spc (ad_offset a)) (resolve_space_tag tbl tag)
    | None \<Rightarrow> Ret (sa_from_offset (ad_offset a)))"

definition ad_add :: "space_table \<Rightarrow> address \<Rightarrow> i64 \<Rightarrow> address res" where
  "ad_add tbl a off =
     (let raw = ad_offset a + as_u64 off
      in res_map (\<lambda>spc. a\<lparr>ad_offset := (case spc of Some s \<Rightarrow> wrap_offset s raw | None \<Rightarrow> raw)\<rparr>)
           (ad_get_space tbl a))"

definition ad_next :: "space_table \<Rightarrow> address \<Rightarrow> address res" where
  "ad_next tbl a = ad_add tbl a 1"

definition ad_prev :: "space_table \<Rightarrow> address \<Rightarrow> address res" where
  "ad_prev tbl a = ad_add tbl a (- 1)"

definition ad_overlap :: "space_table \<Rightarrow> address \<Rightarrow> i64 \<Rightarrow> address \<Rightarrow> i32 \<Rightarrow> i32 res" where
  "ad_overlap tbl a skip op sz = (case (ad_space a, ad_space op) of
      (Some s, Some t) \<Rightarrow>
        if s \<noteq> t then Ret (- 1)
        else res_map (\<lambda>spc.
               if sp_type spc = Constant then - 1
               else (let dist = wrap_offset spc (ad_offset a + as_u64 skip - ad_offset op)
                     in if dist \<ge> as_u64 sz then - 1 else as_i32 dist))
               (resolve_space_tag tbl s)
    | _ \<Rightarrow>
        (let dist = ad_offset a + as_u64 skip - ad_offset op
         in Ret (if dist \<ge> as_u64 sz then - 1 else as_i32 dist)))"

definition ad_is_invalid :: "address \<Rightarrow> bool" where
  "ad_is_invalid a \<longleftrightarrow> ad_space a = None"

definition ad_is_null :: "address \<Rightarrow> bool" where
  "ad_is_null a \<longleftrightarrow> ad_offset a = 0"

definition ad_is_aligned :: "address \<Rightarrow> u64 \<Rightarrow> bool res" where
  "ad_is_aligned a alignment = (if alignment = 0 then Panic else Ret (ad_offset a mod alignment = 0))"

definition ad_eq :: "address \<Rightarrow> address \<Rightarrow> bool" where
  "ad_eq a b \<longleftrightarrow> ad_space a = ad_space b \<and> ad_offset a = ad_offset b"

definition ad_cmp :: "space_table \<Rightarrow> address \<Rightarrow> address \<Rightarrow> ordering res" where
  "ad_cmp tbl a b = (case (ad_space a, ad_space b) of
      (None, None) \<Rightarrow> Ret (cmp (ad_offset a) (ad_offset b))
    | (None, Some _) \<Rightarrow> Ret Less
    | (Some _, None) \<Rightarrow> Ret Greater
    | (Some s, Some t) \<Rightarrow>
        if s \<noteq> t
        then res_bind (resolve_space_tag tbl s) (\<lambda>sa.
             res_bind (resolve_space_tag tbl t) (\<lambda>sb.
               Ret (case cmp (sp_index sa) (sp_index sb) of
                      Equal \<Rightarrow>
                        (let by_offset = cmp (ad_offset a) (ad_offset b)
                         in if by_offset \<noteq> Equal then by_offset else cmp s t)
                    | order \<Rightarrow> order)))
        else Ret (cmp (ad_offset a) (ad_offset b)))"

section \<open>Sequence numbers\<close>

record seq_num =
  sn_addr :: address
  sn_time :: u32
  sn_order :: u32

definition sn_new :: "address \<Rightarrow> u32 \<Rightarrow> seq_num" where
  "sn_new a time = \<lparr>sn_addr = a, sn_time = time, sn_order = time\<rparr>"

definition sn_next :: "seq_num \<Rightarrow> seq_num" where
  "sn_next n = sn_new (sn_addr n) (sn_time n + 1)"

definition same_identity :: "seq_num \<Rightarrow> seq_num \<Rightarrow> bool" where
  "same_identity a b \<longleftrightarrow> sn_time a = sn_time b"

definition sn_set_order :: "u32 \<Rightarrow> seq_num \<Rightarrow> seq_num" where
  "sn_set_order ord n = n\<lparr>sn_order := ord\<rparr>"

definition sn_eq :: "seq_num \<Rightarrow> seq_num \<Rightarrow> bool" where
  "sn_eq a b \<longleftrightarrow> ad_eq (sn_addr a) (sn_addr b) \<and> sn_time a = sn_time b"

definition sn_cmp :: "space_table \<Rightarrow> seq_num \<Rightarrow> seq_num \<Rightarrow> ordering res" where
  "sn_cmp tbl a b =
     res_map (\<lambda>o1. then_with o1 (cmp (sn_time a) (sn_time b))) (ad_cmp tbl (sn_addr a) (sn_addr b))"

end
