(* ===== verification/Space_Heap.thy ===== *)
theory Space_Heap
  imports Addr_Space
begin

text \<open>
  Address spaces as shared mutable objects (src/src/space.rs). A handle (\<open>AddrSpace\<close>, a counted pointer to a cell) is the
  number of its allocation, \<open>space_heap\<close> holds the cell behind each: the record of
  \<open>Addr_Space\<close> and, for virtual spaces, the state of the base register. Two handles are equal when they
  are the same number. An operation on spaces takes and returns the heap; reading a cell
  while it is mutably borrowed is a panic. The weak links from a
  space back to the tables of its manager carry no data and are left out.
\<close>

section \<open>Cells\<close>

record handle_varnode =
  hv_space :: nat
  hv_offset :: u64
  hv_size :: i32

record spacebase_state =
  sb_contain :: "nat option"
  has_base_register :: bool
  is_negative_stack :: bool
  base_loc :: handle_varnode
  base_orig :: handle_varnode

record space_cell =
  cell_space :: addr_space
  cell_spacebase :: "spacebase_state option"

type_synonym space_heap = "nat \<Rightarrow> space_cell"

abbreviation space_at :: "space_heap \<Rightarrow> nat \<Rightarrow> addr_space" where
  "space_at hp h \<equiv> cell_space (hp h)"

abbreviation index_at :: "space_heap \<Rightarrow> nat \<Rightarrow> i32" where
  "index_at hp h \<equiv> sp_index (cell_space (hp h))"

abbreviation name_at :: "space_heap \<Rightarrow> nat \<Rightarrow> string" where
  "name_at hp h \<equiv> sp_name (cell_space (hp h))"

definition update_space :: "nat \<Rightarrow> (addr_space \<Rightarrow> addr_space) \<Rightarrow> space_heap \<Rightarrow> space_heap" where
  "update_space h f hp = hp(h := (hp h)\<lparr>cell_space := f (space_at hp h)\<rparr>)"

definition update_spacebase :: "nat \<Rightarrow> spacebase_state \<Rightarrow> space_heap \<Rightarrow> space_heap" where
  "update_spacebase h st hp = hp(h := (hp h)\<lparr>cell_spacebase := Some st\<rparr>)"

section \<open>Virtual spaces\<close>

definition initial_base :: "nat \<Rightarrow> handle_varnode" where
  "initial_base base = \<lparr>hv_space = base, hv_offset = 0, hv_size = 0\<rparr>"

definition initial_spacebase :: "nat option \<Rightarrow> nat \<Rightarrow> spacebase_state" where
  "initial_spacebase contain base =
     \<lparr>sb_contain = contain, has_base_register = False, is_negative_stack = True,
      base_loc = initial_base base, base_orig = initial_base base\<rparr>"

text \<open>
  The constructors write a new cell at the handle that is allocated. The fields set by hand in the code
  are those of \<open>new_space\<close> with the flags given.
\<close>

definition virtual_record :: "nat \<Rightarrow> space_type \<Rightarrow> string \<Rightarrow> u32 \<Rightarrow> u32 \<Rightarrow> i32 \<Rightarrow> i32 \<Rightarrow> i32 \<Rightarrow> u32 \<Rightarrow> addr_space" where
  "virtual_record ident ty name sz ws ind dl dead fl =
     \<lparr>sp_identity = ident, sp_type = ty, sp_flags = fl, sp_highest = 0,
      sp_lower_bound = 0, sp_upper_bound = 0, sp_shortcut = CHR '' '', sp_name = name,
      sp_address_size = sz, sp_word_size = ws, sp_minimum_pointer_size = 0, sp_index = ind,
      sp_delay = dl, sp_deadcode_delay = dead, sp_refcount = 0\<rparr>"

definition new_spacebase_space ::
  "nat \<Rightarrow> string \<Rightarrow> i32 \<Rightarrow> u32 \<Rightarrow> nat \<Rightarrow> i32 \<Rightarrow> bool \<Rightarrow> bool \<Rightarrow> space_heap \<Rightarrow> space_heap" where
  "new_spacebase_space h nm ind sz base dl is_formal target_big_endian hp =
     (let fl = (if target_big_endian then BIG_ENDIAN else 0) OR (HERITAGED OR DOES_DEADCODE)
               OR (if is_formal then FORMAL_STACKSPACE else 0);
          s = virtual_record h SpaceBaseType nm sz (sp_word_size (space_at hp base)) ind dl dl fl
      in hp(h := \<lparr>cell_space = calc_scale_mask s, cell_spacebase = Some (initial_spacebase (Some base) base)\<rparr>))"

definition new_overlay_space :: "nat \<Rightarrow> string \<Rightarrow> i32 \<Rightarrow> nat \<Rightarrow> space_heap \<Rightarrow> space_heap" where
  "new_overlay_space h name index base hp =
     (let b = space_at hp base;
          fl = (OVERLAY OR HERITAGED OR DOES_DEADCODE)
               OR (if space_is_big_endian b then BIG_ENDIAN else 0) OR (if has_physical b then HASPHYSICAL else 0);
          s = virtual_record h Processor name (sp_address_size b) (sp_word_size b) index
                (sp_delay b) (sp_deadcode_delay b) fl
      in hp(h := \<lparr>cell_space = calc_scale_mask s, cell_spacebase = Some (initial_spacebase (Some base) base)\<rparr>))"

definition set_contain :: "nat \<Rightarrow> nat \<Rightarrow> space_heap \<Rightarrow> space_heap" where
  "set_contain h base hp =
     (let st = (case cell_spacebase (hp h) of Some st \<Rightarrow> st | None \<Rightarrow> initial_spacebase None base)
      in update_spacebase h (st\<lparr>sb_contain := Some base\<rparr>) hp)"

definition num_spacebase :: "space_heap \<Rightarrow> nat \<Rightarrow> i32" where
  "num_spacebase hp h = (case cell_spacebase (hp h) of
     None \<Rightarrow> 0 | Some st \<Rightarrow> if has_base_register st then 1 else 0)"

definition no_base_register :: "string \<Rightarrow> string" where
  "no_base_register name = ''No base register specified for space: '' @ name"

definition get_spacebase :: "space_heap \<Rightarrow> nat \<Rightarrow> i32 \<Rightarrow> string + handle_varnode" where
  "get_spacebase hp h i = (case cell_spacebase (hp h) of
     Some st \<Rightarrow> if has_base_register st \<and> i = 0 then Inr (base_loc st) else Inl (no_base_register (name_at hp h))
   | None \<Rightarrow> Inl (no_base_register (name_at hp h)))"

definition get_spacebase_full :: "space_heap \<Rightarrow> nat \<Rightarrow> i32 \<Rightarrow> string + handle_varnode" where
  "get_spacebase_full hp h i = (case cell_spacebase (hp h) of
     Some st \<Rightarrow> if has_base_register st \<and> i = 0 then Inr (base_orig st) else Inl (no_base_register (name_at hp h))
   | None \<Rightarrow> Inl (no_base_register (name_at hp h)))"

definition stack_grows_negative :: "space_heap \<Rightarrow> nat \<Rightarrow> bool" where
  "stack_grows_negative hp h = (case cell_spacebase (hp h) of None \<Rightarrow> True | Some st \<Rightarrow> is_negative_stack st)"

definition get_contain :: "space_heap \<Rightarrow> nat \<Rightarrow> nat option" where
  "get_contain hp h = (case cell_spacebase (hp h) of None \<Rightarrow> None | Some st \<Rightarrow> sb_contain st)"

text \<open>
  The cell of the space is borrowed mutably throughout, so a register in the space itself cannot be asked
  for its endianness.
\<close>

definition set_base_register ::
  "nat \<Rightarrow> handle_varnode \<Rightarrow> i32 \<Rightarrow> bool \<Rightarrow> space_heap \<Rightarrow> (string + space_heap) res" where
  "set_base_register h dat trunc_size stack_growth hp =
     (case cell_spacebase (hp h) of
        None \<Rightarrow> Ret (Inl (no_base_register (name_at hp h)))
      | Some st \<Rightarrow>
          if has_base_register st \<and> (base_loc st \<noteq> dat \<or> is_negative_stack st \<noteq> stack_growth)
          then Ret (Inl (''Attempt to assign more than one base register to space: '' @ name_at hp h))
          else
            (let st1 = st\<lparr>has_base_register := True, is_negative_stack := stack_growth,
                          base_orig := dat, base_loc := dat\<rparr>
             in if trunc_size = hv_size dat then Ret (Inr (update_spacebase h st1 hp))
                else if hv_space dat = h then Panic
                else
                  (let offset = (if space_is_big_endian (space_at hp (hv_space dat))
                                 then hv_offset dat + word_of_int (wrap_i32 (hv_size dat - trunc_size))
                                 else hv_offset dat)
                   in Ret (Inr (update_spacebase h
                        (st1\<lparr>base_loc := dat\<lparr>hv_offset := offset, hv_size := trunc_size\<rparr>\<rparr>) hp)))))"

section \<open>What updates keep\<close>

lemma space_at_update [simp]:
  "space_at (update_space h f hp) k = (if k = h then f (space_at hp h) else space_at hp k)"
  by (simp add: update_space_def)

lemma spacebase_update [simp]: "cell_spacebase (update_space h f hp k) = cell_spacebase (hp k)"
  by (simp add: update_space_def)

lemma space_at_spacebase [simp]: "space_at (update_spacebase h st hp) k = space_at hp k"
  by (simp add: update_spacebase_def)

lemma cell_spacebase_update [simp]:
  "cell_spacebase (update_spacebase h st hp k) = (if k = h then Some st else cell_spacebase (hp k))"
  by (simp add: update_spacebase_def)

lemma set_flags_keeps [simp]:
  "sp_index (set_flags f s) = sp_index s" "sp_name (set_flags f s) = sp_name s"
  "sp_type (set_flags f s) = sp_type s" "sp_shortcut (set_flags f s) = sp_shortcut s"
  "sp_identity (set_flags f s) = sp_identity s"
  by (simp_all add: set_flags_def)

lemma calc_scale_mask_keeps [simp]:
  "sp_index (calc_scale_mask s) = sp_index s" "sp_name (calc_scale_mask s) = sp_name s"
  "sp_type (calc_scale_mask s) = sp_type s" "sp_shortcut (calc_scale_mask s) = sp_shortcut s"
  "sp_identity (calc_scale_mask s) = sp_identity s"
  by (simp_all add: calc_scale_mask_def Let_def)

lemma truncate_space_keeps [simp]:
  "sp_index (truncate_space n s) = sp_index s" "sp_name (truncate_space n s) = sp_name s"
  "sp_type (truncate_space n s) = sp_type s" "sp_shortcut (truncate_space n s) = sp_shortcut s"
  "sp_identity (truncate_space n s) = sp_identity s"
  by (simp_all add: truncate_space_def)

section \<open>Base registers\<close>

text \<open>
  The register of a virtual space: an assignment succeeds exactly when none is recorded or the same location and
  direction are, the full register is the one given, and the truncated one has the size asked for
  and ends where the full one ends (big endian) or starts where it starts.
\<close>

lemma wrap_i32_small: "- (2 ^ 31) \<le> i \<Longrightarrow> i < 2 ^ 31 \<Longrightarrow> wrap_i32 i = i"
  by (simp add: wrap_i32_def signed_take_bit_int_eq_self_iff)

lemma base_register_assigned:
  fixes stack_growth :: bool
  assumes "cell_spacebase (hp h) = Some st" "hv_space dat \<noteq> h" "0 \<le> trunc_size" "trunc_size \<le> hv_size dat" "hv_size dat < 2 ^ 31"
  defines "same \<equiv> \<not> has_base_register st \<or> base_loc st = dat \<and> is_negative_stack st = stack_growth"
  shows "case set_base_register h dat trunc_size stack_growth hp of
      Panic \<Rightarrow> False
    | Ret (Inl e) \<Rightarrow> \<not> same
    | Ret (Inr hp') \<Rightarrow> same \<and> get_spacebase_full hp' h 0 = Inr dat \<and> stack_grows_negative hp' h = stack_growth
        \<and> (\<exists>off. get_spacebase hp' h 0 = Inr \<lparr>hv_space = hv_space dat, hv_offset = off, hv_size = trunc_size\<rparr>
             \<and> (if space_is_big_endian (space_at hp (hv_space dat))
                then off + word_of_int trunc_size = hv_offset dat + word_of_int (hv_size dat)
                else off = hv_offset dat))"
proof -
  have w: "word_of_int (wrap_i32 (hv_size dat - trunc_size)) = (word_of_int (hv_size dat) - word_of_int trunc_size :: u64)"
    using assms(3-5) by (simp add: wrap_i32_small)
  show ?thesis
    using assms(1,2) w
    by (cases dat) (auto simp: set_base_register_def same_def get_spacebase_full_def get_spacebase_def
        stack_grows_negative_def Let_def split: if_splits)
qed

end
