(* ===== verification/Range_List.thy ===== *)
theory Range_List
  imports Addr_Space
begin

text \<open>
  Ranges of legacy addresses and the list of disjoint ranges (\<open>Range\<close>, \<open>RangeList\<close> of
  src/src/address.rs). The interface a client relies on, a set of points that ranges are inserted into and
  removed from, is the locale \<open>range_set\<close>, interpreted here on \<open>RangeList\<close>: a list stays
  sorted with gaps of at least one address between its ranges, and its operations are union
  and difference.
\<close>

section \<open>Ranges\<close>

record range =
  rg_first :: address
  rg_last :: address

abbreviation first_off :: "range \<Rightarrow> u64" where
  "first_off r \<equiv> ad_offset (rg_first r)"

abbreviation last_off :: "range \<Rightarrow> u64" where
  "last_off r \<equiv> ad_offset (rg_last r)"

definition range_new :: "address \<Rightarrow> address \<Rightarrow> range option" where
  "range_new a b = (if ad_offset a \<le> ad_offset b then Some \<lparr>rg_first = a, rg_last = b\<rparr> else None)"

definition range_last_addr_open :: "space_table \<Rightarrow> range \<Rightarrow> address res" where
  "range_last_addr_open tbl r = ad_next tbl (rg_last r)"

definition range_contains :: "range \<Rightarrow> address \<Rightarrow> bool" where
  "range_contains r a \<longleftrightarrow> ad_offset a \<ge> first_off r \<and> ad_offset a \<le> last_off r"

definition range_size :: "range \<Rightarrow> u64" where
  "range_size r = sat_add_u64 (sat_sub_u64 (last_off r) (first_off r)) 1"

definition range_overlaps :: "range \<Rightarrow> range \<Rightarrow> bool" where
  "range_overlaps r q \<longleftrightarrow> first_off r \<le> last_off q \<and> first_off q \<le> last_off r"

definition range_is_adjacent :: "range \<Rightarrow> range \<Rightarrow> bool" where
  "range_is_adjacent r q \<longleftrightarrow> sat_add_u64 (last_off r) 1 = first_off q
     \<or> sat_add_u64 (last_off q) 1 = first_off r"

section \<open>Lists of ranges\<close>

type_synonym range_list = "range list"

definition vec_remove :: "nat \<Rightarrow> 'a list \<Rightarrow> 'a list" where
  "vec_remove i xs = take i xs @ drop (Suc i) xs"

definition vec_insert :: "nat \<Rightarrow> 'a \<Rightarrow> 'a list \<Rightarrow> 'a list" where
  "vec_insert i x xs = take i xs @ x # drop i xs"

text \<open>
  \<open>binary_search_by_key(..).unwrap_or_else(|pos| pos)\<close> on a list sorted by the key: the position of
  the key if it occurs, the place to insert it otherwise. The keys of a range list are
  distinct, and the one searched for does not occur.
\<close>

definition search_pos :: "u64 \<Rightarrow> range_list \<Rightarrow> nat" where
  "search_pos k rs = length (takeWhile (\<lambda>r. first_off r < k) rs)"

fun insert_scan :: "range_list \<Rightarrow> nat \<Rightarrow> range \<Rightarrow> nat list \<Rightarrow> range \<times> nat list" where
  "insert_scan [] i merged to_remove = (merged, to_remove)"
| "insert_scan (existing # rest) i merged to_remove =
     (if range_overlaps merged existing \<or> range_is_adjacent merged existing
      then insert_scan rest (Suc i)
             \<lparr>rg_first = ad_new (min (first_off merged) (first_off existing)),
              rg_last = ad_new (max (last_off merged) (last_off existing))\<rparr>
             (to_remove @ [i])
      else insert_scan rest (Suc i) merged to_remove)"

definition insert_range :: "range \<Rightarrow> range_list \<Rightarrow> range_list" where
  "insert_range new_range rs =
     (if rs = [] then [new_range]
      else (let (merged, to_remove) = insert_scan rs 0 new_range [];
                rs' = foldl (\<lambda>xs i. vec_remove i xs) rs (rev to_remove)
            in vec_insert (search_pos (first_off merged) rs') merged rs'))"

definition remove_pieces :: "range \<Rightarrow> range \<Rightarrow> range_list" where
  "remove_pieces to_remove existing =
     (if \<not> range_overlaps existing to_remove then [existing]
      else (if first_off existing < first_off to_remove
            then (case range_new (rg_first existing) (ad_new (sat_sub_u64 (first_off to_remove) 1)) of
                    Some r \<Rightarrow> [r] | None \<Rightarrow> [])
            else [])
         @ (if last_off existing > last_off to_remove
            then (case range_new (ad_new (sat_add_u64 (last_off to_remove) 1)) (rg_last existing) of
                    Some r \<Rightarrow> [r] | None \<Rightarrow> [])
            else []))"

fun remove_range :: "range \<Rightarrow> range_list \<Rightarrow> range_list" where
  "remove_range to_remove [] = []"
| "remove_range to_remove (existing # rest) =
     remove_pieces to_remove existing @ remove_range to_remove rest"

definition rl_in_range :: "range_list \<Rightarrow> address \<Rightarrow> bool" where
  "rl_in_range rs a = list_ex (\<lambda>r. range_contains r a) rs"

fun rl_merge :: "range_list \<Rightarrow> range_list \<Rightarrow> range_list" where
  "rl_merge rs [] = rs"
| "rl_merge rs (r # others) = rl_merge (insert_range r rs) others"

text \<open>\<open>max_by_key\<close> returns the last of several greatest elements.\<close>

fun max_by_size :: "range_list \<Rightarrow> range option" where
  "max_by_size [] = None"
| "max_by_size (r # rs) = (case max_by_size rs of
      None \<Rightarrow> Some r
    | Some q \<Rightarrow> if range_size r > range_size q then Some r else Some q)"

definition rl_longest_fit :: "range_list \<Rightarrow> address \<Rightarrow> range option" where
  "rl_longest_fit rs a = max_by_size (filter (\<lambda>r. range_contains r a) rs)"

section \<open>The interface\<close>

locale range_set =
  fixes inv :: "'l \<Rightarrow> bool" and mem :: "'l \<Rightarrow> 'p \<Rightarrow> bool"
    and valid :: "'r \<Rightarrow> bool" and pts :: "'r \<Rightarrow> 'p \<Rightarrow> bool"
    and nil :: 'l and ins del :: "'r \<Rightarrow> 'l \<Rightarrow> 'l"
  assumes inv_nil: "inv nil" and mem_nil: "\<not> mem nil p"
    and inv_ins: "inv l \<Longrightarrow> valid r \<Longrightarrow> inv (ins r l)"
    and mem_ins: "inv l \<Longrightarrow> valid r \<Longrightarrow> mem (ins r l) p \<longleftrightarrow> pts r p \<or> mem l p"
    and inv_del: "inv l \<Longrightarrow> valid r \<Longrightarrow> inv (del r l)"
    and mem_del: "inv l \<Longrightarrow> valid r \<Longrightarrow> mem (del r l) p \<longleftrightarrow> mem l p \<and> \<not> pts r p"
begin

lemma fold_ins:
  assumes "inv l" "list_all valid rs"
  shows "inv (fold ins rs l)" "mem (fold ins rs l) p \<longleftrightarrow> mem l p \<or> list_ex (\<lambda>r. pts r p) rs"
proof -
  have "inv (fold ins rs l) \<and> (mem (fold ins rs l) p \<longleftrightarrow> mem l p \<or> list_ex (\<lambda>r. pts r p) rs)"
    using assms by (induction rs arbitrary: l) (auto simp: inv_ins mem_ins)
  then show "inv (fold ins rs l)" "mem (fold ins rs l) p \<longleftrightarrow> mem l p \<or> list_ex (\<lambda>r. pts r p) rs" by simp_all
qed

lemma fold_del:
  assumes "inv l" "list_all valid rs"
  shows "inv (fold del rs l)" "mem (fold del rs l) p \<longleftrightarrow> mem l p \<and> \<not> list_ex (\<lambda>r. pts r p) rs"
proof -
  have "inv (fold del rs l) \<and> (mem (fold del rs l) p \<longleftrightarrow> mem l p \<and> \<not> list_ex (\<lambda>r. pts r p) rs)"
    using assms by (induction rs arbitrary: l) (auto simp: inv_del mem_del)
  then show "inv (fold del rs l)" "mem (fold del rs l) p \<longleftrightarrow> mem l p \<and> \<not> list_ex (\<lambda>r. pts r p) rs" by simp_all
qed

lemma built_from_nil:
  "list_all valid rs \<Longrightarrow> inv (fold ins rs nil) \<and> (mem (fold ins rs nil) p \<longleftrightarrow> list_ex (\<lambda>r. pts r p) rs)"
  using fold_ins [OF inv_nil] by (simp add: mem_nil)

lemma del_ins: "inv l \<Longrightarrow> valid r \<Longrightarrow> mem (del r (ins r l)) p \<longleftrightarrow> mem l p \<and> \<not> pts r p"
  using inv_ins [of l r] by (auto simp: mem_ins mem_del)

lemma ins_del: "inv l \<Longrightarrow> valid r \<Longrightarrow> mem (ins r (del r l)) p \<longleftrightarrow> mem l p \<or> pts r p"
  using inv_del [of l r] by (auto simp: mem_ins mem_del)

end

section \<open>The representation invariant\<close>

abbreviation lo :: "range \<Rightarrow> int" where
  "lo r \<equiv> uint (first_off r)"

abbreviation hi :: "range \<Rightarrow> int" where
  "hi r \<equiv> uint (last_off r)"

definition range_valid :: "range \<Rightarrow> bool" where
  "range_valid r \<longleftrightarrow> first_off r \<le> last_off r"

definition apart :: "range \<Rightarrow> range \<Rightarrow> bool" where
  "apart r q \<longleftrightarrow> hi r + 1 < lo q"

definition rl_inv :: "range_list \<Rightarrow> bool" where
  "rl_inv rs \<longleftrightarrow> list_all range_valid rs \<and> sorted_wrt apart rs"

definition merge_two :: "range \<Rightarrow> range \<Rightarrow> range" where
  "merge_two m e = \<lparr>rg_first = ad_new (min (first_off m) (first_off e)),
                    rg_last = ad_new (max (last_off m) (last_off e))\<rparr>"

fun absorbed :: "range_list \<Rightarrow> range \<Rightarrow> range" where
  "absorbed [] m = m"
| "absorbed (e # rs) m = absorbed rs
     (if range_overlaps m e \<or> range_is_adjacent m e then merge_two m e else m)"

fun kept :: "range_list \<Rightarrow> range \<Rightarrow> range_list" where
  "kept [] m = []"
| "kept (e # rs) m = (if range_overlaps m e \<or> range_is_adjacent m e
      then kept rs (merge_two m e) else e # kept rs m)"

lemma range_valid_int: "range_valid r \<longleftrightarrow> lo r \<le> hi r"
  by (simp add: range_valid_def word_le_def)

lemma uint_sat_add_one: "uint (sat_add_u64 x 1) = (if uint x + 1 < 2 ^ 64 then uint x + 1 else 2 ^ 64 - 1)"
  using uint_lt2p [of x] by (auto simp: sat_add_u64_def U64_MAX_def uint_word_ariths)

lemma uint_sat_sub_one: "uint (sat_sub_u64 x 1) = (if 1 \<le> uint x then uint x - 1 else 0)"
  using uint_lt2p [of x] by (auto simp: sat_sub_u64_def word_le_def uint_word_ariths)

lemma sat_add_one_eq:
  fixes x y :: u64
  shows "sat_add_u64 x 1 = y \<longleftrightarrow> uint y = uint x + 1 \<or> (uint x = 2 ^ 64 - 1 \<and> y = x)"
  using uint_lt2p [of x] uint_lt2p [of y] by (auto simp: word_uint_eq_iff uint_sat_add_one)

lemma touch_iff:
  assumes "range_valid m" "range_valid e"
  shows "range_overlaps m e \<or> range_is_adjacent m e \<longleftrightarrow> \<not> apart m e \<and> \<not> apart e m"
proof -
  have "range_is_adjacent m e \<longleftrightarrow> lo e = hi m + 1 \<or> lo m = hi e + 1
      \<or> (hi m = 2 ^ 64 - 1 \<and> lo e = hi m) \<or> (hi e = 2 ^ 64 - 1 \<and> lo m = hi e)"
    unfolding range_is_adjacent_def sat_add_one_eq by (auto simp: word_uint_eq_iff)
  moreover have "hi m \<le> 2 ^ 64 - 1" "hi e \<le> 2 ^ 64 - 1"
    using uint_lt2p [of "last_off m"] uint_lt2p [of "last_off e"] by simp_all
  ultimately show ?thesis
    using assms unfolding range_overlaps_def range_valid_int word_le_def apart_def by linarith
qed

lemma merge_two_bounds [simp]:
  "lo (merge_two m e) = min (lo m) (lo e)" "hi (merge_two m e) = max (hi m) (hi e)"
  by (auto simp: merge_two_def ad_new_def min_def max_def word_le_def)

lemma insert_scan_absorbed:
  "insert_scan rs i m tr = (absorbed rs m, tr @ snd (insert_scan rs i m []))"
proof (induction rs arbitrary: i m tr)
  case (Cons e rs)
  show ?case
    using Cons.IH [of "Suc i" "merge_two m e" "tr @ [i]"] Cons.IH [of "Suc i" "merge_two m e" "[i]"]
      Cons.IH [of "Suc i" m tr]
    by (cases "range_overlaps m e \<or> range_is_adjacent m e") (simp_all add: merge_two_def)
qed simp

lemma insert_scan_kept:
  "foldl (\<lambda>xs i. vec_remove i xs) (pre @ rs) (rev (snd (insert_scan rs (length pre) m []))) = pre @ kept rs m"
proof (induction rs arbitrary: pre m)
  case (Cons e rs)
  show ?case
  proof (cases "range_overlaps m e \<or> range_is_adjacent m e")
    case True
    then have "snd (insert_scan (e # rs) (length pre) m []) =
        length pre # snd (insert_scan rs (length (pre @ [e])) (merge_two m e) [])"
      using insert_scan_absorbed [of rs "Suc (length pre)" "merge_two m e" "[length pre]"]
      by (simp add: merge_two_def)
    then show ?thesis
      using Cons.IH [of "pre @ [e]" "merge_two m e"] True by (simp add: vec_remove_def)
  next
    case False
    then show ?thesis using Cons.IH [of "pre @ [e]" m] by simp
  qed
qed simp

lemma insert_range_kept:
  "insert_range r rs = (let m = absorbed rs r; ks = kept rs r in
     takeWhile (\<lambda>q. first_off q < first_off m) ks @ m # dropWhile (\<lambda>q. first_off q < first_off m) ks)"
  using insert_scan_kept [where pre = "[]" and rs = rs and m = r] insert_scan_absorbed [of rs 0 r "[]"]
  by (cases rs) (auto simp: insert_range_def vec_insert_def search_pos_def Let_def split_beta
      takeWhile_eq_take [symmetric] dropWhile_eq_drop [symmetric] simp del: insert_scan.simps
      dest: arg_cong [where f = fst])

section \<open>What insertion and removal compute\<close>

lemma kept_subset: "set (kept rs m) \<subseteq> set rs"
  by (induction rs m rule: kept.induct) auto

lemma kept_sorted: "sorted_wrt apart rs \<Longrightarrow> sorted_wrt apart (kept rs m)"
proof (induction rs arbitrary: m)
  case (Cons e rs)
  then show ?case using kept_subset [of rs m] by auto
qed simp

lemma absorbed_valid: "range_valid m \<Longrightarrow> list_all range_valid rs \<Longrightarrow> range_valid (absorbed rs m)"
proof (induction rs arbitrary: m)
  case (Cons e rs)
  then show ?case by (simp add: range_valid_int)
qed simp

lemma absorbed_apart:
  assumes "range_valid m" "range_valid e" "apart e m \<or> apart m e"
    and "list_all range_valid rs" "\<forall>q \<in> set rs. apart e q"
  shows "apart e (absorbed rs m) \<or> apart (absorbed rs m) e"
  using assms
proof (induction rs arbitrary: m)
  case (Cons q rs)
  have V: "range_valid q" "apart e q" using Cons.prems by simp_all
  show ?case
  proof (cases "range_overlaps m q \<or> range_is_adjacent m q")
    case True
    then have "\<not> apart m q" "\<not> apart q m" using touch_iff Cons.prems V by blast+
    then have "apart e (merge_two m q)"
      using Cons.prems(1-3) V unfolding apart_def range_valid_int merge_two_bounds by linarith
    moreover have "range_valid (merge_two m q)"
      using V(1) Cons.prems(1) by (simp add: range_valid_int)
    ultimately show ?thesis using Cons.IH [of "merge_two m q"] Cons.prems True by simp
  next
    case False
    then show ?thesis using Cons.IH [of m] Cons.prems by simp
  qed
qed simp

lemma kept_apart:
  assumes "range_valid m" "rl_inv rs" "e \<in> set (kept rs m)"
  shows "apart e (absorbed rs m) \<or> apart (absorbed rs m) e"
  using assms
proof (induction rs arbitrary: m)
  case (Cons q rs)
  have I: "rl_inv rs" "range_valid q" "\<forall>r \<in> set rs. apart q r" "list_all range_valid rs"
    using Cons.prems(2) by (simp_all add: rl_inv_def)
  have "range_valid (merge_two m q)"
    using I(2) Cons.prems(1) by (simp add: range_valid_int)
  then show ?case
    using Cons.IH [of m] Cons.IH [of "merge_two m q"] Cons.prems I
      absorbed_apart [of m q rs] touch_iff [of m q]
    by (auto split: if_splits)
qed simp

lemma insert_range_inv:
  assumes "rl_inv rs" "range_valid r"
  shows "rl_inv (insert_range r rs)"
proof -
  define m ks where "m = absorbed rs r" and "ks = kept rs r"
  have V: "range_valid m" "list_all range_valid ks" "sorted_wrt apart ks"
    using assms kept_subset [of rs r] kept_sorted [of rs r] absorbed_valid [of r rs]
    by (auto simp: rl_inv_def m_def ks_def list_all_iff)
  have A: "\<And>q. q \<in> set ks \<Longrightarrow> apart q m \<or> apart m q"
    using kept_apart assms by (simp add: m_def ks_def)
  define ts ds where "ts = takeWhile (\<lambda>q. first_off q < first_off m) ks"
    and "ds = dropWhile (\<lambda>q. first_off q < first_off m) ks"
  have K: "ks = ts @ ds" by (simp add: ts_def ds_def)
  have T: "apart q m" if "q \<in> set ts" for q
    using A [of q] that V(1) set_takeWhileD [of q "\<lambda>q. first_off q < first_off m" ks]
    unfolding ts_def apart_def range_valid_int word_less_def by fastforce
  have D: "apart m q" if q: "q \<in> set ds" for q
  proof -
    obtain d dr where d: "ds = d # dr" using q by (cases ds) auto
    have "\<not> first_off d < first_off m"
      using hd_dropWhile [of "\<lambda>q. first_off q < first_off m" ks] d
      unfolding ds_def by (metis list.distinct(1) list.sel(1))
    moreover have "lo d \<le> lo q"
      using q d V K unfolding apart_def range_valid_int by (auto simp: sorted_wrt_append list_all_iff range_valid_int apart_def)
    moreover have "range_valid q" using q V(2) K by (simp add: list_all_iff)
    ultimately show ?thesis
      using A [of q] q K V(1) unfolding apart_def range_valid_int word_less_def by fastforce
  qed
  have "insert_range r rs = ts @ m # ds"
    by (simp add: insert_range_kept m_def ks_def ts_def ds_def Let_def)
  then show ?thesis
    using V T D K by (auto simp: rl_inv_def sorted_wrt_append list_all_iff)
qed

lemma merge_two_contains:
  assumes "range_valid m" "range_valid e" "range_overlaps m e \<or> range_is_adjacent m e"
  shows "range_contains (merge_two m e) a \<longleftrightarrow> range_contains m a \<or> range_contains e a"
proof -
  have "\<not> apart m e" "\<not> apart e m" using touch_iff assms by blast+
  then show ?thesis
    using assms(1,2) unfolding range_contains_def word_le_def apart_def range_valid_int merge_two_bounds
    by linarith
qed

lemma absorbed_kept_contains:
  assumes "range_valid m" "list_all range_valid rs"
  shows "range_contains (absorbed rs m) a \<or> list_ex (\<lambda>q. range_contains q a) (kept rs m)
    \<longleftrightarrow> range_contains m a \<or> list_ex (\<lambda>q. range_contains q a) rs"
  using assms
proof (induction rs arbitrary: m)
  case (Cons e rs)
  have "range_valid (merge_two m e)" using Cons.prems by (simp add: range_valid_int)
  then show ?case
    using Cons.IH [of m] Cons.IH [of "merge_two m e"] Cons.prems merge_two_contains [of m e a]
    by auto
qed simp

lemma insert_range_mem:
  assumes "rl_inv rs" "range_valid r"
  shows "rl_in_range (insert_range r rs) a \<longleftrightarrow> range_contains r a \<or> rl_in_range rs a"
proof -
  let ?P = "\<lambda>q. first_off q < first_off (absorbed rs r)"
  have "list_ex (\<lambda>q. range_contains q a) (takeWhile ?P (kept rs r) @ dropWhile ?P (kept rs r))
      \<longleftrightarrow> list_ex (\<lambda>q. range_contains q a) (kept rs r)"
    by (simp only: takeWhile_dropWhile_id)
  then show ?thesis
    using absorbed_kept_contains [of r rs a] assms
    unfolding rl_in_range_def insert_range_kept Let_def rl_inv_def
    by (simp only: list_ex_append) auto
qed

definition piece_below :: "range \<Rightarrow> range \<Rightarrow> range" where
  "piece_below r e = \<lparr>rg_first = rg_first e, rg_last = ad_new (sat_sub_u64 (first_off r) 1)\<rparr>"

definition piece_above :: "range \<Rightarrow> range \<Rightarrow> range" where
  "piece_above r e = \<lparr>rg_first = ad_new (sat_add_u64 (last_off r) 1), rg_last = rg_last e\<rparr>"

lemma piece_bounds:
  "lo (piece_below r e) = lo e" "hi (piece_above r e) = hi e"
  "lo e < lo r \<Longrightarrow> hi (piece_below r e) = lo r - 1"
  "hi r < hi e \<Longrightarrow> lo (piece_above r e) = hi r + 1"
proof -
  show "lo (piece_below r e) = lo e" "hi (piece_above r e) = hi e"
    by (simp_all add: piece_below_def piece_above_def)
  show "hi (piece_below r e) = lo r - 1" if "lo e < lo r"
  proof -
    have "1 \<le> lo r" using that uint_ge_0 [of "first_off e"] by linarith
    then show ?thesis by (simp add: piece_below_def ad_new_def uint_sat_sub_one)
  qed
  show "lo (piece_above r e) = hi r + 1" if "hi r < hi e"
    using that uint_lt2p [of "last_off e"] unfolding piece_above_def ad_new_def
    by (simp add: uint_sat_add_one)
qed

lemma remove_pieces_cases:
  assumes "range_valid e" "range_valid r"
  shows "remove_pieces r e = (if hi e < lo r \<or> hi r < lo e then [e]
    else (if lo e < lo r then [piece_below r e] else []) @ (if hi r < hi e then [piece_above r e] else []))"
proof -
  have "range_new (rg_first e) (ad_new (sat_sub_u64 (first_off r) 1)) = Some (piece_below r e)"
    if "lo e < lo r"
    using piece_bounds(1) [of r e] piece_bounds(3) [OF that] that
    by (simp add: range_new_def piece_below_def word_le_def)
  moreover have "range_new (ad_new (sat_add_u64 (last_off r) 1)) (rg_last e) = Some (piece_above r e)"
    if "hi r < hi e"
    using piece_bounds(2) [of r e] piece_bounds(4) [OF that] that
    by (simp add: range_new_def piece_above_def word_le_def)
  ultimately show ?thesis
    by (auto simp: remove_pieces_def range_overlaps_def word_le_def word_less_def)
qed

lemma remove_pieces_props:
  assumes "range_valid e" "range_valid r"
  shows "list_all (\<lambda>q. range_valid q \<and> lo e \<le> lo q \<and> hi q \<le> hi e) (remove_pieces r e)"
    "sorted_wrt apart (remove_pieces r e)"
    "list_ex (\<lambda>q. range_contains q a) (remove_pieces r e) \<longleftrightarrow> range_contains e a \<and> \<not> range_contains r a"
  using assms
  by (auto simp: remove_pieces_cases piece_bounds range_valid_int apart_def range_contains_def word_le_def)

lemma remove_range_within:
  "q \<in> set (remove_range r rs) \<Longrightarrow> list_all range_valid rs \<Longrightarrow> range_valid r \<Longrightarrow>
     range_valid q \<and> (\<exists>e \<in> set rs. lo e \<le> lo q \<and> hi q \<le> hi e)"
proof (induction rs)
  case (Cons e rs)
  then show ?case
    using remove_pieces_props(1) [of e r] by (auto simp: list_all_iff)
qed simp

lemma remove_range_inv:
  assumes "rl_inv rs" "range_valid r"
  shows "rl_inv (remove_range r rs)"
  using assms
proof (induction rs)
  case (Cons e rs)
  have e: "range_valid e" "list_all range_valid rs" "\<forall>q \<in> set rs. apart e q" and I: "rl_inv (remove_range r rs)"
    using Cons by (simp_all add: rl_inv_def)
  have "apart p q" if "p \<in> set (remove_pieces r e)" "q \<in> set (remove_range r rs)" for p q
    using remove_range_within [OF that(2) e(2) \<open>range_valid r\<close>] that(1) e(3)
      remove_pieces_props(1) [OF e(1) \<open>range_valid r\<close>]
    by (fastforce simp: list_all_iff apart_def)
  then show ?case
    using I remove_pieces_props(1,2) [OF e(1) \<open>range_valid r\<close>]
    by (auto simp: rl_inv_def sorted_wrt_append list_all_iff)
qed (simp add: rl_inv_def)

lemma remove_range_mem:
  assumes "list_all range_valid rs" "range_valid r"
  shows "rl_in_range (remove_range r rs) a \<longleftrightarrow> rl_in_range rs a \<and> \<not> range_contains r a"
  using assms by (induction rs) (auto simp: rl_in_range_def remove_pieces_props(3))

interpretation rl: range_set rl_inv rl_in_range range_valid range_contains "[]" insert_range remove_range
  using insert_range_inv insert_range_mem remove_range_inv remove_range_mem
  by unfold_locales (auto simp: rl_inv_def rl_in_range_def)

lemma rl_merge_fold: "rl_merge rs others = fold insert_range others rs"
  by (induction rs others rule: rl_merge.induct) simp_all

section \<open>The longest fit\<close>

lemma max_by_size_some:
  "max_by_size rs = None \<longleftrightarrow> rs = []"
  "max_by_size rs = Some q \<Longrightarrow> q \<in> set rs \<and> (\<forall>r \<in> set rs. range_size r \<le> range_size q)"
proof -
  show "max_by_size rs = None \<longleftrightarrow> rs = []" by (cases rs) (auto split: option.splits)
  show "max_by_size rs = Some q \<Longrightarrow> q \<in> set rs \<and> (\<forall>r \<in> set rs. range_size r \<le> range_size q)"
  proof (induction rs arbitrary: q)
    case (Cons r rs)
    show ?case
    proof (cases "max_by_size rs")
      case None
      then have "rs = []" by (cases rs) (auto split: option.splits if_splits)
      then show ?thesis using Cons.prems by simp
    next
      case (Some p)
      then show ?thesis
        using Cons.IH [OF Some] Cons.prems by (auto split: if_splits)
    qed
  qed simp
qed

lemma rl_inv_unique:
  assumes "rl_inv rs" "q \<in> set rs" "r \<in> set rs" "range_contains q a" "range_contains r a"
  shows "q = r"
proof -
  have "\<not> apart q r" "\<not> apart r q"
    using assms(4,5) unfolding apart_def range_contains_def word_le_def by linarith+
  then show ?thesis
    using assms(1-3) unfolding rl_inv_def in_set_conv_nth
    by (metis linorder_neqE_nat sorted_wrt_nth_less)
qed

section \<open>Properties\<close>

definition range_of :: "u64 \<Rightarrow> u64 \<Rightarrow> range" where
  "range_of a b = \<lparr>rg_first = ad_new a, rg_last = ad_new b\<rparr>"

text \<open>
  Property C16. A list built by any sequence of insertions followed by removals keeps its
  ranges ordered with a gap of at least one address between neighbours, so that overlapping
  or adjacent ranges are never left apart, and it holds exactly the inserted addresses that
  were not removed.
\<close>

theorem range_list_invariant:
  assumes "rl_inv rs" "list_all range_valid ins" "list_all range_valid dels"
  shows "rl_inv (fold remove_range dels (fold insert_range ins rs))
    \<and> (rl_in_range (fold remove_range dels (fold insert_range ins rs)) a
        \<longleftrightarrow> (rl_in_range rs a \<or> list_ex (\<lambda>r. range_contains r a) ins)
          \<and> \<not> list_ex (\<lambda>r. range_contains r a) dels)"
  using rl.fold_ins [OF assms(1,2)] rl.fold_del [OF rl.fold_ins(1) [OF assms(1,2)] assms(3)] by simp

theorem range_list_invariant_witness:
  "rl_inv (fold remove_range [range_of 2 4] (fold insert_range [range_of 0 1, range_of 2 5] []))
   \<and> fold remove_range [range_of 2 4] (fold insert_range [range_of 0 1, range_of 2 5] []) =
       [range_of 0 1, range_of 5 5]
   \<and> rl_in_range (fold remove_range [range_of 2 4] (fold insert_range [range_of 0 1, range_of 2 5] [])) (ad_new 5)"
proof -
  have I: "rl_inv []" "list_all range_valid [range_of 0 1, range_of 2 5]" "list_all range_valid [range_of 2 4]"
    by code_simp+
  have "fold remove_range [range_of 2 4] (fold insert_range [range_of 0 1, range_of 2 5] []) =
       [range_of 0 1, range_of 5 5]" by code_simp
  moreover have "list_ex (\<lambda>r. range_contains r (ad_new 5)) [range_of 0 1, range_of 2 5]"
    "\<not> list_ex (\<lambda>r. range_contains r (ad_new 5)) [range_of 2 4]" by code_simp+
  ultimately show ?thesis using range_list_invariant [OF I, of "ad_new 5"] by simp
qed

text \<open>
  Merging two lists is the union of their addresses and keeps the invariant.
\<close>

theorem range_list_merge_union:
  assumes "rl_inv rs" "rl_inv others"
  shows "rl_inv (rl_merge rs others)
    \<and> (rl_in_range (rl_merge rs others) a \<longleftrightarrow> rl_in_range rs a \<or> rl_in_range others a)"
  using rl.fold_ins [OF assms(1), of others] assms(2)
  by (simp add: rl_merge_fold rl_inv_def [of others] rl_in_range_def [of others])

theorem range_list_merge_union_witness:
  "rl_inv (rl_merge [range_of 0 1] [range_of 1 3, range_of 6 7])
   \<and> rl_merge [range_of 0 1] [range_of 1 3, range_of 6 7] = [range_of 0 3, range_of 6 7]"
proof -
  have I: "rl_inv [range_of 0 1]" "rl_inv [range_of 1 3, range_of 6 7]" by code_simp+
  moreover have "rl_merge [range_of 0 1] [range_of 1 3, range_of 6 7] = [range_of 0 3, range_of 6 7]" by code_simp
  ultimately show ?thesis using range_list_merge_union [OF I] by simp
qed

text \<open>
  The longest fit is the range of the list that holds the address, and there is
  none exactly when the address is not in the list.
\<close>

theorem range_list_longest_fit:
  assumes "rl_inv rs"
  shows "(rl_longest_fit rs a = None \<longleftrightarrow> \<not> rl_in_range rs a)
    \<and> (rl_longest_fit rs a = Some q \<longleftrightarrow> q \<in> set rs \<and> range_contains q a)"
proof -
  have "rl_longest_fit rs a = None \<longleftrightarrow> \<not> rl_in_range rs a"
    by (simp add: rl_longest_fit_def max_by_size_some(1) rl_in_range_def list_ex_iff filter_empty_conv)
  moreover have "q \<in> set rs \<and> range_contains q a" if "rl_longest_fit rs a = Some q" for q
    using max_by_size_some(2) that unfolding rl_longest_fit_def by fastforce
  moreover have "rl_in_range rs a" if "q \<in> set rs" "range_contains q a"
    using that by (auto simp: rl_in_range_def list_ex_iff)
  ultimately show ?thesis
    using rl_inv_unique [OF assms] by (metis option.exhaust)
qed

theorem range_list_longest_fit_witness:
  "rl_longest_fit [range_of 0 3, range_of 6 7] (ad_new 2) = Some (range_of 0 3)
   \<and> rl_longest_fit [range_of 0 3, range_of 6 7] (ad_new 5) = None"
proof -
  have I: "rl_inv [range_of 0 3, range_of 6 7]" by code_simp
  have "range_of 0 3 \<in> set [range_of 0 3, range_of 6 7] \<and> range_contains (range_of 0 3) (ad_new 2)"
    "\<not> rl_in_range [range_of 0 3, range_of 6 7] (ad_new 5)" by code_simp+
  then show ?thesis
    using range_list_longest_fit [OF I, of "ad_new 2" "range_of 0 3"] range_list_longest_fit [OF I, of "ad_new 5"]
    by simp
qed

end
