(* ===== verification/Join_Tables.thy ===== *)
theory Join_Tables
  imports Space_Heap Range_List "HOL-Library.Product_Lexorder" "HOL-Library.List_Lexorder"
begin

text \<open>
  The records of joined variables, module \<open>manager_join\<close> of src/src/space.rs: a value split over several locations is given one
  address in the join space. \<open>split_set\<close> holds the records ordered by \<open>less_than\<close>, \<open>split_list\<close> the same
  records by address. The index of a space is read from the heap.
\<close>

section \<open>Records\<close>

record join_record =
  jr_pieces :: "handle_varnode list"
  jr_unified :: handle_varnode

definition num_pieces :: "join_record \<Rightarrow> nat" where
  "num_pieces r = length (jr_pieces r)"

definition is_float_extension :: "join_record \<Rightarrow> bool" where
  "is_float_extension r \<longleftrightarrow> length (jr_pieces r) = 1"

definition get_piece :: "join_record \<Rightarrow> nat \<Rightarrow> handle_varnode res" where
  "get_piece r i = (if i < length (jr_pieces r) then Ret (jr_pieces r ! i) else Panic)"

definition hv_less_than :: "space_heap \<Rightarrow> handle_varnode \<Rightarrow> handle_varnode \<Rightarrow> bool" where
  "hv_less_than hp a b \<longleftrightarrow>
     (if hv_space a \<noteq> hv_space b then index_at hp (hv_space a) < index_at hp (hv_space b)
      else if hv_offset a \<noteq> hv_offset b then hv_offset a < hv_offset b
      else hv_size a > hv_size b)"

fun pieces_less :: "space_heap \<Rightarrow> handle_varnode list \<Rightarrow> handle_varnode list \<Rightarrow> bool" where
  "pieces_less hp [] ys \<longleftrightarrow> ys \<noteq> []"
| "pieces_less hp (x # xs) [] \<longleftrightarrow> False"
| "pieces_less hp (x # xs) (y # ys) \<longleftrightarrow> (if x \<noteq> y then hv_less_than hp x y else pieces_less hp xs ys)"

definition jr_less_than :: "space_heap \<Rightarrow> join_record \<Rightarrow> join_record \<Rightarrow> bool" where
  "jr_less_than hp a b \<longleftrightarrow>
     (if hv_size (jr_unified a) \<noteq> hv_size (jr_unified b) then hv_size (jr_unified a) < hv_size (jr_unified b)
      else pieces_less hp (jr_pieces a) (jr_pieces b))"

definition jr_eq :: "space_heap \<Rightarrow> join_record \<Rightarrow> join_record \<Rightarrow> bool" where
  "jr_eq hp a b \<longleftrightarrow> \<not> jr_less_than hp a b \<and> \<not> jr_less_than hp b a"

definition rec_less_than_as_ordering :: "space_heap \<Rightarrow> join_record \<Rightarrow> join_record \<Rightarrow> ordering" where
  "rec_less_than_as_ordering hp a b =
     (if jr_less_than hp a b then Less else if jr_less_than hp b a then Greater else Equal)"

section \<open>Tables\<close>

text \<open>
  \<open>slice::binary_search_by\<close> of the standard library: \<open>Inr\<close> the position of an element that compares equal, or
  \<open>Inl\<close> the position where one can be inserted.
\<close>

function binary_search_by :: "('a \<Rightarrow> ordering) \<Rightarrow> 'a list \<Rightarrow> nat \<Rightarrow> nat \<Rightarrow> nat + nat" where
  "binary_search_by f xs low high =
     (if low < high then
        (let mid = (low + high) div 2
         in case f (xs ! mid) of
              Equal \<Rightarrow> Inr mid
            | Less \<Rightarrow> binary_search_by f xs (mid + 1) high
            | Greater \<Rightarrow> binary_search_by f xs low mid)
      else Inl low)"
  by pat_completeness auto
termination
  by (relation "measure (\<lambda>(f, xs, low, high). high - low)") auto

declare binary_search_by.simps [simp del]

record join_tables =
  join_allocate :: u64
  split_set :: "join_record list"
  split_list :: "join_record list"

definition join_tables_new :: join_tables where
  "join_tables_new = \<lparr>join_allocate = 0, split_set = [], split_list = []\<rparr>"

definition join_total :: "handle_varnode list \<Rightarrow> u32 \<Rightarrow> u32 res" where
  "join_total pieces logical_size =
     (if pieces = [] then Panic
      else if length pieces = 1 \<and> logical_size = 0 then Panic
      else if logical_size \<noteq> 0 then (if length pieces \<noteq> 1 then Panic else Ret logical_size)
      else (let acc = foldl (\<lambda>acc piece. acc + word_of_int (hv_size piece)) 0 pieces
            in if acc = 0 then Panic else Ret acc))"

definition make_join :: "handle_varnode list \<Rightarrow> nat \<Rightarrow> u64 \<Rightarrow> u32 \<Rightarrow> join_record" where
  "make_join pieces joinspace off totalsize =
     \<lparr>jr_pieces = pieces, jr_unified = \<lparr>hv_space = joinspace, hv_offset = off, hv_size = sint totalsize\<rparr>\<rparr>"

definition find_add_join ::
  "space_heap \<Rightarrow> handle_varnode list \<Rightarrow> u32 \<Rightarrow> nat \<Rightarrow> join_tables \<Rightarrow> (u64 \<times> join_tables) res" where
  "find_add_join hp pieces logical_size joinspace jt =
     res_bind (join_total pieces logical_size) (\<lambda>totalsize.
       let find = (\<lambda>r. binary_search_by (\<lambda>q. rec_less_than_as_ordering hp q r) (split_set jt) 0 (length (split_set jt)))
       in case find (make_join pieces joinspace 0 totalsize) of
            Inr idx \<Rightarrow> Ret (hv_offset (jr_unified (split_set jt ! idx)), jt)
          | Inl _ \<Rightarrow>
              (let roundsize = (totalsize + 15) AND NOT 0xf;
                   newjoin = make_join pieces joinspace (join_allocate jt) totalsize;
                   pos = (case find newjoin of Inr i \<Rightarrow> i | Inl e \<Rightarrow> e);
                   set' = vec_insert pos newjoin (split_set jt);
                   list' = split_list jt @ [set' ! pos]
               in Ret (hv_offset (jr_unified (last list')),
                       \<lparr>join_allocate = join_allocate jt + ucast roundsize, split_set = set', split_list = list'\<rparr>)))"

definition find_join :: "join_tables \<Rightarrow> u64 \<Rightarrow> join_record res" where
  "find_join jt off =
     (case binary_search_by (\<lambda>r. cmp (hv_offset (jr_unified r)) off) (split_list jt) 0 (length (split_list jt)) of
        Inr idx \<Rightarrow> Ret (split_list jt ! idx)
      | Inl _ \<Rightarrow> Panic)"

end
