(* ===== verification/Space_Registry.thy ===== *)
theory Space_Registry
  imports Join_Tables
begin

text \<open>
  The manager of the address spaces, \<open>SpaceRegistry\<close> of src/src/space.rs. It keeps handles by index, by
  name and by shortcut character, a slot for each special space, and the join tables. An operation that
  changes spaces returns the heap, one that changes the manager returns it; an error comes with the state it
  leaves behind. Characters are those of one byte. The table of call specifications is left out.
\<close>

section \<open>State\<close>

record registry =
  base_list :: "nat option list"
  name_to_space :: "string \<rightharpoonup> nat"
  shortcut_to_space :: "char \<rightharpoonup> nat"
  constant_space :: "nat option"
  default_code_space :: "nat option"
  default_data_space :: "nat option"
  iop_space :: "nat option"
  fspec_space :: "nat option"
  join_space :: "nat option"
  stack_space :: "nat option"
  uniq_space :: "nat option"
  reg_joins :: join_tables

definition registry_new :: registry where
  "registry_new = \<lparr>base_list = [], name_to_space = Map.empty, shortcut_to_space = Map.empty, constant_space = None,
     default_code_space = None, default_data_space = None, iop_space = None, fspec_space = None,
     join_space = None, stack_space = None, uniq_space = None,
     reg_joins = join_tables_new\<rparr>"

section \<open>Shortcuts\<close>

definition lower_range :: "char \<Rightarrow> bool" where
  "lower_range c \<longleftrightarrow> 97 \<le> (of_char c :: nat) \<and> (of_char c :: nat) \<le> 122"

definition next_char :: "char \<Rightarrow> char" where
  "next_char c = (let n = char_of ((of_char c + 1) mod 256 :: nat) in if lower_range n then n else CHR ''a'')"

text \<open>A shortcut is the first character of a name; names are strings of 8-bit characters.\<close>

definition first_shortcut :: "addr_space \<Rightarrow> char" where
  "first_shortcut s =
     (let c = (case sp_type s of
           Constant \<Rightarrow> CHR ''#''
         | Processor \<Rightarrow> if sp_name s = ''register'' then CHR ''%''
                        else (case sp_name s of [] \<Rightarrow> char_of (0 :: nat) | x # _ \<Rightarrow> x)
         | SpaceBaseType \<Rightarrow> CHR ''s''
         | Internal \<Rightarrow> CHR ''u''
         | Fspec \<Rightarrow> CHR ''f''
         | Join \<Rightarrow> CHR ''j''
         | Iop \<Rightarrow> CHR ''i'')
      in if 65 \<le> (of_char c :: nat) \<and> (of_char c :: nat) \<le> 90 then char_of (of_char c + 0x20 :: nat) else c)"

text \<open>The loop of \<open>assign_shortcut\<close>: the free character found, or \<open>None\<close> after 26 collisions.\<close>

function shortcut_loop :: "(char \<rightharpoonup> nat) \<Rightarrow> nat \<Rightarrow> char \<Rightarrow> char option" where
  "shortcut_loop m collision_count c =
     (if m c = None then Some c
      else if collision_count + 1 > 26 then None
      else shortcut_loop m (collision_count + 1) (next_char c))"
  by pat_completeness auto
termination
  by (relation "measure (\<lambda>(m, n, c). 26 - n)") auto

declare shortcut_loop.simps [simp del]

definition assign_shortcut :: "nat \<Rightarrow> space_heap \<Rightarrow> registry \<Rightarrow> space_heap \<times> registry" where
  "assign_shortcut h hp rg =
     (if sp_shortcut (space_at hp h) \<noteq> CHR '' ''
      then (hp, rg\<lparr>shortcut_to_space := (shortcut_to_space rg)(sp_shortcut (space_at hp h) \<mapsto> h)\<rparr>)
      else (case shortcut_loop (shortcut_to_space rg) 0 (first_shortcut (space_at hp h)) of
              Some c \<Rightarrow> (update_space h (sp_shortcut_update (\<lambda>_. c)) hp,
                         rg\<lparr>shortcut_to_space := (shortcut_to_space rg)(c \<mapsto> h)\<rparr>)
            | None \<Rightarrow> (update_space h (sp_shortcut_update (\<lambda>_. CHR ''z'')) hp, rg)))"

section \<open>Insertion\<close>

record insert_flags =
  wrong_type :: bool
  dup_name :: bool

text \<open>
  The match of \<open>insert_space\<close> on the type: errors that return at once, the special slot of the type, and
  the mark on the base of an overlay.
\<close>

definition insert_by_type ::
  "nat \<Rightarrow> space_heap \<Rightarrow> registry \<Rightarrow> ((string + insert_flags) \<times> space_heap \<times> registry) res" where
  "insert_by_type h hp rg =
     (let s = space_at hp h;
          flags = (\<lambda>w d. Inr \<lparr>wrong_type = w, dup_name = d\<rparr>)
      in case sp_type s of
           Constant \<Rightarrow>
             if sp_index s \<noteq> 0 then Ret (Inl ''const space must be assigned index 0'', hp, rg)
             else Ret (flags (sp_name s \<noteq> ''const'') False, hp, rg\<lparr>constant_space := Some h\<rparr>)
         | Internal \<Rightarrow>
             Ret (flags (sp_name s \<noteq> ''unique'') (uniq_space rg \<noteq> None), hp, rg\<lparr>uniq_space := Some h\<rparr>)
         | Fspec \<Rightarrow>
             Ret (flags (sp_name s \<noteq> ''fspec'') (fspec_space rg \<noteq> None), hp, rg\<lparr>fspec_space := Some h\<rparr>)
         | Join \<Rightarrow>
             Ret (flags (sp_name s \<noteq> ''join'') (join_space rg \<noteq> None), hp, rg\<lparr>join_space := Some h\<rparr>)
         | Iop \<Rightarrow>
             Ret (flags (sp_name s \<noteq> ''iop'') (iop_space rg \<noteq> None), hp, rg\<lparr>iop_space := Some h\<rparr>)
         | _ \<Rightarrow>
             (let is_stack = (sp_type s = SpaceBaseType \<and> sp_name s = ''stack'');
                  dup = (is_stack \<and> stack_space rg \<noteq> None);
                  rg1 = (if is_stack then rg\<lparr>stack_space := Some h\<rparr> else rg)
              in if is_overlay s
                 then (case get_contain hp h of
                         None \<Rightarrow> Panic
                       | Some c \<Rightarrow> Ret (flags False dup, update_space c (set_flags OVERLAYBASE) hp, rg1))
                 else if is_other_space s \<and> sp_index s \<noteq> 1
                 then Ret (Inl ''OTHER space must be assigned index 1'', hp, rg1)
                 else Ret (flags False dup, hp, rg1)))"

definition grow :: "nat \<Rightarrow> 'a option list \<Rightarrow> 'a option list" where
  "grow idx xs = (if length xs \<le> idx then xs @ replicate (idx + 1 - length xs) None else xs)"

definition insert_message :: "string \<Rightarrow> bool \<Rightarrow> bool \<Rightarrow> string option \<Rightarrow> string" where
  "insert_message name mismatch dup holder =
     ''Space '' @ name
     @ (if mismatch then '' was initialized with wrong type'' else [])
     @ (if dup then '' was initialized more than once'' else [])
     @ (case holder of None \<Rightarrow> [] | Some n \<Rightarrow> '' was assigned as id duplicating: '' @ n)"

definition insert_space :: "nat \<Rightarrow> space_heap \<Rightarrow> registry \<Rightarrow> ((string + unit) \<times> space_heap \<times> registry) res" where
  "insert_space h hp rg =
     res_bind (insert_by_type h hp rg) (\<lambda>(r, hp1, rg1). case r of
        Inl e \<Rightarrow> Ret (Inl e, hp1, rg1)
      | Inr fl \<Rightarrow>
          if index_at hp h < 0 then Panic
          else
            (let name = name_at hp h;
                 idx = nat (index_at hp h);
                 rg2 = rg1\<lparr>base_list := grow idx (base_list rg1)\<rparr>;
                 dup_id = (base_list rg2 ! idx \<noteq> None);
                 clean = (\<not> wrong_type fl \<and> \<not> dup_name fl \<and> \<not> dup_id);
                 dup = (dup_name fl \<or> (clean \<and> name_to_space rg2 name \<noteq> None));
                 rg3 = (if clean then rg2\<lparr>name_to_space := (name_to_space rg2)(name \<mapsto> h)\<rparr> else rg2)
             in if wrong_type fl \<or> dup \<or> dup_id
                then Ret (Inl (insert_message name (wrong_type fl) dup
                                (map_option (name_at hp1) (base_list rg3 ! idx))), hp1, rg3)
                else
                  (let rg4 = rg3\<lparr>base_list := (base_list rg3)[idx := Some h]\<rparr>;
                       hp2 = update_space h (\<lambda>s. s\<lparr>sp_refcount := wrap_i32 (sp_refcount s + 1)\<rparr>) hp1;
                       (hp3, rg5) = assign_shortcut h hp2 rg4
                   in Ret (Inr (), hp3, rg5))))"

section \<open>Queries\<close>

definition get_space_by_name :: "registry \<Rightarrow> string \<Rightarrow> nat option" where
  "get_space_by_name rg nm = name_to_space rg nm"

definition get_space_by_shortcut :: "registry \<Rightarrow> char \<Rightarrow> nat option" where
  "get_space_by_shortcut rg c = shortcut_to_space rg c"

definition get_default_size :: "space_heap \<Rightarrow> registry \<Rightarrow> u32 res" where
  "get_default_size hp rg = (case default_code_space rg of
     None \<Rightarrow> Panic | Some h \<Rightarrow> Ret (sp_address_size (space_at hp h)))"

definition num_spaces :: "registry \<Rightarrow> nat" where
  "num_spaces rg = length (base_list rg)"

definition get_space :: "registry \<Rightarrow> nat \<Rightarrow> nat option" where
  "get_space rg i = (if i < length (base_list rg) then base_list rg ! i else None)"

fun first_some :: "'a option list \<Rightarrow> 'a option" where
  "first_some [] = None"
| "first_some (None # xs) = first_some xs"
| "first_some (Some x # xs) = Some x"

text \<open>The cast of an index to \<open>usize\<close>; a negative one gives a position past the end of every list.\<close>

definition as_usize :: "i32 \<Rightarrow> nat" where
  "as_usize i = nat (i mod 2 ^ 64)"

definition get_next_space_in_order :: "space_heap \<Rightarrow> registry \<Rightarrow> nat option \<Rightarrow> nat option" where
  "get_next_space_in_order hp rg spc = (case spc of
      None \<Rightarrow> (case base_list rg of [] \<Rightarrow> None | x # _ \<Rightarrow> x)
    | Some h \<Rightarrow> first_some (drop (as_usize (wrap_i32 (index_at hp h + 1))) (base_list rg)))"

section \<open>Settings\<close>

definition set_default_code_space :: "nat \<Rightarrow> registry \<Rightarrow> string + registry" where
  "set_default_code_space index rg =
     (if default_code_space rg \<noteq> None then Inl ''Default space set multiple times''
      else case get_space rg index of
             None \<Rightarrow> Inl ''Bad index for default space''
           | Some h \<Rightarrow> Inr (rg\<lparr>default_code_space := Some h, default_data_space := Some h\<rparr>))"

definition set_default_data_space :: "nat \<Rightarrow> registry \<Rightarrow> string + registry" where
  "set_default_data_space index rg =
     (if default_code_space rg = None then Inl ''Default data space must be set after the code space''
      else case get_space rg index of
             None \<Rightarrow> Inl ''Bad index for default data space''
           | Some h \<Rightarrow> Inr (rg\<lparr>default_data_space := Some h\<rparr>))"

definition set_reverse_justified :: "nat \<Rightarrow> space_heap \<Rightarrow> space_heap" where
  "set_reverse_justified h hp = update_space h (set_flags REVERSE_JUSTIFICATION) hp"

definition mark_near_pointers :: "nat \<Rightarrow> i32 \<Rightarrow> space_heap \<Rightarrow> space_heap" where
  "mark_near_pointers h sz hp =
     update_space h (\<lambda>s. let s1 = set_flags HAS_NEARPOINTERS s
        in if sp_minimum_pointer_size s1 = 0 \<and> sp_address_size s1 \<noteq> word_of_int sz
           then s1\<lparr>sp_minimum_pointer_size := sz\<rparr> else s1) hp"

definition set_infer_ptr_bounds :: "nat \<Rightarrow> u64 \<Rightarrow> u64 \<Rightarrow> space_heap \<Rightarrow> space_heap" where
  "set_infer_ptr_bounds h first lst hp =
     update_space h (\<lambda>s. s\<lparr>sp_lower_bound := first, sp_upper_bound := lst\<rparr>) hp"

definition set_deadcode_delay :: "nat \<Rightarrow> i32 \<Rightarrow> space_heap \<Rightarrow> space_heap" where
  "set_deadcode_delay h delaydelta hp = update_space h (\<lambda>s. s\<lparr>sp_deadcode_delay := delaydelta\<rparr>) hp"

definition registry_truncate_space :: "string \<Rightarrow> u32 \<Rightarrow> space_heap \<Rightarrow> registry \<Rightarrow> string + space_heap" where
  "registry_truncate_space name newsize hp rg = (case get_space_by_name rg name of
      None \<Rightarrow> Inl (''Unknown space in <truncate_space> command: '' @ name)
    | Some h \<Rightarrow> Inr (update_space h (truncate_space newsize) hp))"

fun copy_inserts :: "nat option list \<Rightarrow> space_heap \<Rightarrow> registry \<Rightarrow> ((string + unit) \<times> space_heap \<times> registry) res" where
  "copy_inserts [] hp rg = Ret (Inr (), hp, rg)"
| "copy_inserts (None # hs) hp rg = copy_inserts hs hp rg"
| "copy_inserts (Some h # hs) hp rg =
     res_bind (insert_space h hp rg) (\<lambda>r. case r of
        (Inl e, hp1, rg1) \<Rightarrow> Ret (Inl e, hp1, rg1)
      | (Inr _, hp1, rg1) \<Rightarrow> copy_inserts hs hp1 rg1)"

definition copy_spaces :: "registry \<Rightarrow> space_heap \<Rightarrow> registry \<Rightarrow> ((string + unit) \<times> space_heap \<times> registry) res" where
  "copy_spaces op2 hp rg =
     res_bind (copy_inserts (base_list op2) hp rg) (\<lambda>r. case r of
        (Inl e, hp1, rg1) \<Rightarrow> Ret (Inl e, hp1, rg1)
      | (Inr _, hp1, rg1) \<Rightarrow>
          (case default_code_space op2 of
             None \<Rightarrow> Panic
           | Some c \<Rightarrow>
               (case set_default_code_space (as_usize (index_at hp1 c)) rg1 of
                  Inl e \<Rightarrow> Ret (Inl e, hp1, rg1)
                | Inr rg2 \<Rightarrow>
                    (case default_data_space op2 of
                       None \<Rightarrow> Panic
                     | Some dt \<Rightarrow>
                         (case set_default_data_space (as_usize (index_at hp1 dt)) rg2 of
                            Inl e \<Rightarrow> Ret (Inl e, hp1, rg2)
                          | Inr rg3 \<Rightarrow> Ret (Inr (), hp1, rg3))))))"

section \<open>Joins and base registers\<close>

definition registry_find_add_join ::
  "space_heap \<Rightarrow> handle_varnode list \<Rightarrow> u32 \<Rightarrow> registry \<Rightarrow> (u64 \<times> registry) res" where
  "registry_find_add_join hp pieces logical_size rg = (case join_space rg of
      None \<Rightarrow> Panic
    | Some joinspace \<Rightarrow>
        res_map (\<lambda>(off, jt). (off, rg\<lparr>reg_joins := jt\<rparr>))
          (find_add_join hp pieces logical_size joinspace (reg_joins rg)))"

definition registry_find_join :: "registry \<Rightarrow> u64 \<Rightarrow> join_record res" where
  "registry_find_join rg off = find_join (reg_joins rg) off"

definition add_spacebase_pointer ::
  "nat \<Rightarrow> handle_varnode \<Rightarrow> i32 \<Rightarrow> bool \<Rightarrow> space_heap \<Rightarrow> (string + space_heap) res" where
  "add_spacebase_pointer basespace ptrdata trunc_size stack_growth hp =
     set_base_register basespace ptrdata trunc_size stack_growth hp"

end
