(* ===== verification/Join_Laws.thy ===== *)
theory Join_Laws
  imports Join_Tables
begin

text \<open>
  The join tables as a numbering of splits: bisection finds the one record of a key, a request for the same pieces
  and size gives the same address, the record is found again at that address, and the
  addresses given to different splits do not overlap.
\<close>

section \<open>Bisection over a list sorted by a key\<close>

definition key_sorted :: "('a \<Rightarrow> 'k :: linorder) \<Rightarrow> 'a list \<Rightarrow> bool" where
  "key_sorted key xs \<longleftrightarrow> sorted_wrt (\<lambda>a b. key a < key b) xs"

lemma key_sorted_nth: "key_sorted key xs \<Longrightarrow> i < j \<Longrightarrow> j < length xs \<Longrightarrow> key (xs ! i) < key (xs ! j)"
  by (simp add: key_sorted_def sorted_wrt_iff_nth_less)

lemma key_sorted_inj:
  assumes "key_sorted key xs" "i < length xs" "j < length xs" "key (xs ! i) = key (xs ! j)"
  shows "i = j"
  using key_sorted_nth [OF assms(1), of i j] key_sorted_nth [OF assms(1), of j i] assms
  by (cases i j rule: linorder_cases) auto

lemma binary_search_cong:
  "(\<And>x. x \<in> set xs \<Longrightarrow> f x = g x) \<Longrightarrow> high \<le> length xs \<Longrightarrow> binary_search_by f xs low high = binary_search_by g xs low high"
proof (induction f xs low high rule: binary_search_by.induct)
  case (1 f xs low high)
  have "f (xs ! ((low + high) div 2)) = g (xs ! ((low + high) div 2))" if "low < high"
    using "1.prems" that by (intro "1.prems"(1) nth_mem) simp
  then show ?case
    using "1.IH" [OF _ refl] "1.prems"
    by (subst (1 2) binary_search_by.simps) (auto simp: Let_def split: ordering.splits)
qed

lemma binary_search_found:
  "low \<le> n \<Longrightarrow> n < high \<Longrightarrow> high \<le> length xs \<Longrightarrow> (\<And>i. i < n \<Longrightarrow> f (xs ! i) = Less) \<Longrightarrow> f (xs ! n) = Equal
   \<Longrightarrow> (\<And>i. n < i \<Longrightarrow> i < length xs \<Longrightarrow> f (xs ! i) = Greater) \<Longrightarrow> binary_search_by f xs low high = Inr n"
proof (induction f xs low high rule: binary_search_by.induct)
  case (1 f xs low high)
  define mid where "mid = (low + high) div 2"
  have lt: "low < high" and mid: "low \<le> mid" "mid < high" using "1.prems" by (auto simp: mid_def)
  show ?case
    using "1.IH" [OF lt mid_def] "1.prems" mid lt
    by (cases mid n rule: linorder_cases) (simp_all add: binary_search_by.simps [of f xs low high] mid_def [symmetric])
qed

lemma binary_search_absent:
  "low \<le> n \<Longrightarrow> n \<le> high \<Longrightarrow> high \<le> length xs \<Longrightarrow> (\<And>i. i < n \<Longrightarrow> f (xs ! i) = Less)
   \<Longrightarrow> (\<And>i. n \<le> i \<Longrightarrow> i < length xs \<Longrightarrow> f (xs ! i) = Greater) \<Longrightarrow> binary_search_by f xs low high = Inl n"
proof (induction f xs low high rule: binary_search_by.induct)
  case (1 f xs low high)
  define mid where "mid = (low + high) div 2"
  show ?case
  proof (cases "low < high")
    case lt: True
    have mid: "low \<le> mid" "mid < high" using lt by (auto simp: mid_def)
    show ?thesis
      using "1.IH" [OF lt mid_def] "1.prems" mid lt
      by (cases "mid < n") (simp_all add: binary_search_by.simps [of f xs low high] mid_def [symmetric])
  qed (use "1.prems" in \<open>simp add: binary_search_by.simps [of f xs low high]\<close>)
qed

text \<open>On a list sorted by a key, the search for a key finds the position of its element or the number of smaller ones.\<close>

lemma key_search_found:
  assumes "key_sorted key xs" "n < length xs"
  shows "binary_search_by (\<lambda>x. cmp (key x) (key (xs ! n))) xs 0 (length xs) = Inr n"
proof (rule binary_search_found)
  fix i assume "i < n" then show "cmp (key (xs ! i)) (key (xs ! n)) = Less"
    using key_sorted_nth [OF assms(1)] assms(2) by (simp add: cmp_def)
next
  fix i assume "n < i" "i < length xs"
  then have "key (xs ! n) < key (xs ! i)" using key_sorted_nth [OF assms(1)] by simp
  then show "cmp (key (xs ! i)) (key (xs ! n)) = Greater" by (auto simp: cmp_def)
qed (use assms(2) in \<open>simp_all add: cmp_def\<close>)

lemma key_sorted_append:
  "key_sorted key (as @ bs) \<longleftrightarrow> key_sorted key as \<and> key_sorted key bs \<and> (\<forall>a \<in> set as. \<forall>b \<in> set bs. key a < key b)"
  by (simp add: key_sorted_def sorted_wrt_append)

lemma key_split:
  assumes "key_sorted key xs" "\<forall>x \<in> set xs. key x \<noteq> k"
  obtains as bs where "xs = as @ bs" "\<forall>a \<in> set as. key a < k" "\<forall>b \<in> set bs. k < key b"
proof -
  define as bs where "as = takeWhile (\<lambda>x. key x < k) xs" and "bs = dropWhile (\<lambda>x. key x < k) xs"
  have xs: "xs = as @ bs" by (simp add: as_def bs_def)
  have "\<forall>a \<in> set as. key a < k" unfolding as_def using set_takeWhileD by fastforce
  moreover have "\<forall>b \<in> set bs. k < key b"
  proof (cases bs)
    case (Cons c cs)
    have "\<not> key c < k" using Cons unfolding bs_def dropWhile_eq_Cons_conv by simp
    then have "k < key c" using assms(2) xs Cons by (simp add: not_less order.order_iff_strict) metis
    moreover have "\<forall>d \<in> set cs. key c < key d" using assms(1) xs Cons by (simp add: key_sorted_append) (simp add: key_sorted_def)
    ultimately show ?thesis using Cons by auto
  qed simp
  ultimately show thesis using xs that by blast
qed

lemma key_search_absent:
  assumes "\<forall>a \<in> set as. key a < k" "\<forall>b \<in> set bs. k < key b"
  shows "binary_search_by (\<lambda>x. cmp (key x) k) (as @ bs) 0 (length (as @ bs)) = Inl (length as)"
proof (rule binary_search_absent)
  fix i assume "i < length as" then show "cmp (key ((as @ bs) ! i)) k = Less"
    using assms(1) by (simp add: nth_append cmp_def)
next
  fix i assume "length as \<le> i" "i < length (as @ bs)"
  then have "k < key ((as @ bs) ! i)" using assms(2) by (simp add: nth_append)
  then show "cmp (key ((as @ bs) ! i)) k = Greater" by (auto simp: cmp_def)
qed simp_all

section \<open>The order of records\<close>

definition piece_key :: "space_heap \<Rightarrow> handle_varnode \<Rightarrow> int \<times> u64 \<times> int" where
  "piece_key hp v = (index_at hp (hv_space v), hv_offset v, - hv_size v)"

definition split_key :: "space_heap \<Rightarrow> join_record \<Rightarrow> int \<times> (int \<times> u64 \<times> int) list" where
  "split_key hp r = (hv_size (jr_unified r), map (piece_key hp) (jr_pieces r))"

abbreviation spaces_in :: "nat set \<Rightarrow> handle_varnode list \<Rightarrow> bool" where
  "spaces_in H vs \<equiv> hv_space ` set vs \<subseteq> H"

lemma piece_key_inj:
  assumes "inj_on (index_at hp) H" "hv_space v \<in> H" "hv_space w \<in> H"
  shows "piece_key hp v = piece_key hp w \<longleftrightarrow> v = w"
  using assms by (cases v; cases w) (auto simp: piece_key_def dest: inj_onD)

lemma pieces_key_inj:
  assumes "inj_on (index_at hp) H"
  shows "spaces_in H vs \<Longrightarrow> spaces_in H ws \<Longrightarrow> map (piece_key hp) vs = map (piece_key hp) ws \<longleftrightarrow> vs = ws"
  by (rule inj_on_map_eq_map) (auto simp: inj_on_def piece_key_inj [OF assms] image_subset_iff)

lemma hv_less_key:
  assumes "inj_on (index_at hp) H" "hv_space v \<in> H" "hv_space w \<in> H"
  shows "hv_less_than hp v w \<longleftrightarrow> piece_key hp v < piece_key hp w"
  using inj_on_eq_iff [OF assms] by (auto simp: hv_less_than_def piece_key_def less_prod_simp)

lemma pieces_less_key:
  "inj_on (index_at hp) H \<Longrightarrow> spaces_in H vs \<Longrightarrow> spaces_in H ws \<Longrightarrow> pieces_less hp vs ws \<longleftrightarrow> map (piece_key hp) vs < map (piece_key hp) ws"
proof (induction hp vs ws rule: pieces_less.induct)
  case (1 hp ys)
  then show ?case by (cases ys) simp_all
next
  case (3 hp x xs y ys)
  then show ?case
    using hv_less_key [of hp H x y] piece_key_inj [of hp H x y] by auto
qed simp_all


definition splits_in :: "nat set \<Rightarrow> join_record \<Rightarrow> bool" where
  "splits_in H r \<longleftrightarrow> spaces_in H (jr_pieces r)"

lemma ordering_key:
  assumes "inj_on (index_at hp) H" "splits_in H a" "splits_in H b"
  shows "rec_less_than_as_ordering hp a b = cmp (split_key hp a) (split_key hp b)"
  using pieces_less_key [OF assms(1), of "jr_pieces a" "jr_pieces b"]
    pieces_less_key [OF assms(1), of "jr_pieces b" "jr_pieces a"] assms(2,3)
  by (auto simp: rec_less_than_as_ordering_def jr_less_than_def split_key_def cmp_def splits_in_def)

lemma split_key_inj:
  assumes "inj_on (index_at hp) H" "splits_in H a" "splits_in H b"
  shows "split_key hp a = split_key hp b \<longleftrightarrow>
    jr_pieces a = jr_pieces b \<and> hv_size (jr_unified a) = hv_size (jr_unified b)"
  using pieces_key_inj [OF assms(1)] assms(2,3) by (auto simp: split_key_def splits_in_def)

section \<open>The invariant\<close>

abbreviation join_at :: "join_record \<Rightarrow> nat" where
  "join_at r \<equiv> unat (hv_offset (jr_unified r))"

definition join_size :: "join_record \<Rightarrow> nat" where
  "join_size r = unat (word_of_int (hv_size (jr_unified r)) :: u32)"

definition laid_before :: "join_record \<Rightarrow> join_record \<Rightarrow> bool" where
  "laid_before a b \<longleftrightarrow> join_at a + join_size a \<le> join_at b"

definition join_inv :: "space_heap \<Rightarrow> nat set \<Rightarrow> join_tables \<Rightarrow> bool" where
  "join_inv hp H jt \<longleftrightarrow>
     list_all (splits_in H) (split_set jt) \<and> key_sorted (split_key hp) (split_set jt)
     \<and> set (split_list jt) = set (split_set jt)
     \<and> list_all (\<lambda>r. 0 < join_size r \<and> join_at r + join_size r \<le> unat (join_allocate jt)) (split_list jt)
     \<and> sorted_wrt laid_before (split_list jt)"

lemma join_inv_new: "join_inv hp H join_tables_new"
  by (simp add: join_inv_def join_tables_new_def key_sorted_def)

lemma list_by_offset:
  assumes "join_inv hp H jt"
  shows "key_sorted (\<lambda>r. hv_offset (jr_unified r)) (split_list jt)"
proof -
  have pos: "0 < join_size r" if "r \<in> set (split_list jt)" for r using assms that by (auto simp: join_inv_def list_all_iff)
  have "sorted_wrt laid_before (split_list jt)" using assms by (simp add: join_inv_def)
  then show ?thesis
    unfolding key_sorted_def by (rule sorted_wrt_mono_rel [rotated]) (auto simp: laid_before_def word_less_nat_alt dest: pos)
qed

lemma find_join_iff:
  assumes "join_inv hp H jt"
  shows "find_join jt off = Ret r \<longleftrightarrow> r \<in> set (split_list jt) \<and> hv_offset (jr_unified r) = off"
proof (cases "\<exists>i < length (split_list jt). hv_offset (jr_unified (split_list jt ! i)) = off")
  case True
  then obtain i where i: "i < length (split_list jt)" "off = hv_offset (jr_unified (split_list jt ! i))" by auto
  have "find_join jt off = Ret (split_list jt ! i)"
    using key_search_found [OF list_by_offset [OF assms] i(1)] i(2) by (simp add: find_join_def)
  then show ?thesis
    using key_sorted_inj [OF list_by_offset [OF assms]] i by (auto simp: in_set_conv_nth)
next
  case False
  then have none: "\<forall>r \<in> set (split_list jt). hv_offset (jr_unified r) \<noteq> off" by (auto simp: in_set_conv_nth)
  obtain as bs where xs: "split_list jt = as @ bs" "\<forall>a \<in> set as. hv_offset (jr_unified a) < off"
      "\<forall>b \<in> set bs. off < hv_offset (jr_unified b)"
    using key_split [OF list_by_offset [OF assms] none] by blast
  show ?thesis using key_search_absent [OF xs(2,3)] none by (auto simp: find_join_def xs(1))
qed

section \<open>Requests\<close>

lemma join_total_nonzero: "join_total pieces lg = Ret n \<Longrightarrow> n \<noteq> 0"
  by (auto simp: join_total_def Let_def split: if_splits)

lemma make_join_simps [simp]:
  "jr_pieces (make_join ps js off n) = ps" "hv_size (jr_unified (make_join ps js off n)) = sint n"
  "hv_offset (jr_unified (make_join ps js off n)) = off" "join_size (make_join ps js off n) = unat n"
  "splits_in H (make_join ps js off n) \<longleftrightarrow> spaces_in H ps"
  by (simp_all add: make_join_def join_size_def splits_in_def)

lemma split_key_make: "split_key hp (make_join ps js off n) = split_key hp (make_join ps js off' n)"
  by (simp add: split_key_def)

lemma search_split:
  assumes "inj_on (index_at hp) H" "join_inv hp H jt" "splits_in H r"
  shows "binary_search_by (\<lambda>q. rec_less_than_as_ordering hp q r) (split_set jt) 0 (length (split_set jt))
    = binary_search_by (\<lambda>q. cmp (split_key hp q) (split_key hp r)) (split_set jt) 0 (length (split_set jt))"
  using assms by (intro binary_search_cong) (auto simp: ordering_key join_inv_def list_all_iff)

lemma find_add_join_known:
  assumes "inj_on (index_at hp) H" "join_inv hp H jt" "spaces_in H pieces" "join_total pieces lg = Ret n"
    and "r \<in> set (split_set jt)" "jr_pieces r = pieces" "hv_size (jr_unified r) = sint n"
  shows "find_add_join hp pieces lg js jt = Ret (hv_offset (jr_unified r), jt)"
proof -
  obtain i where i: "i < length (split_set jt)" "split_set jt ! i = r" using assms(5) by (auto simp: in_set_conv_nth)
  have "key_sorted (split_key hp) (split_set jt)" using assms(2) by (simp add: join_inv_def)
  from key_search_found [OF this i(1)]
  have "binary_search_by (\<lambda>q. rec_less_than_as_ordering hp q (make_join pieces js 0 n)) (split_set jt) 0 (length (split_set jt))
      = Inr i"
    using assms(3,6,7) i(2) by (subst search_split [OF assms(1,2)]) (simp_all add: split_key_def)
  then show ?thesis using assms(4) i(2) by (simp add: find_add_join_def)
qed

lemma find_add_join_new:
  fixes js :: nat
  assumes "inj_on (index_at hp) H" "join_inv hp H jt" "spaces_in H pieces" "join_total pieces lg = Ret n"
    and "\<forall>r \<in> set (split_set jt). \<not> (jr_pieces r = pieces \<and> hv_size (jr_unified r) = sint n)"
  defines "new \<equiv> make_join pieces js (join_allocate jt) n"
  obtains as bs where "split_set jt = as @ bs" "key_sorted (split_key hp) (as @ new # bs)"
    "find_add_join hp pieces lg js jt = Ret (join_allocate jt,
       \<lparr>join_allocate = join_allocate jt + ucast ((n + 15) AND NOT 0xf :: u32), split_set = as @ new # bs,
        split_list = split_list jt @ [new]\<rparr>)"
proof -
  have sorted: "key_sorted (split_key hp) (split_set jt)" and inH: "\<forall>r \<in> set (split_set jt). splits_in H r"
    using assms(2) by (simp_all add: join_inv_def list_all_iff)
  have none: "\<forall>r \<in> set (split_set jt). split_key hp r \<noteq> split_key hp new"
    using assms(3,5) inH split_key_inj [OF assms(1)] by (auto simp: new_def)
  obtain as bs where xs: "split_set jt = as @ bs" "\<forall>a \<in> set as. split_key hp a < split_key hp new"
      "\<forall>b \<in> set bs. split_key hp new < split_key hp b"
    using key_split [OF sorted none] by blast
  have search: "binary_search_by (\<lambda>q. rec_less_than_as_ordering hp q (make_join pieces js off n)) (split_set jt) 0 (length (split_set jt))
      = Inl (length as)" for off
    using key_search_absent [OF xs(2,3)] assms(3) split_key_make [of hp pieces js off n "join_allocate jt"]
    by (subst search_split [OF assms(1,2)]) (simp_all add: new_def xs(1))
  have "key_sorted (split_key hp) (as @ new # bs)"
    using sorted xs by (auto simp: key_sorted_def sorted_wrt_append)
  moreover have "find_add_join hp pieces lg js jt = Ret (join_allocate jt,
       \<lparr>join_allocate = join_allocate jt + ucast ((n + 15) AND NOT 0xf :: u32), split_set = as @ new # bs,
        split_list = split_list jt @ [new]\<rparr>)"
    using assms(4) search by (simp add: find_add_join_def Let_def new_def [symmetric] xs(1) vec_insert_def nth_append)
       (simp add: new_def)
  ultimately show thesis using that xs(1) by blast
qed

lemma and_not_minus: "x AND NOT m = x - (x AND m)" for x :: "'a :: len word"
proof -
  have "NOT x AND (x AND m) = 0" by (rule bit_word_eqI) (auto simp: bit_simps)
  then have "x - (x AND m) = x AND NOT (x AND m)" by (rule disjunctive_diff_eq_and_not)
  also have "\<dots> = x AND NOT m" by (rule bit_word_eqI) (auto simp: bit_simps)
  finally show ?thesis by simp
qed

lemma round_up:
  assumes "n \<le> (0xfffffff0 :: u32)"
  shows "unat n \<le> unat ((n + 15) AND NOT 0xf)" "unat ((n + 15) AND NOT 0xf) < 2 ^ 32"
proof -
  have n15: "unat (n + 15) = unat n + 15"
    using assms by (subst unat_add_lem [THEN iffD1]) (simp_all add: word_le_nat_alt)
  have "(n + 15) AND 0xf \<le> 0xf" by (rule word_and_le1)
  then have le: "unat ((n + 15) AND 0xf) \<le> 15" by (simp add: word_le_nat_alt)
  then have "unat ((n + 15) - ((n + 15) AND 0xf)) = unat (n + 15) - unat ((n + 15) AND 0xf)"
    by (intro unat_sub) (simp add: word_le_nat_alt n15)
  then show "unat n \<le> unat ((n + 15) AND NOT 0xf)"
    unfolding and_not_minus using n15 le by linarith
  show "unat ((n + 15) AND NOT 0xf) < 2 ^ 32" using unsigned_less [of "(n + 15) AND NOT (0xf :: u32)"] by simp
qed

text \<open>A new record is laid after all others, and the counter moves past it.\<close>

lemma join_inv_extend:
  fixes js :: nat
  assumes "join_inv hp H jt" "spaces_in H pieces" "n \<noteq> 0" "n \<le> 0xfffffff0" "unat (join_allocate jt) + 2 ^ 32 \<le> 2 ^ 64"
  defines "new \<equiv> make_join pieces js (join_allocate jt) n"
  assumes "split_set jt = as @ bs" "key_sorted (split_key hp) (as @ new # bs)"
  shows "join_inv hp H \<lparr>join_allocate = join_allocate jt + ucast ((n + 15) AND NOT 0xf :: u32), split_set = as @ new # bs,
        split_list = split_list jt @ [new]\<rparr>"
proof -
  have up: "unat (ucast w :: u64) = unat w" for w :: u32
    by transfer (simp add: take_bit_int_eq_self_iff take_bit_take_bit)
  have room: "unat (join_allocate jt) + unat n \<le> unat (join_allocate jt + ucast ((n + 15) AND NOT 0xf :: u32))"
    using round_up [OF assms(4)] assms(5) by (subst unat_add_lem [THEN iffD1]) (simp_all add: up)
  have "0 < unat n" using assms(3) by (simp add: unat_gt_0)
  moreover have "\<forall>r \<in> set (split_list jt). 0 < join_size r \<and> join_at r + join_size r \<le> unat (join_allocate jt)"
    using assms(1) by (simp add: join_inv_def list_all_iff)
  moreover from this have "\<forall>r \<in> set (split_list jt). join_at r + join_size r \<le> unat (join_allocate jt + ucast ((n + 15) AND NOT 0xf :: u32))"
    using room by fastforce
  ultimately show ?thesis
    using assms(1,2,7,8) room unfolding join_inv_def
    by (auto simp: new_def list_all_iff sorted_wrt_append laid_before_def)
qed

text \<open>
  A request for a join with acceptable pieces gives an address at which exactly these pieces and this size are
  found, keeps the invariant and every record found before, and the same request again gives
  the same address and changes nothing.
\<close>

lemma find_add_join_spec:
  assumes "inj_on (index_at hp) H" "join_inv hp H jt" "spaces_in H pieces" "join_total pieces lg = Ret n"
    and "n \<le> 0xfffffff0" "unat (join_allocate jt) + 2 ^ 32 \<le> 2 ^ 64"
  obtains off jt' r where "find_add_join hp pieces lg js jt = Ret (off, jt')" "join_inv hp H jt'"
    "find_join jt' off = Ret r" "jr_pieces r = pieces" "hv_size (jr_unified r) = sint n"
    "find_add_join hp pieces lg js jt' = Ret (off, jt')"
    "\<And>old q. find_join jt old = Ret q \<Longrightarrow> find_join jt' old = Ret q"
proof (cases "\<exists>r \<in> set (split_set jt). jr_pieces r = pieces \<and> hv_size (jr_unified r) = sint n")
  case True
  then obtain r where r: "r \<in> set (split_set jt)" "jr_pieces r = pieces" "hv_size (jr_unified r) = sint n" by blast
  have "find_join jt (hv_offset (jr_unified r)) = Ret r"
    using find_join_iff [OF assms(2)] assms(2) r(1) by (simp add: join_inv_def)
  with find_add_join_known [OF assms(1-4) r] show thesis using that assms(2) r by blast
next
  case False
  define new where "new = make_join pieces js (join_allocate jt) n"
  obtain as bs where new: "split_set jt = as @ bs" "key_sorted (split_key hp) (as @ new # bs)"
    and added: "find_add_join hp pieces lg js jt = Ret (join_allocate jt,
       \<lparr>join_allocate = join_allocate jt + ucast ((n + 15) AND NOT 0xf :: u32), split_set = as @ new # bs,
        split_list = split_list jt @ [new]\<rparr>)" (is "_ = Ret (_, ?jt)")
    using find_add_join_new [OF assms(1-4)] False unfolding new_def by metis
  have inv: "join_inv hp H ?jt"
    using join_inv_extend [OF assms(2,3) join_total_nonzero [OF assms(4)] assms(5,6)] new by (simp add: new_def)
  have "find_join ?jt (join_allocate jt) = Ret new"
    using find_join_iff [OF inv] by (simp add: new_def)
  moreover have "find_join ?jt old = Ret q" if "find_join jt old = Ret q" for old q
    using that find_join_iff [OF inv] find_join_iff [OF assms(2)] by simp
  moreover have "find_add_join hp pieces lg js ?jt = Ret (join_allocate jt, ?jt)"
    using find_add_join_known [OF assms(1) inv assms(3,4), of new js] by (simp add: new_def)
  ultimately show thesis using that added inv by (simp add: new_def)
qed

lemma joins_disjoint:
  assumes "inj_on (index_at hp) H" "join_inv hp H jt" "find_join jt o1 = Ret a" "find_join jt o2 = Ret b" "o1 \<noteq> o2"
  shows "{join_at a ..< join_at a + join_size a} \<inter> {join_at b ..< join_at b + join_size b} = {}"
    "\<not> (jr_pieces a = jr_pieces b \<and> hv_size (jr_unified a) = hv_size (jr_unified b))"
proof -
  have in_list: "a \<in> set (split_list jt)" "b \<in> set (split_list jt)" and off: "hv_offset (jr_unified a) = o1" "hv_offset (jr_unified b) = o2"
    using assms(3,4) find_join_iff [OF assms(2)] by auto
  then obtain i j where ij: "i < length (split_list jt)" "split_list jt ! i = a" "j < length (split_list jt)" "split_list jt ! j = b" "i \<noteq> j"
    using assms(5) by (metis in_set_conv_nth)
  have "sorted_wrt laid_before (split_list jt)" using assms(2) by (simp add: join_inv_def)
  then have "laid_before a b \<or> laid_before b a"
    using ij sorted_wrt_nth_less [of laid_before "split_list jt"] by (metis nat_neq_iff)
  then show "{join_at a ..< join_at a + join_size a} \<inter> {join_at b ..< join_at b + join_size b} = {}"
    by (auto simp: laid_before_def)
  have "key_sorted (split_key hp) (split_set jt)" "a \<in> set (split_set jt)" "b \<in> set (split_set jt)"
    and H: "splits_in H a" "splits_in H b"
    using assms(2) in_list by (auto simp: join_inv_def list_all_iff)
  then have "split_key hp a \<noteq> split_key hp b"
    using off assms(5) key_sorted_inj by (metis in_set_conv_nth)
  then show "\<not> (jr_pieces a = jr_pieces b \<and> hv_size (jr_unified a) = hv_size (jr_unified b))"
    using split_key_inj [OF assms(1) H] by simp
qed

end
