(* ===== verification/Space_Range_List.thy ===== *)
theory Space_Range_List
  imports Range_List
begin

text \<open>
  Ranges that carry their space and the sorted list of disjoint ranges over several spaces
  (\<open>SpaceRange\<close>, \<open>SpaceRangeList\<close> of src/src/address.rs). The list is searched by bisection on the pair of the index of
  the space and the first offset. What the operations compute is shown in
  \<open>Space_Range_Laws\<close>.
\<close>

section \<open>Ranges in a space\<close>

record space_range =
  sr_spc :: addr_space
  sr_first :: u64
  sr_last :: u64

definition sr_new :: "addr_space \<Rightarrow> u64 \<Rightarrow> u64 \<Rightarrow> space_range" where
  "sr_new spc first lst = \<lparr>sr_spc = spc, sr_first = first, sr_last = lst\<rparr>"

definition sr_get_first_addr :: "space_range \<Rightarrow> space_address" where
  "sr_get_first_addr r = sa_new (sr_spc r) (sr_first r)"

definition sr_get_last_addr :: "space_range \<Rightarrow> space_address" where
  "sr_get_last_addr r = sa_new (sr_spc r) (sr_last r)"

definition sr_contains :: "space_range \<Rightarrow> space_address \<Rightarrow> bool" where
  "sr_contains r a = (case sa_get_space a of
      None \<Rightarrow> False
    | Some s \<Rightarrow>
        if \<not> same_space (sr_spc r) s then False
        else if sr_first r > sa_offset a then False
        else if sr_last r < sa_offset a then False
        else True)"

definition sr_cmp :: "space_range \<Rightarrow> space_range \<Rightarrow> ordering" where
  "sr_cmp r q = (case cmp (sp_index (sr_spc r)) (sp_index (sr_spc q)) of
      Equal \<Rightarrow> then_with (cmp (sr_first r) (sr_first q))
                 (cmp (sp_identity (sr_spc r)) (sp_identity (sr_spc q)))
    | order \<Rightarrow> order)"

definition sr_eq :: "space_range \<Rightarrow> space_range \<Rightarrow> bool" where
  "sr_eq r q \<longleftrightarrow> sr_cmp r q = Equal"

section \<open>The list\<close>

type_synonym space_range_list = "space_range list"

definition get_first_range :: "space_range_list \<Rightarrow> space_range option" where
  "get_first_range t = (if t = [] then None else Some (hd t))"

definition get_last_range :: "space_range_list \<Rightarrow> space_range option" where
  "get_last_range t = (if t = [] then None else Some (last t))"

definition beyond :: "addr_space \<Rightarrow> u64 \<Rightarrow> space_range \<Rightarrow> bool" where
  "beyond spc off candidate = (case cmp (sp_index (sr_spc candidate)) (sp_index spc) of
      Greater \<Rightarrow> True
    | Equal \<Rightarrow> sr_first candidate > off
    | Less \<Rightarrow> False)"

function upper_bound_loop :: "space_range_list \<Rightarrow> addr_space \<Rightarrow> u64 \<Rightarrow> nat \<Rightarrow> nat \<Rightarrow> nat" where
  "upper_bound_loop t spc off low high =
     (if low < high
      then (let mid = (low + high) div 2
            in if beyond spc off (t ! mid) then upper_bound_loop t spc off low mid
               else upper_bound_loop t spc off (mid + 1) high)
      else low)"
  by pat_completeness auto
termination
  by (relation "measure (\<lambda>(t, spc, off, low, high). high - low)") auto

declare upper_bound_loop.simps [simp del]

definition upper_bound_pos :: "space_range_list \<Rightarrow> addr_space \<Rightarrow> u64 \<Rightarrow> nat" where
  "upper_bound_pos t spc off = upper_bound_loop t spc off 0 (length t)"

text \<open>The position to insert at, or \<open>None\<close> when an equivalent range is found.\<close>

function insert_sorted_loop :: "space_range_list \<Rightarrow> space_range \<Rightarrow> nat \<Rightarrow> nat \<Rightarrow> nat option" where
  "insert_sorted_loop t r low high =
     (if low < high
      then (let mid = (low + high) div 2
            in case sr_cmp (t ! mid) r of
                 Less \<Rightarrow> insert_sorted_loop t r (mid + 1) high
               | Greater \<Rightarrow> insert_sorted_loop t r low mid
               | Equal \<Rightarrow> None)
      else Some low)"
  by pat_completeness auto
termination
  by (relation "measure (\<lambda>(t, r, low, high). high - low)") auto

declare insert_sorted_loop.simps [simp del]

definition insert_sorted :: "space_range \<Rightarrow> space_range_list \<Rightarrow> space_range_list" where
  "insert_sorted r t = (case insert_sorted_loop t r 0 (length t) of
      None \<Rightarrow> t
    | Some low \<Rightarrow> vec_insert low r t)"

text \<open>
  The slice of the ranges that meet \<open>[first, last]\<close>, as the two positions that bound it. Taking the
  slice panics when they are out of order.
\<close>

definition first_meeting :: "space_range_list \<Rightarrow> addr_space \<Rightarrow> u64 \<Rightarrow> nat" where
  "first_meeting t spc first =
     (let iter1 = upper_bound_pos t spc first
      in if iter1 > 0
         then (let prev = t ! (iter1 - 1)
               in if \<not> same_space (sr_spc prev) spc \<or> sr_last prev < first then iter1 else iter1 - 1)
         else iter1)"

definition slice :: "nat \<Rightarrow> nat \<Rightarrow> 'a list \<Rightarrow> 'a list res" where
  "slice i j xs = (if i \<le> j \<and> j \<le> length xs then Ret (take (j - i) (drop i xs)) else Panic)"

definition drain :: "nat \<Rightarrow> nat \<Rightarrow> 'a list \<Rightarrow> 'a list" where
  "drain i j xs = take i xs @ drop j xs"

fun cover_slice :: "space_range_list \<Rightarrow> u64 \<Rightarrow> u64 \<Rightarrow> u64 \<times> u64" where
  "cover_slice [] first lst = (first, lst)"
| "cover_slice (e # es) first lst =
     cover_slice es (if sr_first e < first then sr_first e else first)
       (if sr_last e > lst then sr_last e else lst)"

definition srl_insert_range :: "addr_space \<Rightarrow> u64 \<Rightarrow> u64 \<Rightarrow> space_range_list \<Rightarrow> space_range_list res" where
  "srl_insert_range spc first lst t =
     (let iter1 = first_meeting t spc first;
          iter2 = upper_bound_pos t spc lst
      in res_map (\<lambda>es. case cover_slice es first lst of (first', lst') \<Rightarrow>
             insert_sorted (sr_new spc first' lst') (drain iter1 iter2 t))
           (slice iter1 iter2 t))"

fun insert_pieces :: "addr_space \<Rightarrow> u64 \<Rightarrow> u64 \<Rightarrow> (u64 \<times> u64) list \<Rightarrow> space_range_list \<Rightarrow> space_range_list" where
  "insert_pieces spc first lst [] t = t"
| "insert_pieces spc first lst ((a, b) # ps) t =
     (let t1 = (if a < first then insert_sorted (sr_new spc a (first - 1)) t else t);
          t2 = (if b > lst then insert_sorted (sr_new spc (lst + 1) b) t1 else t1)
      in insert_pieces spc first lst ps t2)"

definition srl_remove_range :: "addr_space \<Rightarrow> u64 \<Rightarrow> u64 \<Rightarrow> space_range_list \<Rightarrow> space_range_list res" where
  "srl_remove_range spc first lst t =
     (if t = [] then Ret t
      else (let iter1 = first_meeting t spc first;
                iter2 = upper_bound_pos t spc lst
            in res_map (\<lambda>es. insert_pieces spc first lst (map (\<lambda>r. (sr_first r, sr_last r)) es)
                               (drain iter1 iter2 t))
                 (slice iter1 iter2 t)))"

fun srl_merge :: "space_range_list \<Rightarrow> space_range_list \<Rightarrow> space_range_list res" where
  "srl_merge t [] = Ret t"
| "srl_merge t (r # rs) = res_bind (srl_insert_range (sr_spc r) (sr_first r) (sr_last r) t) (\<lambda>t'. srl_merge t' rs)"

definition srl_in_range :: "space_range_list \<Rightarrow> space_address \<Rightarrow> i32 \<Rightarrow> bool" where
  "srl_in_range t a sz =
     (if sa_is_invalid a then True
      else if t = [] then False
      else case sa_get_space a of
             None \<Rightarrow> False
           | Some spaceid \<Rightarrow>
               (let iter = upper_bound_pos t spaceid (sa_offset a)
                in if iter = 0 then False
                   else (let candidate = t ! (iter - 1)
                         in if \<not> same_space (sr_spc candidate) spaceid then False
                            else sr_last candidate \<ge> sa_offset a + as_u64 (wrap_i32 (sz - 1)))))"

definition srl_get_range :: "space_range_list \<Rightarrow> addr_space \<Rightarrow> u64 \<Rightarrow> space_range option" where
  "srl_get_range t spaceid offset =
     (if t = [] then None
      else (let iter = upper_bound_pos t spaceid offset
            in if iter = 0 then None
               else (let candidate = t ! (iter - 1)
                     in if \<not> same_space (sr_spc candidate) spaceid then None
                        else if sr_last candidate \<ge> offset then Some candidate
                        else None)))"

text \<open>The loop of \<open>longest_fit\<close>, over the ranges from the current one on.\<close>

fun longest_fit_loop :: "space_range_list \<Rightarrow> addr_space \<Rightarrow> u64 \<Rightarrow> u64 \<Rightarrow> u64 \<Rightarrow> u64" where
  "longest_fit_loop [] spaceid maxsize offset sizeres = sizeres"
| "longest_fit_loop (candidate # rest) spaceid maxsize offset sizeres =
     (if \<not> same_space (sr_spc candidate) spaceid then sizeres
      else if sr_first candidate > offset then sizeres
      else (let sizeres' = sizeres + (sr_last candidate + 1 - offset)
            in if sizeres' \<ge> maxsize then sizeres'
               else longest_fit_loop rest spaceid maxsize (sr_last candidate + 1) sizeres'))"

definition srl_longest_fit :: "space_range_list \<Rightarrow> space_address \<Rightarrow> u64 \<Rightarrow> u64" where
  "srl_longest_fit t a maxsize =
     (if sa_is_invalid a then 0
      else if t = [] then 0
      else case sa_get_space a of
             None \<Rightarrow> 0
           | Some spaceid \<Rightarrow>
               (let iter = upper_bound_pos t spaceid (sa_offset a)
                in if iter = 0 then 0
                   else if sr_last (t ! (iter - 1)) < sa_offset a then 0
                   else longest_fit_loop (drop (iter - 1) t) spaceid maxsize (sa_offset a) 0))"

definition last_of_space :: "space_range_list \<Rightarrow> addr_space \<Rightarrow> u64 \<Rightarrow> space_range option" where
  "last_of_space t spaceid off =
     (let iter = upper_bound_pos t spaceid off
      in if iter > 0 \<and> same_space (sr_spc (t ! (iter - 1))) spaceid then Some (t ! (iter - 1)) else None)"

definition get_last_signed_range :: "space_range_list \<Rightarrow> addr_space \<Rightarrow> space_range option" where
  "get_last_signed_range t spaceid = (case last_of_space t spaceid (sp_highest spaceid div 2) of
      Some r \<Rightarrow> Some r
    | None \<Rightarrow> last_of_space t spaceid (sp_highest spaceid))"

end
