(* ===== verification/Space_Range_Laws.thy ===== *)
theory Space_Range_Laws
  imports Space_Range_List
begin

text \<open>
  The lists of ranges over several spaces refine sets of addresses: the bisections find what a linear scan
  finds, insertion and removal keep the representation invariant and are union and
  difference (an interpretation of \<open>range_set\<close>), and the queries answer for the set.
\<close>

section \<open>Bisection\<close>

lemma length_takeWhile_split:
  assumes "n \<le> length xs" "\<And>i. i < n \<Longrightarrow> P (xs ! i)" "\<And>i. n \<le> i \<Longrightarrow> i < length xs \<Longrightarrow> \<not> P (xs ! i)"
  shows "length (takeWhile P xs) = n"
proof -
  have "takeWhile P xs = take n xs"
    using assms by (intro takeWhile_eq_take_P_nth) auto
  then show ?thesis using assms(1) by simp
qed

lemma mid_between: "low < high \<Longrightarrow> low \<le> (low + high) div 2 \<and> (low + high) div 2 < (high :: nat)"
  by auto

lemma upper_bound_loop_spec:
  assumes "low \<le> high" "high \<le> length t"
    and "\<And>i j. i \<le> j \<Longrightarrow> j < length t \<Longrightarrow> beyond spc off (t ! i) \<Longrightarrow> beyond spc off (t ! j)"
    and "\<And>i. i < low \<Longrightarrow> \<not> beyond spc off (t ! i)"
    and "\<And>i. high \<le> i \<Longrightarrow> i < length t \<Longrightarrow> beyond spc off (t ! i)"
  shows "upper_bound_loop t spc off low high = length (takeWhile (\<lambda>r. \<not> beyond spc off r) t)"
  using assms
proof (induction t spc off low high rule: upper_bound_loop.induct)
  case (1 t spc off low high)
  show ?case
  proof (cases "low < high")
    case False
    then have "low = high" using "1.prems"(1) by simp
    then have "length (takeWhile (\<lambda>r. \<not> beyond spc off r) t) = low"
      using "1.prems" by (intro length_takeWhile_split) auto
    then show ?thesis using False by (simp add: upper_bound_loop.simps)
  next
    case True
    define mid where "mid = (low + high) div 2"
    have mid: "low \<le> mid" "mid < high" using mid_between [OF True] by (simp_all add: mid_def)
    show ?thesis
    proof (cases "beyond spc off (t ! mid)")
      case T: True
      then have "upper_bound_loop t spc off low mid = length (takeWhile (\<lambda>r. \<not> beyond spc off r) t)"
        using "1.prems" mid True by (intro "1.IH"(1) [OF True mid_def]) auto
      then show ?thesis using T True by (simp add: upper_bound_loop.simps [of _ _ _ low high] mid_def)
    next
      case F: False
      have "\<not> beyond spc off (t ! i)" if "i < mid + 1" for i
        using F "1.prems"(2) "1.prems"(3) [of i mid] mid that by auto
      then have "upper_bound_loop t spc off (mid + 1) high = length (takeWhile (\<lambda>r. \<not> beyond spc off r) t)"
        using "1.prems" mid True F by (intro "1.IH"(2) [OF True mid_def]) auto
      then show ?thesis using F True by (simp add: upper_bound_loop.simps [of _ _ _ low high] mid_def)
    qed
  qed
qed

lemma insert_sorted_loop_spec:
  assumes "low \<le> length as" "length as \<le> high" "high \<le> length (as @ cs)"
    and "\<forall>a \<in> set as. sr_cmp a r = Less" "\<forall>c \<in> set cs. sr_cmp c r = Greater"
  shows "insert_sorted_loop (as @ cs) r low high = Some (length as)"
  using assms
proof (induction "as @ cs" r low high rule: insert_sorted_loop.induct)
  case (1 r low high)
  show ?case
  proof (cases "low < high")
    case False
    then show ?thesis using "1.prems" by (simp add: insert_sorted_loop.simps)
  next
    case True
    define mid where "mid = (low + high) div 2"
    have mid: "low \<le> mid" "mid < high" using mid_between [OF True] by (simp_all add: mid_def)
    show ?thesis
    proof (cases "mid < length as")
      case M: True
      then have L: "sr_cmp ((as @ cs) ! mid) r = Less" using "1.prems"(4) by (simp add: nth_append)
      then have "insert_sorted_loop (as @ cs) r (mid + 1) high = Some (length as)"
        using "1.prems" M mid by (intro "1.hyps"(1) [OF True mid_def]) auto
      then show ?thesis using L True by (simp add: insert_sorted_loop.simps [of _ _ low high] mid_def)
    next
      case M: False
      then have G: "sr_cmp ((as @ cs) ! mid) r = Greater" using "1.prems"(3,5) mid by (simp add: nth_append)
      then have "insert_sorted_loop (as @ cs) r low mid = Some (length as)"
        using "1.prems" M mid by (intro "1.hyps"(2) [OF True mid_def]) auto
      then show ?thesis using G True by (simp add: insert_sorted_loop.simps [of _ _ low high] mid_def)
    qed
  qed
qed

lemma insert_sorted_split:
  assumes "\<forall>a \<in> set as. sr_cmp a r = Less" "\<forall>c \<in> set cs. sr_cmp c r = Greater"
  shows "insert_sorted r (as @ cs) = as @ r # cs"
  using insert_sorted_loop_spec [of 0 as "length (as @ cs)" cs r] assms
  by (simp add: insert_sorted_def vec_insert_def)

section \<open>The representation invariant\<close>

text \<open>
  The manager of the spaces gives every space an index of its own. Such an assignment, from
  allocations to indices, is a value of the type \<open>space_index\<close>.
\<close>

typedef space_index = "{f :: nat \<Rightarrow> int. inj f}" morphisms index_of Space_Index
  by (rule exI [of _ int]) simp

lemma index_of_inj: "index_of ix i = index_of ix j \<longleftrightarrow> i = j"
  using index_of [of ix] by (auto simp: inj_eq)

definition numbered :: "space_index \<Rightarrow> addr_space \<Rightarrow> bool" where
  "numbered ix s \<longleftrightarrow> sp_index s = index_of ix (sp_identity s)"

definition sr_valid :: "space_index \<Rightarrow> space_range \<Rightarrow> bool" where
  "sr_valid ix r \<longleftrightarrow> numbered ix (sr_spc r) \<and> sr_first r \<le> sr_last r"

definition before :: "space_range \<Rightarrow> space_range \<Rightarrow> bool" where
  "before r q \<longleftrightarrow> sp_index (sr_spc r) < sp_index (sr_spc q)
     \<or> sp_index (sr_spc r) = sp_index (sr_spc q) \<and> sr_last r < sr_first q"

definition srl_inv :: "space_index \<Rightarrow> space_range_list \<Rightarrow> bool" where
  "srl_inv ix t \<longleftrightarrow> list_all (sr_valid ix) t \<and> sorted_wrt before t"

lemma same_space_index: "numbered ix s \<Longrightarrow> numbered ix t \<Longrightarrow> same_space s t \<longleftrightarrow> sp_index s = sp_index t"
  by (simp add: numbered_def same_space_def index_of_inj)

lemma before_trans: "before a b \<Longrightarrow> before b c \<Longrightarrow> sr_valid ix b \<Longrightarrow> before a c"
  by (auto simp: before_def sr_valid_def)

lemma before_asym: "before a b \<Longrightarrow> sr_valid ix a \<Longrightarrow> sr_valid ix b \<Longrightarrow> \<not> before b a"
  by (auto simp: before_def sr_valid_def)

lemma before_cmp: "before a b \<Longrightarrow> sr_valid ix a \<Longrightarrow> sr_cmp a b = Less"
  by (auto simp: before_def sr_valid_def sr_cmp_def cmp_def then_with_def)

lemma before_cmp_rev: "before a b \<Longrightarrow> sr_valid ix a \<Longrightarrow> sr_cmp b a = Greater"
  by (auto simp: before_def sr_valid_def sr_cmp_def cmp_def then_with_def)

lemma beyond_before: "beyond spc off e \<longleftrightarrow> before (sr_new spc off off) e"
  by (auto simp: beyond_def before_def sr_new_def cmp_def)

text \<open>A sorted list falls into the ranges before a given one, those that meet it and those after it.\<close>

definition cut3 :: "space_range \<Rightarrow> space_range_list \<Rightarrow> space_range_list \<Rightarrow> space_range_list \<Rightarrow> space_range_list \<Rightarrow> bool" where
  "cut3 r t as bs cs \<longleftrightarrow> t = as @ bs @ cs \<and> (\<forall>a \<in> set as. before a r)
     \<and> (\<forall>b \<in> set bs. \<not> before b r \<and> \<not> before r b) \<and> (\<forall>c \<in> set cs. before r c)"

lemma cut3_exists:
  assumes "srl_inv ix t" "sr_valid ix r"
  shows "\<exists>as bs cs. cut3 r t as bs cs"
  using assms
proof (induction t)
  case Nil
  then show ?case by (auto simp: cut3_def)
next
  case (Cons e t)
  have I: "srl_inv ix t" "sr_valid ix e" "\<forall>q \<in> set t. before e q" "\<forall>q \<in> set t. sr_valid ix q"
    using Cons.prems by (simp_all add: srl_inv_def list_all_iff)
  obtain as bs cs where c: "cut3 r t as bs cs" using Cons.IH [OF I(1) Cons.prems(2)] by blast
  consider "before e r" | "before r e" "\<not> before e r" | "\<not> before e r" "\<not> before r e" by blast
  then show ?case
  proof cases
    case 1
    then have "cut3 r (e # t) (e # as) bs cs" using c by (simp add: cut3_def)
    then show ?thesis by blast
  next
    case 2
    then have "cut3 r (e # t) [] [] (e # t)"
      using before_trans [OF 2(1) _ I(2)] I(3) by (simp add: cut3_def)
    then show ?thesis by blast
  next
    case 3
    have "as = []"
    proof (rule ccontr)
      assume "as \<noteq> []"
      then obtain a where "a \<in> set as" "a \<in> set t" "before a r" using c by (cases as) (auto simp: cut3_def)
      then show False using 3(1) before_trans [of e a r ix] I(3,4) by blast
    qed
    then have "cut3 r (e # t) [] (e # bs) cs" using c 3 by (simp add: cut3_def)
    then show ?thesis by blast
  qed
qed

lemma upper_bound_pos_spec:
  assumes "srl_inv ix t"
  shows "upper_bound_pos t spc off = length (takeWhile (\<lambda>e. \<not> beyond spc off e) t)"
  unfolding upper_bound_pos_def
proof (rule upper_bound_loop_spec)
  fix i j
  assume a: "i \<le> j" "j < length t" "beyond spc off (t ! i)"
  show "beyond spc off (t ! j)"
  proof (cases "i = j")
    case False
    then have "before (t ! i) (t ! j)"
      using assms a unfolding srl_inv_def by (simp add: sorted_wrt_nth_less)
    moreover have "sr_valid ix (t ! i)" using assms a by (simp add: srl_inv_def list_all_length)
    ultimately show ?thesis using a(3) unfolding beyond_before by (blast intro: before_trans)
  qed (use a in simp)
qed simp_all

lemma cut3_upper_last:
  assumes "srl_inv ix t" "sr_valid ix (sr_new spc first lst)" "cut3 (sr_new spc first lst) t as bs cs"
  shows "upper_bound_pos t spc lst = length as + length bs"
proof -
  let ?r = "sr_new spc first lst"
  have b: "beyond spc lst e \<longleftrightarrow> before ?r e" for e by (simp add: beyond_before before_def sr_new_def)
  have "\<not> before ?r a" if "a \<in> set as" for a
    using that assms before_asym [of a ?r ix] by (auto simp: cut3_def srl_inv_def list_all_iff)
  then have "takeWhile (\<lambda>e. \<not> beyond spc lst e) (as @ bs @ cs) = as @ bs"
    using assms(3) unfolding b cut3_def by (cases cs) (auto simp: takeWhile_append)
  then show ?thesis
    using upper_bound_pos_spec [OF assms(1)] assms(3) by (simp add: cut3_def)
qed

lemma meets_bounds:
  assumes "sr_valid ix b" "sr_valid ix (sr_new spc first lst)"
    and "\<not> before b (sr_new spc first lst)" "\<not> before (sr_new spc first lst) b"
  shows "same_space (sr_spc b) spc" "sp_index (sr_spc b) = sp_index spc" "first \<le> sr_last b" "sr_first b \<le> lst"
  using assms same_space_index [of ix "sr_spc b" spc] by (auto simp: before_def sr_new_def sr_valid_def)

lemma cut3_parts:
  assumes "srl_inv ix t" "cut3 r t as bs cs"
  shows "t = as @ bs @ cs" "sorted_wrt before (as @ bs @ cs)"
    "\<And>e. e \<in> set as \<Longrightarrow> sr_valid ix e" "\<And>e. e \<in> set bs \<Longrightarrow> sr_valid ix e" "\<And>e. e \<in> set cs \<Longrightarrow> sr_valid ix e"
    "\<And>e. e \<in> set as \<Longrightarrow> before e r" "\<And>e. e \<in> set bs \<Longrightarrow> \<not> before e r" "\<And>e. e \<in> set bs \<Longrightarrow> \<not> before r e"
    "\<And>e. e \<in> set cs \<Longrightarrow> before r e"
  using assms by (simp_all add: srl_inv_def cut3_def list_all_iff)

lemma before_not_beyond:
  assumes "before e (sr_new spc first lst)" "sr_valid ix e" "numbered ix spc"
  shows "\<not> beyond spc first e" "\<not> same_space (sr_spc e) spc \<or> sr_last e < first"
proof -
  show "\<not> beyond spc first e" using assms by (auto simp: beyond_before before_def sr_new_def sr_valid_def)
  have "same_space (sr_spc e) spc \<longleftrightarrow> sp_index (sr_spc e) = sp_index spc"
    using assms(2,3) by (intro same_space_index) (auto simp: sr_valid_def)
  then show "\<not> same_space (sr_spc e) spc \<or> sr_last e < first" using assms(1) by (auto simp: before_def sr_new_def)
qed

lemma after_beyond: "before (sr_new spc first lst) e \<Longrightarrow> first \<le> lst \<Longrightarrow> beyond spc first e"
  by (auto simp: before_def beyond_before sr_new_def)

lemma takeWhile_all_then:
  assumes "\<And>x. x \<in> set xs \<Longrightarrow> P x" "ys \<noteq> [] \<Longrightarrow> \<not> P (hd ys)"
  shows "takeWhile P (xs @ ys) = xs"
  using assms by (cases ys) (simp_all add: takeWhile_append2)

lemma cut3_first_meeting:
  assumes I: "srl_inv ix t" and V: "sr_valid ix (sr_new spc first lst)"
    and c: "cut3 (sr_new spc first lst) t as bs cs"
  shows "first_meeting t spc first = length as"
proof -
  note p = cut3_parts [OF I c]
  have coh: "numbered ix spc" and le: "first \<le> lst" using V by (simp_all add: sr_valid_def sr_new_def)
  note a = before_not_beyond [OF p(6) p(3) coh]
  note cc = after_beyond [OF p(9) le]
  show ?thesis
  proof (cases "\<exists>b bs'. bs = b # bs' \<and> sr_first b \<le> first")
    case True
    then obtain b bs' where b: "bs = b # bs'" "sr_first b \<le> first" by blast
    note m = meets_bounds [OF p(4) [of b] V p(7) [of b] p(8) [of b]]
    have "beyond spc first e" if "e \<in> set bs'" for e
    proof -
      have "before b e" using p(2) that b(1) by (simp add: sorted_wrt_append)
      then show ?thesis using m(2,3) b(1) by (auto simp: before_def beyond_before sr_new_def)
    qed
    then have "beyond spc first (hd (bs' @ cs))" if "bs' @ cs \<noteq> []"
      using that cc by (cases bs'; cases cs) simp_all
    moreover have "\<not> beyond spc first b" using m(2) b by (simp add: beyond_before before_def sr_new_def)
    ultimately have "takeWhile (\<lambda>e. \<not> beyond spc first e) ((as @ [b]) @ (bs' @ cs)) = as @ [b]"
      using a(1) by (intro takeWhile_all_then) auto
    then have "upper_bound_pos t spc first = Suc (length as)" using upper_bound_pos_spec [OF I, of spc first] p(1) b(1) by simp
    then show ?thesis using m b(1) p(1) by (simp add: first_meeting_def nth_append)
  next
    case False
    have "beyond spc first (hd (bs @ cs))" if "bs @ cs \<noteq> []"
    proof (cases bs)
      case (Cons b bs')
      then have "sp_index (sr_spc b) = sp_index spc"
        using meets_bounds(2) [OF p(4) V p(7) p(8), of b] by simp
      then show ?thesis using False Cons by (simp add: beyond_before before_def sr_new_def)
    next
      case Nil
      then show ?thesis using that cc by (cases cs) simp_all
    qed
    then have "takeWhile (\<lambda>e. \<not> beyond spc first e) (as @ (bs @ cs)) = as"
      using a(1) by (intro takeWhile_all_then) auto
    then have ub: "upper_bound_pos t spc first = length as" using upper_bound_pos_spec [OF I, of spc first] p(1) by simp
    show ?thesis
    proof (cases as rule: rev_cases)
      case (snoc as' e)
      then show ?thesis using ub a(2) [of e] p(1) by (auto simp: first_meeting_def nth_append)
    qed (simp add: first_meeting_def ub)
  qed
qed

lemma insert_sorted_apart:
  assumes "srl_inv ix t" "sr_valid ix r" "\<forall>e \<in> set t. before e r \<or> before r e"
  shows "srl_inv ix (insert_sorted r t)" "set (insert_sorted r t) = insert r (set t)"
proof -
  obtain as bs cs where c: "cut3 r t as bs cs" using cut3_exists [OF assms(1,2)] by blast
  then have t: "t = as @ cs" "\<forall>a \<in> set as. before a r" "\<forall>c \<in> set cs. before r c"
    using assms(3) by (auto simp: cut3_def) (cases bs, auto)
  then have "insert_sorted r t = as @ r # cs"
    using insert_sorted_split [of as r cs] before_cmp [of _ r ix] before_cmp_rev [of r _ ix] assms(1,2)
    by (auto simp: srl_inv_def list_all_iff)
  then show "srl_inv ix (insert_sorted r t)" "set (insert_sorted r t) = insert r (set t)"
    using assms t by (auto simp: srl_inv_def sorted_wrt_append list_all_iff)
qed

definition srl_mem :: "space_range_list \<Rightarrow> space_address \<Rightarrow> bool" where
  "srl_mem t a = list_ex (\<lambda>r. sr_contains r a) t"

lemma sr_contains_iff:
  "sr_contains r a \<longleftrightarrow> (\<exists>s. sa_base a = SpaceOf s \<and> same_space (sr_spc r) s)
     \<and> sr_first r \<le> sa_offset a \<and> sa_offset a \<le> sr_last r"
  by (auto simp: sr_contains_def sa_get_space_def split: space_base.splits)

lemma cover_slice_bounds:
  assumes "cover_slice es f l = (f', l')"
  shows "f' \<le> f" "l \<le> l'" "\<forall>e \<in> set es. f' \<le> sr_first e \<and> sr_last e \<le> l'"
    "f' = f \<or> f' \<in> sr_first ` set es" "l' = l \<or> l' \<in> sr_last ` set es"
proof -
  have "f' \<le> f \<and> l \<le> l' \<and> (\<forall>e \<in> set es. f' \<le> sr_first e \<and> sr_last e \<le> l')
    \<and> (f' = f \<or> f' \<in> sr_first ` set es) \<and> (l' = l \<or> l' \<in> sr_last ` set es)"
    using assms
  proof (induction es arbitrary: f l)
    case (Cons e es)
    let ?f = "if sr_first e < f then sr_first e else f" and ?l = "if sr_last e > l then sr_last e else l"
    have IH: "f' \<le> ?f" "?l \<le> l'" "\<forall>e \<in> set es. f' \<le> sr_first e \<and> sr_last e \<le> l'"
      "f' = ?f \<or> f' \<in> sr_first ` set es" "l' = ?l \<or> l' \<in> sr_last ` set es"
      using Cons.IH [of ?f ?l] Cons.prems by simp_all
    have "?f \<le> f" "?f \<le> sr_first e" "l \<le> ?l" "sr_last e \<le> ?l" by auto
    then have "f' \<le> f" "l \<le> l'" "f' \<le> sr_first e" "sr_last e \<le> l'"
      using IH(1,2) by (blast intro: order_trans)+
    then show ?case using IH(3-5) by (auto split: if_splits)
  qed simp
  then show "f' \<le> f" "l \<le> l'" "\<forall>e \<in> set es. f' \<le> sr_first e \<and> sr_last e \<le> l'"
    "f' = f \<or> f' \<in> sr_first ` set es" "l' = l \<or> l' \<in> sr_last ` set es" by blast+
qed

lemma cut3_slice:
  assumes "cut3 r t as bs cs"
  shows "slice (length as) (length as + length bs) t = Ret bs" "drain (length as) (length as + length bs) t = as @ cs"
  using assms by (simp_all add: cut3_def slice_def drain_def)

lemma cover_contains:
  assumes fl: "cover_slice bs first lst = (f, l)" and "first \<le> lst"
    and m: "\<And>e. e \<in> set bs \<Longrightarrow> same_space (sr_spc e) spc \<and> first \<le> sr_last e \<and> sr_first e \<le> lst"
  shows "sr_contains (sr_new spc f l) a \<longleftrightarrow> sr_contains (sr_new spc first lst) a \<or> (\<exists>e \<in> set bs. sr_contains e a)"
proof -
  note b = cover_slice_bounds [OF fl]
  have sp: "(\<exists>s. sa_base a = SpaceOf s \<and> same_space (sr_spc e) s) \<longleftrightarrow> (\<exists>s. sa_base a = SpaceOf s \<and> same_space spc s)"
    if "e \<in> set bs" for e using m [OF that] by (auto simp: same_space_def)
  have "f \<le> x \<and> x \<le> l \<longleftrightarrow> first \<le> x \<and> x \<le> lst \<or> (\<exists>e \<in> set bs. sr_first e \<le> x \<and> x \<le> sr_last e)" for x
  proof
    assume x: "f \<le> x \<and> x \<le> l"
    consider "first \<le> x" "x \<le> lst" | "x < first" | "lst < x" by force
    then show "first \<le> x \<and> x \<le> lst \<or> (\<exists>e \<in> set bs. sr_first e \<le> x \<and> x \<le> sr_last e)"
    proof cases
      case 2
      then obtain e where "e \<in> set bs" "sr_first e = f" using x b(4) by auto
      then show ?thesis using m 2 x by fastforce
    next
      case 3
      then obtain e where "e \<in> set bs" "sr_last e = l" using x b(5) by auto
      then show ?thesis using m 3 x by fastforce
    qed simp
  next
    assume "first \<le> x \<and> x \<le> lst \<or> (\<exists>e \<in> set bs. sr_first e \<le> x \<and> x \<le> sr_last e)"
    then show "f \<le> x \<and> x \<le> l" using b(1-3) by fastforce
  qed
  then show ?thesis using sp by (auto simp: sr_contains_iff sr_new_def)
qed

lemma srl_insert_range_spec:
  assumes I: "srl_inv ix t" and V: "sr_valid ix (sr_new spc first lst)"
  shows "\<exists>t'. srl_insert_range spc first lst t = Ret t' \<and> srl_inv ix t'
    \<and> (\<forall>a. srl_mem t' a \<longleftrightarrow> sr_contains (sr_new spc first lst) a \<or> srl_mem t a)"
proof -
  obtain as bs cs where c: "cut3 (sr_new spc first lst) t as bs cs" using cut3_exists [OF I V] by blast
  obtain f l where fl: "cover_slice bs first lst = (f, l)" by (cases "cover_slice bs first lst")
  note b = cover_slice_bounds [OF fl] and p = cut3_parts [OF I c]
  note m = meets_bounds [OF p(4) V p(7) p(8)]
  have coh: "numbered ix spc" and le: "first \<le> lst" using V by (simp_all add: sr_valid_def sr_new_def)
  have vm: "sr_valid ix (sr_new spc f l)"
    using coh le b(1,2) by (auto simp: sr_valid_def sr_new_def)
  have inv: "srl_inv ix (as @ cs)" using I p(1) by (auto simp: srl_inv_def sorted_wrt_append)
  have "before e (sr_new spc f l)" if e: "e \<in> set as" for e
  proof (cases "f = first")
    case True
    then show ?thesis using p(6) [OF e] by (simp add: before_def sr_new_def)
  next
    case False
    then obtain q where q: "q \<in> set bs" "f = sr_first q" using b(4) by blast
    then have "before e q" using p(2) e by (simp add: sorted_wrt_append)
    then show ?thesis using m(2) [OF q(1) q(1) q(1)] q(2) by (simp add: before_def sr_new_def)
  qed
  moreover have "before (sr_new spc f l) e" if e: "e \<in> set cs" for e
  proof (cases "l = lst")
    case True
    then show ?thesis using p(9) [OF e] by (simp add: before_def sr_new_def)
  next
    case False
    then obtain q where q: "q \<in> set bs" "l = sr_last q" using b(5) by blast
    then have "before q e" using p(2) e by (simp add: sorted_wrt_append)
    then show ?thesis using m(2) [OF q(1) q(1) q(1)] q(2) by (simp add: before_def sr_new_def)
  qed
  ultimately have ins: "srl_inv ix (insert_sorted (sr_new spc f l) (as @ cs))"
      "set (insert_sorted (sr_new spc f l) (as @ cs)) = insert (sr_new spc f l) (set (as @ cs))"
    using insert_sorted_apart [OF inv vm] by auto
  have cov: "sr_contains (sr_new spc f l) a \<longleftrightarrow> sr_contains (sr_new spc first lst) a \<or> (\<exists>e \<in> set bs. sr_contains e a)" for a
    using m by (intro cover_contains [OF fl le]) auto
  have "srl_insert_range spc first lst t = Ret (insert_sorted (sr_new spc f l) (as @ cs))"
    unfolding srl_insert_range_def Let_def cut3_first_meeting [OF I V c] cut3_upper_last [OF I V c]
    by (simp add: cut3_slice [OF c] fl)
  then show ?thesis
    by (intro exI conjI allI) (use ins cov p(1) in \<open>auto simp: srl_mem_def list_ex_iff\<close>)
qed

section \<open>Removal\<close>

definition sep :: "space_range \<Rightarrow> space_range \<Rightarrow> bool" where
  "sep r q \<longleftrightarrow> before r q \<or> before q r"

lemma sep_sub:
  assumes "sep e b" "sp_index (sr_spc q) = sp_index (sr_spc b)" "sr_first b \<le> sr_first q" "sr_last q \<le> sr_last b"
  shows "sep e q"
  using assms by (auto simp: sep_def before_def)

lemma insert_piece:
  assumes "srl_inv ix t" "\<forall>e \<in> set t. sep e b" "sp_index (sr_spc b) = sp_index spc" "numbered ix spc"
    and "sr_first b \<le> x" "x \<le> y" "y \<le> sr_last b"
  shows "srl_inv ix (insert_sorted (sr_new spc x y) t)"
    "set (insert_sorted (sr_new spc x y) t) = insert (sr_new spc x y) (set t)"
proof -
  have "sr_valid ix (sr_new spc x y)" using assms by (simp add: sr_valid_def sr_new_def)
  moreover have "\<forall>e \<in> set t. before e (sr_new spc x y) \<or> before (sr_new spc x y) e"
    using sep_sub [of _ b "sr_new spc x y"] assms by (auto simp: sep_def sr_new_def)
  ultimately show "srl_inv ix (insert_sorted (sr_new spc x y) t)"
    "set (insert_sorted (sr_new spc x y) t) = insert (sr_new spc x y) (set t)"
    using insert_sorted_apart assms(1) by blast+
qed

text \<open>The pieces of a range outside of \<open>[first, last]\<close>.\<close>

definition outside :: "addr_space \<Rightarrow> u64 \<Rightarrow> u64 \<Rightarrow> space_range \<Rightarrow> space_range set" where
  "outside spc first lst b =
     (if sr_first b < first then {sr_new spc (sr_first b) (first - 1)} else {})
     \<union> (if lst < sr_last b then {sr_new spc (lst + 1) (sr_last b)} else {})"

lemma pred_succ_u64:
  fixes x y :: u64
  shows "x < y \<Longrightarrow> x \<le> y - 1 \<and> y - 1 < y" "x < y \<Longrightarrow> x < x + 1 \<and> x + 1 \<le> y"
proof -
  assume a: "x < y"
  have "0 < uint y" "uint x + 1 < 18446744073709551616"
    using a uint_ge_0 [of x] uint_lt_u64 [of y] unfolding word_less_def by linarith+
  then have y: "uint (y - 1) = uint y - 1" and x: "uint (x + 1) = uint x + 1"
    using uint_lt2p [of y] by (simp_all add: uint_word_ariths)
  show "x \<le> y - 1 \<and> y - 1 < y" using a y by (simp add: word_less_def word_le_def)
  show "x < x + 1 \<and> x + 1 \<le> y" using a x by (simp add: word_less_def word_le_def)
qed

lemma outside_within:
  assumes "q \<in> outside spc first lst b" "first \<le> lst" "first \<le> sr_last b" "sr_first b \<le> lst"
  shows "sr_spc q = spc" "sr_first b \<le> sr_first q" "sr_first q \<le> sr_last q" "sr_last q \<le> sr_last b"
  using assms pred_succ_u64(1) [of "sr_first b" first] pred_succ_u64(2) [of lst "sr_last b"]
  by (auto simp: outside_def sr_new_def split: if_splits)

lemma outside_contains:
  assumes "same_space (sr_spc b) spc" "first \<le> sr_last b" "sr_first b \<le> lst"
  shows "(\<exists>q \<in> outside spc first lst b. sr_contains q a)
    \<longleftrightarrow> sr_contains b a \<and> \<not> sr_contains (sr_new spc first lst) a"
proof (cases "\<exists>s. sa_base a = SpaceOf s \<and> same_space spc s")
  case True
  have "same_space (sr_spc b) s \<longleftrightarrow> same_space spc s" for s using assms(1) by (simp add: same_space_def)
  then have c: "sr_contains r a \<longleftrightarrow> sr_first r \<le> sa_offset a \<and> sa_offset a \<le> sr_last r"
    if "sr_spc r = spc \<or> r = b" for r using that True by (auto simp: sr_contains_iff)
  have p: "x \<le> first - 1 \<longleftrightarrow> x < first" if "sr_first b < first" for x
    using that pred_succ_u64(1) [of _ first] by (meson le_less_trans)
  have q: "lst + 1 \<le> x \<longleftrightarrow> lst < x" if "lst < sr_last b" for x
    using that pred_succ_u64(2) [of lst] by (meson less_le_trans)
  have "(\<exists>q \<in> outside spc first lst b. sr_contains q a) \<longleftrightarrow>
      (sr_first b < first \<and> sr_first b \<le> sa_offset a \<and> sa_offset a < first)
      \<or> (lst < sr_last b \<and> lst < sa_offset a \<and> sa_offset a \<le> sr_last b)"
    using p q c [of "sr_new spc (sr_first b) (first - 1)"] c [of "sr_new spc (lst + 1) (sr_last b)"]
    by (auto simp: outside_def sr_new_def)
  then show ?thesis
    using c [of b] c [of "sr_new spc first lst"] assms(2,3) by (auto simp: sr_new_def not_le)
next
  case False
  have "same_space (sr_spc b) s \<longleftrightarrow> same_space spc s" for s using assms(1) by (simp add: same_space_def)
  then show ?thesis using False by (auto simp: outside_def sr_contains_iff sr_new_def split: if_splits)
qed

lemma insert_outside:
  assumes "srl_inv ix t" "numbered ix spc" "first \<le> lst" "\<forall>e \<in> set t. sep e b"
    and b: "sp_index (sr_spc b) = sp_index spc" "first \<le> sr_last b" "sr_first b \<le> lst"
  defines "t1 \<equiv> if sr_first b < first then insert_sorted (sr_new spc (sr_first b) (first - 1)) t else t"
  defines "t2 \<equiv> if lst < sr_last b then insert_sorted (sr_new spc (lst + 1) (sr_last b)) t1 else t1"
  shows "srl_inv ix t2 \<and> set t2 = set t \<union> outside spc first lst b"
proof -
  let ?l = "sr_new spc (sr_first b) (first - 1)" and ?r = "sr_new spc (lst + 1) (sr_last b)"
  have t1: "srl_inv ix t1 \<and> set t1 = set t \<union> (if sr_first b < first then {?l} else {})"
  proof (cases "sr_first b < first")
    case True
    then have "sr_first b \<le> first - 1" "first - 1 < first" using pred_succ_u64(1) by blast+
    then have "first - 1 \<le> sr_last b" using b(2) by simp
    then show ?thesis
      using insert_piece [OF assms(1,4) b(1) assms(2) order.refl \<open>sr_first b \<le> first - 1\<close>] True
      by (simp add: t1_def)
  qed (simp add: t1_def assms(1))
  show ?thesis
  proof (cases "lst < sr_last b")
    case True
    then have r: "lst < lst + 1" "lst + 1 \<le> sr_last b" using pred_succ_u64(2) by blast+
    have v: "sr_valid ix ?r" using assms(2) r by (simp add: sr_valid_def sr_new_def)
    have "before e ?r \<or> before ?r e" if "e \<in> set t1" for e
    proof (cases "e \<in> set t")
      case True
      have "sr_first b \<le> lst + 1" using b(3) r by simp
      then have "sep e ?r" using sep_sub [of e b ?r] assms(4) True b(1) by (simp add: sr_new_def)
      then show ?thesis by (simp add: sep_def)
    next
      case False
      then have "e = ?l" "sr_first b < first" using that t1 by (simp_all split: if_splits)
      moreover from this have "first - 1 < lst + 1"
        using pred_succ_u64(1) [of "sr_first b" first] assms(3) r(1) by (blast intro: less_le_trans less_trans)
      ultimately show ?thesis by (simp add: before_def sr_new_def)
    qed
    then show ?thesis
      using insert_sorted_apart [of ix t1 ?r] t1 v True by (simp add: t2_def outside_def)
  next
    case False
    then show ?thesis using t1 by (simp add: t2_def outside_def)
  qed
qed

lemma insert_pieces_spec:
  assumes "srl_inv ix t" "numbered ix spc" "first \<le> lst" "sorted_wrt before bs"
    and "\<forall>b \<in> set bs. sp_index (sr_spc b) = sp_index spc \<and> first \<le> sr_last b \<and> sr_first b \<le> lst"
    and "\<forall>e \<in> set t. \<forall>b \<in> set bs. sep e b"
  shows "srl_inv ix (insert_pieces spc first lst (map (\<lambda>r. (sr_first r, sr_last r)) bs) t)
    \<and> set (insert_pieces spc first lst (map (\<lambda>r. (sr_first r, sr_last r)) bs) t)
        = set t \<union> (\<Union>b \<in> set bs. outside spc first lst b)"
  using assms
proof (induction bs arbitrary: t)
  case (Cons b bs)
  let ?l = "sr_new spc (sr_first b) (first - 1)" and ?r = "sr_new spc (lst + 1) (sr_last b)"
  define t1 where "t1 = (if sr_first b < first then insert_sorted ?l t else t)"
  define t2 where "t2 = (if lst < sr_last b then insert_sorted ?r t1 else t1)"
  have b: "sp_index (sr_spc b) = sp_index spc" "first \<le> sr_last b" "sr_first b \<le> lst"
    "\<forall>e \<in> set t. sep e b" "\<forall>q \<in> set bs. before b q"
    using Cons.prems(4-6) by simp_all
  have t2: "srl_inv ix t2" "set t2 = set t \<union> outside spc first lst b"
    using insert_outside [OF Cons.prems(1-3) b(4,1-3)] unfolding t1_def t2_def by blast+
  have "sep e q" if e: "e \<in> set t2" and q: "q \<in> set bs" for e q
  proof (cases "e \<in> set t")
    case False
    then have "e \<in> outside spc first lst b" using e t2(2) by simp
    note w = outside_within [OF this Cons.prems(3) b(2,3)]
    have "before e q" using b(1,5) q w(1,4) by (auto simp: before_def)
    then show ?thesis by (simp add: sep_def)
  qed (use Cons.prems(6) q in simp)
  then have "srl_inv ix (insert_pieces spc first lst (map (\<lambda>r. (sr_first r, sr_last r)) bs) t2)
    \<and> set (insert_pieces spc first lst (map (\<lambda>r. (sr_first r, sr_last r)) bs) t2)
        = set t2 \<union> (\<Union>b \<in> set bs. outside spc first lst b)"
    using Cons.prems(2-5) t2(1) by (intro Cons.IH) simp_all
  then show ?case
    by (simp only: list.map insert_pieces.simps Let_def t1_def [symmetric] t2_def [symmetric] t2(2)) auto
qed simp

lemma srl_remove_range_spec:
  assumes I: "srl_inv ix t" and V: "sr_valid ix (sr_new spc first lst)"
  shows "\<exists>t'. srl_remove_range spc first lst t = Ret t' \<and> srl_inv ix t'
    \<and> (\<forall>a. srl_mem t' a \<longleftrightarrow> srl_mem t a \<and> \<not> sr_contains (sr_new spc first lst) a)"
proof (cases "t = []")
  case True
  then show ?thesis using I by (simp add: srl_remove_range_def srl_mem_def)
next
  case False
  obtain as bs cs where c: "cut3 (sr_new spc first lst) t as bs cs" using cut3_exists [OF I V] by blast
  note p = cut3_parts [OF I c]
  note m = meets_bounds [OF p(4) V p(7) p(8)]
  have coh: "numbered ix spc" and le: "first \<le> lst" using V by (simp_all add: sr_valid_def sr_new_def)
  define t' where "t' = insert_pieces spc first lst (map (\<lambda>r. (sr_first r, sr_last r)) bs) (as @ cs)"
  have inv: "srl_inv ix (as @ cs)" "sorted_wrt before bs" "\<forall>e \<in> set (as @ cs). \<forall>b \<in> set bs. sep e b"
    using I p(1,2) by (auto simp: srl_inv_def sorted_wrt_append sep_def)
  have bb: "\<forall>b \<in> set bs. sp_index (sr_spc b) = sp_index spc \<and> first \<le> sr_last b \<and> sr_first b \<le> lst"
    using m(2-4) by simp
  note t' = insert_pieces_spec [OF inv(1) coh le inv(2) bb inv(3), folded t'_def]
  have keep: "\<not> sr_contains (sr_new spc first lst) a" if "e \<in> set (as @ cs)" "sr_contains e a" for e a
  proof -
    have e: "sep e (sr_new spc first lst)" "numbered ix (sr_spc e)"
      using that p(3,5,6,9) by (auto simp: sep_def sr_valid_def)
    show ?thesis
    proof
      assume "sr_contains (sr_new spc first lst) a"
      then have "same_space (sr_spc e) spc" "sr_first e \<le> lst" "first \<le> sr_last e"
        using that(2) by (auto simp: sr_contains_iff sr_new_def same_space_def)
      then show False using e(1) same_space_index [OF e(2) coh] by (auto simp: sep_def before_def sr_new_def)
    qed
  qed
  have mem: "srl_mem t' a \<longleftrightarrow> srl_mem t a \<and> \<not> sr_contains (sr_new spc first lst) a" for a
  proof -
    have "srl_mem t' a \<longleftrightarrow> (\<exists>e \<in> set (as @ cs). sr_contains e a)
        \<or> (\<exists>b \<in> set bs. \<exists>q \<in> outside spc first lst b. sr_contains q a)"
      using t' by (auto simp: srl_mem_def list_ex_iff)
    also have "(\<exists>b \<in> set bs. \<exists>q \<in> outside spc first lst b. sr_contains q a)
        \<longleftrightarrow> (\<exists>b \<in> set bs. sr_contains b a \<and> \<not> sr_contains (sr_new spc first lst) a)"
      by (intro bex_cong refl outside_contains m(1,3,4))
    also have "(\<exists>e \<in> set (as @ cs). sr_contains e a) \<or> \<dots>
        \<longleftrightarrow> (\<exists>e \<in> set (as @ cs) \<union> set bs. sr_contains e a) \<and> \<not> sr_contains (sr_new spc first lst) a"
      using keep [of _ a] by blast
    also have "(\<exists>e \<in> set (as @ cs) \<union> set bs. sr_contains e a) \<longleftrightarrow> srl_mem t a"
      unfolding srl_mem_def list_ex_iff p(1) by auto
    finally show ?thesis .
  qed
  have "srl_remove_range spc first lst t = Ret t'"
    unfolding srl_remove_range_def Let_def cut3_first_meeting [OF I V c] cut3_upper_last [OF I V c]
    using False by (simp add: cut3_slice [OF c] t'_def)
  then show ?thesis using t' mem by simp
qed

section \<open>The interface\<close>

text \<open>
  The operations may panic, so the list of the interface is a list or a panic, and the
  invariant excludes the panic.
\<close>

definition srl_ok :: "space_index \<Rightarrow> space_range_list res \<Rightarrow> bool" where
  "srl_ok ix l = (case l of Ret t \<Rightarrow> srl_inv ix t | Panic \<Rightarrow> False)"

definition srl_holds :: "space_range_list res \<Rightarrow> space_address \<Rightarrow> bool" where
  "srl_holds l a = (case l of Ret t \<Rightarrow> srl_mem t a | Panic \<Rightarrow> False)"

definition srl_ins :: "space_range \<Rightarrow> space_range_list res \<Rightarrow> space_range_list res" where
  "srl_ins r l = res_bind l (srl_insert_range (sr_spc r) (sr_first r) (sr_last r))"

definition srl_del :: "space_range \<Rightarrow> space_range_list res \<Rightarrow> space_range_list res" where
  "srl_del r l = res_bind l (srl_remove_range (sr_spc r) (sr_first r) (sr_last r))"

lemma sr_new_fields: "sr_new (sr_spc r) (sr_first r) (sr_last r) = r"
  by (simp add: sr_new_def)

interpretation srl: range_set "srl_ok ix" srl_holds "sr_valid ix" sr_contains "Ret []" srl_ins srl_del for ix
proof unfold_locales
  show "srl_ok ix (Ret [])" by (simp add: srl_ok_def srl_inv_def)
  show "\<not> srl_holds (Ret []) p" for p by (simp add: srl_holds_def srl_mem_def)
  fix l r p
  assume ok: "srl_ok ix l" and v: "sr_valid ix r"
  then obtain t where t: "l = Ret t" "srl_inv ix t" by (cases l) (simp_all add: srl_ok_def)
  have v': "sr_valid ix (sr_new (sr_spc r) (sr_first r) (sr_last r))" using v by (simp add: sr_new_fields)
  obtain t1 where t1: "srl_insert_range (sr_spc r) (sr_first r) (sr_last r) t = Ret t1" "srl_inv ix t1"
    "\<forall>a. srl_mem t1 a \<longleftrightarrow> sr_contains r a \<or> srl_mem t a"
    using srl_insert_range_spec [OF t(2) v'] unfolding sr_new_fields by blast
  obtain t2 where t2: "srl_remove_range (sr_spc r) (sr_first r) (sr_last r) t = Ret t2" "srl_inv ix t2"
    "\<forall>a. srl_mem t2 a \<longleftrightarrow> srl_mem t a \<and> \<not> sr_contains r a"
    using srl_remove_range_spec [OF t(2) v'] unfolding sr_new_fields by blast
  show "srl_ok ix (srl_ins r l)" using t t1 by (simp add: srl_ok_def srl_ins_def)
  show "srl_holds (srl_ins r l) p \<longleftrightarrow> sr_contains r p \<or> srl_holds l p"
    using t t1 by (simp add: srl_holds_def srl_ins_def)
  show "srl_ok ix (srl_del r l)" using t t2 by (simp add: srl_ok_def srl_del_def)
  show "srl_holds (srl_del r l) p \<longleftrightarrow> srl_holds l p \<and> \<not> sr_contains r p"
    using t t2 by (simp add: srl_holds_def srl_del_def)
qed

lemma srl_merge_fold: "srl_merge t rs = fold srl_ins rs (Ret t)"
proof (induction rs arbitrary: t)
  case (Cons r rs)
  have "fold srl_ins rs Panic = Panic" by (induction rs) (simp_all add: srl_ins_def)
  then show ?case
    using Cons.IH
    by (cases "srl_insert_range (sr_spc r) (sr_first r) (sr_last r) t") (simp_all add: srl_ins_def [of r])
qed simp

section \<open>Queries\<close>

lemma contains_at:
  "sr_contains r (sa_new s off) \<longleftrightarrow> same_space (sr_spc r) s \<and> sr_first r \<le> off \<and> off \<le> sr_last r"
  by (simp add: sr_contains_iff sa_new_def)

text \<open>The range found by the search, if any range holds the address.\<close>

lemma locate:
  assumes I: "srl_inv ix t" and s: "numbered ix s"
  obtains (found) as b cs where "t = as @ b # cs" "upper_bound_pos t s off = Suc (length as)"
      "sr_contains b (sa_new s off)" "\<And>e. e \<in> set t \<Longrightarrow> sr_contains e (sa_new s off) \<longleftrightarrow> e = b"
      "\<And>e. e \<in> set (b # cs) \<Longrightarrow> sp_index s \<le> sp_index (sr_spc e)"
      "\<And>e. e \<in> set as \<Longrightarrow> \<not> same_space (sr_spc e) s \<or> sr_last e < off"
  | (absent) "\<not> srl_mem t (sa_new s off)" "\<And>e. upper_bound_pos t s off \<noteq> 0 \<Longrightarrow>
      e = t ! (upper_bound_pos t s off - 1) \<Longrightarrow> \<not> same_space (sr_spc e) s \<or> sr_last e < off"
proof -
  have V: "sr_valid ix (sr_new s off off)" using s by (simp add: sr_valid_def sr_new_def)
  obtain as bs cs where c: "cut3 (sr_new s off off) t as bs cs" using cut3_exists [OF I V] by blast
  note p = cut3_parts [OF I c] and ub = cut3_upper_last [OF I V c]
  note m = meets_bounds [OF p(4) V p(7) p(8)]
  have b: "sr_contains e (sa_new s off)" if "e \<in> set bs" for e
    using m [OF that that that] by (simp add: contains_at)
  have a: "\<not> same_space (sr_spc e) s \<or> sr_last e < off" if "e \<in> set as" for e
    using before_not_beyond(2) [OF p(6) p(3) s] that by blast
  have d: "\<not> sr_contains e (sa_new s off)" if "e \<in> set cs" for e
  proof -
    have coh: "numbered ix (sr_spc e)" using p(5) [OF that] by (simp add: sr_valid_def)
    have "sp_index (sr_spc e) \<noteq> sp_index s \<or> off < sr_first e"
      using p(9) [OF that] unfolding before_def sr_new_def by simp linarith
    then show ?thesis unfolding contains_at same_space_index [OF coh s] by (meson not_le)
  qed
  show ?thesis
  proof (cases bs)
    case Nil
    have "\<not> srl_mem t (sa_new s off)"
    proof -
      have "\<not> sr_contains e (sa_new s off)" if "e \<in> set as" for e using a [OF that] by (auto simp: contains_at)
      then show ?thesis using d Nil p(1) by (auto simp: srl_mem_def list_ex_iff)
    qed
    moreover have "\<not> same_space (sr_spc e) s \<or> sr_last e < off"
      if "upper_bound_pos t s off \<noteq> 0" "e = t ! (upper_bound_pos t s off - 1)" for e
      using that ub Nil p(1) a [of e] by (simp add: nth_append)
    ultimately show ?thesis by (rule absent)
  next
    case (Cons b0 bs')
    have "bs' = []"
    proof (cases bs')
      case (Cons b1 bs'')
      then have "before b0 b1" using p(2) \<open>bs = b0 # bs'\<close> by (simp add: sorted_wrt_append)
      moreover have "b0 \<in> set bs" "b1 \<in> set bs" using Cons \<open>bs = b0 # bs'\<close> by simp_all
      moreover have "off \<le> sr_last b0" "sr_first b1 \<le> off" "sp_index (sr_spc b0) = sp_index (sr_spc b1)"
        using calculation b [of b0] b [of b1] m(2) [of b0] m(2) [of b1] by (simp_all add: contains_at)
      ultimately show ?thesis by (auto simp: before_def)
    qed simp
    then have bs: "bs = [b0]" using Cons by simp
    show ?thesis
    proof (rule found)
      show "t = as @ b0 # cs" "upper_bound_pos t s off = Suc (length as)" using p(1) ub bs by simp_all
      show "sr_contains b0 (sa_new s off)" using b bs by simp
      show "sr_contains e (sa_new s off) \<longleftrightarrow> e = b0" if et: "e \<in> set t" for e
      proof -
        consider "e \<in> set as" | "e = b0" | "e \<in> set cs" using et p(1) bs by auto
        then show ?thesis
        proof cases
          case 1
          then have "\<not> sr_contains e (sa_new s off)" using a [of e] by (auto simp: contains_at)
          then show ?thesis using b bs by auto
        next
          case 2
          then show ?thesis using b bs by simp
        next
          case 3
          then show ?thesis using d [of e] b bs by auto
        qed
      qed
      show "sp_index s \<le> sp_index (sr_spc e)" if "e \<in> set (b0 # cs)" for e
      proof (cases "e = b0")
        case True
        then show ?thesis using m(2) [of b0] bs by simp
      next
        case False
        then show ?thesis using that p(9) [of e] by (auto simp: before_def sr_new_def)
      qed
      show "\<not> same_space (sr_spc e) s \<or> sr_last e < off" if "e \<in> set as" for e by (rule a [OF that])
    qed
  qed
qed

lemma get_range_spec:
  assumes "srl_inv ix t" "numbered ix s"
  shows "srl_get_range t s off = Some r \<longleftrightarrow> r \<in> set t \<and> sr_contains r (sa_new s off)"
proof (cases rule: locate [OF assms, of off])
  case (1 as b cs)
  have "same_space (sr_spc b) s" "off \<le> sr_last b" using 1(3) by (simp_all add: contains_at)
  then have "srl_get_range t s off = Some b"
    using 1(1,2) by (simp add: srl_get_range_def Let_def nth_append)
  then show ?thesis using 1(1,3,4) by auto
next
  case 2
  then show ?thesis
    by (auto simp: srl_get_range_def Let_def srl_mem_def list_ex_iff)
qed

lemma in_range_spec:
  assumes "srl_inv ix t" "numbered ix s" "1 \<le> n" "n < 2 ^ 31" "uint off + n \<le> 2 ^ 64"
  shows "srl_in_range t (sa_new s off) n \<longleftrightarrow>
    (\<exists>r \<in> set t. sr_contains r (sa_new s off) \<and> sr_contains r (sa_new s (off + as_u64 (n - 1))))"
proof -
  have w: "wrap_i32 (n - 1) = n - 1"
    using assms(3,4) unfolding wrap_i32_def by (intro signed_take_bit_int_eq_self) simp_all
  have "uint (as_u64 (n - 1)) = n - 1"
    using assms(3,4) unfolding as_u64_def by (simp only: uint_word_of_int_eq) (simp add: take_bit_int_eq_self)
  then have "uint (off + as_u64 (n - 1)) = uint off + (n - 1)"
    using assms(3,5) by (simp add: uint_word_ariths)
  then have le: "off \<le> off + as_u64 (n - 1)" using assms(3) by (simp add: word_le_def)
  show ?thesis
  proof (cases rule: locate [OF assms(1,2), of off])
    case (1 as b cs)
    have b: "same_space (sr_spc b) s" "sr_first b \<le> off" using 1(3) by (simp_all add: contains_at)
    then have "srl_in_range t (sa_new s off) n \<longleftrightarrow> off + as_u64 (n - 1) \<le> sr_last b"
      using 1(1,2) by (simp add: srl_in_range_def sa_new_def sa_is_invalid_def sa_get_space_def w Let_def nth_append)
    moreover have "(\<exists>r \<in> set t. sr_contains r (sa_new s off) \<and> sr_contains r (sa_new s (off + as_u64 (n - 1))))
        \<longleftrightarrow> sr_contains b (sa_new s (off + as_u64 (n - 1)))"
      using 1(1,4) by auto
    moreover have "sr_first b \<le> off + as_u64 (n - 1)" using b(2) le by (rule order_trans)
    ultimately show ?thesis using b(1) by (simp only: contains_at) blast
  next
    case 2
    then have "\<not> srl_in_range t (sa_new s off) n"
      using le by (auto simp: srl_in_range_def sa_new_def sa_is_invalid_def sa_get_space_def w Let_def)
    then show ?thesis using 2(1) by (auto simp: srl_mem_def list_ex_iff)
  qed
qed

text \<open>
  The chain of adjacent ranges: from the offset \<open>o\<close> on, the loop adds the number \<open>k\<close> of consecutive
  addresses that the remaining ranges hold.
\<close>

lemma longest_fit_loop_spec:
  assumes "list_all (sr_valid ix) es" "sorted_wrt before es" "numbered ix s"
    and "\<forall>e \<in> set es. sp_index s \<le> sp_index (sr_spc e)"
    and "\<forall>e \<in> set es. same_space (sr_spc e) s \<longrightarrow> off \<le> sr_last e"
    and "uint sz + (2 ^ 64 - uint off) < 2 ^ 64"
  shows "\<exists>k. uint (longest_fit_loop es s maxsize off sz) = uint sz + k \<and> 0 \<le> k \<and> k \<le> 2 ^ 64 - uint off
    \<and> (\<forall>x. uint off \<le> uint x \<and> uint x < uint off + k \<longrightarrow> (\<exists>e \<in> set es. sr_contains e (sa_new s x)))
    \<and> (longest_fit_loop es s maxsize off sz < maxsize \<longrightarrow>
        (\<forall>x. uint x = uint off + k \<longrightarrow> \<not> (\<exists>e \<in> set es. sr_contains e (sa_new s x))))"
  using assms
proof (induction es arbitrary: off sz)
  case Nil
  then show ?case using uint_lt_u64 [of off] by auto
next
  case (Cons e es)
  have v: "numbered ix (sr_spc e)" "sr_first e \<le> sr_last e" "list_all (sr_valid ix) es"
    "sorted_wrt before es" "\<forall>q \<in> set es. before e q" "\<forall>q \<in> set es. numbered ix (sr_spc q)"
    using Cons.prems(1,2) by (auto simp: sr_valid_def list_all_iff)
  have same: "same_space (sr_spc q) s \<longleftrightarrow> sp_index (sr_spc q) = sp_index s" if "q \<in> set (e # es)" for q
  proof -
    have "numbered ix (sr_spc q)" using that v(1,6) by auto
    then show ?thesis using Cons.prems(3) by (rule same_space_index)
  qed
  show ?case
  proof (cases "same_space (sr_spc e) s \<and> sr_first e \<le> off")
    case False
    then have e: "sp_index s < sp_index (sr_spc e) \<or> off < sr_first e"
      using same [of e] Cons.prems(4) by force
    have "\<not> sr_contains q (sa_new s off)" if q: "q \<in> set (e # es)" for q
    proof (cases "q = e")
      case True
      then show ?thesis using False by (auto simp: contains_at)
    next
      case F: False
      then have "before e q" using q v(5) by simp
      then have "sp_index s < sp_index (sr_spc q) \<or> off < sr_first q"
        using e v(2) Cons.prems(4) by (fastforce simp: before_def)
      then show ?thesis using same [OF q] by (auto simp: contains_at)
    qed
    then show ?thesis
      using False uint_lt_u64 [of off] by (intro exI [of _ 0]) (auto simp: word_uint_eq_iff [symmetric])
  next
    case True
    define sz' where "sz' = sz + (sr_last e + 1 - off)"
    have here: "same_space (sr_spc e) s" "sr_first e \<le> off" "off \<le> sr_last e" using True Cons.prems(5) by auto
    have loop: "longest_fit_loop (e # es) s maxsize off sz =
        (if maxsize \<le> sz' then sz' else longest_fit_loop es s maxsize (sr_last e + 1) sz')"
      using here(1) leD [OF here(2)] by (simp add: sz'_def Let_def)
    have in_e: "sr_contains e (sa_new s x)" if "uint off \<le> uint x" "uint x < uint (sr_last e) + 1" for x
      using that here by (auto simp: contains_at word_le_def)
    have bounds: "uint off \<le> uint (sr_last e)" "uint (sr_last e) < 2 ^ 64"
      using here(3) uint_lt_u64 [of "sr_last e"] by (simp_all add: word_le_def)
    have sz': "uint sz' = uint sz + (uint (sr_last e) + 1 - uint off)"
    proof -
      have "uint sz' = (uint sz + (uint (sr_last e) + 1 - uint off)) mod 2 ^ 64"
        unfolding sz'_def by (simp add: uint_word_ariths mod_simps)
      then show ?thesis using bounds Cons.prems(6) uint_ge_0 [of sz] by simp
    qed
    show ?thesis
    proof (cases "maxsize \<le> sz'")
      case M: True
      show ?thesis
        unfolding loop using M sz' in_e bounds
        by (intro exI [of _ "uint (sr_last e) + 1 - uint off"]) auto
    next
      case M: False
      show ?thesis
      proof (cases "sr_last e = U64_MAX")
        case L: True
        have "\<not> same_space (sr_spc q) s" if "q \<in> set es" for q
        proof -
          have "sp_index (sr_spc e) < sp_index (sr_spc q) \<or> sr_last e < sr_first q"
            using v(5) that by (auto simp: before_def)
          moreover have "\<not> sr_last e < sr_first q"
            using uint_lt_u64 [of "sr_first q"] unfolding word_less_def L U64_MAX_def by simp
          ultimately show ?thesis using same [of e] same [of q] here(1) that by auto
        qed
        then have "longest_fit_loop es s maxsize (sr_last e + 1) sz' = sz'" by (cases es) simp_all
        moreover have "uint (sr_last e) = 2 ^ 64 - 1" using L by (simp add: U64_MAX_def)
        moreover have "uint x \<noteq> 2 ^ 64" for x :: u64 using uint_lt_u64 [of x] by simp
        ultimately show ?thesis
          unfolding loop using M sz' in_e bounds
          by (intro exI [of _ "2 ^ 64 - uint off"]) auto
      next
        case L: False
        have succ: "uint (sr_last e + 1) = uint (sr_last e) + 1"
        proof -
          have "uint (sr_last e) \<noteq> 18446744073709551615"
            using L by (simp add: U64_MAX_def word_uint_eq_iff)
          then show ?thesis using bounds(2) by (simp add: uint_word_ariths)
        qed
        have nxt: "uint (sr_last e) < uint (sr_first q)" if "q \<in> set es" "same_space (sr_spc q) s" for q
          using v(5) that same [of e] same [of q] here(1) by (auto simp: before_def word_less_def)
        have "sr_last e + 1 \<le> sr_last q" if "q \<in> set es" "same_space (sr_spc q) s" for q
        proof -
          have "sr_first q \<le> sr_last q" using v(3) that(1) by (auto simp: list_all_iff sr_valid_def)
          then show ?thesis using nxt [OF that] unfolding word_le_def succ by linarith
        qed
        then obtain k where k: "uint (longest_fit_loop es s maxsize (sr_last e + 1) sz') = uint sz' + k"
            "0 \<le> k" "k \<le> 2 ^ 64 - uint (sr_last e + 1)"
            "\<And>x. uint (sr_last e + 1) \<le> uint x \<Longrightarrow> uint x < uint (sr_last e + 1) + k \<Longrightarrow>
               \<exists>q \<in> set es. sr_contains q (sa_new s x)"
            "\<And>x. longest_fit_loop es s maxsize (sr_last e + 1) sz' < maxsize \<Longrightarrow>
               uint x = uint (sr_last e + 1) + k \<Longrightarrow> \<not> (\<exists>q \<in> set es. sr_contains q (sa_new s x))"
          using Cons.IH [OF v(3,4) Cons.prems(3), of "sr_last e + 1" sz'] Cons.prems(4,6) sz' succ bounds by auto
        show ?thesis
        proof (intro exI [of _ "uint (sr_last e) + 1 - uint off + k"] conjI allI impI)
          fix x :: u64
          assume x: "uint off \<le> uint x \<and> uint x < uint off + (uint (sr_last e) + 1 - uint off + k)"
          show "\<exists>q \<in> set (e # es). sr_contains q (sa_new s x)"
          proof (cases "uint x < uint (sr_last e) + 1")
            case True
            then show ?thesis using in_e x by simp
          next
            case False
            then show ?thesis using k(4) [of x] x unfolding succ by auto
          qed
        next
          fix x :: u64
          assume x: "longest_fit_loop (e # es) s maxsize off sz < maxsize"
            "uint x = uint off + (uint (sr_last e) + 1 - uint off + k)"
          have "\<not> sr_contains e (sa_new s x)" using x(2) k(2) by (simp add: contains_at word_le_def)
          moreover have "longest_fit_loop es s maxsize (sr_last e + 1) sz' < maxsize" using x(1) M unfolding loop by simp
          ultimately show "\<not> (\<exists>q \<in> set (e # es). sr_contains q (sa_new s x))"
            using k(5) [of x] x(2) succ by simp
        qed (use k(1-3) loop M sz' succ bounds in simp_all)
      qed
    qed
  qed
qed

section \<open>Properties\<close>

text \<open>Any insertions and then removals: no slice panics, and the list represents the expected set.\<close>

lemma srl_build:
  assumes "srl_inv ix t" "list_all (sr_valid ix) ins" "list_all (sr_valid ix) dels"
  shows "\<exists>t'. fold srl_del dels (fold srl_ins ins (Ret t)) = Ret t' \<and> srl_inv ix t'
    \<and> (\<forall>a. srl_mem t' a \<longleftrightarrow> (srl_mem t a \<or> list_ex (\<lambda>r. sr_contains r a) ins) \<and> \<not> list_ex (\<lambda>r. sr_contains r a) dels)"
proof -
  have t: "srl_ok ix (Ret t)" using assms(1) by (simp add: srl_ok_def)
  note i = srl.fold_ins [OF t assms(2)] and d = srl.fold_del [OF srl.fold_ins(1) [OF t assms(2)] assms(3)]
  obtain t' where t': "fold srl_del dels (fold srl_ins ins (Ret t)) = Ret t'" "srl_inv ix t'"
    using d(1) by (auto simp: srl_ok_def split: res.splits)
  have "srl_mem t' a \<longleftrightarrow> (srl_mem t a \<or> list_ex (\<lambda>r. sr_contains r a) ins) \<and> \<not> list_ex (\<lambda>r. sr_contains r a) dels" for a
    using d(2) [of a] i(2) [of a] t'(1) by (simp add: srl_holds_def)
  then show ?thesis using t' by blast
qed

text \<open>
  A list over several spaces, built by any insertions and then removals of ranges whose spaces the
  manager has indexed: no slice panics, the ranges stay ordered by space index and offset
  and disjoint, and the list holds exactly the inserted addresses that were not removed.
\<close>

theorem space_range_list_invariant:
  assumes "srl_inv ix t" "list_all (sr_valid ix) ins" "list_all (sr_valid ix) dels"
  shows "\<exists>t'. fold srl_del dels (fold srl_ins ins (Ret t)) = Ret t' \<and> srl_inv ix t'
    \<and> (\<forall>a. srl_mem t' a \<longleftrightarrow> (srl_mem t a \<or> list_ex (\<lambda>r. sr_contains r a) ins) \<and> \<not> list_ex (\<lambda>r. sr_contains r a) dels)"
  by (rule srl_build [OF assms])

text \<open>
  \<open>get_range\<close> finds the range that holds an address, exactly when there is one, and \<open>in_range\<close>
  tells whether one range of the list holds the whole interval.
\<close>

theorem space_range_list_lookup:
  assumes "srl_inv ix t" "numbered ix s"
  shows "(srl_get_range t s off = Some r \<longleftrightarrow> r \<in> set t \<and> sr_contains r (sa_new s off))
    \<and> (1 \<le> n \<and> n < 2 ^ 31 \<and> uint off + n \<le> 2 ^ 64 \<longrightarrow>
       (srl_in_range t (sa_new s off) n \<longleftrightarrow>
        (\<exists>r \<in> set t. sr_contains r (sa_new s off) \<and> sr_contains r (sa_new s (off + as_u64 (n - 1))))))"
  using get_range_spec [OF assms] in_range_spec [OF assms, of n off] by blast

text \<open>
  The longest fit at an offset other than zero: the addresses from it on for the length returned are
  all in the list, through any chain of adjacent ranges, and unless the length has reached the
  limit the next address is not.
\<close>

theorem space_range_list_longest_fit:
  assumes I: "srl_inv ix t" and s: "numbered ix s" and off: "off \<noteq> 0"
  shows "(\<forall>x. uint off \<le> uint x \<and> uint x < uint off + uint (srl_longest_fit t (sa_new s off) maxsize)
        \<longrightarrow> srl_mem t (sa_new s x))
    \<and> (srl_longest_fit t (sa_new s off) maxsize < maxsize \<longrightarrow>
        (\<forall>x. uint x = uint off + uint (srl_longest_fit t (sa_new s off) maxsize) \<longrightarrow> \<not> srl_mem t (sa_new s x)))"
proof (cases rule: locate [OF I s, of off])
  case (1 as b cs)
  let ?n = "srl_longest_fit t (sa_new s off) maxsize"
  have b: "same_space (sr_spc b) s" "sr_first b \<le> off" "off \<le> sr_last b" using 1(3) by (simp_all add: contains_at)
  have "\<not> sr_last b < off" using b(3) by simp
  then have n: "?n = longest_fit_loop (b # cs) s maxsize off 0"
    using 1(1,2) by (simp add: srl_longest_fit_def sa_new_def sa_is_invalid_def sa_get_space_def Let_def nth_append
        del: longest_fit_loop.simps)
  have p: "list_all (sr_valid ix) (b # cs)" "sorted_wrt before (b # cs)"
    using I 1(1) by (simp_all add: srl_inv_def sorted_wrt_append)
  have later: "same_space (sr_spc e) s \<longrightarrow> off \<le> sr_last e" if "e \<in> set (b # cs)" for e
  proof
    assume e: "same_space (sr_spc e) s"
    show "off \<le> sr_last e"
    proof (cases "e = b")
      case False
      have v: "sr_valid ix e" "sr_valid ix b" using p(1) that by (auto simp: list_all_iff)
      then have "sp_index (sr_spc e) = sp_index (sr_spc b)"
        using b(1) e by (auto simp: sr_valid_def numbered_def same_space_def)
      then have "sr_last b < sr_first e" using p(2) that False by (auto simp: before_def)
      then show ?thesis using v(1) b(3) by (auto simp: sr_valid_def)
    qed (use b in simp)
  qed
  have z: "uint (0 :: u64) + (2 ^ 64 - uint off) < 2 ^ 64"
  proof -
    have "uint off \<noteq> 0" using off by (simp add: word_uint_eq_iff)
    then have "0 < uint off" using uint_ge_0 [of off] by linarith
    then show ?thesis by simp
  qed
  obtain k where k: "uint ?n = uint (0 :: u64) + k"
     "\<forall>x. uint off \<le> uint x \<and> uint x < uint off + k \<longrightarrow> (\<exists>e \<in> set (b # cs). sr_contains e (sa_new s x))"
     "?n < maxsize \<longrightarrow> (\<forall>x. uint x = uint off + k \<longrightarrow> \<not> (\<exists>e \<in> set (b # cs). sr_contains e (sa_new s x)))"
    using longest_fit_loop_spec [OF p s _ _ z, of maxsize] later 1(5) unfolding n by blast
  have head: "\<not> sr_contains e (sa_new s x)" if "e \<in> set as" "uint off \<le> uint x" for e x
    using 1(6) [OF that(1)] that(2) by (auto simp: contains_at word_le_def word_less_def)
  have mem: "srl_mem t (sa_new s x) \<longleftrightarrow> (\<exists>e \<in> set (b # cs). sr_contains e (sa_new s x))" if "uint off \<le> uint x" for x
    using head that 1(1) by (auto simp: srl_mem_def list_ex_iff)
  have "uint ?n = k" using k(1) by simp
  then show ?thesis using k(2,3) mem by auto
next
  case 2
  have "srl_longest_fit t (sa_new s off) maxsize = 0"
  proof (cases "upper_bound_pos t s off = 0")
    case False
    let ?i = "upper_bound_pos t s off - 1"
    have "?i < length t"
      using False length_takeWhile_le [of "\<lambda>e. \<not> beyond s off e" t] unfolding upper_bound_pos_spec [OF I]
      by linarith
    then have "drop ?i t = t ! ?i # drop (Suc ?i) t" by (rule Cons_nth_drop_Suc [symmetric])
    then show ?thesis
      using 2(2) [OF False refl]
      by (auto simp: srl_longest_fit_def sa_new_def sa_is_invalid_def sa_get_space_def Let_def)
  qed (simp add: srl_longest_fit_def sa_new_def sa_is_invalid_def sa_get_space_def)
  then show ?thesis using 2(1) by (auto simp: word_uint_eq_iff [symmetric])
qed

section \<open>Witnesses\<close>

definition idx_id :: space_index where
  "idx_id = Space_Index int"

definition ram :: addr_space where
  "ram = new_space 3 Processor ''ram'' False 4 1 3 0 0 0"

lemma numbered_ram: "numbered idx_id ram"
  by (simp add: numbered_def idx_id_def Space_Index_inverse ram_def new_space_def calc_scale_mask_def Let_def set_flags_def)

lemma valid_ram: "a \<le> b \<Longrightarrow> sr_valid idx_id (sr_new ram a b)"
  using numbered_ram by (simp add: sr_valid_def sr_new_def)

lemma inv_ram: "srl_inv idx_id [sr_new ram 16 31, sr_new ram 32 47]"
  using valid_ram [of 16 31] valid_ram [of 32 47] by (simp add: srl_inv_def before_def sr_new_def)

theorem space_range_list_invariant_witness:
  "\<exists>t'. fold srl_del [sr_new ram 20 40] (fold srl_ins [sr_new ram 24 47] (Ret [sr_new ram 16 31])) = Ret t'
     \<and> t' = [sr_new ram 16 19, sr_new ram 41 47] \<and> srl_inv idx_id t' \<and> \<not> srl_mem t' (sa_new ram 30)"
proof -
  have v: "srl_inv idx_id [sr_new ram 16 31]" "list_all (sr_valid idx_id) [sr_new ram 24 47]"
    "list_all (sr_valid idx_id) [sr_new ram 20 40]"
    using valid_ram [of 16 31] valid_ram [of 24 47] valid_ram [of 20 40] by (simp_all add: srl_inv_def)
  have "fold srl_del [sr_new ram 20 40] (fold srl_ins [sr_new ram 24 47] (Ret [sr_new ram 16 31])) =
      Ret [sr_new ram 16 19, sr_new ram 41 47]" by code_simp
  moreover have "list_ex (\<lambda>r. sr_contains r (sa_new ram 30)) [sr_new ram 20 40]" by code_simp
  ultimately show ?thesis using space_range_list_invariant [OF v] by auto
qed

theorem space_range_list_lookup_witness:
  "srl_get_range [sr_new ram 16 31, sr_new ram 32 47] ram 35 = Some (sr_new ram 32 47)
   \<and> srl_in_range [sr_new ram 16 31, sr_new ram 32 47] (sa_new ram 35) 4
   \<and> \<not> srl_in_range [sr_new ram 16 31, sr_new ram 32 47] (sa_new ram 35) 14"
  using space_range_list_lookup [OF inv_ram numbered_ram, of 35 "sr_new ram 32 47" 4]
    space_range_list_lookup [OF inv_ram numbered_ram, of 35 "sr_new ram 32 47" 14]
  by (simp add: contains_at sr_new_def same_space_def as_u64_def)

theorem space_range_list_longest_fit_witness:
  "srl_longest_fit [sr_new ram 16 31, sr_new ram 32 47] (sa_new ram 20) 64 = 28
   \<and> srl_mem [sr_new ram 16 31, sr_new ram 32 47] (sa_new ram 47)
   \<and> \<not> srl_mem [sr_new ram 16 31, sr_new ram 32 47] (sa_new ram 48)"
proof -
  have "srl_longest_fit [sr_new ram 16 31, sr_new ram 32 47] (sa_new ram 20) 64 = 28" by code_simp
  then show ?thesis
    using space_range_list_longest_fit [OF inv_ram numbered_ram, of 20 64] by auto
qed

text \<open>
  The length wraps to zero when the ranges from offset zero on fill the whole 64-bit space.
\<close>

theorem longest_fit_wraps_to_zero:
  "srl_longest_fit [sr_new ram 0 0xffffffffffffffff] (sa_new ram 0) 64 = 0
    \<and> srl_mem [sr_new ram 0 0xffffffffffffffff] (sa_new ram 0)"
  by code_simp

text \<open>A range given with its ends exchanged makes the slice of the list panic.\<close>

theorem insert_range_exchanged_panics:
  "srl_insert_range ram 40 10 [sr_new ram 16 31] = Panic"
  by code_simp

end
