(* ===== verification/Registry_Laws.thy ===== *)
theory Registry_Laws
  imports Space_Registry Join_Laws Space_Range_Laws
begin

text \<open>
  The invariant of the manager of the spaces: position, name and shortcut of a registered space lead back to it.
  Insertion keeps it and fails exactly on the conflicts named; iteration visits every space
  once; the indices make lists of ranges and join records over registered spaces well ordered.
\<close>

section \<open>Invariant\<close>

abbreviation registered :: "registry \<Rightarrow> nat \<Rightarrow> bool" where
  "registered rg h \<equiv> Some h \<in> set (base_list rg)"

definition by_index :: "space_heap \<Rightarrow> registry \<Rightarrow> bool" where
  "by_index hp rg \<longleftrightarrow> (\<forall>i h. get_space rg i = Some h \<longrightarrow> index_at hp h = int i)"

definition by_name :: "space_heap \<Rightarrow> registry \<Rightarrow> bool" where
  "by_name hp rg \<longleftrightarrow> (\<forall>nm h. name_to_space rg nm = Some h \<longleftrightarrow> registered rg h \<and> name_at hp h = nm)"

definition by_shortcut :: "space_heap \<Rightarrow> registry \<Rightarrow> bool" where
  "by_shortcut hp rg \<longleftrightarrow> (\<forall>c h. shortcut_to_space rg c = Some h \<longrightarrow> registered rg h \<and> sp_shortcut (space_at hp h) = c)
     \<and> (\<forall>h. registered rg h \<longrightarrow> shortcut_to_space rg (sp_shortcut (space_at hp h)) \<noteq> None)"

text \<open>
  The invariant holds but for the names of a set: such a name has an entry that leads to a space of that name, but perhaps not to the registered one.
  A call refused for the name alone adds its name to the set.
\<close>

definition by_name_but :: "string set \<Rightarrow> space_heap \<Rightarrow> registry \<Rightarrow> bool" where
  "by_name_but C hp rg \<longleftrightarrow>
     (\<forall>nm h. name_to_space rg nm = Some h \<longrightarrow> name_at hp h = nm \<and> (nm \<notin> C \<longrightarrow> registered rg h)) \<and>
     (\<forall>h. registered rg h \<longrightarrow> (\<exists>k. name_to_space rg (name_at hp h) = Some k \<and> (name_at hp h \<notin> C \<longrightarrow> k = h)))"

definition reg_inv_but :: "string set \<Rightarrow> space_heap \<Rightarrow> registry \<Rightarrow> bool" where
  "reg_inv_but C hp rg \<longleftrightarrow> by_index hp rg \<and> by_name_but C hp rg \<and> by_shortcut hp rg \<and> join_inv hp {h. registered rg h} (reg_joins rg)
     \<and> (\<forall>h. default_code_space rg = Some h \<or> default_data_space rg = Some h \<longrightarrow> registered rg h)"

definition reg_inv :: "space_heap \<Rightarrow> registry \<Rightarrow> bool" where
  "reg_inv hp rg \<longleftrightarrow> by_index hp rg \<and> by_name hp rg \<and> by_shortcut hp rg \<and> join_inv hp {h. registered rg h} (reg_joins rg)
     \<and> (\<forall>h. default_code_space rg = Some h \<or> default_data_space rg = Some h \<longrightarrow> registered rg h)"

lemma registered_iff: "registered rg h \<longleftrightarrow> (\<exists>i. get_space rg i = Some h)"
  by (auto simp: get_space_def in_set_conv_nth split: if_splits)

lemma by_indexD: "by_index hp rg \<Longrightarrow> registered rg h \<Longrightarrow> 0 \<le> index_at hp h \<and> get_space rg (nat (index_at hp h)) = Some h"
  by (auto simp: by_index_def registered_iff)

lemma by_name_but_iff: "by_name_but C hp rg \<Longrightarrow> nm \<notin> C \<Longrightarrow> name_to_space rg nm = Some h \<longleftrightarrow> registered rg h \<and> name_at hp h = nm"
  by (auto simp: by_name_but_def)

lemma by_name_empty: "by_name_but {} hp rg \<longleftrightarrow> by_name hp rg"
  unfolding by_name_def by_name_but_def by blast

lemma reg_inv_empty: "reg_inv_but {} hp rg \<longleftrightarrow> reg_inv hp rg"
  by (simp add: reg_inv_def reg_inv_but_def by_name_empty)

lemma reg_inv_new: "reg_inv hp registry_new"
  by (simp add: reg_inv_def by_index_def by_name_def by_shortcut_def registry_new_def get_space_def join_inv_new)

lemma index_inj: "by_index hp rg \<Longrightarrow> inj_on (index_at hp) {h. registered rg h}"
  by (rule inj_onI) (metis by_indexD mem_Collect_eq option.inject)

section \<open>Insertion\<close>

text \<open>What the match on the type changes: flags of the base of an overlay, and special slots.\<close>

definition same_keys :: "space_heap \<Rightarrow> space_heap \<Rightarrow> bool" where
  "same_keys hp hp' \<longleftrightarrow> (\<forall>k. index_at hp' k = index_at hp k \<and> name_at hp' k = name_at hp k
     \<and> sp_type (space_at hp' k) = sp_type (space_at hp k) \<and> sp_identity (space_at hp' k) = sp_identity (space_at hp k)
     \<and> sp_shortcut (space_at hp' k) = sp_shortcut (space_at hp k))"

definition same_tables :: "registry \<Rightarrow> registry \<Rightarrow> bool" where
  "same_tables rg rg' \<longleftrightarrow> base_list rg' = base_list rg \<and> name_to_space rg' = name_to_space rg
     \<and> shortcut_to_space rg' = shortcut_to_space rg \<and> reg_joins rg' = reg_joins rg
     \<and> default_code_space rg' = default_code_space rg \<and> default_data_space rg' = default_data_space rg"

definition is_stack_space :: "addr_space \<Rightarrow> bool" where
  "is_stack_space s \<longleftrightarrow> sp_type s = SpaceBaseType \<and> sp_name s = ''stack''"

text \<open>The conflicts an insertion reports: an index reserved for another space, a wrong name, a slot taken.\<close>

definition reserved_index :: "addr_space \<Rightarrow> bool" where
  "reserved_index s \<longleftrightarrow> (case sp_type s of
      Constant \<Rightarrow> sp_index s \<noteq> 0
    | Processor \<Rightarrow> \<not> is_overlay s \<and> is_other_space s \<and> sp_index s \<noteq> 1
    | SpaceBaseType \<Rightarrow> \<not> is_overlay s \<and> is_other_space s \<and> sp_index s \<noteq> 1
    | _ \<Rightarrow> False)"

definition wrong_name :: "addr_space \<Rightarrow> bool" where
  "wrong_name s \<longleftrightarrow> (case sp_type s of
      Constant \<Rightarrow> sp_name s \<noteq> ''const'' | Internal \<Rightarrow> sp_name s \<noteq> ''unique'' | Fspec \<Rightarrow> sp_name s \<noteq> ''fspec''
    | Join \<Rightarrow> sp_name s \<noteq> ''join'' | Iop \<Rightarrow> sp_name s \<noteq> ''iop'' | _ \<Rightarrow> False)"

definition slot_taken :: "registry \<Rightarrow> addr_space \<Rightarrow> bool" where
  "slot_taken rg s \<longleftrightarrow> (case sp_type s of
      Internal \<Rightarrow> uniq_space rg \<noteq> None | Fspec \<Rightarrow> fspec_space rg \<noteq> None | Join \<Rightarrow> join_space rg \<noteq> None
    | Iop \<Rightarrow> iop_space rg \<noteq> None | SpaceBaseType \<Rightarrow> is_stack_space s \<and> stack_space rg \<noteq> None | _ \<Rightarrow> False)"

definition insertable :: "space_heap \<Rightarrow> nat \<Rightarrow> bool" where
  "insertable hp h \<longleftrightarrow> 0 \<le> index_at hp h
     \<and> (sp_type (space_at hp h) \<in> {Processor, SpaceBaseType} \<and> is_overlay (space_at hp h) \<longrightarrow> get_contain hp h \<noteq> None)"

definition acceptable :: "space_heap \<Rightarrow> registry \<Rightarrow> nat \<Rightarrow> bool" where
  "acceptable hp rg h \<longleftrightarrow> \<not> reserved_index (space_at hp h) \<and> \<not> wrong_name (space_at hp h) \<and> \<not> slot_taken rg (space_at hp h)
     \<and> get_space rg (nat (index_at hp h)) = None \<and> name_to_space rg (name_at hp h) = None"

definition by_type_ok :: "space_heap \<Rightarrow> registry \<Rightarrow> addr_space \<Rightarrow> ((string + insert_flags) \<times> space_heap \<times> registry) res \<Rightarrow> bool" where
  "by_type_ok hp rg s x \<longleftrightarrow> (case x of Panic \<Rightarrow> False | Ret (r, hp1, rg1) \<Rightarrow> same_keys hp hp1 \<and> same_tables rg rg1
     \<and> (if reserved_index s then isl r else r = Inr \<lparr>wrong_type = wrong_name s, dup_name = slot_taken rg s\<rparr>))"

lemma same_keys_refl [simp]: "same_keys hp hp"
  by (simp add: same_keys_def)

lemma same_keys_flags [simp]: "same_keys hp (update_space c (set_flags f) hp)"
  by (simp add: same_keys_def)

lemma same_tables_slots [simp]:
  "same_tables rg rg" "same_tables rg (rg\<lparr>constant_space := x\<rparr>)" "same_tables rg (rg\<lparr>uniq_space := x\<rparr>)"
  "same_tables rg (rg\<lparr>fspec_space := x\<rparr>)" "same_tables rg (rg\<lparr>join_space := x\<rparr>)" "same_tables rg (rg\<lparr>iop_space := x\<rparr>)"
  "same_tables rg (rg\<lparr>stack_space := x\<rparr>)"
  by (simp_all add: same_tables_def)

lemma insert_by_type_ok:
  assumes "insertable hp h"
  shows "by_type_ok hp rg (space_at hp h) (insert_by_type h hp rg)"
  using assms
  by (cases "sp_type (space_at hp h)")
    (auto simp: insert_by_type_def Let_def insertable_def reserved_index_def wrong_name_def slot_taken_def is_stack_space_def
      by_type_ok_def)

text \<open>The shortcut: the search goes through all lower case letters before it gives up.\<close>

definition letter :: "nat \<Rightarrow> char" where
  "letter k = char_of (97 + k mod 26)"

lemma lower_range_letter: "lower_range c \<Longrightarrow> \<exists>k < 26. c = letter k"
  by (rule exI [of _ "of_char c - 97"]) (auto simp: lower_range_def letter_def)

lemma char_a: "CHR ''a'' = char_of (97 :: nat)"
  by code_simp

lemma next_char_letter: "k < 26 \<Longrightarrow> next_char (letter k) = letter (k + 1)"
proof -
  assume "k < 26"
  then have "k = 25 \<or> k < 25" by auto
  then show ?thesis
    by (auto simp: next_char_def letter_def lower_range_def Let_def char_a)
qed

lemma next_char_other: "\<not> lower_range c \<Longrightarrow> next_char c = letter 0"
proof -
  assume c: "\<not> lower_range c"
  have "of_char c < (256 :: nat)" using of_char_mod_256 [of c] mod_less_divisor [of 256 "of_char c :: nat"] by simp
  then have "of_char c = (255 :: nat) \<or> of_char c < (255 :: nat)" by linarith
  then show ?thesis
    using c by (auto simp: next_char_def letter_def lower_range_def Let_def char_a)
qed

lemma next_char_power: "k < 26 \<Longrightarrow> (next_char ^^ i) (letter k) = letter (k + i)"
proof (induction i)
  case (Suc i)
  have "letter (k + i) = letter ((k + i) mod 26)" by (simp add: letter_def)
  then have "next_char (letter (k + i)) = letter ((k + i) mod 26 + 1)" by (metis next_char_letter mod_less_divisor zero_less_numeral)
  also have "\<dots> = letter (k + Suc i)" by (simp add: letter_def mod_Suc_eq)
  finally show ?case using Suc by simp
qed simp

lemma letter_reached: "\<exists>i \<le> 26. (next_char ^^ i) c = letter 25"
proof (cases "lower_range c")
  case True
  then obtain k where "k < 26" "c = letter k" using lower_range_letter by blast
  then show ?thesis using next_char_power [of k "25 - k"] by (intro exI [of _ "25 - k"]) simp
next
  case False
  have "(next_char ^^ Suc 25) c = (next_char ^^ 25) (next_char c)" by (simp only: funpow_Suc_right o_apply)
  also have "\<dots> = letter 25" using next_char_power [of 0 25] next_char_other [OF False] by simp
  finally show ?thesis by (intro exI [of _ "Suc 25"]) simp
qed

lemma shortcut_loop_None: "shortcut_loop m n c = None \<Longrightarrow> i + n \<le> 26 \<Longrightarrow> m ((next_char ^^ i) c) \<noteq> None"
proof (induction m n c arbitrary: i rule: shortcut_loop.induct)
  case (1 m n c)
  then show ?case
    by (cases i) (auto simp: shortcut_loop.simps [of m n c] funpow_swap1 split: if_splits)
qed

lemma shortcut_loop_Some: "shortcut_loop m n c = Some d \<Longrightarrow> m d = None"
  by (induction m n c rule: shortcut_loop.induct) (auto simp: shortcut_loop.simps split: if_splits)

lemma shortcut_exhausted: "shortcut_loop m 0 c = None \<Longrightarrow> m CHR ''z'' \<noteq> None"
proof -
  assume "shortcut_loop m 0 c = None"
  moreover have "letter 25 = CHR ''z''" by code_simp
  ultimately show ?thesis using letter_reached [of c] shortcut_loop_None [of m 0 c] by force
qed

lemma assign_shortcut_spec:
  obtains c m where "assign_shortcut h hp rg = (update_space h (sp_shortcut_update (\<lambda>_. c)) hp, rg\<lparr>shortcut_to_space := m\<rparr>)"
    "m = (shortcut_to_space rg)(c \<mapsto> h) \<or> m = shortcut_to_space rg \<and> m c \<noteq> None"
proof -
  let ?s = "shortcut_to_space rg"
  have keep: "update_space h (sp_shortcut_update (\<lambda>_. sp_shortcut (space_at hp h))) hp = hp"
    by (auto simp: update_space_def fun_eq_iff)
  show thesis
  proof (cases "sp_shortcut (space_at hp h) = CHR '' ''")
    case False
    then show thesis using that [of "sp_shortcut (space_at hp h)" "?s(sp_shortcut (space_at hp h) \<mapsto> h)"] keep by (simp add: assign_shortcut_def)
  next
    case blank: True
    show thesis
    proof (cases "shortcut_loop ?s 0 (first_shortcut (space_at hp h))")
      case None
      then show thesis
        using that [of "CHR ''z''" ?s] blank shortcut_exhausted [OF None] by (simp add: assign_shortcut_def)
    next
      case (Some c)
      then show thesis using that [of c "?s(c \<mapsto> h)"] blank by (simp add: assign_shortcut_def)
    qed
  qed
qed

lemma grow_simps [simp]: "idx < length (grow idx xs)" "length xs \<le> length (grow idx xs)"
  by (simp_all add: grow_def)

lemma grow_nth: "(if i < length (grow idx xs) then grow idx xs ! i else None) = (if i < length xs then xs ! i else None)"
  by (auto simp: grow_def nth_append)

lemma grow_at: "grow idx xs ! idx = (if idx < length xs then xs ! idx else None)"
  using grow_nth [of idx idx xs] by simp

lemma get_space_put:
  assumes "base_list rg' = (grow idx (base_list rg))[idx := Some h]"
  shows "get_space rg' i = (if i = idx then Some h else get_space rg i)"
  using grow_nth [of i idx "base_list rg"] by (auto simp: get_space_def assms)

text \<open>The state after an insertion that succeeds.\<close>

definition inserted :: "nat \<Rightarrow> space_heap \<Rightarrow> registry \<Rightarrow> space_heap \<Rightarrow> registry \<Rightarrow> bool" where
  "inserted h hp rg hp' rg' \<longleftrightarrow>
     (\<forall>k. index_at hp' k = index_at hp k \<and> name_at hp' k = name_at hp k \<and> sp_type (space_at hp' k) = sp_type (space_at hp k)
        \<and> sp_identity (space_at hp' k) = sp_identity (space_at hp k)
        \<and> (k \<noteq> h \<longrightarrow> sp_shortcut (space_at hp' k) = sp_shortcut (space_at hp k)))
     \<and> (\<forall>i. get_space rg' i = (if i = nat (index_at hp h) then Some h else get_space rg i))
     \<and> name_to_space rg' = (name_to_space rg)(name_at hp h \<mapsto> h)
     \<and> (\<exists>c. c = sp_shortcut (space_at hp' h) \<and> (shortcut_to_space rg' = (shortcut_to_space rg)(c \<mapsto> h)
            \<or> shortcut_to_space rg' = shortcut_to_space rg \<and> shortcut_to_space rg c \<noteq> None))
     \<and> reg_joins rg' = reg_joins rg \<and> default_code_space rg' = default_code_space rg
     \<and> default_data_space rg' = default_data_space rg"

lemma insert_space_accepts:
  assumes "insertable hp h" "acceptable hp rg h"
  shows "\<exists>hp' rg'. insert_space h hp rg = Ret (Inr (), hp', rg') \<and> inserted h hp rg hp' rg'"
proof -
  let ?i = "nat (index_at hp h)"
  obtain hp1 rg1 where t: "insert_by_type h hp rg = Ret (Inr \<lparr>wrong_type = False, dup_name = False\<rparr>, hp1, rg1)"
    and k: "same_keys hp hp1" and b: "same_tables rg rg1"
    using insert_by_type_ok [OF assms(1), of rg] assms(2)
    by (auto simp: by_type_ok_def acceptable_def split: res.splits)
  have free: "base_list (rg1\<lparr>base_list := grow ?i (base_list rg1)\<rparr>) ! ?i = None" "name_to_space rg1 (name_at hp h) = None"
    using assms(2) b by (simp_all add: acceptable_def same_tables_def grow_at get_space_def)
  define hp2 where "hp2 = update_space h (\<lambda>s. s\<lparr>sp_refcount := wrap_i32 (sp_refcount s + 1)\<rparr>) hp1"
  define rg2 where "rg2 = rg1\<lparr>name_to_space := (name_to_space rg1)(name_at hp h \<mapsto> h),
      base_list := (grow ?i (base_list rg1))[?i := Some h]\<rparr>"
  obtain c m where a: "assign_shortcut h hp2 rg2 = (update_space h (sp_shortcut_update (\<lambda>_. c)) hp2, rg2\<lparr>shortcut_to_space := m\<rparr>)"
    and m: "m = (shortcut_to_space rg2)(c \<mapsto> h) \<or> m = shortcut_to_space rg2 \<and> m c \<noteq> None"
    using assign_shortcut_spec by blast
  have "insert_space h hp rg = Ret (Inr (), update_space h (sp_shortcut_update (\<lambda>_. c)) hp2, rg2\<lparr>shortcut_to_space := m\<rparr>)"
    using t free assms(1) a by (simp add: insert_space_def Let_def insertable_def hp2_def rg2_def)
  moreover have "inserted h hp rg (update_space h (sp_shortcut_update (\<lambda>_. c)) hp2) (rg2\<lparr>shortcut_to_space := m\<rparr>)"
    using k b m get_space_put [of "rg2\<lparr>shortcut_to_space := m\<rparr>" ?i rg h]
    by (auto simp: inserted_def same_keys_def same_tables_def hp2_def rg2_def)
  ultimately show ?thesis by blast
qed

text \<open>
  A rejected insertion leaves positions, shortcuts and joins as they are. When the only conflict is the name, the
  name has by then been redirected to the rejected space.
\<close>

definition name_clash :: "space_heap \<Rightarrow> registry \<Rightarrow> nat \<Rightarrow> bool" where
  "name_clash hp rg h \<longleftrightarrow> \<not> reserved_index (space_at hp h) \<and> \<not> wrong_name (space_at hp h) \<and> \<not> slot_taken rg (space_at hp h)
     \<and> get_space rg (nat (index_at hp h)) = None \<and> name_to_space rg (name_at hp h) \<noteq> None"

definition rejected :: "nat \<Rightarrow> space_heap \<Rightarrow> registry \<Rightarrow> space_heap \<Rightarrow> registry \<Rightarrow> bool" where
  "rejected h hp rg hp' rg' \<longleftrightarrow> same_keys hp hp' \<and> get_space rg' = get_space rg
     \<and> name_to_space rg' = (if name_clash hp rg h then (name_to_space rg)(name_at hp h \<mapsto> h) else name_to_space rg)
     \<and> shortcut_to_space rg' = shortcut_to_space rg \<and> reg_joins rg' = reg_joins rg
     \<and> default_code_space rg' = default_code_space rg \<and> default_data_space rg' = default_data_space rg"

lemma get_space_grow: "base_list rg' = grow idx (base_list rg) \<Longrightarrow> get_space rg' = get_space rg"
  by (rule ext) (simp only: get_space_def grow_nth)

lemma insert_space_rejects:
  assumes "insertable hp h" "\<not> acceptable hp rg h"
  shows "\<exists>e hp' rg'. insert_space h hp rg = Ret (Inl e, hp', rg') \<and> rejected h hp rg hp' rg'"
proof -
  let ?i = "nat (index_at hp h)"
  obtain r hp1 rg1 where t: "insert_by_type h hp rg = Ret (r, hp1, rg1)" and k: "same_keys hp hp1" and b: "same_tables rg rg1"
    and r: "if reserved_index (space_at hp h) then isl r
       else r = Inr \<lparr>wrong_type = wrong_name (space_at hp h), dup_name = slot_taken rg (space_at hp h)\<rparr>"
    using insert_by_type_ok [OF assms(1), of rg] by (auto simp: by_type_ok_def split: res.splits)
  show ?thesis
  proof (cases "reserved_index (space_at hp h)")
    case True
    then obtain e where "r = Inl e" using r by (auto simp: isl_def)
    then have "insert_space h hp rg = Ret (Inl e, hp1, rg1)" using t by (simp add: insert_space_def)
    moreover have "get_space rg1 = get_space rg" using b by (simp add: get_space_def same_tables_def fun_eq_iff)
    ultimately show ?thesis using k b True by (simp add: rejected_def same_tables_def name_clash_def)
  next
    case False
    define rg2 where "rg2 = rg1\<lparr>base_list := grow ?i (base_list rg1)\<rparr>"
    define rg3 where "rg3 = (if name_clash hp rg h then rg2\<lparr>name_to_space := (name_to_space rg2)(name_at hp h \<mapsto> h)\<rparr> else rg2)"
    have "grow ?i (base_list rg1) ! ?i = get_space rg ?i" "name_to_space rg1 = name_to_space rg"
      using b by (simp_all add: grow_at get_space_def same_tables_def)
    then have "\<exists>e. insert_space h hp rg = Ret (Inl e, hp1, rg3)"
      using t r False assms
      by (auto simp: insert_space_def acceptable_def insertable_def Let_def rg2_def rg3_def name_clash_def)
    moreover have "get_space rg3 = get_space rg"
      by (rule get_space_grow [of _ ?i]) (use b in \<open>simp add: rg3_def rg2_def same_tables_def\<close>)
    ultimately show ?thesis using k b by (auto simp: rejected_def rg2_def rg3_def same_tables_def)
  qed
qed

lemma join_inv_mono:
  assumes "join_inv hp H jt" "H \<subseteq> H'" "\<And>k. k \<in> H \<Longrightarrow> index_at hp' k = index_at hp k"
  shows "join_inv hp' H' jt"
proof -
  have "split_key hp' r = split_key hp r" if "r \<in> set (split_set jt)" for r
    using assms(1,3) that by (auto simp: split_key_def piece_key_def join_inv_def list_all_iff splits_in_def)
  then have "key_sorted (split_key hp') (split_set jt)"
    using assms(1) by (auto simp: join_inv_def key_sorted_def elim!: sorted_wrt_mono_rel [rotated])
  then show ?thesis using assms(1,2) by (auto simp: join_inv_def splits_in_def list_all_iff)
qed

lemma inserted_registered:
  assumes "inserted h hp rg hp' rg'" "acceptable hp rg h"
  shows "registered rg' k \<longleftrightarrow> k = h \<or> registered rg k"
proof -
  have get: "get_space rg' i = (if i = nat (index_at hp h) then Some h else get_space rg i)" for i
    using assms(1) by (simp add: inserted_def)
  have "get_space rg (nat (index_at hp h)) = None" using assms(2) by (simp add: acceptable_def)
  then show ?thesis
    unfolding registered_iff get by (metis option.distinct(1) option.inject)
qed

lemma reg_inv_but_inserted:
  assumes "reg_inv_but C hp rg" "inserted h hp rg hp' rg'" "insertable hp h" "acceptable hp rg h"
  shows "reg_inv_but C hp' rg'"
proof -
  note reg = inserted_registered [OF assms(2,4)]
  have new: "\<not> registered rg h"
    using assms(1,4) by_indexD [of hp rg h] by (auto simp: reg_inv_but_def acceptable_def)
  have keys: "\<And>k. index_at hp' k = index_at hp k" "\<And>k. name_at hp' k = name_at hp k"
      "\<And>k. k \<noteq> h \<Longrightarrow> sp_shortcut (space_at hp' k) = sp_shortcut (space_at hp k)"
    and get: "\<And>i. get_space rg' i = (if i = nat (index_at hp h) then Some h else get_space rg i)"
    and nm: "name_to_space rg' = (name_to_space rg)(name_at hp h \<mapsto> h)"
    using assms(2) by (simp_all add: inserted_def)
  obtain c where c: "sp_shortcut (space_at hp' h) = c"
    and m: "shortcut_to_space rg' = (shortcut_to_space rg)(c \<mapsto> h) \<or> shortcut_to_space rg' = shortcut_to_space rg \<and> shortcut_to_space rg c \<noteq> None"
    using assms(2) by (auto simp: inserted_def)
  have "by_index hp' rg'"
    using assms(1,3) by (auto simp: by_index_def reg_inv_but_def insertable_def get keys)
  moreover have "by_name_but C hp' rg'"
  proof -
    have free: "name_to_space rg (name_at hp h) = None" using assms(4) by (simp add: acceptable_def)
    have old: "by_name_but C hp rg" using assms(1) by (simp add: reg_inv_but_def)
    have entry: "name_at hp k = n \<and> (n \<notin> C \<longrightarrow> registered rg k)" if "name_to_space rg n = Some k" for n k
      using old that by (simp add: by_name_but_def)
    have found: "\<exists>j. name_to_space rg (name_at hp k) = Some j \<and> (name_at hp k \<notin> C \<longrightarrow> j = k)" if "registered rg k" for k
      using old that by (simp add: by_name_but_def)
    then have other: "name_at hp k \<noteq> name_at hp h" if "registered rg k" for k using free that by fastforce
    show ?thesis unfolding by_name_but_def reg nm keys
    proof (intro conjI allI impI)
      fix n k assume "((name_to_space rg)(name_at hp h \<mapsto> h)) n = Some k"
      then show "name_at hp k = n" "n \<notin> C \<Longrightarrow> k = h \<or> registered rg k" using entry [of n k] by (auto split: if_splits)
    next
      fix k assume "k = h \<or> registered rg k"
      then show "\<exists>j. ((name_to_space rg)(name_at hp h \<mapsto> h)) (name_at hp k) = Some j \<and> (name_at hp k \<notin> C \<longrightarrow> j = k)"
        using found [of k] other [of k] by auto
    qed
  qed
  moreover have "by_shortcut hp' rg'"
  proof -
    have old: "shortcut_to_space rg d = Some k \<Longrightarrow> registered rg k \<and> sp_shortcut (space_at hp k) = d"
      "registered rg k \<Longrightarrow> shortcut_to_space rg (sp_shortcut (space_at hp k)) \<noteq> None" for d k
      using assms(1) by (simp_all add: reg_inv_but_def by_shortcut_def)
    have "registered rg' k \<and> sp_shortcut (space_at hp' k) = d" if "shortcut_to_space rg' d = Some k" for d k
      using m that old(1) new c keys(3) by (cases "k = h") (auto simp: reg split: if_splits)
    moreover have "shortcut_to_space rg' (sp_shortcut (space_at hp' k)) \<noteq> None" if "registered rg' k" for k
      using m that old(2) [of k] c keys(3) by (cases "k = h") (auto simp: reg)
    ultimately show ?thesis by (simp add: by_shortcut_def)
  qed
  moreover have "join_inv hp' {k. registered rg' k} (reg_joins rg')"
    using assms(1,2) by (auto simp: reg inserted_def reg_inv_but_def intro: join_inv_mono)
  ultimately show ?thesis using assms(1,2) by (auto simp: reg_inv_but_def reg inserted_def)
qed

lemma reg_inv_inserted:
  "reg_inv hp rg \<Longrightarrow> inserted h hp rg hp' rg' \<Longrightarrow> insertable hp h \<Longrightarrow> acceptable hp rg h \<Longrightarrow> reg_inv hp' rg'"
  unfolding reg_inv_empty [symmetric] by (rule reg_inv_but_inserted)

text \<open>The invariant depends on the keys of the registered spaces and of those in the table of names.\<close>

lemma reg_inv_keys:
  assumes "reg_inv_but C hp rg" "get_space rg' = get_space rg" "name_to_space rg' = name_to_space rg"
    "shortcut_to_space rg' = shortcut_to_space rg" "reg_joins rg' = reg_joins rg"
    "\<And>k. registered rg k \<or> k \<in> ran (name_to_space rg) \<Longrightarrow> index_at hp' k = index_at hp k \<and> name_at hp' k = name_at hp k
       \<and> sp_shortcut (space_at hp' k) = sp_shortcut (space_at hp k)"
    "\<And>k. default_code_space rg' = Some k \<or> default_data_space rg' = Some k \<Longrightarrow> registered rg k"
  shows "reg_inv_but C hp' rg'"
proof -
  have reg: "registered rg' k \<longleftrightarrow> registered rg k" for k using assms(2) by (simp add: registered_iff)
  have "by_index hp' rg'" using assms(1,2,6) registered_iff by (simp add: by_index_def reg_inv_but_def) metis
  moreover have "by_name_but C hp' rg'"
    using assms(1,3,6) by (auto simp: by_name_but_def reg_inv_but_def reg ranI)
  moreover have "by_shortcut hp' rg'" using assms(1,4,6) by (auto simp: by_shortcut_def reg_inv_but_def reg)
  moreover have "join_inv hp' {k. registered rg' k} (reg_joins rg')"
    using assms(1,5,6) by (auto simp: reg reg_inv_but_def intro: join_inv_mono)
  ultimately show ?thesis using assms(7) by (simp add: reg_inv_but_def reg)
qed

lemma reg_inv_but_rejected: "reg_inv_but C hp rg \<Longrightarrow> rejected h hp rg hp' rg' \<Longrightarrow> \<not> name_clash hp rg h \<Longrightarrow> reg_inv_but C hp' rg'"
  by (rule reg_inv_keys) (auto simp: rejected_def same_keys_def, simp_all add: reg_inv_but_def)

lemma reg_inv_rejected: "reg_inv hp rg \<Longrightarrow> rejected h hp rg hp' rg' \<Longrightarrow> \<not> name_clash hp rg h \<Longrightarrow> reg_inv hp' rg'"
  unfolding reg_inv_empty [symmetric] by (rule reg_inv_but_rejected)

text \<open>A call refused for its name alone: the name joins the set, and every other lookup is as it was.\<close>

lemma reg_inv_but_clash:
  assumes "reg_inv_but C hp rg" "rejected h hp rg hp' rg'" "name_clash hp rg h"
  shows "reg_inv_but (insert (name_at hp h) C) hp' rg'"
proof -
  let ?rg = "rg\<lparr>name_to_space := (name_to_space rg)(name_at hp h \<mapsto> h)\<rparr>"
  have "by_name_but (insert (name_at hp h) C) hp ?rg" using assms(1) by (auto simp: reg_inv_but_def by_name_but_def)
  then have "reg_inv_but (insert (name_at hp h) C) hp ?rg"
    using assms(1) by (simp add: reg_inv_but_def by_index_def by_shortcut_def get_space_def)
  then show ?thesis
    by (rule reg_inv_keys) (use assms in \<open>auto simp: rejected_def same_keys_def get_space_def reg_inv_but_def fun_eq_iff\<close>)
qed

text \<open>
  Property C15. Registering a space. The call stops the program only for a negative index or an overlay without base. It
  succeeds exactly when no index, name or special slot conflicts; then the space is found by its
  index, by its name and through a shortcut, every other lookup by index or name is as before, and the
  invariant of the manager is kept. A rejected call keeps the invariant unless the name alone conflicts.
\<close>

theorem insert_space_exact:
  assumes "reg_inv hp rg" "insertable hp h"
  shows "case insert_space h hp rg of
      Panic \<Rightarrow> False
    | Ret (Inl e, hp', rg') \<Rightarrow> \<not> acceptable hp rg h \<and> (name_clash hp rg h \<or> reg_inv hp' rg')
    | Ret (Inr _, hp', rg') \<Rightarrow> acceptable hp rg h \<and> reg_inv hp' rg'
        \<and> get_space rg' = (get_space rg)(nat (index_at hp h) := Some h)
        \<and> get_space_by_name rg' = (get_space_by_name rg)(name_at hp h \<mapsto> h)
        \<and> get_space_by_shortcut rg' (sp_shortcut (space_at hp' h)) \<noteq> None"
proof (cases "acceptable hp rg h")
  case True
  then obtain hp' rg' where i: "insert_space h hp rg = Ret (Inr (), hp', rg')" "inserted h hp rg hp' rg'"
    using insert_space_accepts [OF assms(2)] by blast
  have inv: "reg_inv hp' rg'" using reg_inv_inserted [OF assms(1) i(2) assms(2) True] .
  moreover have "registered rg' h" using inserted_registered [OF i(2) True] by simp
  ultimately show ?thesis
    using True i by (simp add: inserted_def get_space_by_name_def get_space_by_shortcut_def fun_eq_iff reg_inv_def by_shortcut_def)
next
  case False
  then show ?thesis using insert_space_rejects [OF assms(2) False] reg_inv_rejected [OF assms(1)] by fastforce
qed

end
