(* ===== verification/Registry_Runs.thy ===== *)
theory Registry_Runs
  imports Registry_Laws
begin

text \<open>
  Runs of the manager of the spaces. A step is a call that returned, with a result or with an error, on a state of heap and manager. A call that is
  refused for its name alone takes the name away from the space that has it, so a step is labelled with the names it takes and a run with
  all of them; every state of a run satisfies the invariant but for these names. From the invariant follow the order of
  iteration, the behaviour of the join tables, and the hypotheses under which lists of ranges over
  registered spaces represent sets.
\<close>

section \<open>Steps\<close>

type_synonym reg_state = "space_heap \<times> registry"

inductive reg_step :: "string set \<Rightarrow> reg_state \<Rightarrow> reg_state \<Rightarrow> bool" where
  alloc: "\<not> registered rg h \<Longrightarrow> h \<notin> ran (name_to_space rg) \<Longrightarrow> reg_step {} (hp, rg) (hp(h := cell), rg)"
| insert: "insert_space h hp rg = Ret (Inr u, hp', rg') \<Longrightarrow> reg_step {} (hp, rg) (hp', rg')"
| reject: "insertable hp h \<Longrightarrow> insert_space h hp rg = Ret (Inl e, hp', rg')
    \<Longrightarrow> reg_step (if name_clash hp rg h then {name_at hp h} else {}) (hp, rg) (hp', rg')"
| code_space: "set_default_code_space i rg = Inr rg' \<Longrightarrow> reg_step {} (hp, rg) (hp, rg')"
| data_space: "set_default_data_space i rg = Inr rg' \<Longrightarrow> reg_step {} (hp, rg) (hp, rg')"
| justify: "reg_step {} (hp, rg) (set_reverse_justified h hp, rg)"
| near: "reg_step {} (hp, rg) (mark_near_pointers h sz hp, rg)"
| ptr_bounds: "reg_step {} (hp, rg) (set_infer_ptr_bounds h fst_off lst_off hp, rg)"
| deadcode: "reg_step {} (hp, rg) (set_deadcode_delay h d hp, rg)"
| truncate: "registry_truncate_space nm sz hp rg = Inr hp' \<Longrightarrow> reg_step {} (hp, rg) (hp', rg)"
| base_register: "add_spacebase_pointer h dat sz dir hp = Ret (Inr hp') \<Longrightarrow> reg_step {} (hp, rg) (hp', rg)"
| contain: "reg_step {} (hp, rg) (set_contain h base hp, rg)"
| join: "registry_find_add_join hp pieces lg rg = Ret (off, rg') \<Longrightarrow> spaces_in {h. registered rg h} pieces
    \<Longrightarrow> join_total pieces lg = Ret n \<Longrightarrow> n \<le> 0xfffffff0 \<Longrightarrow> unat (join_allocate (reg_joins rg)) + 2 ^ 32 \<le> 2 ^ 64
    \<Longrightarrow> reg_step {} (hp, rg) (hp, rg')"

lemma insert_space_insertable: "insert_space h hp rg = Ret (Inr u, hp', rg') \<Longrightarrow> insertable hp h"
  by (cases "sp_type (space_at hp h)")
    (auto simp: insert_space_def insert_by_type_def insertable_def Let_def split: if_splits option.splits)

lemma reg_inv_heap:
  assumes "reg_inv_but C hp rg" "\<And>k. registered rg k \<or> k \<in> ran (name_to_space rg) \<Longrightarrow> index_at hp' k = index_at hp k \<and>
       name_at hp' k = name_at hp k \<and> sp_shortcut (space_at hp' k) = sp_shortcut (space_at hp k)"
  shows "reg_inv_but C hp' rg"
  by (rule reg_inv_keys [OF assms(1)]) (use assms in \<open>auto simp: reg_inv_but_def\<close>)

lemma reg_inv_update:
  assumes "reg_inv_but C hp rg" "\<And>s. sp_index (f s) = sp_index s \<and> sp_name (f s) = sp_name s \<and> sp_shortcut (f s) = sp_shortcut s"
  shows "reg_inv_but C (update_space h f hp) rg"
  by (rule reg_inv_heap [OF assms(1)]) (simp add: assms(2))

lemma reg_inv_defaults:
  assumes "reg_inv_but C hp rg" "base_list rg' = base_list rg" "name_to_space rg' = name_to_space rg"
    "shortcut_to_space rg' = shortcut_to_space rg" "reg_joins rg' = reg_joins rg"
    "\<And>k. default_code_space rg' = Some k \<or> default_data_space rg' = Some k \<Longrightarrow> registered rg k"
  shows "reg_inv_but C hp rg'"
  by (rule reg_inv_keys [OF assms(1)]) (use assms in \<open>simp_all add: get_space_def fun_eq_iff\<close>)

lemma get_space_registered: "get_space rg i = Some h \<Longrightarrow> registered rg h"
  unfolding registered_iff by blast

lemma insert_space_inv:
  assumes "insertable hp h" "reg_inv_but C hp rg" "insert_space h hp rg = Ret (r, hp', rg')"
  shows "reg_inv_but (C \<union> (if name_clash hp rg h then {name_at hp h} else {})) hp' rg'"
proof (cases "acceptable hp rg h")
  case True
  then have "inserted h hp rg hp' rg'" using insert_space_accepts [OF assms(1) True] assms(3) by auto
  moreover have "\<not> name_clash hp rg h" using True by (simp add: acceptable_def name_clash_def)
  ultimately show ?thesis using reg_inv_but_inserted [OF assms(2) _ assms(1) True] by simp
next
  case False
  then have "rejected h hp rg hp' rg'" using insert_space_rejects [OF assms(1) False] assms(3) by auto
  then show ?thesis using reg_inv_but_rejected [OF assms(2)] reg_inv_but_clash [OF assms(2)] by simp
qed

lemma accepted_no_clash:
  assumes "insertable hp h" "insert_space h hp rg = Ret (Inr u, hp', rg')"
  shows "\<not> name_clash hp rg h"
proof -
  have "acceptable hp rg h" using insert_space_rejects [OF assms(1), of rg] assms(2) by auto
  then show ?thesis by (simp add: acceptable_def name_clash_def)
qed

lemma set_base_register_spaces:
  "set_base_register h dat sz dir hp = Ret (Inr hp') \<Longrightarrow> space_at hp' k = space_at hp k"
  by (auto simp: set_base_register_def Let_def split: option.splits if_splits)

lemma registry_join_spec:
  assumes "reg_inv_but C hp rg" "join_space rg = Some js" "spaces_in {h. registered rg h} pieces" "join_total pieces lg = Ret n"
    and "n \<le> 0xfffffff0" "unat (join_allocate (reg_joins rg)) + 2 ^ 32 \<le> 2 ^ 64"
  obtains off rg' r where "registry_find_add_join hp pieces lg rg = Ret (off, rg')" "reg_inv_but C hp rg'"
    "registry_find_join rg' off = Ret r" "jr_pieces r = pieces" "hv_size (jr_unified r) = sint n"
    "registry_find_add_join hp pieces lg rg' = Ret (off, rg')"
    "\<And>old q. registry_find_join rg old = Ret q \<Longrightarrow> registry_find_join rg' old = Ret q"
proof -
  let ?H = "{h. registered rg h}"
  have inj: "inj_on (index_at hp) ?H" and inv: "join_inv hp ?H (reg_joins rg)"
    using assms(1) index_inj by (auto simp: reg_inv_but_def)
  obtain off jt r where j: "find_add_join hp pieces lg js (reg_joins rg) = Ret (off, jt)" "join_inv hp ?H jt"
    "find_join jt off = Ret r" "jr_pieces r = pieces" "hv_size (jr_unified r) = sint n"
    "find_add_join hp pieces lg js jt = Ret (off, jt)"
    "\<And>old q. find_join (reg_joins rg) old = Ret q \<Longrightarrow> find_join jt old = Ret q"
    by (rule find_add_join_spec [OF inj inv assms(3-6), where js = js]) (rule that)
  have "reg_inv_but C hp (rg\<lparr>reg_joins := jt\<rparr>)"
    using assms(1) j(2) by (simp add: reg_inv_but_def by_index_def by_name_but_def by_shortcut_def get_space_def)
  then show thesis
    using that [of off "rg\<lparr>reg_joins := jt\<rparr>" r] j assms(2)
    by (simp add: registry_find_add_join_def registry_find_join_def)
qed

lemma reg_step_inv:
  assumes "reg_step N s s'" "reg_inv_but C (fst s) (snd s)"
  shows "reg_inv_but (C \<union> N) (fst s') (snd s')"
  using assms
proof (induction rule: reg_step.induct)
  case (alloc rg h hp cell)
  have "reg_inv_but C (hp(h := cell)) rg"
    by (rule reg_inv_heap [of C hp]) (use alloc in auto)
  then show ?case by (simp only: fst_conv snd_conv Un_empty_right)
next
  case (insert h hp rg u hp' rg')
  have i: "insertable hp h" using insert(1) by (rule insert_space_insertable)
  show ?case using insert_space_inv [OF i _ insert(1)] accepted_no_clash [OF i insert(1)] insert(2) by simp
next
  case (reject hp h rg e hp' rg')
  then show ?case using insert_space_inv [OF reject(1) _ reject(2)] by simp
next
  case (code_space i rg rg' hp)
  then obtain h where h: "get_space rg i = Some h" "rg' = rg\<lparr>default_code_space := Some h, default_data_space := Some h\<rparr>"
    by (auto simp: set_default_code_space_def split: if_splits option.splits)
  have "reg_inv_but C hp rg'"
    by (rule reg_inv_defaults [of C hp rg]) (use code_space h get_space_registered in auto)
  then show ?case by simp
next
  case (data_space i rg rg' hp)
  then obtain h where h: "get_space rg i = Some h" "rg' = rg\<lparr>default_data_space := Some h\<rparr>"
    by (auto simp: set_default_data_space_def split: if_splits option.splits)
  have "reg_inv_but C hp rg" using data_space by simp
  then have "reg_inv_but C hp rg'"
    by (rule reg_inv_defaults) (use h get_space_registered \<open>reg_inv_but C hp rg\<close> in \<open>auto simp: reg_inv_but_def\<close>)
  then show ?case by simp
next
  case (justify hp rg h)
  then show ?case by (simp add: set_reverse_justified_def reg_inv_update)
next
  case (near hp rg h sz)
  then show ?case by (simp add: mark_near_pointers_def Let_def reg_inv_update)
next
  case (ptr_bounds hp rg h a b)
  then show ?case by (simp add: set_infer_ptr_bounds_def reg_inv_update)
next
  case (deadcode hp rg h d)
  then show ?case by (simp add: set_deadcode_delay_def reg_inv_update)
next
  case (truncate nm sz hp rg hp')
  then show ?case by (auto simp: registry_truncate_space_def reg_inv_update split: option.splits)
next
  case (base_register h dat sz dir hp hp' rg)
  then have "space_at hp' k = space_at hp k" for k
    using set_base_register_spaces by (simp add: add_spacebase_pointer_def)
  then show ?case using base_register reg_inv_heap [of C hp rg hp'] by simp
next
  case (contain hp rg h base)
  then show ?case using reg_inv_heap [of C hp rg "set_contain h base hp"] by (simp add: set_contain_def Let_def)
next
  case (join hp pieces lg rg off rg' n)
  then obtain js where js: "join_space rg = Some js" by (auto simp: registry_find_add_join_def split: option.splits)
  obtain off' rg'' where "registry_find_add_join hp pieces lg rg = Ret (off', rg'')" "reg_inv_but C hp rg''"
    by (rule registry_join_spec [OF _ js join(2-5)]) (use join(6) that in auto)
  then show ?case using join(1) by simp
qed

text \<open>A run from the empty manager, with the names that its refused calls have taken.\<close>

inductive reg_run :: "string set \<Rightarrow> reg_state \<Rightarrow> bool" where
  start: "reg_run {} (hp, registry_new)"
| step: "reg_run C s \<Longrightarrow> reg_step N s s' \<Longrightarrow> reg_run (C \<union> N) s'"

definition reg_reach :: "reg_state \<Rightarrow> bool" where
  "reg_reach s \<longleftrightarrow> (\<exists>C. reg_run C s)"

lemma reg_run_inv: "reg_run C s \<Longrightarrow> reg_inv_but C (fst s) (snd s)"
proof (induction rule: reg_run.induct)
  case (start hp)
  then show ?case using reg_inv_new reg_inv_empty by simp
next
  case (step C s N s')
  show ?case by (rule reg_step_inv [OF step.hyps(2) step.IH])
qed

lemma reg_reach_inv: "reg_reach (hp, rg) \<Longrightarrow> \<exists>C. reg_inv_but C hp rg"
  using reg_run_inv by (fastforce simp: reg_reach_def)

lemma reg_reach_index: "reg_reach (hp, rg) \<Longrightarrow> by_index hp rg"
  using reg_reach_inv by (auto simp: reg_inv_but_def)

text \<open>
  Property C10. After any calls of the manager from the empty one, refused calls included, a registered space is found by its index, its shortcut
  character leads to a registered space with that character, and its name leads to a space of that name; it leads to the registered space
  itself unless a call was refused for that name alone.
\<close>

theorem registry_lookup:
  assumes "reg_run C (hp, rg)" "registered rg h"
  shows "get_space rg (nat (index_at hp h)) = Some h
    \<and> (\<exists>k. get_space_by_name rg (name_at hp h) = Some k \<and> name_at hp k = name_at hp h \<and> (name_at hp h \<notin> C \<longrightarrow> k = h))
    \<and> (\<exists>k. get_space_by_shortcut rg (sp_shortcut (space_at hp h)) = Some k \<and> registered rg k
          \<and> sp_shortcut (space_at hp k) = sp_shortcut (space_at hp h))"
proof -
  have inv: "by_index hp rg" "by_name_but C hp rg" "by_shortcut hp rg" using reg_run_inv [OF assms(1)] by (simp_all add: reg_inv_but_def)
  have "\<exists>k. name_to_space rg (name_at hp h) = Some k \<and> name_at hp k = name_at hp h \<and> (name_at hp h \<notin> C \<longrightarrow> k = h)"
    using inv(2) assms(2) unfolding by_name_but_def by blast
  moreover have "\<exists>k. shortcut_to_space rg (sp_shortcut (space_at hp h)) = Some k \<and> registered rg k
      \<and> sp_shortcut (space_at hp k) = sp_shortcut (space_at hp h)"
    using inv(3) assms(2) unfolding by_shortcut_def by blast
  ultimately show ?thesis
    using by_indexD [OF inv(1) assms(2)] by (simp only: get_space_by_name_def get_space_by_shortcut_def simp_thms)
qed

section \<open>Iteration\<close>

text \<open>The handles that repeated calls of \<open>get_next_space_in_order\<close> return, at most \<open>n\<close> of them.\<close>

fun visit :: "space_heap \<Rightarrow> registry \<Rightarrow> nat \<Rightarrow> nat option \<Rightarrow> nat list" where
  "visit hp rg 0 cur = []"
| "visit hp rg (Suc n) cur = (case get_next_space_in_order hp rg cur of None \<Rightarrow> [] | Some h \<Rightarrow> h # visit hp rg n (Some h))"

definition somes :: "'a option list \<Rightarrow> 'a list" where
  "somes xs = List.map_filter id xs"

lemma somes_simps [simp]: "somes [] = []" "somes (None # xs) = somes xs" "somes (Some x # xs) = x # somes xs"
  by (simp_all add: somes_def map_filter_simps)

lemma set_somes: "set (somes xs) = {x. Some x \<in> set xs}"
proof (induction xs)
  case (Cons a xs)
  then show ?case by (cases a) auto
qed simp

lemma first_some_somes:
  "first_some xs = None \<Longrightarrow> somes xs = []"
  "first_some xs = Some x \<Longrightarrow> \<exists>k. k < length xs \<and> xs ! k = Some x \<and> somes xs = x # somes (drop (Suc k) xs)"
proof (induction xs rule: first_some.induct)
  case (2 xs)
  {
    case 2
    then obtain k where "k < length xs" "xs ! k = Some x" "somes xs = x # somes (drop (Suc k) xs)"
      using "2.IH"(2) by auto
    then show ?case by (intro exI [of _ "Suc k"]) simp
  }
qed (auto intro: exI [of _ 0])

lemma next_in_order:
  assumes "by_index hp rg" "num_spaces rg < 2 ^ 31" "get_space rg j = Some h"
  shows "get_next_space_in_order hp rg (Some h) = first_some (drop (Suc j) (base_list rg))"
proof -
  have "j < num_spaces rg" using assms(3) by (simp add: get_space_def num_spaces_def split: if_splits)
  moreover have "index_at hp h = int j" using assms(1,3) by (simp add: by_index_def)
  ultimately show ?thesis using assms(2) by (simp add: get_next_space_in_order_def as_usize_def wrap_i32_small nat_add_distrib)
qed

lemma visit_from:
  assumes "by_index hp rg" "num_spaces rg < 2 ^ 31"
  shows "get_space rg j = Some h \<Longrightarrow> num_spaces rg \<le> Suc (j + n) \<Longrightarrow> visit hp rg n (Some h) = somes (drop (Suc j) (base_list rg))"
proof (induction n arbitrary: j h)
  case 0
  then show ?case by (simp add: get_space_def num_spaces_def split: if_splits)
next
  case (Suc n)
  show ?case
  proof (cases "first_some (drop (Suc j) (base_list rg))")
    case None
    then show ?thesis using next_in_order [OF assms Suc.prems(1)] first_some_somes(1) [OF None] by simp
  next
    case (Some x)
    then obtain k where k: "k < length (drop (Suc j) (base_list rg))" "drop (Suc j) (base_list rg) ! k = Some x"
        "somes (drop (Suc j) (base_list rg)) = x # somes (drop (Suc k) (drop (Suc j) (base_list rg)))"
      using first_some_somes(2) [OF Some] by (elim exE conjE)
    then have "get_space rg (Suc j + k) = Some x" by (simp add: get_space_def)
    then have "visit hp rg n (Some x) = somes (drop (Suc (Suc j + k)) (base_list rg))"
      by (rule Suc.IH) (use Suc.prems(2) in simp)
    moreover have "drop (Suc k) (drop (Suc j) (base_list rg)) = drop (Suc (Suc j + k)) (base_list rg)"
      unfolding drop_drop by (rule arg_cong [where f = "\<lambda>i. drop i (base_list rg)"]) simp
    ultimately show ?thesis using next_in_order [OF assms Suc.prems(1)] Some k(3) by simp
  qed
qed

lemma visit_all:
  assumes "by_index hp rg" "num_spaces rg < 2 ^ 31" "get_space rg 0 = Some c" "num_spaces rg \<le> n"
  shows "visit hp rg n None = somes (base_list rg)"
proof -
  obtain cs where b: "base_list rg = Some c # cs"
    using assms(3) by (cases "base_list rg") (simp_all add: get_space_def)
  obtain m where "n = Suc m" using assms(4) b by (cases n) (simp_all add: num_spaces_def)
  then show ?thesis
    using visit_from [OF assms(1,2,3), of m] assms(4) b by (simp add: get_next_space_in_order_def num_spaces_def)
qed

lemma somes_sorted:
  "(\<And>j h. j < length xs \<Longrightarrow> xs ! j = Some h \<Longrightarrow> f h = k + int j) \<Longrightarrow>
   sorted_wrt (<) (map f (somes xs)) \<and> (\<forall>h \<in> set (somes xs). k \<le> f h)"
proof (induction xs arbitrary: k)
  case (Cons a xs)
  have "f h = (k + 1) + int j" if "j < length xs" "xs ! j = Some h" for j h
    using Cons.prems [of "Suc j" h] that by simp
  then have "sorted_wrt (<) (map f (somes xs)) \<and> (\<forall>h \<in> set (somes xs). k + 1 \<le> f h)" by (rule Cons.IH)
  then show ?case using Cons.prems [of 0] by (cases a) force+
qed simp

text \<open>
  Property C23. Iteration in address order ends and is complete: started without a cursor on a manager whose slot 0 is
  filled, the calls return every registered space once, in the order of the indices, and then nothing.
\<close>

theorem iteration_complete:
  assumes "reg_reach (hp, rg)" "get_space rg 0 = Some c" "num_spaces rg < 2 ^ 31" "num_spaces rg \<le> n"
  shows "set (visit hp rg n None) = {h. registered rg h} \<and> sorted_wrt (<) (map (index_at hp) (visit hp rg n None))"
proof -
  note ix = reg_reach_index [OF assms(1)]
  then have "index_at hp h = 0 + int j" if "j < length (base_list rg)" "base_list rg ! j = Some h" for j h
    using that by (simp add: by_index_def get_space_def)
  then have "sorted_wrt (<) (map (index_at hp) (somes (base_list rg)))"
    using somes_sorted [of "base_list rg" "index_at hp" 0] by blast
  then show ?thesis unfolding visit_all [OF ix assms(3,2,4)] by (simp add: set_somes)
qed

section \<open>Joins\<close>


section \<open>Ranges over registered spaces\<close>

text \<open>
  Indices of registered spaces are an assignment of the kind that the laws of range lists ask for. The record of an
  allocation carries the number of its handle.
\<close>

definition handles_agree :: "space_heap \<Rightarrow> bool" where
  "handles_agree hp \<longleftrightarrow> (\<forall>h. sp_identity (space_at hp h) = h)"

lemma registered_numbered:
  assumes "by_index hp rg" "handles_agree hp"
  shows "\<exists>ix. \<forall>h. registered rg h \<longrightarrow> numbered ix (space_at hp h)"
proof -
  define f where "f h = (if registered rg h then index_at hp h else - int h - 1)" for h
  have pos: "registered rg k \<longleftrightarrow> 0 \<le> f k" for k using by_indexD [OF assms(1), of k] by (simp add: f_def)
  have "inj f"
  proof (rule injI)
    fix a b assume ab: "f a = f b"
    show "a = b"
    proof (cases "registered rg a")
      case True
      moreover from this have "registered rg b" using pos ab by simp
      ultimately show ?thesis using inj_onD [OF index_inj [OF assms(1)], of a b] ab by (simp add: f_def)
    next
      case False
      moreover from this have "\<not> registered rg b" using pos ab by simp
      ultimately show ?thesis using ab by (simp add: f_def)
    qed
  qed
  then have "numbered (Space_Index f) (space_at hp h)" if "registered rg h" for h
    using that assms(2) by (simp add: numbered_def Space_Index_inverse handles_agree_def f_def)
  then show ?thesis by blast
qed

definition range_over :: "space_heap \<Rightarrow> registry \<Rightarrow> space_range \<Rightarrow> bool" where
  "range_over hp rg r \<longleftrightarrow> sr_first r \<le> sr_last r \<and> (\<exists>h. registered rg h \<and> sr_spc r = space_at hp h)"

definition ranges_ordered :: "space_range_list \<Rightarrow> bool" where
  "ranges_ordered t \<longleftrightarrow> sorted_wrt before t \<and> list_all (\<lambda>r. sr_first r \<le> sr_last r) t"

lemma range_over_valid:
  "\<forall>h. registered rg h \<longrightarrow> numbered ix (space_at hp h) \<Longrightarrow> list_all (range_over hp rg) rs \<Longrightarrow> list_all (sr_valid ix) rs"
  by (auto simp: list_all_iff range_over_def sr_valid_def)

text \<open>
  Property C11. The manager and the range lists together: in every reachable state, inserting and then removing any ranges over
  registered spaces never panics, and gives an ordered list of disjoint ranges that holds exactly the addresses inserted
  and not removed.
\<close>

theorem registered_ranges:
  assumes "reg_reach (hp, rg)" "handles_agree hp" "list_all (range_over hp rg) ins" "list_all (range_over hp rg) dels"
  shows "\<exists>t. fold srl_del dels (fold srl_ins ins (Ret [])) = Ret t \<and> ranges_ordered t
    \<and> (\<forall>a. srl_mem t a \<longleftrightarrow> list_ex (\<lambda>r. sr_contains r a) ins \<and> \<not> list_ex (\<lambda>r. sr_contains r a) dels)"
proof -
  note reg_reach_index [OF assms(1)]
  then obtain ix where ix: "\<forall>h. registered rg h \<longrightarrow> numbered ix (space_at hp h)"
    using registered_numbered [OF _ assms(2)] by blast
  have "srl_inv ix []" by (simp add: srl_inv_def)
  from srl_build [OF this range_over_valid [OF ix assms(3)] range_over_valid [OF ix assms(4)]]
  obtain t where t: "fold srl_del dels (fold srl_ins ins (Ret [])) = Ret t" "srl_inv ix t"
    "\<forall>a. srl_mem t a \<longleftrightarrow> (srl_mem [] a \<or> list_ex (\<lambda>r. sr_contains r a) ins) \<and> \<not> list_ex (\<lambda>r. sr_contains r a) dels"
    by (elim exE conjE)
  have "ranges_ordered t" using t(2) by (auto simp: srl_inv_def ranges_ordered_def list_all_iff sr_valid_def)
  moreover have "\<not> srl_mem [] a" for a by (simp add: srl_mem_def)
  ultimately show ?thesis using t by blast
qed

section \<open>A rejected insertion and the table of names\<close>

text \<open>
  After a rejection for the name alone, the name of a registered space leads to the space that was refused.
\<close>

lemma rejected_space_takes_name:
  assumes "reg_inv hp rg" "insertable hp h" "name_clash hp rg h"
  shows "\<exists>e hp' rg' k. insert_space h hp rg = Ret (Inl e, hp', rg') \<and> registered rg' k \<and> name_at hp' k = name_at hp h
    \<and> get_space_by_name rg' (name_at hp h) = Some h \<and> \<not> registered rg' h"
proof -
  have "\<not> acceptable hp rg h" using assms(3) by (simp add: acceptable_def name_clash_def)
  then obtain e hp' rg' where i: "insert_space h hp rg = Ret (Inl e, hp', rg')" "rejected h hp rg hp' rg'"
    using insert_space_rejects [OF assms(2)] by blast
  obtain k where k: "registered rg k" "name_at hp k = name_at hp h"
    using assms(1,3) by (auto simp: reg_inv_def by_name_def name_clash_def)
  have "\<not> registered rg h" using assms(1,3) by_indexD [of hp rg h] by (auto simp: reg_inv_def name_clash_def)
  then show ?thesis
    using i k assms(3) unfolding registered_iff
    by (auto simp: rejected_def same_keys_def get_space_by_name_def)
qed

section \<open>A small manager\<close>

definition demo_heap :: space_heap where
  "demo_heap h = \<lparr>cell_space = (if h = 0 then new_constant_space 0 False
       else if h = 2 then new_join_space 2 2 False else new_space h Processor ''ram'' False 8 1 (int h) 0 0 0),
     cell_spacebase = None\<rparr>"

definition put :: "nat \<Rightarrow> reg_state \<Rightarrow> reg_state" where
  "put h s = (case insert_space h (fst s) (snd s) of Ret (Inr _, hp', rg') \<Rightarrow> (hp', rg') | _ \<Rightarrow> s)"

definition demo :: reg_state where
  "demo = put 2 (put 1 (put 0 (demo_heap, registry_new)))"

lemma put_run: "reg_run C s \<Longrightarrow> reg_run C (put h s)"
  using reg_run.step [of C s "{}"] by (cases s) (auto simp: put_def intro: reg_step.insert split: res.splits sum.splits)

lemma put_agree: "handles_agree (fst s) \<Longrightarrow> handles_agree (fst (put h s))"
proof (cases "\<exists>u hp' rg'. insert_space h (fst s) (snd s) = Ret (Inr u, hp', rg')")
  case True
  then obtain u hp' rg' where i: "insert_space h (fst s) (snd s) = Ret (Inr u, hp', rg')" by blast
  have "inserted h (fst s) (snd s) hp' rg'"
    using insert_space_accepts [OF insert_space_insertable [OF i], of "snd s"]
      insert_space_rejects [OF insert_space_insertable [OF i], of "snd s"] i
    by (cases "acceptable (fst s) (snd s) h") auto
  then show "handles_agree (fst s) \<Longrightarrow> ?thesis" using i by (simp add: put_def handles_agree_def inserted_def)
next
  case False
  then have "put h s = s" by (auto simp: put_def split: res.splits sum.splits)
  then show "handles_agree (fst s) \<Longrightarrow> ?thesis" by simp
qed

lemma demo_run: "reg_run {} (fst demo, snd demo)"
  using reg_run.start [of demo_heap] by (simp add: demo_def put_run)

lemma demo_reach: "reg_reach (fst demo, snd demo)"
  using demo_run by (auto simp: reg_reach_def)

lemma demo_agree: "handles_agree (fst demo)"
proof -
  have "handles_agree demo_heap"
    by (auto simp: handles_agree_def demo_heap_def new_constant_space_def new_join_space_def new_space_def Let_def clear_flags_def)
  then show ?thesis by (simp add: demo_def put_agree)
qed

lemma demo_base: "base_list (snd demo) = [Some 0, Some 1, Some 2]" "join_space (snd demo) = Some 2"
  "reg_joins (snd demo) = join_tables_new"
  by code_simp+

theorem iteration_complete_witness:
  "set (visit (fst demo) (snd demo) 3 None) = {0, 1, 2} \<and> visit (fst demo) (snd demo) 3 None = [0, 1, 2]
   \<and> sorted_wrt (<) (map (index_at (fst demo)) (visit (fst demo) (snd demo) 3 None))"
proof -
  have "get_space (snd demo) 0 = Some 0" "num_spaces (snd demo) = 3" by (simp_all add: get_space_def num_spaces_def demo_base)
  moreover have "visit (fst demo) (snd demo) 3 None = [0, 1, 2]" by code_simp
  moreover have "{h. registered (snd demo) h} = {0, 1, 2}" by (auto simp: demo_base)
  ultimately show ?thesis using iteration_complete [OF demo_reach, of 0 3] by simp
qed


theorem registered_ranges_witness:
  "\<exists>t. fold srl_del [sr_new (space_at (fst demo) 1) 20 40] (fold srl_ins [sr_new (space_at (fst demo) 1) 16 47] (Ret [])) = Ret t
     \<and> ranges_ordered t \<and> srl_mem t (sa_new (space_at (fst demo) 1) 18) \<and> \<not> srl_mem t (sa_new (space_at (fst demo) 1) 30)"
proof -
  have "range_over (fst demo) (snd demo) (sr_new (space_at (fst demo) 1) a b)" if "a \<le> b" for a b
    using that by (auto simp: range_over_def sr_new_def demo_base intro: exI [of _ 1])
  then show ?thesis
    using registered_ranges [OF demo_reach demo_agree, of "[sr_new (space_at (fst demo) 1) 16 47]" "[sr_new (space_at (fst demo) 1) 20 40]"]
    by (auto simp: contains_at sr_new_def same_space_def)
qed

text \<open>The demo after a call refused for the name of its space 1.\<close>

definition clash :: reg_state where
  "clash = (case insert_space 3 (fst demo) (snd demo) of Ret (_, hp', rg') \<Rightarrow> (hp', rg') | Panic \<Rightarrow> demo)"

lemma clash_run: "reg_run {''ram''} clash"
proof -
  have c: "insertable (fst demo) 3" "name_clash (fst demo) (snd demo) 3" "name_at (fst demo) 3 = ''ram''" by code_simp+
  then have "\<not> acceptable (fst demo) (snd demo) 3" by (simp add: acceptable_def name_clash_def)
  then obtain e hp' rg' where i: "insert_space 3 (fst demo) (snd demo) = Ret (Inl e, hp', rg')"
    using insert_space_rejects [OF c(1)] by blast
  from reg_run.step [OF demo_run reg_step.reject [OF c(1) i]] c(2,3) i show ?thesis by (simp add: clash_def)
qed

theorem registry_lookup_witness:
  "get_space (snd demo) 1 = Some 1 \<and> get_space_by_name (snd demo) ''ram'' = Some 1
   \<and> get_space_by_shortcut (snd demo) CHR ''r'' = Some 1
   \<and> get_space (snd clash) 1 = Some 1 \<and> get_space_by_name (snd clash) ''ram'' = Some 3"
proof -
  have d: "name_at (fst demo) 1 = ''ram''" "index_at (fst demo) 1 = 1" "get_space_by_shortcut (snd demo) CHR ''r'' = Some 1"
    by code_simp+
  have c: "registered (snd clash) 1" "index_at (fst clash) 1 = 1" "get_space_by_name (snd clash) ''ram'' = Some 3" by code_simp+
  show ?thesis using registry_lookup [OF demo_run, of 1] registry_lookup [of "{''ram''}" "fst clash" "snd clash" 1] clash_run d c
    by (simp add: demo_base)
qed

theorem insert_space_exact_witness:
  "insertable demo_heap 1 \<and> (case insert_space 1 demo_heap registry_new of
      Ret (Inr _, hp', rg') \<Rightarrow> get_space rg' 1 = Some 1 \<and> get_space_by_name rg' ''ram'' = Some 1 \<and> reg_inv hp' rg'
    | _ \<Rightarrow> False)"
proof -
  have i: "insertable demo_heap 1" and "acceptable demo_heap registry_new 1" "name_at demo_heap 1 = ''ram''" "index_at demo_heap 1 = 1"
    by code_simp+
  then show ?thesis
    using insert_space_exact [OF reg_inv_new i] by (auto split: res.splits sum.splits)
qed

end
