(* ===== verification/Packed_Format.thy ===== *)
theory Packed_Format
  imports Addr_Space
begin

text \<open>
  The packed binary marshalling format: \<open>PackedEncode\<close> and \<open>PackedDecode\<close> of src/src/marshal.rs. The encoder
  state is the list of bytes written. The decoder keeps its input, a position, the stack of
  open elements (top first) and what the last attribute header announced. A \<open>String\<close> is the
  list of its UTF-8 bytes; \<open>utf8_lossy\<close> is \<open>String::from_utf8_lossy\<close>. The registry of names is not
  consulted by these operations and is left out of the state.
\<close>

unbundle bit_operations_syntax

section \<open>Format constants\<close>

definition HEADER_MASK :: u8 where "HEADER_MASK = 0xc0"
definition ELEMENT_START :: u8 where "ELEMENT_START = 0x40"
definition ELEMENT_END :: u8 where "ELEMENT_END = 0x80"
definition ATTRIBUTE :: u8 where "ATTRIBUTE = 0xc0"
definition HEADEREXTEND_MASK :: u8 where "HEADEREXTEND_MASK = 0x20"
definition ELEMENTID_MASK :: u8 where "ELEMENTID_MASK = 0x1f"
definition RAWDATA_MASK :: u8 where "RAWDATA_MASK = 0x7f"
definition RAWDATA_BITSPERBYTE :: nat where "RAWDATA_BITSPERBYTE = 7"
definition RAWDATA_MARKER :: u8 where "RAWDATA_MARKER = 0x80"
definition TYPECODE_SHIFT :: nat where "TYPECODE_SHIFT = 4"
definition LENGTHCODE_MASK :: u8 where "LENGTHCODE_MASK = 0xf"
definition TYPECODE_BOOLEAN :: u8 where "TYPECODE_BOOLEAN = 1"
definition TYPECODE_SIGNEDINT_POSITIVE :: u8 where "TYPECODE_SIGNEDINT_POSITIVE = 2"
definition TYPECODE_SIGNEDINT_NEGATIVE :: u8 where "TYPECODE_SIGNEDINT_NEGATIVE = 3"
definition TYPECODE_UNSIGNEDINT :: u8 where "TYPECODE_UNSIGNEDINT = 4"
definition TYPECODE_ADDRESSSPACE :: u8 where "TYPECODE_ADDRESSSPACE = 5"
definition TYPECODE_SPECIALSPACE :: u8 where "TYPECODE_SPECIALSPACE = 6"
definition TYPECODE_STRING :: u8 where "TYPECODE_STRING = 7"
definition SPECIALSPACE_STACK :: u32 where "SPECIALSPACE_STACK = 0"
definition SPECIALSPACE_JOIN :: u32 where "SPECIALSPACE_JOIN = 1"
definition SPECIALSPACE_FSPEC :: u32 where "SPECIALSPACE_FSPEC = 2"
definition SPECIALSPACE_IOP :: u32 where "SPECIALSPACE_IOP = 3"
definition SPECIALSPACE_SPACEBASE :: u32 where "SPECIALSPACE_SPACEBASE = 4"

lemmas packed_consts = HEADER_MASK_def ELEMENT_START_def ELEMENT_END_def ATTRIBUTE_def HEADEREXTEND_MASK_def
  ELEMENTID_MASK_def RAWDATA_MASK_def RAWDATA_BITSPERBYTE_def RAWDATA_MARKER_def TYPECODE_SHIFT_def
  LENGTHCODE_MASK_def TYPECODE_BOOLEAN_def TYPECODE_SIGNEDINT_POSITIVE_def TYPECODE_SIGNEDINT_NEGATIVE_def
  TYPECODE_UNSIGNEDINT_def TYPECODE_ADDRESSSPACE_def TYPECODE_SPECIALSPACE_def TYPECODE_STRING_def
  SPECIALSPACE_STACK_def SPECIALSPACE_JOIN_def SPECIALSPACE_FSPEC_def SPECIALSPACE_IOP_def SPECIALSPACE_SPACEBASE_def

section \<open>The encoder\<close>

type_synonym bytes = "u8 list"

definition write_header :: "u8 \<Rightarrow> u32 \<Rightarrow> bytes \<Rightarrow> bytes" where
  "write_header header ident out =
     (if ident > 0x1f
      then out @ [header OR HEADEREXTEND_MASK OR ucast (drop_bit RAWDATA_BITSPERBYTE ident),
                  ucast (ident AND ucast RAWDATA_MASK) OR RAWDATA_MARKER]
      else out @ [header OR ucast ident])"

definition integer_length :: "u64 \<Rightarrow> u8 \<times> int" where
  "integer_length val =
     (if val = 0 then (0, - 1)
      else if val < 0x800000000
      then (if val < 0x200000
            then (if val < 0x80 then (1, 0) else if val < 0x4000 then (2, 7) else (3, 14))
            else if val < 0x10000000 then (4, 21) else (5, 28))
      else if val < 0x2000000000000
      then (if val < 0x40000000000 then (6, 35) else (7, 42))
      else if val < 0x100000000000000 then (8, 49)
      else if val < 0x8000000000000000 then (9, 56)
      else (10, 63))"

function write_pieces :: "u64 \<Rightarrow> int \<Rightarrow> bytes \<Rightarrow> bytes" where
  "write_pieces val sh out =
     (if sh \<ge> 0
      then write_pieces val (sh - 7)
             (out @ [ucast (shr_u64 val (nat sh) AND ucast RAWDATA_MASK) OR RAWDATA_MARKER])
      else out)"
  by pat_completeness auto
termination
  by (relation "measure (\<lambda>(val, sh, out). nat (sh + 7))") auto

declare write_pieces.simps [simp del]

definition write_integer :: "u8 \<Rightarrow> u64 \<Rightarrow> bytes \<Rightarrow> bytes" where
  "write_integer type_byte val out =
     (case integer_length val of (len_code, sa) \<Rightarrow> write_pieces val sa (out @ [type_byte OR len_code]))"

definition enc_open_element :: "u32 \<Rightarrow> bytes \<Rightarrow> bytes" where
  "enc_open_element elem_id out = write_header ELEMENT_START elem_id out"

definition enc_close_element :: "u32 \<Rightarrow> bytes \<Rightarrow> bytes" where
  "enc_close_element elem_id out = write_header ELEMENT_END elem_id out"

definition write_bool :: "u32 \<Rightarrow> bool \<Rightarrow> bytes \<Rightarrow> bytes" where
  "write_bool attrib_id val out =
     write_header ATTRIBUTE attrib_id out
     @ [if val then push_bit TYPECODE_SHIFT TYPECODE_BOOLEAN OR 1 else push_bit TYPECODE_SHIFT TYPECODE_BOOLEAN]"

definition write_signed_integer :: "u32 \<Rightarrow> i64 \<Rightarrow> bytes \<Rightarrow> bytes" where
  "write_signed_integer attrib_id val out =
     (let out1 = write_header ATTRIBUTE attrib_id out
      in if val < 0
         then write_integer (push_bit TYPECODE_SHIFT TYPECODE_SIGNEDINT_NEGATIVE) (as_u64 (wrap_i64 (- val))) out1
         else write_integer (push_bit TYPECODE_SHIFT TYPECODE_SIGNEDINT_POSITIVE) (as_u64 val) out1)"

definition write_unsigned_integer :: "u32 \<Rightarrow> u64 \<Rightarrow> bytes \<Rightarrow> bytes" where
  "write_unsigned_integer attrib_id val out =
     write_integer (push_bit TYPECODE_SHIFT TYPECODE_UNSIGNEDINT) val (write_header ATTRIBUTE attrib_id out)"

definition write_string :: "u32 \<Rightarrow> bytes \<Rightarrow> bytes \<Rightarrow> bytes" where
  "write_string attrib_id val out =
     write_integer (push_bit TYPECODE_SHIFT TYPECODE_STRING) (of_nat (length val))
       (write_header ATTRIBUTE attrib_id out) @ val"

definition write_string_indexed :: "u32 \<Rightarrow> u32 \<Rightarrow> bytes \<Rightarrow> bytes \<Rightarrow> bytes" where
  "write_string_indexed attrib_id index val out =
     write_integer (push_bit TYPECODE_SHIFT TYPECODE_STRING) (of_nat (length val))
       (write_header ATTRIBUTE (attrib_id + index) out) @ val"

definition write_space :: "u32 \<Rightarrow> addr_space \<Rightarrow> bytes \<Rightarrow> bytes" where
  "write_space attrib_id spc out =
     (let out1 = write_header ATTRIBUTE attrib_id out;
          special = push_bit TYPECODE_SHIFT (ucast TYPECODE_SPECIALSPACE) :: u32
      in case sp_type spc of
           Fspec \<Rightarrow> out1 @ [ucast (special OR SPECIALSPACE_FSPEC)]
         | Iop \<Rightarrow> out1 @ [ucast (special OR SPECIALSPACE_IOP)]
         | Join \<Rightarrow> out1 @ [ucast (special OR SPECIALSPACE_JOIN)]
         | SpaceBaseType \<Rightarrow>
             if is_formal_stackspace spc then out1 @ [ucast (special OR SPECIALSPACE_STACK)]
             else out1 @ [ucast (special OR SPECIALSPACE_SPACEBASE)]
         | _ \<Rightarrow> write_integer (push_bit TYPECODE_SHIFT TYPECODE_ADDRESSSPACE) (as_u64 (sp_index spc)) out1)"

section \<open>Strings\<close>

text \<open>
  The UTF-8 sequence at the head of a byte list: whether it is valid and how many bytes it takes,
  an invalid sequence taking the longest valid prefix, at least one byte. Reading past the end
  gives 0, as in the standard library.
\<close>

definition byte_at :: "nat \<Rightarrow> bytes \<Rightarrow> u8" where
  "byte_at i bs = (if i < length bs then bs ! i else 0)"

definition is_cont :: "u8 \<Rightarrow> bool" where
  "is_cont b \<longleftrightarrow> b AND 192 = 128"

definition utf8_width :: "u8 \<Rightarrow> nat" where
  "utf8_width b = (if b < 0x80 then 1 else if 0xC2 \<le> b \<and> b \<le> 0xDF then 2
     else if 0xE0 \<le> b \<and> b \<le> 0xEF then 3 else if 0xF0 \<le> b \<and> b \<le> 0xF4 then 4 else 0)"

definition second_of_three :: "u8 \<Rightarrow> u8 \<Rightarrow> bool" where
  "second_of_three b c \<longleftrightarrow> b = 0xE0 \<and> 0xA0 \<le> c \<and> c \<le> 0xBF \<or> 0xE1 \<le> b \<and> b \<le> 0xEC \<and> 0x80 \<le> c \<and> c \<le> 0xBF
     \<or> b = 0xED \<and> 0x80 \<le> c \<and> c \<le> 0x9F \<or> 0xEE \<le> b \<and> b \<le> 0xEF \<and> 0x80 \<le> c \<and> c \<le> 0xBF"

definition second_of_four :: "u8 \<Rightarrow> u8 \<Rightarrow> bool" where
  "second_of_four b c \<longleftrightarrow> b = 0xF0 \<and> 0x90 \<le> c \<and> c \<le> 0xBF \<or> 0xF1 \<le> b \<and> b \<le> 0xF3 \<and> 0x80 \<le> c \<and> c \<le> 0xBF
     \<or> b = 0xF4 \<and> 0x80 \<le> c \<and> c \<le> 0x8F"

definition utf8_step :: "u8 \<Rightarrow> bytes \<Rightarrow> bool \<times> nat" where
  "utf8_step b bs =
     (if b < 0x80 then (True, 1)
      else if utf8_width b = 2 then (if is_cont (byte_at 0 bs) then (True, 2) else (False, 1))
      else if utf8_width b = 3
      then (if \<not> second_of_three b (byte_at 0 bs) then (False, 1)
            else if is_cont (byte_at 1 bs) then (True, 3) else (False, 2))
      else if utf8_width b = 4
      then (if \<not> second_of_four b (byte_at 0 bs) then (False, 1)
            else if \<not> is_cont (byte_at 1 bs) then (False, 2)
            else if is_cont (byte_at 2 bs) then (True, 4) else (False, 3))
      else (False, 1))"

function utf8_lossy :: "bytes \<Rightarrow> bytes" where
  "utf8_lossy [] = []"
| "utf8_lossy (b # bs) =
     (case utf8_step b bs of (ok, n) \<Rightarrow>
        (if ok then take n (b # bs) else [0xEF, 0xBF, 0xBD]) @ utf8_lossy (drop (n - 1) bs))"
  by pat_completeness auto
termination
  by (relation "measure length") (auto simp: utf8_step_def)

function utf8_valid :: "bytes \<Rightarrow> bool" where
  "utf8_valid [] = True"
| "utf8_valid (b # bs) = (case utf8_step b bs of (ok, n) \<Rightarrow> ok \<and> utf8_valid (drop (n - 1) bs))"
  by pat_completeness auto
termination
  by (relation "measure length") (auto simp: utf8_step_def)

section \<open>The decoder\<close>

record packed_decode =
  pd_input :: bytes
  pd_pos :: nat
  pd_stack :: "(u32 \<times> nat \<times> nat) list"
  pd_type :: "u8 option"
  pd_int_len :: "nat option"
  pd_string_len :: "nat option"

definition pd_new :: "bytes \<Rightarrow> packed_decode" where
  "pd_new bs = \<lparr>pd_input = bs, pd_pos = 0, pd_stack = [], pd_type = None, pd_int_len = None, pd_string_len = None\<rparr>"

definition read_byte :: "packed_decode \<Rightarrow> u8 option \<times> packed_decode" where
  "read_byte d = (if pd_pos d < length (pd_input d)
     then (Some (pd_input d ! pd_pos d), d\<lparr>pd_pos := pd_pos d + 1\<rparr>) else (None, d))"

definition extend_id :: "u32 \<Rightarrow> u8 \<Rightarrow> u32" where
  "extend_id ident ext = push_bit RAWDATA_BITSPERBYTE ident OR ucast (ext AND RAWDATA_MASK)"

definition read_header :: "packed_decode \<Rightarrow> (u8 \<times> u32) option \<times> packed_decode" where
  "read_header d = (case read_byte d of
      (None, d1) \<Rightarrow> (None, d1)
    | (Some b, d1) \<Rightarrow>
        if b AND HEADEREXTEND_MASK \<noteq> 0
        then (case read_byte d1 of
                (None, d2) \<Rightarrow> (None, d2)
              | (Some ext, d2) \<Rightarrow> (Some (b AND HEADER_MASK, extend_id (ucast (b AND ELEMENTID_MASK)) ext), d2))
        else (Some (b AND HEADER_MASK, ucast (b AND ELEMENTID_MASK)), d1))"

fun read_integer_loop :: "nat \<Rightarrow> u64 \<Rightarrow> packed_decode \<Rightarrow> u64 \<times> packed_decode" where
  "read_integer_loop 0 val d = (val, d)"
| "read_integer_loop (Suc n) val d = (case read_byte d of
      (Some b, d1) \<Rightarrow> read_integer_loop n (push_bit RAWDATA_BITSPERBYTE val OR ucast (b AND RAWDATA_MASK)) d1
    | (None, d1) \<Rightarrow> read_integer_loop n val d1)"

definition read_integer :: "nat \<Rightarrow> packed_decode \<Rightarrow> u64 \<times> packed_decode" where
  "read_integer len d = read_integer_loop len 0 d"

definition length_code :: "u8 \<Rightarrow> u8" where
  "length_code type_byte = type_byte AND LENGTHCODE_MASK"

definition type_code :: "u8 \<Rightarrow> u8" where
  "type_code type_byte = drop_bit TYPECODE_SHIFT type_byte AND 0xf"

fun skip_bytes :: "nat \<Rightarrow> packed_decode \<Rightarrow> packed_decode" where
  "skip_bytes 0 d = d"
| "skip_bytes (Suc n) d = skip_bytes n (snd (read_byte d))"

text \<open>
  The scan of \<open>peek_element\<close>. The skip over a string adds a length of up to 64 bits read from the input to the
  position, modulo the size of \<open>usize\<close>, so the scan need not end: not ending is \<open>None\<close>.
\<close>

fun peek_length :: "bytes \<Rightarrow> nat \<Rightarrow> u64 \<Rightarrow> nat \<Rightarrow> u64 \<times> nat" where
  "peek_length bs 0 str_len scan = (str_len, scan)"
| "peek_length bs (Suc n) str_len scan =
     (if scan \<ge> length bs then (str_len, scan)
      else peek_length bs n (push_bit RAWDATA_BITSPERBYTE str_len OR ucast (bs ! scan AND RAWDATA_MASK)) (scan + 1))"

partial_function (option) peek_loop :: "bytes \<Rightarrow> nat \<Rightarrow> u32 option" where
  "peek_loop bs scan =
     (if scan < length bs
      then (let b = bs ! scan; ht = b AND HEADER_MASK
            in if ht = ELEMENT_START
               then Some (if b AND HEADEREXTEND_MASK \<noteq> 0 \<and> scan + 1 < length bs
                          then extend_id (ucast (b AND ELEMENTID_MASK)) (bs ! (scan + 1))
                          else ucast (b AND ELEMENTID_MASK))
               else if ht = ATTRIBUTE
               then (let scan1 = scan + (if b AND HEADEREXTEND_MASK \<noteq> 0 then 2 else 1)
                     in if scan1 \<ge> length bs then Some 0
                        else (let tb = bs ! scan1; scan2 = scan1 + 1; tc = type_code tb; lc = unat (length_code tb)
                              in if tc = TYPECODE_BOOLEAN then peek_loop bs scan2
                                 else if tc = TYPECODE_SIGNEDINT_POSITIVE \<or> tc = TYPECODE_SIGNEDINT_NEGATIVE
                                        \<or> tc = TYPECODE_UNSIGNEDINT \<or> tc = TYPECODE_ADDRESSSPACE
                                 then peek_loop bs (scan2 + lc)
                                 else if tc = TYPECODE_SPECIALSPACE then peek_loop bs scan2
                                 else if tc = TYPECODE_STRING
                                 then (case peek_length bs lc 0 scan2 of (str_len, scan3) \<Rightarrow>
                                         peek_loop bs ((scan3 + unat str_len) mod 2 ^ 64))
                                 else Some 0))
               else Some 0)
      else Some 0)"

definition peek_element :: "packed_decode \<Rightarrow> u32 option" where
  "peek_element d =
     (let attr_skip = (case pd_stack d of [] \<Rightarrow> pd_pos d | (_, _, cur) # _ \<Rightarrow> cur)
      in peek_loop (pd_input d) (max (pd_pos d) attr_skip))"

lemma read_byte_mono:
  assumes "read_byte d = (r, d')"
  shows "pd_input d' = pd_input d" "pd_pos d \<le> pd_pos d'"
    "r \<noteq> None \<Longrightarrow> pd_pos d < pd_pos d' \<and> pd_pos d' \<le> length (pd_input d)"
  using assms by (auto simp: read_byte_def split: if_splits)

lemma read_header_mono:
  assumes "read_header d = (r, d')"
  shows "pd_input d' = pd_input d" "pd_pos d \<le> pd_pos d'"
    "r \<noteq> None \<Longrightarrow> pd_pos d < pd_pos d' \<and> pd_pos d' \<le> length (pd_input d)"
  using assms by (auto simp: read_header_def read_byte_def split: if_splits)

lemma read_integer_loop_mono:
  "read_integer_loop n v d = (w, d') \<Longrightarrow> pd_input d' = pd_input d \<and> pd_pos d \<le> pd_pos d'"
proof (induction n arbitrary: v d)
  case (Suc n)
  obtain r d1 where r: "read_byte d = (r, d1)" by (cases "read_byte d")
  have "pd_input d' = pd_input d1 \<and> pd_pos d1 \<le> pd_pos d'"
    using Suc.prems r by (cases r) (auto dest: Suc.IH)
  then show ?case using read_byte_mono(1,2) [OF r] by simp
qed simp

lemma skip_bytes_mono: "pd_input (skip_bytes n d) = pd_input d \<and> pd_pos d \<le> pd_pos (skip_bytes n d)"
proof (induction n arbitrary: d)
  case (Suc n)
  obtain r d1 where r: "read_byte d = (r, d1)" by (cases "read_byte d")
  show ?case using Suc.IH [of d1] read_byte_mono(1,2) [OF r] r by simp
qed simp

definition remaining :: "packed_decode \<Rightarrow> nat" where
  "remaining d = length (pd_input d) - pd_pos d"

lemma remaining_header: "(Some h, d') = read_header d \<Longrightarrow> remaining d' < remaining d"
  using read_header_mono [of d "Some h" d'] by (auto simp: remaining_def)

function dec_open_element :: "packed_decode \<Rightarrow> u32 \<times> packed_decode" where
  "dec_open_element d = (case read_header d of
      (None, d1) \<Rightarrow> (0, d1)
    | (Some (ht, ident), d1) \<Rightarrow>
        if ht = ELEMENT_START
        then (ident, d1\<lparr>pd_stack := (ident, pd_pos d1, pd_pos d1) # pd_stack d1\<rparr>)
        else dec_open_element d1)"
  by pat_completeness auto
termination
  by (relation "measure remaining") (auto dest: remaining_header)

declare dec_open_element.simps [simp del]

definition open_element_matching :: "packed_decode \<Rightarrow> u32 \<Rightarrow> u32 \<times> packed_decode" where
  "open_element_matching d elem_id = (case dec_open_element d of (ident, d1) \<Rightarrow>
     (if ident \<noteq> elem_id then 0 else ident, d1))"

definition skip_attribute :: "packed_decode \<Rightarrow> packed_decode" where
  "skip_attribute d = (case read_byte d of
      (None, d1) \<Rightarrow> d1
    | (Some tb, d1) \<Rightarrow>
        (let tc = type_code tb; lc = unat (length_code tb)
         in if tc = TYPECODE_BOOLEAN \<or> tc = TYPECODE_SPECIALSPACE then d1
            else if tc = TYPECODE_STRING
            then (case read_integer lc d1 of (str_len, d2) \<Rightarrow> skip_bytes (unat str_len) d2)
            else skip_bytes lc d1))"

lemma skip_attribute_mono: "pd_input (skip_attribute d) = pd_input d \<and> pd_pos d \<le> pd_pos (skip_attribute d)"
proof -
  obtain r d1 where r: "read_byte d = (r, d1)" by (cases "read_byte d")
  note m = read_byte_mono(1,2) [OF r]
  obtain v d2 where i: "read_integer (unat (length_code (the r))) d1 = (v, d2)" by fastforce
  then have "pd_input d2 = pd_input d1 \<and> pd_pos d1 \<le> pd_pos d2"
    by (simp add: read_integer_def read_integer_loop_mono)
  then show ?thesis
    using m i skip_bytes_mono [of "unat v" d2] skip_bytes_mono [of "unat (length_code (the r))" d1]
    by (cases r) (auto simp: skip_attribute_def r Let_def)
qed

lemma remaining_skip: "(Some h, d') = read_header d \<Longrightarrow> remaining (skip_attribute d') < remaining d"
  using remaining_header [of h d' d] skip_attribute_mono [of d'] by (auto simp: remaining_def)

function close_loop :: "packed_decode \<Rightarrow> packed_decode" where
  "close_loop d = (case read_header d of
      (None, d1) \<Rightarrow> d1
    | (Some (ht, _), d1) \<Rightarrow>
        if ht = ELEMENT_END then d1
        else if ht = ATTRIBUTE then close_loop (skip_attribute d1)
        else close_loop d1)"
  by pat_completeness auto
termination
  by (relation "measure remaining") (auto dest: remaining_header remaining_skip)

declare close_loop.simps [simp del]

definition dec_close_element :: "packed_decode \<Rightarrow> packed_decode" where
  "dec_close_element d = (let d1 = close_loop d in d1\<lparr>pd_stack := tl (pd_stack d1)\<rparr>)"

definition close_element_skipping :: "packed_decode \<Rightarrow> packed_decode" where
  "close_element_skipping d = dec_close_element d"

definition set_cursor :: "packed_decode \<Rightarrow> packed_decode" where
  "set_cursor d = d\<lparr>pd_stack := (case pd_stack d of
     [] \<Rightarrow> [] | (ident, start, _) # rest \<Rightarrow> (ident, start, pd_pos d) # rest)\<rparr>"

definition next_attribute_id :: "packed_decode \<Rightarrow> u32 \<times> packed_decode" where
  "next_attribute_id d =
     (if pd_pos d \<ge> length (pd_input d) then (0, d)
      else (let b = pd_input d ! pd_pos d
            in if b AND HEADER_MASK \<noteq> ATTRIBUTE then (0, d)
               else (let d1 = d\<lparr>pd_pos := pd_pos d + 1\<rparr>;
                         ident1 = ucast (b AND ELEMENTID_MASK);
                         (ident, d2) = (if b AND HEADEREXTEND_MASK \<noteq> 0
                            then (case read_byte d1 of
                                    (Some ext, d2) \<Rightarrow> (extend_id ident1 ext, d2)
                                  | (None, d2) \<Rightarrow> (ident1, d2))
                            else (ident1, d1));
                         (tb, d3) = (case read_byte d2 of (Some t, d3) \<Rightarrow> (t, d3) | (None, d3) \<Rightarrow> (0, d3));
                         tc = type_code tb;
                         lc = unat (length_code tb)
                     in if tc = TYPECODE_BOOLEAN \<or> tc = TYPECODE_SPECIALSPACE
                        then (ident, (set_cursor d3)\<lparr>pd_type := Some tb\<rparr>)
                        else if tc = TYPECODE_STRING
                        then (case read_integer lc d3 of (str_len, d4) \<Rightarrow>
                                (ident, set_cursor (d4\<lparr>pd_string_len := Some (unat str_len), pd_type := Some tb\<rparr>)))
                        else (ident, set_cursor (d3\<lparr>pd_int_len := Some lc, pd_type := Some tb\<rparr>)))))"

definition rewind_attributes :: "packed_decode \<Rightarrow> packed_decode" where
  "rewind_attributes d = (case pd_stack d of [] \<Rightarrow> d | (_, start, _) # _ \<Rightarrow> d\<lparr>pd_pos := start\<rparr>)"

definition ATTRIB_UNKNOWN :: u32 where "ATTRIB_UNKNOWN = 159"

definition get_indexed_attribute_id :: "packed_decode \<Rightarrow> u32 \<Rightarrow> u32 \<times> packed_decode" where
  "get_indexed_attribute_id d attrib_id = (ATTRIB_UNKNOWN, d)"

definition read_bool :: "packed_decode \<Rightarrow> bool \<times> packed_decode" where
  "read_bool d = (case pd_type d of
      Some tb \<Rightarrow> (tb AND LENGTHCODE_MASK \<noteq> 0, d\<lparr>pd_type := None\<rparr>)
    | None \<Rightarrow> (False, d))"

definition read_signed_integer :: "packed_decode \<Rightarrow> i64 \<times> packed_decode" where
  "read_signed_integer d =
     (let len = (case pd_int_len d of Some n \<Rightarrow> n | None \<Rightarrow> 0);
          (val, d1) = read_integer len (d\<lparr>pd_int_len := None\<rparr>);
          is_neg = (case pd_type d1 of Some tb \<Rightarrow> type_code tb = TYPECODE_SIGNEDINT_NEGATIVE | None \<Rightarrow> False);
          d2 = d1\<lparr>pd_type := None\<rparr>
      in (if is_neg then wrap_i64 (- as_i64 val) else as_i64 val, d2))"

definition read_unsigned_integer :: "packed_decode \<Rightarrow> u64 \<times> packed_decode" where
  "read_unsigned_integer d =
     (let len = (case pd_int_len d of Some n \<Rightarrow> n | None \<Rightarrow> 0)
      in read_integer len (d\<lparr>pd_int_len := None, pd_type := None\<rparr>))"

text \<open>
  The slice of \<open>read_string\<close> is cut to the input; the position never passes the end of the input,
  so the subtraction does not go below zero.
\<close>

definition read_string :: "packed_decode \<Rightarrow> bytes \<times> packed_decode" where
  "read_string d = (case pd_string_len d of
      Some len \<Rightarrow>
        (let n = min len (length (pd_input d) - pd_pos d)
         in (utf8_lossy (take n (drop (pd_pos d) (pd_input d))),
             d\<lparr>pd_string_len := None, pd_pos := pd_pos d + n, pd_type := None\<rparr>))
    | None \<Rightarrow> ([], d))"

lemma next_attribute_id_mono:
  assumes "next_attribute_id d = (aid, d')" "aid \<noteq> 0"
  shows "pd_input d' = pd_input d" "pd_pos d < length (pd_input d)" "pd_pos d < pd_pos d'"
proof -
  have c: "pd_input (set_cursor x) = pd_input x" "pd_pos (set_cursor x) = pd_pos x" for x by (simp_all add: set_cursor_def)
  have i: "pd_input x' = pd_input x \<and> pd_pos x \<le> pd_pos x'" if "read_integer n x = (v, x')" for n x v x'
    using read_integer_loop_mono that by (simp add: read_integer_def)
  show "pd_input d' = pd_input d" "pd_pos d < length (pd_input d)" "pd_pos d < pd_pos d'"
    using assms
    by (auto simp: next_attribute_id_def Let_def c read_byte_def split: if_splits prod.splits option.splits dest!: i)
qed

lemma remaining_next: "(aid, d1) = next_attribute_id d \<Longrightarrow> aid \<noteq> 0 \<Longrightarrow> remaining (snd (read_string d1)) < remaining d"
  using next_attribute_id_mono [of d aid d1]
  by (auto simp: remaining_def read_string_def Let_def split: option.splits)

text \<open>The search of the \<open>read_..._attr\<close> methods: a value that is passed over is read as a string.\<close>

function find_attribute :: "u32 \<Rightarrow> packed_decode \<Rightarrow> packed_decode" where
  "find_attribute attrib_id d = (case next_attribute_id d of (aid, d1) \<Rightarrow>
     if aid = 0 \<or> aid = attrib_id then d1 else find_attribute attrib_id (snd (read_string d1)))"
  by pat_completeness auto
termination
  by (relation "measure (\<lambda>(a, d). remaining d)") (auto dest: remaining_next)

declare find_attribute.simps [simp del]

definition read_bool_attr :: "u32 \<Rightarrow> packed_decode \<Rightarrow> bool \<times> packed_decode" where
  "read_bool_attr attrib_id d = (case read_bool (find_attribute attrib_id (rewind_attributes d)) of
     (res, d1) \<Rightarrow> (res, rewind_attributes d1))"

definition read_signed_integer_attr :: "u32 \<Rightarrow> packed_decode \<Rightarrow> i64 \<times> packed_decode" where
  "read_signed_integer_attr attrib_id d = read_signed_integer (find_attribute attrib_id (rewind_attributes d))"

definition read_unsigned_integer_attr :: "u32 \<Rightarrow> packed_decode \<Rightarrow> u64 \<times> packed_decode" where
  "read_unsigned_integer_attr attrib_id d = read_unsigned_integer (find_attribute attrib_id (rewind_attributes d))"

definition read_string_attr :: "u32 \<Rightarrow> packed_decode \<Rightarrow> bytes \<times> packed_decode" where
  "read_string_attr attrib_id d = read_string (find_attribute attrib_id (rewind_attributes d))"

end
