(* ===== verification/Packed_Laws.thy ===== *)
theory Packed_Laws
  imports Packed_Format
begin

text \<open>
  The packed format round-trips: every document written with the encoder is read back by the
  decoder, element by element and attribute by attribute.
\<close>

section \<open>The decoder on a known suffix\<close>

definition at :: "packed_decode \<Rightarrow> bytes \<Rightarrow> bool" where
  "at d xs \<longleftrightarrow> drop (pd_pos d) (pd_input d) = xs"

definition skip :: "nat \<Rightarrow> packed_decode \<Rightarrow> packed_decode" where
  "skip n d = d\<lparr>pd_pos := pd_pos d + n\<rparr>"

lemma at_skip: "at d (xs @ ys) \<Longrightarrow> at (skip (length xs) d) ys"
  unfolding at_def skip_def by (simp add: drop_drop [symmetric] add.commute [of _ "length xs"])

lemma at_Cons:
  assumes "at d (b # xs)"
  shows "pd_pos d < length (pd_input d)" "pd_input d ! pd_pos d = b" "at (skip 1 d) xs"
proof -
  show l: "pd_pos d < length (pd_input d)"
    using assms unfolding at_def by (metis drop_all leI list.distinct(1))
  show "pd_input d ! pd_pos d = b"
    using assms l unfolding at_def by (metis hd_drop_conv_nth list.sel(1))
  show "at (skip 1 d) xs" using at_skip [of d "[b]" xs] assms by simp
qed

lemma read_byte_at: "at d (b # xs) \<Longrightarrow> read_byte d = (Some b, skip 1 d)"
  using at_Cons(1,2) [of d b xs] by (simp add: read_byte_def skip_def)

lemma skip_simps [simp]:
  "skip m (skip n d) = skip (n + m) d" "pd_stack (skip n d) = pd_stack d" "pd_pos (skip n d) = pd_pos d + n"
  "pd_input (skip n d) = pd_input d" "skip 0 d = d"
  by (simp_all add: skip_def add.assoc)

section \<open>Integers\<close>

fun sevens :: "nat \<Rightarrow> u64 \<Rightarrow> bytes" where
  "sevens 0 v = []"
| "sevens (Suc n) v = (ucast (shr_u64 v (7 * n) AND 0x7f) OR 0x80) # sevens n v"

lemma length_sevens [simp]: "length (sevens n v) = n"
  by (induction n) simp_all

lemma write_pieces_sevens: "write_pieces v (7 * int n - 7) out = out @ sevens n v"
proof (induction n arbitrary: out)
  case 0
  then show ?case by (simp add: write_pieces.simps)
next
  case (Suc n)
  have "write_pieces v (7 * int (Suc n) - 7) out =
      write_pieces v (7 * int n - 7) (out @ [ucast (shr_u64 v (7 * n) AND 0x7f) OR 0x80])"
    by (subst write_pieces.simps) (simp add: packed_consts nat_mult_distrib)
  then show ?case by (simp add: Suc.IH)
qed

lemma integer_length_nonzero:
  assumes "v \<noteq> 0"
  shows "\<exists>n. integer_length v = (of_nat n, 7 * int n - 7) \<and> n \<le> 10 \<and> uint v < 2 ^ (7 * n)
    \<and> 0 < n \<and> 2 ^ (7 * n - 7) \<le> uint v"
proof -
  define P where "P n \<longleftrightarrow> integer_length v = (of_nat n, 7 * int n - 7) \<and> n \<le> 10 \<and> uint v < 2 ^ (7 * n)
    \<and> 0 < n \<and> 2 ^ (7 * n - 7) \<le> uint v" for n
  have "uint v \<noteq> 0" using assms by (simp add: word_uint_eq_iff)
  then have "1 \<le> uint v" using uint_ge_0 [of v] by linarith
  then have "v < 0x80 \<Longrightarrow> P 1" "\<not> v < 0x80 \<Longrightarrow> v < 0x4000 \<Longrightarrow> P 2"
      "\<not> v < 0x4000 \<Longrightarrow> v < 0x200000 \<Longrightarrow> P 3" "\<not> v < 0x200000 \<Longrightarrow> v < 0x10000000 \<Longrightarrow> P 4"
      "\<not> v < 0x10000000 \<Longrightarrow> v < 0x800000000 \<Longrightarrow> P 5" "\<not> v < 0x800000000 \<Longrightarrow> v < 0x40000000000 \<Longrightarrow> P 6"
      "\<not> v < 0x40000000000 \<Longrightarrow> v < 0x2000000000000 \<Longrightarrow> P 7"
      "\<not> v < 0x2000000000000 \<Longrightarrow> v < 0x100000000000000 \<Longrightarrow> P 8"
      "\<not> v < 0x100000000000000 \<Longrightarrow> v < 0x8000000000000000 \<Longrightarrow> P 9"
      "\<not> v < 0x8000000000000000 \<Longrightarrow> P 10"
    using uint_lt_u64 [of v] assms by (simp_all add: P_def integer_length_def word_less_def)
  then show ?thesis unfolding P_def by blast
qed

lemma write_integer_sevens:
  obtains n where "\<And>tb out. write_integer tb v out = out @ (tb OR of_nat n) # sevens n v" "n \<le> 10" "uint v < 2 ^ (7 * n)"
    "v \<noteq> 0 \<Longrightarrow> 0 < n \<and> 2 ^ (7 * n - 7) \<le> uint v" "v = 0 \<Longrightarrow> n = 0"
proof (cases "v = 0")
  case True
  have "write_integer tb v out = out @ (tb OR of_nat 0) # sevens 0 v" for tb out
    using True by (simp add: write_integer_def integer_length_def write_pieces.simps)
  then show ?thesis using that [of 0] True by simp
next
  case False
  then obtain n where n: "integer_length v = (of_nat n, 7 * int n - 7)" "n \<le> 10" "uint v < 2 ^ (7 * n)"
      "0 < n \<and> 2 ^ (7 * n - 7) \<le> uint v"
    using integer_length_nonzero by blast
  then have "write_integer tb v out = out @ (tb OR of_nat n) # sevens n v" for tb out
    by (simp add: write_integer_def write_pieces_sevens)
  then show ?thesis using that n(2-4) False by blast
qed

lemma raw_piece: "ucast ((ucast (x AND 0x7f :: u64) OR 0x80 :: u8) AND 0x7f) = x AND 0x7f"
proof -
  have m: "(0x7f :: u64) = mask 7" "(0x7f :: u8) = mask 7" by (simp_all add: mask_eq_exp_minus_1)
  have "(ucast (x AND 0x7f) OR 0x80 :: u8) AND 0x7f = ucast (x AND 0x7f) AND 0x7f"
    by (simp add: bit.conj_disj_distrib2)
  moreover have "ucast (ucast (x AND 0x7f) AND 0x7f :: u8) = x AND 0x7f"
    unfolding m by (rule bit_word_eqI) (auto simp: bit_simps)
  ultimately show ?thesis by simp
qed

lemma mod_acc: "((a :: int) mod c * b + d) mod c = (a * b + d) mod c"
  by (subst mod_add_left_eq [symmetric]) (simp only: mod_mult_left_eq mod_add_left_eq)

lemma uint_acc: "uint (push_bit 7 acc OR (x AND 0x7f) :: u64) = (uint acc * 128 + uint x mod 128) mod 2 ^ 64"
proof -
  have m: "(0x7f :: u64) = mask 7" by (simp add: mask_eq_exp_minus_1)
  have "push_bit 7 acc AND (x AND mask 7) = 0" by (rule bit_word_eqI) (auto simp: bit_simps)
  then have "push_bit 7 acc OR (x AND mask 7) = push_bit 7 acc + (x AND mask 7)"
    by (simp add: disjunctive_add_eq_or)
  then show ?thesis unfolding m by (simp add: mask_simps mod_simps)
qed

lemma read_sevens:
  assumes "at d (sevens n v @ xs)" "n \<le> 10"
  shows "\<exists>w. read_integer_loop n acc d = (w, skip n d) \<and>
    uint w = (uint acc * 2 ^ (7 * n) + uint v mod 2 ^ (7 * n)) mod 2 ^ 64"
  using assms
proof (induction n arbitrary: acc d)
  case 0
  then show ?case using uint_lt2p [of acc] by simp
next
  case (Suc n)
  let ?b = "ucast (shr_u64 v (7 * n) AND 0x7f) OR 0x80 :: u8"
  define acc' where "acc' = push_bit 7 acc OR (shr_u64 v (7 * n) AND 0x7f)"
  have hd: "at d (?b # (sevens n v @ xs))" using Suc.prems(1) by simp
  obtain w where w: "read_integer_loop n acc' (skip 1 d) = (w, skip n (skip 1 d))"
    "uint w = (uint acc' * 2 ^ (7 * n) + uint v mod 2 ^ (7 * n)) mod 2 ^ 64"
    using Suc.IH [OF at_Cons(3) [OF hd]] Suc.prems(2) by auto
  have shr: "uint (shr_u64 v (7 * n)) = uint v div 2 ^ (7 * n)"
    using Suc.prems(2) by (simp add: shr_u64_def mask_simps)
  have "uint w = ((uint acc * 128 + uint v div 2 ^ (7 * n) mod 128) * 2 ^ (7 * n) + uint v mod 2 ^ (7 * n)) mod 2 ^ 64"
    unfolding w(2) acc'_def uint_acc shr by (rule mod_acc)
  also have "(uint acc * 128 + uint v div 2 ^ (7 * n) mod 128) * 2 ^ (7 * n) + uint v mod 2 ^ (7 * n) =
      uint acc * 2 ^ (7 * Suc n) + (2 ^ (7 * n) * (uint v div 2 ^ (7 * n) mod 128) + uint v mod 2 ^ (7 * n))"
    by (simp add: power_add algebra_simps)
  also have "2 ^ (7 * n) * (uint v div 2 ^ (7 * n) mod 128) + uint v mod 2 ^ (7 * n) = uint v mod 2 ^ (7 * Suc n)"
    using zmod_zmult2_eq [of 128 "uint v" "2 ^ (7 * n)"] by (simp add: power_add mult.commute)
  finally have "uint w = (uint acc * 2 ^ (7 * Suc n) + uint v mod 2 ^ (7 * Suc n)) mod 2 ^ 64" .
  moreover have "read_integer_loop (Suc n) acc d = (w, skip (Suc n) d)"
    using w(1) by (simp add: read_byte_at [OF hd] packed_consts raw_piece acc'_def)
  ultimately show ?case by blast
qed

lemma read_integer_sevens:
  assumes "at d (sevens n v @ xs)" "n \<le> 10" "uint v < 2 ^ (7 * n)"
  shows "read_integer n d = (v, skip n d)"
proof -
  obtain w where w: "read_integer_loop n 0 d = (w, skip n d)"
    "uint w = (uint (0 :: u64) * 2 ^ (7 * n) + uint v mod 2 ^ (7 * n)) mod 2 ^ 64"
    using read_sevens [OF assms(1,2), of 0] by blast
  have "uint w = uint v" using w(2) assms(3) uint_lt_u64 [of v] by simp
  then show ?thesis using w(1) by (simp add: read_integer_def word_uint_eq_iff)
qed

section \<open>Headers and type bytes\<close>

lemma bit_below:
  fixes x :: "'a :: len word"
  assumes "uint x < 2 ^ k" "bit x n"
  shows "n < k"
proof -
  have "x AND mask k = x" using assms(1) by (simp add: mask_eq_iff)
  then show ?thesis using assms(2) by (metis bit_and_iff bit_mask_iff)
qed

lemma type_byte_codes:
  assumes "tc < 8" "n < 16"
  shows "type_code (push_bit TYPECODE_SHIFT tc OR of_nat n) = tc"
    "unat (length_code (push_bit TYPECODE_SHIFT tc OR of_nat n)) = n"
proof -
  define x :: u8 where "x = of_nat n"
  have ux: "unat x = n" using assms(2) by (simp add: x_def unsigned_of_nat take_bit_nat_eq_self)
  have "uint tc < 2 ^ 3" using assms(1) by (simp add: word_less_def)
  note t = bit_below [OF this]
  have "uint x < 2 ^ 4" using ux assms(2) by (simp add: uint_nat)
  note b = bit_below [OF this]
  have m: "(0xf :: u8) = mask 4" by (simp add: mask_eq_exp_minus_1)
  have "drop_bit 4 (push_bit 4 tc OR x) AND mask 4 = tc"
    by (rule bit_word_eqI) (auto simp: bit_simps dest: t b)
  then show "type_code (push_bit TYPECODE_SHIFT tc OR of_nat n) = tc"
    unfolding type_code_def packed_consts m x_def .
  have "(push_bit 4 tc OR x) AND mask 4 = x"
    by (rule bit_word_eqI) (auto simp: bit_simps dest: t b)
  then show "unat (length_code (push_bit TYPECODE_SHIFT tc OR of_nat n)) = n"
    unfolding length_code_def packed_consts m x_def [symmetric] using ux by simp
qed

definition header_kind :: "u8 \<Rightarrow> bool" where
  "header_kind h \<longleftrightarrow> h = ELEMENT_START \<or> h = ELEMENT_END \<or> h = ATTRIBUTE"

definition header_bytes :: "u8 \<Rightarrow> u32 \<Rightarrow> bytes" where
  "header_bytes h i = write_header h i []"

lemma write_header_bytes: "write_header h i out = out @ header_bytes h i"
  by (simp add: header_bytes_def write_header_def)

lemma header_fields:
  assumes "header_kind h"
  shows "(h OR (y AND 0x1f)) AND 0xc0 = h" "(h OR (y AND 0x1f)) AND 0x20 = 0" "(h OR (y AND 0x1f)) AND 0x1f = y AND 0x1f"
    "(h OR 0x20 OR (y AND 0x1f)) AND 0xc0 = h" "(h OR 0x20 OR (y AND 0x1f)) AND 0x20 = 0x20"
    "(h OR 0x20 OR (y AND 0x1f)) AND 0x1f = y AND 0x1f"
  using assms by (auto simp: header_kind_def packed_consts bit.conj_disj_distrib2 and.assoc)

lemma low_id:
  fixes i :: u32
  assumes "uint i < 2 ^ 5"
  shows "(ucast i :: u8) AND 0x1f = ucast i" "(ucast (ucast i :: u8) :: u32) = i"
proof -
  note b = bit_below [OF assms]
  have m: "(0x1f :: u8) = mask 5" by (simp add: mask_eq_exp_minus_1)
  show "(ucast i :: u8) AND 0x1f = ucast i" unfolding m by (rule bit_word_eqI) (auto simp: bit_simps dest: b)
  show "(ucast (ucast i :: u8) :: u32) = i" by (rule bit_word_eqI) (auto simp: bit_simps dest: b)
qed

lemma header_short:
  assumes "header_kind h" "i \<le> 0x1f"
  shows "(h OR ucast i) AND HEADER_MASK = h" "(h OR ucast i) AND HEADEREXTEND_MASK = 0"
    "ucast ((h OR ucast i) AND ELEMENTID_MASK) = (i :: u32)"
proof -
  have "uint i < 2 ^ 5" using assms(2) by (simp add: word_le_def)
  note l = low_id [OF this]
  show "(h OR ucast i) AND HEADER_MASK = h" "(h OR ucast i) AND HEADEREXTEND_MASK = 0"
    "ucast ((h OR ucast i) AND ELEMENTID_MASK) = (i :: u32)"
    using header_fields(1-3) [OF assms(1), of "ucast i"] l by (simp_all add: packed_consts)
qed

lemma header_long:
  assumes "header_kind h" "i < 0x1000"
  shows "(h OR HEADEREXTEND_MASK OR ucast (drop_bit RAWDATA_BITSPERBYTE i)) AND HEADER_MASK = h"
    "(h OR HEADEREXTEND_MASK OR ucast (drop_bit RAWDATA_BITSPERBYTE i)) AND HEADEREXTEND_MASK \<noteq> 0"
    "extend_id (ucast ((h OR HEADEREXTEND_MASK OR ucast (drop_bit RAWDATA_BITSPERBYTE i)) AND ELEMENTID_MASK))
       (ucast (i AND ucast RAWDATA_MASK) OR RAWDATA_MARKER) = (i :: u32)"
proof -
  define y :: u32 where "y = drop_bit 7 i"
  have "uint i < 2 ^ 12" using assms(2) by (simp add: word_less_def)
  note b = bit_below [OF this]
  have "y AND mask 5 = y" unfolding y_def by (rule bit_word_eqI) (auto simp: bit_simps dest: b)
  then have "uint y < 2 ^ 5" by (simp add: mask_eq_iff)
  note l = low_id [OF this]
  show "(h OR HEADEREXTEND_MASK OR ucast (drop_bit RAWDATA_BITSPERBYTE i)) AND HEADER_MASK = h"
    "(h OR HEADEREXTEND_MASK OR ucast (drop_bit RAWDATA_BITSPERBYTE i)) AND HEADEREXTEND_MASK \<noteq> 0"
    using header_fields(4,5) [OF assms(1), of "ucast y"] l by (simp_all add: packed_consts y_def)
  have e: "ucast ((h OR HEADEREXTEND_MASK OR ucast (drop_bit RAWDATA_BITSPERBYTE i)) AND ELEMENTID_MASK) = y"
    using header_fields(6) [OF assms(1), of "ucast y"] l by (simp add: packed_consts y_def)
  have m: "(0x7f :: u32) = mask 7" "(0x7f :: u8) = mask 7" by (simp_all add: mask_eq_exp_minus_1)
  have "(ucast (i AND 0x7f) OR 0x80 :: u8) AND 0x7f = ucast (i AND 0x7f) AND 0x7f"
    by (simp add: bit.conj_disj_distrib2)
  moreover have "push_bit 7 y OR ucast (ucast (i AND 0x7f) AND 0x7f :: u8) = i"
  proof (rule bit_word_eqI)
    show "bit (push_bit 7 y OR ucast (ucast (i AND 0x7f) AND 0x7f :: u8)) n \<longleftrightarrow> bit i n" if "n < LENGTH(32)" for n
      using that unfolding m y_def by (cases "n < 7") (auto simp: bit_simps)
  qed
  ultimately show "extend_id (ucast ((h OR HEADEREXTEND_MASK OR ucast (drop_bit RAWDATA_BITSPERBYTE i)) AND ELEMENTID_MASK))
       (ucast (i AND ucast RAWDATA_MASK) OR RAWDATA_MARKER) = i"
    unfolding e extend_id_def by (simp add: packed_consts)
qed

lemma read_header_at:
  assumes "at d (header_bytes h i @ xs)" "header_kind h" "i < 0x1000"
  shows "read_header d = (Some (h, i), skip (length (header_bytes h i)) d)"
proof (cases "i > 0x1f")
  case True
  then have a: "at d ((h OR HEADEREXTEND_MASK OR ucast (drop_bit RAWDATA_BITSPERBYTE i))
      # (ucast (i AND ucast RAWDATA_MASK) OR RAWDATA_MARKER) # xs)"
    using assms(1) by (simp add: header_bytes_def write_header_def)
  show ?thesis
    using read_byte_at [OF a] read_byte_at [OF at_Cons(3) [OF a]] header_long [OF assms(2,3)] True
    by (simp add: read_header_def header_bytes_def write_header_def)
next
  case False
  then have a: "at d ((h OR ucast i) # xs)" "i \<le> 0x1f"
    using assms(1) by (simp_all add: header_bytes_def write_header_def)
  show ?thesis
    using read_byte_at [OF a(1)] header_short [OF assms(2) a(2)] False
    by (simp add: read_header_def header_bytes_def write_header_def)
qed

section \<open>Attributes\<close>

datatype pval = PBool bool | PInt i64 | PUInt u64 | PStr bytes

fun write_attr :: "u32 \<times> pval \<Rightarrow> bytes \<Rightarrow> bytes" where
  "write_attr (i, PBool b) out = write_bool i b out"
| "write_attr (i, PInt v) out = write_signed_integer i v out"
| "write_attr (i, PUInt v) out = write_unsigned_integer i v out"
| "write_attr (i, PStr s) out = write_string i s out"

text \<open>The value read with the method of the type of the given one.\<close>

fun read_as :: "pval \<Rightarrow> packed_decode \<Rightarrow> pval \<times> packed_decode" where
  "read_as (PBool _) d = map_prod PBool id (read_bool d)"
| "read_as (PInt _) d = map_prod PInt id (read_signed_integer d)"
| "read_as (PUInt _) d = map_prod PUInt id (read_unsigned_integer d)"
| "read_as (PStr _) d = map_prod PStr id (read_string d)"

definition id_ok :: "u32 \<Rightarrow> bool" where
  "id_ok i \<longleftrightarrow> 0 < i \<and> i < 0x1000"

fun val_ok :: "pval \<Rightarrow> bool" where
  "val_ok (PInt v) \<longleftrightarrow> - (2 ^ 63) \<le> v \<and> v < 2 ^ 63"
| "val_ok (PStr s) \<longleftrightarrow> utf8_valid s \<and> length s < 2 ^ 64"
| "val_ok _ \<longleftrightarrow> True"

definition attr_ok :: "u32 \<times> pval \<Rightarrow> bool" where
  "attr_ok a \<longleftrightarrow> id_ok (fst a) \<and> val_ok (snd a)"

lemma utf8_lossy_valid: "utf8_valid s \<Longrightarrow> utf8_lossy s = s"
proof (induction s rule: utf8_valid.induct)
  case (2 b bs)
  obtain ok n where st: "utf8_step b bs = (ok, n)" by (cases "utf8_step b bs")
  have n: "0 < n" using st by (auto simp: utf8_step_def split: if_splits)
  have "ok" "utf8_lossy (drop (n - 1) bs) = drop (n - 1) bs" using 2 st by auto
  moreover have "take n (b # bs) @ drop (n - 1) bs = b # bs"
    using n by (cases n) simp_all
  ultimately show ?case by (simp add: st)
qed simp

definition cursors_ok :: "packed_decode \<Rightarrow> bool" where
  "cursors_ok d \<longleftrightarrow> (\<forall>c \<in> set (map (snd \<circ> snd) (pd_stack d)). c \<le> pd_pos d)"

definition opens :: "packed_decode \<Rightarrow> (u32 \<times> nat) list" where
  "opens d = map (\<lambda>(i, s, _). (i, s)) (pd_stack d)"

definition moved :: "nat \<Rightarrow> packed_decode \<Rightarrow> packed_decode \<Rightarrow> bool" where
  "moved n d d' \<longleftrightarrow> pd_input d' = pd_input d \<and> pd_pos d' = pd_pos d + n \<and> opens d' = opens d
     \<and> (cursors_ok d \<longrightarrow> cursors_ok d')"

lemma moved_at: "at d (xs @ ys) \<Longrightarrow> moved (length xs) d d' \<Longrightarrow> at d' ys"
  using at_skip [of d xs ys] by (simp add: at_def moved_def skip_def)

lemma moved_trans: "moved m d d' \<Longrightarrow> moved n d' d'' \<Longrightarrow> moved (m + n) d d''"
  by (simp add: moved_def add.assoc)

lemma moved_skip: "moved n d (skip n d)"
  by (fastforce simp: moved_def opens_def cursors_ok_def)

lemma moved_set_cursor: "moved n d d' \<Longrightarrow> moved n d (set_cursor d')"
  by (cases "pd_stack d'") (auto simp: moved_def opens_def cursors_ok_def set_cursor_def)

lemma moved_update:
  "moved n d d' \<Longrightarrow> moved n d (d'\<lparr>pd_type := a\<rparr>)" "moved n d d' \<Longrightarrow> moved n d (d'\<lparr>pd_int_len := b\<rparr>)"
  "moved n d d' \<Longrightarrow> moved n d (d'\<lparr>pd_string_len := c\<rparr>)"
  by (auto simp: moved_def opens_def cursors_ok_def)

lemma next_attribute_at:
  assumes a: "at d (header_bytes ATTRIBUTE i @ tb # ys)" and "i < 0x1000"
  defines "d3 \<equiv> skip (length (header_bytes ATTRIBUTE i) + 1) d"
  shows "next_attribute_id d =
     (if type_code tb = TYPECODE_BOOLEAN \<or> type_code tb = TYPECODE_SPECIALSPACE
      then (i, (set_cursor d3)\<lparr>pd_type := Some tb\<rparr>)
      else if type_code tb = TYPECODE_STRING
      then (case read_integer (unat (length_code tb)) d3 of (str_len, d4) \<Rightarrow>
              (i, set_cursor (d4\<lparr>pd_string_len := Some (unat str_len), pd_type := Some tb\<rparr>)))
      else (i, set_cursor (d3\<lparr>pd_int_len := Some (unat (length_code tb)), pd_type := Some tb\<rparr>)))"
    "at d3 ys" "moved (length (header_bytes ATTRIBUTE i) + 1) d d3"
proof -
  have k: "header_kind ATTRIBUTE" by (simp add: header_kind_def)
  show "at d3 ys" using at_skip [of d "header_bytes ATTRIBUTE i @ [tb]" ys] a by (simp add: d3_def)
  show "moved (length (header_bytes ATTRIBUTE i) + 1) d d3" unfolding d3_def by (rule moved_skip)
  show "next_attribute_id d =
     (if type_code tb = TYPECODE_BOOLEAN \<or> type_code tb = TYPECODE_SPECIALSPACE
      then (i, (set_cursor d3)\<lparr>pd_type := Some tb\<rparr>)
      else if type_code tb = TYPECODE_STRING
      then (case read_integer (unat (length_code tb)) d3 of (str_len, d4) \<Rightarrow>
              (i, set_cursor (d4\<lparr>pd_string_len := Some (unat str_len), pd_type := Some tb\<rparr>)))
      else (i, set_cursor (d3\<lparr>pd_int_len := Some (unat (length_code tb)), pd_type := Some tb\<rparr>)))"
  proof (cases "i > 0x1f")
    case True
    let ?b = "ATTRIBUTE OR HEADEREXTEND_MASK OR ucast (drop_bit RAWDATA_BITSPERBYTE i)"
      and ?e = "ucast (i AND ucast RAWDATA_MASK) OR RAWDATA_MARKER"
    have a2: "at d (?b # ?e # tb # ys)" using a True by (simp add: header_bytes_def write_header_def)
    note c = at_Cons [OF a2] and r1 = read_byte_at [OF at_Cons(3) [OF a2]]
      and r2 = read_byte_at [OF at_Cons(3) [OF at_Cons(3) [OF a2]]]
    have "d3 = skip 1 (skip 1 (skip 1 d))" using True by (simp add: d3_def header_bytes_def write_header_def)
    then show ?thesis
      using c(1,2) r1 r2 header_long [OF k assms(2)]
      by (simp add: next_attribute_id_def Let_def skip_def [of 1 d, symmetric, simplified] del: skip_simps(1))
  next
    case False
    then have "i \<le> 0x1f" by simp
    note h = header_short [OF k this]
    have a2: "at d ((ATTRIBUTE OR ucast i) # tb # ys)" using a False by (simp add: header_bytes_def write_header_def)
    note c = at_Cons [OF a2] and r1 = read_byte_at [OF at_Cons(3) [OF a2]]
    have "d3 = skip 1 (skip 1 d)" using False by (simp add: d3_def header_bytes_def write_header_def)
    then show ?thesis
      using c(1,2) r1 h
      by (simp add: next_attribute_id_def Let_def skip_def [of 1 d, symmetric, simplified] del: skip_simps(1))
  qed
qed

definition attr_bytes :: "u32 \<times> pval \<Rightarrow> bytes" where
  "attr_bytes a = write_attr a []"

lemma write_integer_append: "write_integer tb v out = out @ write_integer tb v []"
  by (rule write_integer_sevens [of v]) simp

lemma write_attr_bytes: "write_attr a out = out @ attr_bytes a"
  using write_integer_append [where out = "out @ header_bytes ATTRIBUTE (fst a)"]
    write_integer_append [where out = "header_bytes ATTRIBUTE (fst a)"]
  by (cases "(a, out)" rule: write_attr.cases)
    (simp_all add: attr_bytes_def write_bool_def write_signed_integer_def write_unsigned_integer_def
      write_string_def write_header_bytes Let_def)

lemma moved_refl: "moved 0 d d"
  by (simp add: moved_def)

lemma signed_codec:
  assumes "- (2 ^ 63) \<le> w" "w < 2 ^ 63"
  shows "w < 0 \<Longrightarrow> wrap_i64 (- as_i64 (as_u64 (wrap_i64 (- w)))) = w" "\<not> w < 0 \<Longrightarrow> as_i64 (as_u64 w) = w"
proof -
  have s: "as_i64 (as_u64 x) = signed_take_bit 63 x" for x
    by (simp add: as_i64_def as_u64_def sint_word_ariths signed_of_int)
  have id: "signed_take_bit 63 x = x" if "- (2 ^ 63) \<le> x" "x < 2 ^ 63" for x :: int
    using that by (intro signed_take_bit_int_eq_self) simp_all
  show "as_i64 (as_u64 w) = w" using assms by (simp add: s id)
  show "wrap_i64 (- as_i64 (as_u64 (wrap_i64 (- w)))) = w"
  proof (cases "w = - (2 ^ 63)")
    case True
    then show ?thesis unfolding s wrap_i64_def by (simp add: signed_take_bit_eq_take_bit_shift take_bit_eq_mod)
  next
    case False
    then have "signed_take_bit 63 (- w) = - w" using assms by (intro id) simp_all
    then show ?thesis unfolding s wrap_i64_def using id [of w] assms by simp
  qed
qed

lemma integer_attribute:
  assumes a: "at d (header_bytes ATTRIBUTE i @ write_integer (push_bit TYPECODE_SHIFT tc) v [] @ xs)"
    and "i < 0x1000" "tc \<in> {TYPECODE_SIGNEDINT_POSITIVE, TYPECODE_SIGNEDINT_NEGATIVE, TYPECODE_UNSIGNEDINT, TYPECODE_ADDRESSSPACE}"
  shows "\<exists>d1 n tb. next_attribute_id d = (i, d1) \<and> pd_int_len d1 = Some n \<and> pd_type d1 = Some tb \<and> type_code tb = tc
    \<and> (\<forall>d2. moved 0 d1 d2 \<longrightarrow> read_integer n d2 = (v, skip n d2))
    \<and> moved (length (header_bytes ATTRIBUTE i @ write_integer (push_bit TYPECODE_SHIFT tc) v [])) d (skip n d1)"
proof -
  obtain n where n: "\<And>tb out. write_integer tb v out = out @ (tb OR of_nat n) # sevens n v" "n \<le> 10" "uint v < 2 ^ (7 * n)"
    using write_integer_sevens by blast
  let ?tb = "push_bit TYPECODE_SHIFT tc OR of_nat n" and ?h = "length (header_bytes ATTRIBUTE i) + 1"
  have t: "type_code ?tb = tc" "unat (length_code ?tb) = n"
    using type_byte_codes [of tc n] assms(3) n(2) by (auto simp: packed_consts)
  have a': "at d (header_bytes ATTRIBUTE i @ ?tb # (sevens n v @ xs))" using a by (simp add: n(1))
  note nx = next_attribute_at [OF a' assms(2)]
  let ?d1 = "set_cursor ((skip ?h d)\<lparr>pd_int_len := Some n, pd_type := Some ?tb\<rparr>)"
  have e: "next_attribute_id d = (i, ?d1)"
    using nx(1) assms(3) unfolding t by (auto simp: packed_consts)
  have m1: "moved ?h d ?d1" using nx(3) by (intro moved_set_cursor moved_update)
  have r: "read_integer n d2 = (v, skip n d2)" if "moved 0 ?d1 d2" for d2
  proof -
    have "moved ?h d d2" using moved_trans [OF m1 that] by simp
    then have "at d2 (sevens n v @ xs)"
      using moved_at [of d "header_bytes ATTRIBUTE i @ [?tb]" "sevens n v @ xs" d2] a' by simp
    then show ?thesis using n(2,3) by (rule read_integer_sevens)
  qed
  have "moved (?h + n) d (skip n ?d1)" using m1 moved_skip by (rule moved_trans)
  then show ?thesis
    using e r t(1) by (intro exI [of _ ?d1] exI [of _ n] exI [of _ ?tb]) (auto simp: n(1) set_cursor_def)
qed

lemma attribute_roundtrip:
  assumes a: "at d (attr_bytes (i, v) @ xs)" and ok: "attr_ok (i, v)"
  shows "\<exists>d1 d2. next_attribute_id d = (i, d1) \<and> read_as v d1 = (v, d2) \<and> moved (length (attr_bytes (i, v))) d d2"
proof (cases v)
  case (PBool b)
  let ?tb = "if b then push_bit TYPECODE_SHIFT TYPECODE_BOOLEAN OR 1 else push_bit TYPECODE_SHIFT TYPECODE_BOOLEAN"
  have be: "attr_bytes (i, v) = header_bytes ATTRIBUTE i @ [?tb]"
    by (simp add: attr_bytes_def PBool write_bool_def write_header_bytes)
  have a': "at d (header_bytes ATTRIBUTE i @ ?tb # xs)" using a by (simp add: be)
  have "i < 0x1000" using ok by (simp add: attr_ok_def id_ok_def)
  note nx = next_attribute_at [OF a' this]
  have t: "type_code ?tb = TYPECODE_BOOLEAN" "?tb AND LENGTHCODE_MASK \<noteq> 0 \<longleftrightarrow> b"
    by (simp_all add: type_code_def packed_consts)
  have "next_attribute_id d = (i, (set_cursor (skip (length (header_bytes ATTRIBUTE i) + 1) d))\<lparr>pd_type := Some ?tb\<rparr>)"
    using nx(1) t(1) by simp
  then show ?thesis
    using nx(3) t(2) by (auto simp: PBool read_bool_def be [unfolded PBool] intro!: moved_update moved_set_cursor)
next
  case (PInt w)
  let ?u = "if w < 0 then as_u64 (wrap_i64 (- w)) else as_u64 w"
    and ?tc = "if w < 0 then TYPECODE_SIGNEDINT_NEGATIVE else TYPECODE_SIGNEDINT_POSITIVE"
  have be: "attr_bytes (i, v) = header_bytes ATTRIBUTE i @ write_integer (push_bit TYPECODE_SHIFT ?tc) ?u []"
    by (simp add: attr_bytes_def PInt write_signed_integer_def write_header_bytes
        write_integer_append [of _ _ "header_bytes ATTRIBUTE i"])
  have i: "i < 0x1000" and w: "- (2 ^ 63) \<le> w" "w < 2 ^ 63" using ok by (simp_all add: attr_ok_def id_ok_def PInt)
  obtain d1 n tb where d1: "next_attribute_id d = (i, d1)" "pd_int_len d1 = Some n" "pd_type d1 = Some tb"
      "type_code tb = ?tc" "\<forall>d2. moved 0 d1 d2 \<longrightarrow> read_integer n d2 = (?u, skip n d2)"
      "moved (length (attr_bytes (i, v))) d (skip n d1)"
    using integer_attribute [of d i ?tc ?u xs] a i unfolding be by fastforce
  have "read_integer n (d1\<lparr>pd_int_len := None\<rparr>) = (?u, skip n (d1\<lparr>pd_int_len := None\<rparr>))"
    using d1(5) moved_update(2) [OF moved_refl] by blast
  then have "read_signed_integer d1 = (w, (skip n d1)\<lparr>pd_int_len := None, pd_type := None\<rparr>)"
    using d1(2-4) signed_codec [OF w] by (simp add: read_signed_integer_def skip_def packed_consts)
  then show ?thesis using d1(1,6) by (auto simp: PInt intro: moved_update)
next
  case (PUInt w)
  have be: "attr_bytes (i, v) = header_bytes ATTRIBUTE i @ write_integer (push_bit TYPECODE_SHIFT TYPECODE_UNSIGNEDINT) w []"
    by (simp add: attr_bytes_def PUInt write_unsigned_integer_def write_header_bytes
        write_integer_append [of _ _ "header_bytes ATTRIBUTE i"])
  have i: "i < 0x1000" using ok by (simp add: attr_ok_def id_ok_def)
  obtain d1 n tb where d1: "next_attribute_id d = (i, d1)" "pd_int_len d1 = Some n" "pd_type d1 = Some tb"
      "\<forall>d2. moved 0 d1 d2 \<longrightarrow> read_integer n d2 = (w, skip n d2)"
      "moved (length (attr_bytes (i, v))) d (skip n d1)"
    using integer_attribute [of d i TYPECODE_UNSIGNEDINT w xs] a i unfolding be by fastforce
  have "moved 0 d1 (d1\<lparr>pd_int_len := None, pd_type := None\<rparr>)" by (intro moved_update moved_refl)
  then have "read_unsigned_integer d1 = (w, (skip n d1)\<lparr>pd_int_len := None, pd_type := None\<rparr>)"
    using d1(2,4) by (simp add: read_unsigned_integer_def skip_def)
  then show ?thesis using d1(1,5) by (auto simp: PUInt intro: moved_update)
next
  case (PStr w)
  obtain n where n: "\<And>tb out. write_integer tb (of_nat (length w)) out = out @ (tb OR of_nat n) # sevens n (of_nat (length w))"
      "n \<le> 10" "uint (of_nat (length w) :: u64) < 2 ^ (7 * n)"
    using write_integer_sevens by blast
  let ?tb = "push_bit TYPECODE_SHIFT TYPECODE_STRING OR of_nat n" and ?h = "length (header_bytes ATTRIBUTE i) + 1"
  have be: "attr_bytes (i, v) = header_bytes ATTRIBUTE i @ ?tb # sevens n (of_nat (length w)) @ w"
    by (simp add: attr_bytes_def PStr write_string_def write_header_bytes n(1))
  have i: "i < 0x1000" and w: "utf8_valid w" "length w < 2 ^ 64" using ok by (simp_all add: attr_ok_def id_ok_def PStr)
  have t: "type_code ?tb = TYPECODE_STRING" "unat (length_code ?tb) = n"
    using type_byte_codes [of TYPECODE_STRING n] n(2) by (auto simp: packed_consts)
  have a': "at d (header_bytes ATTRIBUTE i @ ?tb # (sevens n (of_nat (length w)) @ (w @ xs)))" using a by (simp add: be)
  note nx = next_attribute_at [OF a' i]
  let ?d4 = "skip n (skip ?h d)"
  have len: "unat (of_nat (length w) :: u64) = length w"
    using w(2) by (simp add: unsigned_of_nat take_bit_nat_eq_self)
  have r: "read_integer n (skip ?h d) = (of_nat (length w), ?d4)" "at ?d4 (w @ xs)"
    using read_integer_sevens [OF nx(2) n(2,3)] at_skip [OF nx(2)] by simp_all
  let ?d1 = "set_cursor (?d4\<lparr>pd_string_len := Some (length w), pd_type := Some ?tb\<rparr>)"
  have e: "next_attribute_id d = (i, ?d1)"
    using nx(1) r(1) unfolding t len by (simp add: packed_consts len)
  have m: "moved (?h + n) d ?d1" using moved_trans [OF nx(3) moved_skip] by (intro moved_set_cursor moved_update)
  have "drop (pd_pos ?d1) (pd_input ?d1) = w @ xs" using r(2) by (simp add: at_def set_cursor_def)
  moreover from this have "length w \<le> length (pd_input ?d1) - pd_pos ?d1" by (metis length_append length_drop le_add1)
  ultimately have "read_string ?d1 = (w, (skip (length w) ?d1)\<lparr>pd_string_len := None, pd_type := None\<rparr>)"
    by (simp add: read_string_def set_cursor_def Let_def min_absorb1 utf8_lossy_valid [OF w(1)] skip_def)
  moreover have "moved (?h + n + length w) d ((skip (length w) ?d1)\<lparr>pd_string_len := None, pd_type := None\<rparr>)"
    using moved_trans [OF m moved_skip] by (intro moved_update)
  ultimately show ?thesis using e by (auto simp: PStr be [unfolded PStr] add.assoc)
qed

section \<open>Documents\<close>

datatype ptree = PElem u32 "(u32 \<times> pval) list" "ptree list"

fun root_id :: "ptree \<Rightarrow> u32" where
  "root_id (PElem i as ts) = i"

fun encode_tree :: "ptree \<Rightarrow> bytes \<Rightarrow> bytes"
  and encode_trees :: "ptree list \<Rightarrow> bytes \<Rightarrow> bytes" where
  "encode_tree (PElem i as ts) out = enc_close_element i (encode_trees ts (fold write_attr as (enc_open_element i out)))"
| "encode_trees [] out = out"
| "encode_trees (t # ts) out = encode_trees ts (encode_tree t out)"

fun tree_ok :: "ptree \<Rightarrow> bool" where
  "tree_ok (PElem i as ts) \<longleftrightarrow> id_ok i \<and> list_all attr_ok as \<and> list_all tree_ok ts"

text \<open>
  Reading a document that is known: every operation of the decoder must return the element, the
  attribute, the value or the end of a list that the document has next. The result is
  the decoder at the end, or \<open>None\<close> if an operation returned something else.
\<close>

fun replay_attrs :: "(u32 \<times> pval) list \<Rightarrow> packed_decode \<Rightarrow> packed_decode option" where
  "replay_attrs [] d = (case next_attribute_id d of (i, d1) \<Rightarrow> if i = 0 then Some d1 else None)"
| "replay_attrs ((i, v) # as) d = (case next_attribute_id d of (j, d1) \<Rightarrow>
     (case read_as v d1 of (w, d2) \<Rightarrow> if j = i \<and> w = v then replay_attrs as d2 else None))"

fun replay :: "ptree \<Rightarrow> packed_decode \<Rightarrow> packed_decode option"
  and replay_list :: "ptree list \<Rightarrow> packed_decode \<Rightarrow> packed_decode option" where
  "replay (PElem i as ts) d = (case dec_open_element d of (j, d1) \<Rightarrow>
     if j \<noteq> i then None
     else Option.bind (replay_attrs as d1) (\<lambda>d2.
          Option.bind (replay_list ts d2) (\<lambda>d3.
            if peek_element d3 = Some 0 then Some (dec_close_element d3) else None)))"
| "replay_list [] d = Some d"
| "replay_list (t # ts) d =
     (if peek_element d = Some (root_id t) then Option.bind (replay t d) (replay_list ts) else None)"

fun tree_bytes :: "ptree \<Rightarrow> bytes" where
  "tree_bytes (PElem i as ts) = header_bytes ELEMENT_START i @ concat (map attr_bytes as)
     @ concat (map tree_bytes ts) @ header_bytes ELEMENT_END i"

lemma fold_write_attr: "fold write_attr as out = out @ concat (map attr_bytes as)"
  by (induction as arbitrary: out) (simp_all add: write_attr_bytes)

lemma encode_bytes:
  "encode_tree t out = out @ tree_bytes t" "encode_trees ts out = out @ concat (map tree_bytes ts)"
  by (induction t out and ts out rule: encode_tree_encode_trees.induct)
    (simp_all add: enc_open_element_def enc_close_element_def write_header_bytes fold_write_attr)

lemma header_first:
  assumes "header_kind h" "i < 0x1000"
  obtains b r where "header_bytes h i = b # r" "b AND HEADER_MASK = h"
proof (cases "i > 0x1f")
  case True
  then show ?thesis using that header_long(1) [OF assms] by (simp add: header_bytes_def write_header_def)
next
  case False
  then have "i \<le> 0x1f" by simp
  then show ?thesis using that header_short(1) [OF assms(1)] False by (simp add: header_bytes_def write_header_def)
qed

lemma next_attribute_end:
  assumes "at d (header_bytes h i @ xs)" "h = ELEMENT_START \<or> h = ELEMENT_END" "i < 0x1000"
  shows "next_attribute_id d = (0, d)"
proof -
  have "header_kind h" using assms(2) by (auto simp: header_kind_def)
  then obtain b r where b: "header_bytes h i = b # r" "b AND HEADER_MASK = h" using header_first assms(3) by blast
  have "at d (b # (r @ xs))" using assms(1) b(1) by simp
  then have "pd_input d ! pd_pos d = b" by (rule at_Cons)
  then show ?thesis using b(2) assms(2) by (auto simp: next_attribute_id_def packed_consts)
qed

lemma peek_at:
  assumes a: "at d (header_bytes h i @ xs)" and h: "h = ELEMENT_START \<or> h = ELEMENT_END"
    and i: "i < 0x1000" and c: "cursors_ok d"
  shows "peek_element d = Some (if h = ELEMENT_START then i else 0)"
proof -
  have k: "header_kind h" using h by (auto simp: header_kind_def)
  have "max (pd_pos d) (case pd_stack d of [] \<Rightarrow> pd_pos d | (_, _, cur) # _ \<Rightarrow> cur) = pd_pos d"
    using c by (auto simp: cursors_ok_def split: list.splits)
  then have p: "peek_element d = peek_loop (pd_input d) (pd_pos d)" by (simp add: peek_element_def Let_def)
  show ?thesis
  proof (cases "h = ELEMENT_START")
    case False
    then have e: "h = ELEMENT_END" using h by simp
    obtain b r where b: "header_bytes h i = b # r" "b AND HEADER_MASK = h" using header_first k i by blast
    have "at d (b # (r @ xs))" using a b(1) by simp
    note c = at_Cons [OF this]
    show ?thesis unfolding p using c(1,2) b(2) e by (simp add: peek_loop.simps [of _ "pd_pos d"] packed_consts)
  next
    case True
    show ?thesis
    proof (cases "i > 0x1f")
      case L: True
      let ?b = "h OR HEADEREXTEND_MASK OR ucast (drop_bit RAWDATA_BITSPERBYTE i)"
        and ?e = "ucast (i AND ucast RAWDATA_MASK) OR RAWDATA_MARKER"
      have a2: "at d (?b # ?e # xs)" using a L by (simp add: header_bytes_def write_header_def)
      note c1 = at_Cons [OF a2] and c2 = at_Cons [OF at_Cons(3) [OF a2]]
      show ?thesis
        unfolding p using c1(1,2) c2(1,2) header_long [OF k i] True
        by (simp add: peek_loop.simps [of _ "pd_pos d"])
    next
      case L: False
      then have "i \<le> 0x1f" by simp
      note hs = header_short [OF k this]
      have a2: "at d ((h OR ucast i) # xs)" using a L by (simp add: header_bytes_def write_header_def)
      note c1 = at_Cons [OF a2]
      show ?thesis unfolding p using c1(1,2) hs True by (simp add: peek_loop.simps [of _ "pd_pos d"])
    qed
  qed
qed

lemma replay_attrs_bytes:
  assumes "at d (concat (map attr_bytes as) @ header_bytes h i @ xs)" "list_all attr_ok as"
    "h = ELEMENT_START \<or> h = ELEMENT_END" "i < 0x1000"
  shows "\<exists>d'. replay_attrs as d = Some d' \<and> moved (length (concat (map attr_bytes as))) d d'"
  using assms
proof (induction as arbitrary: d)
  case Nil
  then show ?case using next_attribute_end [of d h i xs] moved_refl by simp
next
  case (Cons a as)
  obtain j v where a: "a = (j, v)" by (cases a)
  have "at d (attr_bytes (j, v) @ (concat (map attr_bytes as) @ header_bytes h i @ xs))" using Cons.prems(1) a by simp
  note r = attribute_roundtrip [OF this]
  obtain d1 d2 where d: "next_attribute_id d = (j, d1)" "read_as v d1 = (v, d2)" "moved (length (attr_bytes (j, v))) d d2"
    using r Cons.prems(2) a by auto
  have "at d2 (concat (map attr_bytes as) @ header_bytes h i @ xs)"
    using moved_at [OF _ d(3)] Cons.prems(1) a by simp
  then obtain d' where "replay_attrs as d2 = Some d'" "moved (length (concat (map attr_bytes as))) d2 d'"
    using Cons.IH Cons.prems by auto
  then show ?case using d a moved_trans [OF d(3)] by auto
qed

lemma open_at:
  assumes "at d (header_bytes ELEMENT_START i @ xs)" "i < 0x1000"
  shows "dec_open_element d = (i, (let d1 = skip (length (header_bytes ELEMENT_START i)) d
           in d1\<lparr>pd_stack := (i, pd_pos d1, pd_pos d1) # pd_stack d1\<rparr>))"
  using read_header_at [OF assms(1) _ assms(2)]
  by (simp add: dec_open_element.simps header_kind_def Let_def)

lemma close_at:
  assumes "at d (header_bytes ELEMENT_END i @ xs)" "i < 0x1000"
  shows "dec_close_element d = (let d1 = skip (length (header_bytes ELEMENT_END i)) d in d1\<lparr>pd_stack := tl (pd_stack d1)\<rparr>)"
  using read_header_at [OF assms(1) _ assms(2)]
  by (simp add: dec_close_element_def close_loop.simps header_kind_def Let_def)

lemma tree_first:
  assumes "tree_ok t"
  obtains ys where "tree_bytes t = header_bytes ELEMENT_START (root_id t) @ ys" "root_id t < 0x1000"
  using assms by (cases t) (auto simp: id_ok_def)

lemma replay_list_bytes:
  assumes IH: "\<And>t d xs. t \<in> set ts \<Longrightarrow> at d (tree_bytes t @ xs) \<Longrightarrow> cursors_ok d \<Longrightarrow> tree_ok t \<Longrightarrow>
      \<exists>d'. replay t d = Some d' \<and> moved (length (tree_bytes t)) d d'"
    and "at d (concat (map tree_bytes ts) @ xs)" "cursors_ok d" "list_all tree_ok ts"
  shows "\<exists>d'. replay_list ts d = Some d' \<and> moved (length (concat (map tree_bytes ts))) d d'"
  using assms
proof (induction ts arbitrary: d)
  case Nil
  then show ?case by (simp add: moved_refl)
next
  case (Cons t ts)
  let ?rest = "concat (map tree_bytes ts) @ xs"
  have a: "at d (tree_bytes t @ ?rest)" and ok: "tree_ok t" using Cons.prems by simp_all
  obtain ys where "tree_bytes t = header_bytes ELEMENT_START (root_id t) @ ys" "root_id t < 0x1000"
    using tree_first [OF ok] .
  then have p: "peek_element d = Some (root_id t)"
    using peek_at [of d ELEMENT_START "root_id t" "ys @ ?rest"] a Cons.prems(3) by simp
  obtain d1 where d1: "replay t d = Some d1" "moved (length (tree_bytes t)) d d1"
    using Cons.prems(1) [OF _ a Cons.prems(3) ok] by auto
  have "at d1 ?rest" "cursors_ok d1" using moved_at [OF a d1(2)] d1(2) Cons.prems(3) by (simp_all add: moved_def)
  then obtain d2 where "replay_list ts d1 = Some d2" "moved (length (concat (map tree_bytes ts))) d1 d2"
    using Cons.IH [of d1] Cons.prems(1,4) by auto
  then show ?case using p d1 moved_trans [OF d1(2)] by auto
qed

lemma replay_bytes:
  assumes "at d (tree_bytes t @ xs)" "cursors_ok d" "tree_ok t"
  shows "\<exists>d'. replay t d = Some d' \<and> moved (length (tree_bytes t)) d d'"
  using assms
proof (induction t arbitrary: d xs)
  case (PElem i as ts)
  let ?s = "header_bytes ELEMENT_START i" and ?e = "header_bytes ELEMENT_END i"
    and ?as = "concat (map attr_bytes as)" and ?ts = "concat (map tree_bytes ts)"
  have i: "i < 0x1000" and ok: "list_all attr_ok as" "list_all tree_ok ts" using PElem.prems(3) by (simp_all add: id_ok_def)
  have a: "at d (?s @ ?as @ ?ts @ ?e @ xs)" using PElem.prems(1) by simp
  define d1 where "d1 = (let d1 = skip (length ?s) d in d1\<lparr>pd_stack := (i, pd_pos d1, pd_pos d1) # pd_stack d1\<rparr>)"
  have o1: "dec_open_element d = (i, d1)" using open_at [OF a i] by (simp add: d1_def)
  have a1: "at d1 (?as @ ?ts @ ?e @ xs)" using at_skip [OF a] by (simp add: at_def d1_def Let_def)
  have c1: "cursors_ok d1" using PElem.prems(2) by (auto simp: d1_def cursors_ok_def Let_def)
  obtain h j ys where h: "?ts @ ?e @ xs = header_bytes h j @ ys" "h = ELEMENT_START \<or> h = ELEMENT_END" "j < 0x1000"
  proof (cases ts)
    case Nil
    then show ?thesis using that [of ELEMENT_END i xs] i by simp
  next
    case (Cons t ts')
    obtain zs where "tree_bytes t = header_bytes ELEMENT_START (root_id t) @ zs" "root_id t < 0x1000"
      using tree_first [of t] ok(2) Cons by auto
    then show ?thesis
      using that [of ELEMENT_START "root_id t" "zs @ concat (map tree_bytes ts') @ ?e @ xs"] Cons by simp
  qed
  obtain d2 where d2: "replay_attrs as d1 = Some d2" "moved (length ?as) d1 d2"
    using replay_attrs_bytes [of d1 as h j ys] a1 ok(1) h by auto
  have a2: "at d2 (?ts @ ?e @ xs)" and c2: "cursors_ok d2"
    using moved_at [OF a1 d2(2)] d2(2) c1 by (simp_all add: moved_def)
  have "\<exists>d3. replay_list ts d2 = Some d3 \<and> moved (length ?ts) d2 d3"
    by (rule replay_list_bytes [OF _ a2 c2 ok(2)]) (rule PElem.IH)
  then obtain d3 where d3: "replay_list ts d2 = Some d3" "moved (length ?ts) d2 d3" by blast
  have a3: "at d3 (?e @ xs)" and c3: "cursors_ok d3"
    using moved_at [OF a2 d3(2)] d3(2) c2 by (simp_all add: moved_def)
  define d4 where "d4 = dec_close_element d3"
  have d4: "d4 = (let d' = skip (length ?e) d3 in d'\<lparr>pd_stack := tl (pd_stack d')\<rparr>)"
    unfolding d4_def by (rule close_at [OF a3 i])
  have "replay (PElem i as ts) d = Some d4"
    using o1 d2(1) d3(1) peek_at [OF a3 _ i c3] by (simp add: d4_def packed_consts)
  moreover have "moved (length (tree_bytes (PElem i as ts))) d d4"
    using d2(2) d3(2) c3 unfolding d4 d1_def moved_def opens_def cursors_ok_def Let_def
    by (cases "pd_stack d3") (auto simp: map_tl)
  ultimately show ?case by blast
qed

section \<open>Properties\<close>

text \<open>
  Property C9. Every document survives the packed format: what the encoder writes, the decoder reads back, each element,
  attribute and value in order, with the ends of the attribute list and of the children
  reported where they are; it stops at the end of the bytes with no element left open. Element and
  attribute numbers are below 4096, which the two-byte header holds.
\<close>

theorem packed_document_roundtrip:
  assumes "tree_ok t"
  shows "\<exists>d. replay t (pd_new (encode_tree t [])) = Some d
    \<and> pd_pos d = length (encode_tree t []) \<and> pd_stack d = []"
proof -
  have "at (pd_new (tree_bytes t)) (tree_bytes t @ [])" by (simp add: at_def pd_new_def)
  moreover have "cursors_ok (pd_new (tree_bytes t))" by (simp add: cursors_ok_def pd_new_def)
  ultimately obtain d where "replay t (pd_new (tree_bytes t)) = Some d" "moved (length (tree_bytes t)) (pd_new (tree_bytes t)) d"
    using replay_bytes assms by blast
  then show ?thesis by (auto simp: encode_bytes moved_def opens_def pd_new_def)
qed

definition sample_tree :: ptree where
  "sample_tree = PElem 12 [(19, PUInt 5), (300, PInt (- 3)), (5, PBool True), (7, PStr [0x61, 0xC3, 0xA9])]
     [PElem 2 [] [], PElem 77 [(1, PStr [])] []]"

theorem packed_document_roundtrip_witness:
  "tree_ok sample_tree \<and> (\<exists>d. replay sample_tree (pd_new (encode_tree sample_tree [])) = Some d
     \<and> pd_pos d = 25 \<and> pd_stack d = [])"
proof -
  have "utf8_valid [0x61, 0xC3, 0xA9]" by code_simp
  then have ok: "tree_ok sample_tree" by (simp add: sample_tree_def id_ok_def attr_ok_def)
  moreover have "length (encode_tree sample_tree []) = 25" by code_simp
  ultimately show ?thesis using packed_document_roundtrip [OF ok] by simp
qed

lemma groups_of_seven:
  assumes "2 ^ (7 * n - 7) \<le> m" "m < 2 ^ (7 * n)" "0 < n" "0 < m"
  shows "(bit_len m + 6) div 7 = n"
proof -
  note b = bit_len_bounds [OF assms(4)]
  have "bit_len m \<le> 7 * n" using assms(2) by (rule bit_len_le)
  moreover have "(2 :: nat) ^ (7 * n - 7) < 2 ^ bit_len m" using assms(1) b by linarith
  then have "7 * n - 7 < bit_len m" by simp
  ultimately show ?thesis using assms(3) by (intro div_nat_eqI) simp_all
qed

text \<open>
  An integer takes one byte and one more for every seven bits of its magnitude, eleven at most.
\<close>

theorem write_integer_size:
  "length (write_integer tb v []) = 1 + (bit_len (unat v) + 6) div 7 \<and> length (write_integer tb v []) \<le> 11"
proof -
  obtain n where n: "\<And>tb out. write_integer tb v out = out @ (tb OR of_nat n) # sevens n v" "n \<le> 10"
      "uint v < 2 ^ (7 * n)" "v \<noteq> 0 \<Longrightarrow> 0 < n \<and> 2 ^ (7 * n - 7) \<le> uint v" "v = 0 \<Longrightarrow> n = 0"
    by (rule write_integer_sevens [of v]) blast
  have "(bit_len (unat v) + 6) div 7 = n"
  proof (cases "v = 0")
    case False
    have "int (2 ^ (7 * n - 7)) \<le> int (unat v)" "int (unat v) < int (2 ^ (7 * n))"
      using n(3) n(4) [OF False] by simp_all
    then have "2 ^ (7 * n - 7) \<le> unat v" "unat v < 2 ^ (7 * n)" by (simp_all only: of_nat_le_iff of_nat_less_iff)
    then show ?thesis using n(4) [OF False] False by (intro groups_of_seven) (simp_all add: unat_gt_0)
  qed (simp add: n(5))
  then show ?thesis using n(1,2) by simp
qed

section \<open>Where the decoder goes wrong\<close>

text \<open>
  A named attribute is searched for by reading the values passed over as strings, which does not consume an
  integer: the search ends inside its bytes, and the value returned is read off the type byte
  of the integer.
\<close>

theorem read_bool_attr_after_integer:
  "fst (read_bool_attr 5 (snd (dec_open_element (pd_new (encode_tree (PElem 12 [(19, PUInt 5), (5, PBool False)] []) [])))))
    = True"
  by code_simp

text \<open>Closing an element with an unread child stops at the end of the child.\<close>

theorem close_skipping_stops_at_child:
  "pd_pos (close_element_skipping (snd (dec_open_element (pd_new (encode_tree (PElem 1 [] [PElem 2 [] []]) []))))) = 3
   \<and> length (encode_tree (PElem 1 [] [PElem 2 [] []]) []) = 4"
  by code_simp

text \<open>A string length that wraps the scan position back to the attribute keeps \<open>peek_element\<close> running for ever.\<close>

definition looping_input :: bytes where
  "looping_input = [0xc1, 0x7a, 0x81, 0xff, 0xff, 0xff, 0xff, 0xff, 0xff, 0xff, 0xff, 0xf4]"

lemma looping_simps:
  "length looping_input = 12" "looping_input ! 0 = 0xc1" "looping_input ! 1 = 0x7a" "looping_input ! Suc 0 = 0x7a"
  "type_code 0x7a = 7" "length_code 0x7a = 10"
  "(0xc1 :: u8) AND HEADER_MASK = 0xc0" "(0xc1 :: u8) AND HEADEREXTEND_MASK = 0"
  by code_simp+

lemma loop_back: "peek_length looping_input 10 0 2 = (0xfffffffffffffff4, 12)"
  by code_simp

theorem peek_element_may_not_return: "peek_element (pd_new looping_input) = None"
proof -
  have "\<not> (bs = looping_input \<and> scan = 0)" if "peek_loop bs scan = Some r" for bs scan r
    using that
  proof (rule peek_loop.raw_induct [where P = "\<lambda>bs scan r. \<not> (bs = looping_input \<and> scan = 0)", rotated])
    fix f bs' scan' and r' :: u32
    assume IH: "\<And>bs scan r. f bs scan = Some r \<Longrightarrow> \<not> (bs = looping_input \<and> scan = 0)"
      and body: "(if scan' < length bs'
      then (let b = bs' ! scan'; ht = b AND HEADER_MASK
            in if ht = ELEMENT_START
               then Some (if b AND HEADEREXTEND_MASK \<noteq> 0 \<and> scan' + 1 < length bs'
                          then extend_id (ucast (b AND ELEMENTID_MASK)) (bs' ! (scan' + 1))
                          else ucast (b AND ELEMENTID_MASK))
               else if ht = ATTRIBUTE
               then (let scan1 = scan' + (if b AND HEADEREXTEND_MASK \<noteq> 0 then 2 else 1)
                     in if scan1 \<ge> length bs' then Some 0
                        else (let tb = bs' ! scan1; scan2 = scan1 + 1; tc = type_code tb; lc = unat (length_code tb)
                              in if tc = TYPECODE_BOOLEAN then f bs' scan2
                                 else if tc = TYPECODE_SIGNEDINT_POSITIVE \<or> tc = TYPECODE_SIGNEDINT_NEGATIVE
                                        \<or> tc = TYPECODE_UNSIGNEDINT \<or> tc = TYPECODE_ADDRESSSPACE
                                 then f bs' (scan2 + lc)
                                 else if tc = TYPECODE_SPECIALSPACE then f bs' scan2
                                 else if tc = TYPECODE_STRING
                                 then (case peek_length bs' lc 0 scan2 of (str_len, scan3) \<Rightarrow>
                                         f bs' ((scan3 + unat str_len) mod 2 ^ 64))
                                 else Some 0))
               else Some 0)
      else Some 0) = Some r'"
    show "\<not> (bs' = looping_input \<and> scan' = 0)"
    proof
      assume e: "bs' = looping_input \<and> scan' = 0"
      have "f looping_input 0 = Some r'" using body e loop_back by (simp add: looping_simps packed_consts numeral_2_eq_2 [symmetric] del: peek_length.simps)
      then show False using IH by blast
    qed
  qed
  then show ?thesis by (cases "peek_loop looping_input 0") (auto simp: peek_element_def pd_new_def)
qed

end
