(* ===== verification/Addr_Laws.thy ===== *)
theory Addr_Laws
  imports Addr_Space "HOL-Library.Product_Lexorder"
begin

text \<open>
  Laws of spaces and addresses (src/src/space.rs, src/src/address.rs): wrapping stays inside the space and
  is reduction modulo its size, address arithmetic is invertible, overlap and containment mean
  what they say, interning is injective, and the comparisons are total orders. The last is
  stated once, in the locale \<open>ord_by_key\<close>, and interpreted on each \<open>Ord\<close> instance.
\<close>

unbundle bit_operations_syntax

section \<open>Definitions of the statements\<close>

text \<open>Handles to one space see one record: within a set of live spaces the identity determines it.\<close>

definition coherent :: "addr_space set \<Rightarrow> bool" where
  "coherent U \<longleftrightarrow> inj_on sp_identity U"

definition sa_in :: "addr_space set \<Rightarrow> space_address \<Rightarrow> bool" where
  "sa_in U a = (case sa_base a of SpaceOf s \<Rightarrow> s \<in> U | _ \<Rightarrow> True)"

definition sa_key :: "space_address \<Rightarrow> nat \<times> int \<times> nat \<times> u64" where
  "sa_key a = (case sa_base a of
      NullBase \<Rightarrow> (0, 0, 0, sa_offset a)
    | SpaceOf s \<Rightarrow> (1, sp_index s, sp_identity s, sa_offset a)
    | Maximal \<Rightarrow> (2, 0, 0, sa_offset a))"

definition swap_ordering :: "ordering \<Rightarrow> ordering" where
  "swap_ordering x = (case x of Less \<Rightarrow> Greater | Equal \<Rightarrow> Equal | Greater \<Rightarrow> Less)"

definition byte_sized :: "addr_space \<Rightarrow> nat \<Rightarrow> bool" where
  "byte_sized s n \<longleftrightarrow> n \<le> 64 \<and> sp_highest s = mask n"

definition ad_key :: "space_table \<Rightarrow> address \<Rightarrow> nat \<times> int \<times> u64 \<times> nat" where
  "ad_key tbl a = (case ad_space a of
      None \<Rightarrow> (0, 0, ad_offset a, 0)
    | Some t \<Rightarrow> (1, sp_index (tbl ! t), ad_offset a, t))"

definition ad_in :: "space_table \<Rightarrow> address \<Rightarrow> bool" where
  "ad_in tbl a = (case ad_space a of None \<Rightarrow> True | Some t \<Rightarrow> t < length tbl)"

definition returned :: "ordering res \<Rightarrow> ordering" where
  "returned r = (case r of Ret x \<Rightarrow> x | Panic \<Rightarrow> Equal)"

text \<open>Two concrete spaces: a little endian memory of four-byte offsets and a big endian one of two.\<close>

definition ram_space :: addr_space where
  "ram_space = new_space 7 Processor ''ram'' False 4 1 3 0 1 1"

definition io_space :: addr_space where
  "io_space = new_space 9 Processor ''io'' True 2 1 4 0 1 1"

section \<open>Wrapping\<close>

lemma wrap_i64_shift: "wrap_i64 i = (i + 9223372036854775808) mod 18446744073709551616 - 9223372036854775808"
  by (simp add: wrap_i64_def signed_take_bit_eq_take_bit_shift take_bit_eq_mod)

lemma as_i64_cases:
  "as_i64 x = (if uint x < 9223372036854775808 then uint x else uint x - 18446744073709551616)"
proof -
  have w: "as_i64 x = (uint x + 9223372036854775808) mod 18446744073709551616 - 9223372036854775808"
    using wrap_i64_shift [of "uint x"] by (simp add: as_i64_eq wrap_i64_def)
  show ?thesis
  proof (cases "uint x < 9223372036854775808")
    case True
    then have "(uint x + 9223372036854775808) mod 18446744073709551616 = uint x + 9223372036854775808"
      using uint_ge_0 [of x] by (intro mod_pos_pos_trivial) linarith+
    then show ?thesis unfolding w using True by simp
  next
    case False
    then have "(uint x + 9223372036854775808) mod 18446744073709551616 = uint x + 9223372036854775808 - 18446744073709551616"
      using uint_lt_u64 [of x] by (intro mod_minus_once) linarith+
    then show ?thesis unfolding w using False by simp
  qed
qed

lemma wrap_i64_succ:
  "wrap_i64 (as_i64 h + 1) = (if uint h < 9223372036854775807 then uint h + 1 else uint h + 1 - 18446744073709551616)"
proof -
  have "(uint h + 1 + 9223372036854775808) mod 18446744073709551616 =
      (if uint h < 9223372036854775807 then uint h + 1 + 9223372036854775808 else uint h + 1 + 9223372036854775808 - 18446744073709551616)"
    using uint_lt_u64 [of h] uint_ge_0 [of h] mod_minus_once [of "18446744073709551616 :: int" "uint h + 1 + 9223372036854775808"]
      mod_pos_pos_trivial [of "uint h + 1 + 9223372036854775808" "18446744073709551616 :: int"] by (smt (verit))
  moreover have "(uint h - 18446744073709551616 + 1 + 9223372036854775808) mod 18446744073709551616 =
      (uint h + 1 + 9223372036854775808) mod (18446744073709551616 :: int)"
    using mod_add_self2 [of "uint h - 18446744073709551616 + 1 + 9223372036854775808" "18446744073709551616 :: int"] by simp
  ultimately show ?thesis unfolding wrap_i64_shift as_i64_cases by auto
qed

lemma wrap_offset_divisor:
  assumes "\<not> off \<le> sp_highest s"
  shows "wrap_i64 (as_i64 (sp_highest s) + 1) \<noteq> 0"
    and "\<not> (as_i64 off = - 9223372036854775808 \<and> wrap_i64 (as_i64 (sp_highest s) + 1) = - 1)"
proof -
  have h: "uint (sp_highest s) < uint off" using assms by (simp add: word_le_def)
  show "wrap_i64 (as_i64 (sp_highest s) + 1) \<noteq> 0"
    unfolding wrap_i64_succ using h uint_lt_u64 [of off] uint_ge_0 [of "sp_highest s"] by (smt (verit))
  show "\<not> (as_i64 off = - 9223372036854775808 \<and> wrap_i64 (as_i64 (sp_highest s) + 1) = - 1)"
    unfolding wrap_i64_succ as_i64_cases [of off] using h uint_lt_u64 [of off] uint_ge_0 [of "sp_highest s"] by (smt (verit))
qed

lemma wrap_i64_inside: "- 9223372036854775808 \<le> i \<Longrightarrow> i < 9223372036854775808 \<Longrightarrow> wrap_i64 i = i"
  unfolding wrap_i64_shift using mod_pos_pos_trivial [of "i + 9223372036854775808" "18446744073709551616 :: int"] by simp

lemma wrap_i64_add: "wrap_i64 (r + wrap_i64 b) = wrap_i64 (r + b)"
  by (simp add: wrap_i64_def signed_take_bit_add [of 63 r "signed_take_bit 63 b", symmetric] signed_take_bit_add [of 63 r b, symmetric])

lemma rem_euclid_i64_eq:
  assumes "b \<noteq> 0" and "\<not> (a = - 9223372036854775808 \<and> b = - 1)" and "\<bar>b\<bar> \<le> 9223372036854775808"
  shows "rem_euclid_i64 a b = Ret (a mod \<bar>b\<bar>)"
proof (cases "a < 0")
  case False
  define t where "t = a mod \<bar>b\<bar>"
  have "0 \<le> t" using assms(1) by (simp add: t_def)
  moreover have "rem_i64 a b = Ret t" using False assms(1,2) by (auto simp: t_def rem_i64_def signed_modulo_int_def sgn_if)
  ultimately show ?thesis by (simp add: rem_euclid_i64_def t_def [symmetric])
next
  case True
  define t where "t = - a mod \<bar>b\<bar>"
  have t: "0 \<le> t" "t < \<bar>b\<bar>" using assms(1) by (simp_all add: t_def)
  have "rem_i64 a b = Ret (- t)" using True assms(1,2) by (auto simp: t_def rem_i64_def signed_modulo_int_def sgn_if)
  moreover have "a mod \<bar>b\<bar> = (if t = 0 then 0 else \<bar>b\<bar> - t)" using zmod_zminus1_eq_if [of "- a" "\<bar>b\<bar>"] by (simp add: t_def)
  moreover have "wrap_i64 (- t + \<bar>b\<bar>) = - t + \<bar>b\<bar>" if "t \<noteq> 0" using t assms(3) that by (intro wrap_i64_inside) linarith+
  moreover have "wrap_i64 (- t + wrap_i64 \<bar>b\<bar>) = wrap_i64 (- t + \<bar>b\<bar>)" by (rule wrap_i64_add)
  ultimately show ?thesis using t(1) by (auto simp: rem_euclid_i64_def)
qed

lemma wrap_offset_inside [simp]: "off \<le> sp_highest s \<Longrightarrow> wrap_offset s off = off"
  by (simp add: wrap_offset_def wrap_offset_checked_def)

lemma wrap_offset_outside:
  assumes "\<not> off \<le> sp_highest s"
  shows "wrap_offset_checked s off = Ret (wrap_offset s off)"
    and "uint (wrap_offset s off) = as_i64 off mod \<bar>wrap_i64 (as_i64 (sp_highest s) + 1)\<bar>"
    and "as_i64 off mod \<bar>wrap_i64 (as_i64 (sp_highest s) + 1)\<bar> \<le> uint (sp_highest s)"
proof -
  let ?m = "\<bar>wrap_i64 (as_i64 (sp_highest s) + 1)\<bar>" and ?h = "uint (sp_highest s)"
  have m: "0 < ?m" using wrap_offset_divisor(1) [OF assms] by simp
  have h: "?h < uint off" using assms by (simp add: word_le_def)
  then have le: "?m \<le> ?h + 1" using uint_lt_u64 [of off] uint_ge_0 [of "sp_highest s"]
    unfolding wrap_i64_succ by (cases "?h < 9223372036854775807") simp_all
  have r: "0 \<le> as_i64 off mod ?m" "as_i64 off mod ?m < ?m" using m by simp_all
  then show "as_i64 off mod ?m \<le> ?h" using le by linarith
  then have "as_i64 off mod ?m < 18446744073709551616" using uint_lt_u64 [of "sp_highest s"] by linarith
  then have u: "uint (as_u64 (as_i64 off mod ?m)) = as_i64 off mod ?m"
    using r by (simp add: as_u64_def uint_word_of_int_eq take_bit_int_eq_self)
  have "?m \<le> 9223372036854775808"
    unfolding wrap_i64_succ using h uint_lt_u64 [of off] uint_ge_0 [of "sp_highest s"] by (cases "?h < 9223372036854775807") simp_all
  note rem = rem_euclid_i64_eq [OF wrap_offset_divisor [OF assms] this]
  have "wrap_offset_checked s off = Ret (as_u64 (as_i64 off mod ?m))"
    using assms r(1) by (simp add: wrap_offset_checked_def rem Let_def)
  then show "wrap_offset_checked s off = Ret (wrap_offset s off)" "uint (wrap_offset s off) = as_i64 off mod ?m"
    using u by (simp_all add: wrap_offset_def)
qed

lemma le_mask_and_self: "n \<le> 64 \<Longrightarrow> (x :: u64) \<le> mask n \<Longrightarrow> x AND mask n = x"
  by (simp add: word_uint_eq_iff uint_and_mask le_mask_u64_iff)

lemma wrap_offset_power:
  assumes n: "n \<le> 64" "sp_highest s = mask n"
  shows "wrap_offset s off = off AND mask n"
proof (cases "off \<le> sp_highest s")
  case True
  then show ?thesis using assms by (simp add: le_mask_and_self)
next
  case False
  then have n64: "n < 64" using n by (cases "n = 64") (auto simp: le_mask_u64_iff uint_lt_u64)
  have "uint (sp_highest s) = 2 ^ n - 1" using n by (simp add: uint_mask_u64)
  moreover have "(2 :: int) ^ n \<le> 2 ^ 63" using n64 by (intro power_increasing) auto
  ultimately have "\<bar>wrap_i64 (as_i64 (sp_highest s) + 1)\<bar> = 2 ^ n"
    unfolding wrap_i64_succ using one_le_power [of "2 :: int" n] by auto
  moreover have "as_i64 off mod 2 ^ n = uint off mod 2 ^ n"
    using mod_diff_cong [OF refl [of "uint off mod 2 ^ n"], of "18446744073709551616 :: int" 0] le_imp_power_dvd [of n 64 "2 :: int"] n(1)
    by (auto simp: as_i64_cases dvd_eq_mod_eq_0)
  ultimately show ?thesis
    using wrap_offset_outside(2) [OF False] n by (simp add: word_uint_eq_iff uint_and_mask)
qed

lemma wrap_offset_mask: "byte_sized s n \<Longrightarrow> wrap_offset s off = off AND mask n"
  by (simp add: byte_sized_def wrap_offset_power)

lemma wrap_offset_le: "wrap_offset s off \<le> sp_highest s"
  using wrap_offset_outside(2,3) [of off s] by (cases "off \<le> sp_highest s") (simp_all add: word_le_def)

lemma wrap_offset_returns: "wrap_offset_checked s off = Ret (wrap_offset s off)"
  using wrap_offset_outside(1) [of off s] by (cases "off \<le> sp_highest s") (simp_all add: wrap_offset_checked_def)

text \<open>
  Property C36. Wrapping an offset into a space always returns: the division is not reached for the spaces whose size wraps to zero. The result
  lies in the space, an offset of the space stays as it is (so wrapping twice is wrapping once), and in a space whose size is a power of two the
  result is the offset modulo the size.
\<close>

theorem wrap_offset_bounds:
  "wrap_offset_checked s off = Ret (wrap_offset s off) \<and> wrap_offset s off \<le> sp_highest s \<and>
   (off \<le> sp_highest s \<longrightarrow> wrap_offset s off = off) \<and> wrap_offset s (wrap_offset s off) = wrap_offset s off \<and>
   (\<forall>n \<le> 64. sp_highest s = mask n \<longrightarrow> uint (wrap_offset s off) = uint off mod 2 ^ n)"
  using wrap_offset_returns wrap_offset_le wrap_offset_power by (auto simp: uint_and_mask)

theorem wrap_offset_bounds_witness:
  "wrap_offset_checked (new_space 1 Processor ''w2'' False 2 1 2 0 0 0) 0x12345 = Ret 0x2345 \<and>
   wrap_offset_checked (new_space 1 Processor ''w8'' False 8 1 2 0 0 0) U64_MAX = Ret U64_MAX"
proof -
  let ?s = "new_space 1 Processor ''w2'' False 2 1 2 0 0 0" and ?t = "new_space 1 Processor ''w8'' False 8 1 2 0 0 0"
  have h: "sp_highest ?s = 0xffff" "U64_MAX \<le> sp_highest ?t" by code_simp+
  then have "sp_highest ?s = mask 16" by (simp add: mask_eq_exp_minus_1)
  then have "uint (wrap_offset ?s 0x12345) = uint (0x12345 :: u64) mod 2 ^ 16" 
    by (rule wrap_offset_bounds [of ?s "0x12345", THEN conjunct2, THEN conjunct2, THEN conjunct2, THEN conjunct2, rule_format, of 16, rotated]) simp
  then have "wrap_offset ?s 0x12345 = 0x2345" by (simp add: word_uint_eq_iff)
  moreover have "wrap_offset ?t U64_MAX = U64_MAX"
    using wrap_offset_bounds [of ?t U64_MAX, THEN conjunct2, THEN conjunct2, THEN conjunct1] h(2) by (rule mp)
  ultimately show ?thesis
    using wrap_offset_bounds [of ?s "0x12345", THEN conjunct1] wrap_offset_bounds [of ?t U64_MAX, THEN conjunct1] by (simp only: simp_thms)
qed


section \<open>Address arithmetic\<close>

lemma space_calc_mask_eq: "space_calc_mask sz = calc_mask (unat sz)"
proof (cases "sz < 8")
  case True
  then have "unat sz \<in> {0, 1, 2, 3, 4, 5, 6, 7}" by (auto simp: word_less_nat_alt)
  then show ?thesis using True
    by (elim insertE emptyE) (simp_all add: space_calc_mask_def UINTBMASKS_def calc_mask_def shl_u64_def)
next
  case False
  then have "8 \<le> unat sz" by (simp add: word_less_nat_alt)
  then show ?thesis using False by (simp add: space_calc_mask_def UINTBMASKS_def calc_mask_def U64_MAX_def)
qed

lemma new_space_byte_sized:
  "byte_sized (new_space ident ty name big sz 1 ind fl dl dead) (nbits (unat sz))"
  by (simp add: byte_sized_def new_space_def Let_def calc_scale_mask_def set_flags_def space_calc_mask_eq calc_mask_eq)

lemma sa_base_keep [simp]: "sa_base (sa_add a k) = sa_base a" "sa_base (sa_sub a k) = sa_base a"
  by (simp_all add: sa_add_def sa_sub_def Let_def)

lemma and_mask_plus: "n \<le> 64 \<Longrightarrow> (((a :: u64) AND mask n) + b) AND mask n = (a + b) AND mask n"
  and and_mask_minus: "n \<le> 64 \<Longrightarrow> (((a :: u64) AND mask n) - b) AND mask n = (a - b) AND mask n"
  by (simp_all only: word_uint_eq_iff uint_plus_and_mask uint_minus_and_mask uint_and_mask [of n a] mod_add_left_eq mod_diff_left_eq)

lemma sa_offset_arith:
  assumes "sa_base a = SpaceOf s" "byte_sized s n"
  shows "sa_offset (sa_add a k) = (sa_offset a + as_u64 k) AND mask n"
    and "sa_offset (sa_sub a k) = (sa_offset a - as_u64 k) AND mask n"
  using assms by (simp_all add: sa_add_def sa_sub_def Let_def wrap_offset_mask)

lemma sa_add_sub:
  assumes "sa_base a = SpaceOf s" "byte_sized s n" "sa_offset a \<le> sp_highest s"
  shows "sa_sub (sa_add a k) k = a" "sa_add (sa_sub a k) k = a"
proof -
  have n: "n \<le> 64" "sa_offset a AND mask n = sa_offset a"
    using assms(2,3) by (simp_all add: byte_sized_def le_mask_and_self)
  note o = sa_offset_arith [OF _ assms(2)]
  show "sa_sub (sa_add a k) k = a"
    using assms(1) n o(1) [of a k] o(2) [of "sa_add a k" k] by (intro space_address.equality) (simp_all add: and_mask_minus)
  show "sa_add (sa_sub a k) k = a"
    using assms(1) n o(2) [of a k] o(1) [of "sa_sub a k" k] by (intro space_address.equality) (simp_all add: and_mask_plus)
qed

text \<open>
  Address arithmetic in a space of byte-addressed units is invertible and stays in the space: from an
  offset of the space, adding and then subtracting any displacement, or the reverse, returns
  the address, through any number of wraps.
\<close>

theorem address_add_sub_roundtrip:
  assumes "s = new_space ident ty name big sz 1 ind fl dl dead" "off \<le> sp_highest s"
  shows "sa_sub (sa_add (sa_new s off) k) k = sa_new s off \<and> sa_add (sa_sub (sa_new s off) k) k = sa_new s off
    \<and> sa_offset (sa_add (sa_new s off) k) \<le> sp_highest s"
proof -
  note b = new_space_byte_sized [of ident ty name big sz ind fl dl dead, folded assms(1)]
  have a: "sa_base (sa_new s off) = SpaceOf s" "sa_offset (sa_new s off) = off" by (simp_all add: sa_new_def)
  have "sa_offset (sa_add (sa_new s off) k) \<le> sp_highest s"
    using sa_offset_arith(1) [OF a(1) b] b by (simp add: byte_sized_def word_and_le1)
  then show ?thesis using sa_add_sub [OF a(1) b, of k] a(2) assms(2) by simp
qed


lemma mod_move: "(a - y) mod N = d mod (N :: int) \<longleftrightarrow> (y + d) mod N = a mod N"
proof -
  have "a - y - d = - (y + d - a)" by simp
  then show ?thesis using dvd_minus_iff [of N "y + d - a"] by (simp only: mod_eq_dvd_iff)
qed

lemma as_i32_small: "uint x < 2 ^ 31 \<Longrightarrow> as_i32 x = uint x"
  unfolding as_i32_def by (rule signed_take_bit_int_eq_self [OF order_trans [of _ 0]]) simp_all

text \<open>
  \<open>overlap\<close> locates a point in an interval: for a non-constant space, \<open>d\<close> is reported exactly when
  the \<open>d\<close>-th address of the interval is the point, the displacement and the interval both
  wrapping around the end of the space.
\<close>

theorem overlap_exact:
  assumes "s = new_space ident ty name big asz 1 ind fl dl dead" "ty \<noteq> Constant"
    and "0 \<le> d" "d < sz" "sz < 2 ^ 31" "d \<le> uint (sp_highest s)"
  shows "sa_overlap (sa_new s x) skip (sa_new s y) sz = d \<longleftrightarrow> sa_add (sa_new s y) d = sa_add (sa_new s x) skip"
proof -
  let ?n = "nbits (unat asz)" and ?dist = "(x + as_u64 skip - y) AND mask (nbits (unat asz))"
  note b = new_space_byte_sized [of ident ty name big asz ind fl dl dead, folded assms(1)]
  have ty: "sp_type s = ty" using assms(1) by (simp add: new_space_def Let_def calc_scale_mask_def set_flags_def)
  have ud: "uint (as_u64 i) = i" if "0 \<le> i" "i < 2 ^ 31" for i :: int
    using that by (simp add: as_u64_def uint_word_of_int_eq take_bit_int_eq_self)
  have d: "d < 2 ^ ?n" using assms(6) b by (simp add: byte_sized_def uint_mask_u64)
  have ov: "sa_overlap (sa_new s x) skip (sa_new s y) sz = (if as_u64 sz \<le> ?dist then - 1 else as_i32 ?dist)"
    using assms(2) ty wrap_offset_mask [OF b] by (simp add: sa_overlap_def sa_new_def same_space_def Let_def)
  have small: "as_i32 ?dist = uint ?dist" if "\<not> as_u64 sz \<le> ?dist"
  proof -
    have "uint ?dist < 2 ^ 31" using that ud [of sz] assms(3-5) by (simp add: word_le_def)
    then show ?thesis by (rule as_i32_small)
  qed
  have "sa_overlap (sa_new s x) skip (sa_new s y) sz = d \<longleftrightarrow> uint ?dist = d"
    unfolding ov using small ud [of sz] assms(3-5) by (auto simp: word_le_def)
  also have "\<dots> \<longleftrightarrow> (uint x + uint (as_u64 skip) - uint y) mod 2 ^ ?n = d mod 2 ^ ?n"
    using d assms(3) by (simp add: uint_sum_minus_mask)
  also have "\<dots> \<longleftrightarrow> (uint y + d) mod 2 ^ ?n = (uint x + uint (as_u64 skip)) mod 2 ^ ?n"
    by (rule mod_move)
  also have "\<dots> \<longleftrightarrow> sa_add (sa_new s y) d = sa_add (sa_new s x) skip"
    using ud [of d] assms(3-5) wrap_offset_mask [OF b]
    by (simp add: sa_add_def sa_new_def Let_def word_uint_eq_iff uint_plus_and_mask)
  finally show ?thesis .
qed

section \<open>Interning\<close>

lemma find_space_spec:
  "find_space i tbl k = Some t \<Longrightarrow> k \<le> t \<and> t < k + length tbl \<and> sp_identity (tbl ! (t - k)) = i"
  "find_space i tbl k = None \<longleftrightarrow> i \<notin> sp_identity ` set tbl"
proof -
  show "find_space i tbl k = Some t \<Longrightarrow> k \<le> t \<and> t < k + length tbl \<and> sp_identity (tbl ! (t - k)) = i"
    by (induction tbl arbitrary: k) (fastforce simp: nth_Cons' split: if_splits)+
  show "find_space i tbl k = None \<longleftrightarrow> i \<notin> sp_identity ` set tbl"
    by (induction tbl arbitrary: k) auto
qed

lemma intern_space_spec:
  assumes "distinct (map sp_identity tbl)" "intern_space tbl spc = (tbl', tag)"
  shows "distinct (map sp_identity tbl')" "\<exists>new. tbl' = tbl @ new" "tag < length tbl'"
    "same_space (tbl' ! tag) spc"
  using assms find_space_spec(1) [of "sp_identity spc" tbl 0] find_space_spec(2) [of "sp_identity spc" tbl 0]
  by (auto simp: intern_space_def same_space_def nth_append split: option.splits)

text \<open>
  Crossing the bridge to the copyable address form and back: the table only grows and keeps one entry
  per space, and the address that comes back equals the one sent, offset and space; the
  maximal sentinel is refused.
\<close>

theorem space_address_bridge_roundtrip:
  assumes "distinct (map sp_identity tbl)"
  shows "case ad_from_space_address tbl sa of
      Panic \<Rightarrow> sa_base sa = Maximal
    | Ret (tbl', a) \<Rightarrow> distinct (map sp_identity tbl') \<and> (\<exists>new. tbl' = tbl @ new) \<and> ad_in tbl' a
        \<and> (\<exists>sa'. ad_to_space_address tbl' a = Ret sa' \<and> sa_eq sa' sa)"
proof (cases "sa_base sa")
  case (SpaceOf spc)
  obtain tbl' tag where i: "intern_space tbl spc = (tbl', tag)" by fastforce
  then show ?thesis using SpaceOf intern_space_spec [OF assms i]
    by (simp add: ad_from_space_address_def ad_with_space_def ad_to_space_address_def resolve_space_tag_def
      ad_in_def sa_new_def sa_eq_def same_base_def)
qed (use assms in \<open>simp_all add: ad_from_space_address_def ad_new_def ad_to_space_address_def ad_in_def
  sa_from_offset_def sa_eq_def same_base_def\<close>)

section \<open>Orders\<close>

locale ord_by_key =
  fixes ok :: "'a \<Rightarrow> bool" and key :: "'a \<Rightarrow> 'k :: linorder" and c :: "'a \<Rightarrow> 'a \<Rightarrow> ordering"
  assumes by_key: "ok a \<Longrightarrow> ok b \<Longrightarrow> c a b = cmp (key a) (key b)"
begin

lemma equal_iff: "ok a \<Longrightarrow> ok b \<Longrightarrow> c a b = Equal \<longleftrightarrow> key a = key b"
  by (simp add: by_key cmp_def)

lemma swap: "ok a \<Longrightarrow> ok b \<Longrightarrow> c b a = swap_ordering (c a b)"
  by (auto simp: by_key cmp_def swap_ordering_def)

lemma less_trans: "ok a \<Longrightarrow> ok b \<Longrightarrow> ok d \<Longrightarrow> c a b = Less \<Longrightarrow> c b d = Less \<Longrightarrow> c a d = Less"
  by (auto simp: by_key cmp_def split: if_splits)

lemma equal_trans: "ok a \<Longrightarrow> ok b \<Longrightarrow> ok d \<Longrightarrow> c a b = Equal \<Longrightarrow> c b d = x \<Longrightarrow> c a d = x"
  by (auto simp: by_key cmp_def split: if_splits)

end

lemma cmp_pair: "cmp (a, x) (b, y) = then_with (cmp a b) (cmp x y)"
  by (auto simp: cmp_def then_with_def)

interpretation sa_ord: ord_by_key "\<lambda>a. coherent U \<and> sa_in U a" sa_key sa_cmp for U
proof (unfold_locales, elim conjE)
  fix a b assume "coherent U" "sa_in U a" "sa_in U b"
  then show "sa_cmp a b = cmp (sa_key a) (sa_key b)"
    by (cases "sa_base a"; cases "sa_base b")
      (auto simp: sa_cmp_def sa_key_def sa_in_def same_base_def same_space_def sa_is_invalid_def coherent_def
        cmp_def dest: inj_onD)
qed


interpretation ad_ord: ord_by_key "ad_in tbl" "ad_key tbl" "\<lambda>a b. returned (ad_cmp tbl a b)" for tbl
proof unfold_locales
  fix a b assume "ad_in tbl a" "ad_in tbl b"
  then show "returned (ad_cmp tbl a b) = cmp (ad_key tbl a) (ad_key tbl b)"
    by (cases "ad_space a"; cases "ad_space b")
      (auto simp: ad_cmp_def ad_key_def ad_in_def resolve_space_tag_def returned_def cmp_def Let_def)
qed

lemma ad_cmp_returns: "ad_in tbl a \<Longrightarrow> ad_in tbl b \<Longrightarrow> ad_cmp tbl a b = Ret (returned (ad_cmp tbl a b))"
  by (cases "ad_space a"; cases "ad_space b")
    (auto simp: ad_cmp_def ad_in_def resolve_space_tag_def returned_def)

interpretation sn_ord: ord_by_key "\<lambda>n :: seq_num. ad_in tbl (sn_addr n)" "\<lambda>n. (ad_key tbl (sn_addr n), sn_time n)"
  "\<lambda>a b. returned (sn_cmp tbl a b)" for tbl
proof unfold_locales
  fix a b :: seq_num assume ok: "ad_in tbl (sn_addr a)" "ad_in tbl (sn_addr b)"
  have "returned (sn_cmp tbl a b) = then_with (returned (ad_cmp tbl (sn_addr a) (sn_addr b))) (cmp (sn_time a) (sn_time b))"
    unfolding sn_cmp_def by (subst ad_cmp_returns [OF ok]) (simp add: returned_def)
  then show "returned (sn_cmp tbl a b) = cmp (ad_key tbl (sn_addr a), sn_time a) (ad_key tbl (sn_addr b), sn_time b)"
    using ad_ord.by_key [OF ok] by (simp add: cmp_pair)
qed

lemma sa_key_eq: "coherent U \<Longrightarrow> sa_in U a \<Longrightarrow> sa_in U b \<Longrightarrow> sa_key a = sa_key b \<longleftrightarrow> sa_eq a b"
  by (cases "sa_base a"; cases "sa_base b")
    (auto simp: sa_key_def sa_eq_def same_base_def same_space_def sa_in_def coherent_def dest: inj_onD)

lemma ad_key_eq: "ad_key tbl a = ad_key tbl b \<longleftrightarrow> ad_eq a b"
  by (cases "ad_space a"; cases "ad_space b") (auto simp: ad_key_def ad_eq_def)

text \<open>
  Property C37. The comparison of space-carrying addresses is a total order that agrees with their equality: over
  the handles of one set of spaces it is antisymmetric and transitive, and compares equal
  exactly the equal addresses.
\<close>

theorem space_address_order:
  assumes "coherent U" "sa_in U a" "sa_in U b" "sa_in U d"
  shows "(sa_cmp a b = Equal \<longleftrightarrow> sa_eq a b) \<and> sa_cmp b a = swap_ordering (sa_cmp a b)
    \<and> (sa_cmp a b = Less \<and> sa_cmp b d = Less \<longrightarrow> sa_cmp a d = Less)"
  using sa_ord.equal_iff [of U a b] sa_ord.swap [of U a b] sa_ord.less_trans [of U a b d] sa_key_eq [of U a b] assms
  by simp

text \<open>
  Comparing sequence numbers whose spaces are interned never panics and is a total order that agrees
  with their equality, address first and creation time second; the execution order set later
  plays no part.
\<close>

theorem seq_num_order:
  assumes "ad_in tbl (sn_addr a)" "ad_in tbl (sn_addr b)" "ad_in tbl (sn_addr d)"
  shows "\<exists>o1 o2. sn_cmp tbl a b = Ret o1 \<and> sn_cmp tbl b d = Ret o2
    \<and> (o1 = Equal \<longleftrightarrow> sn_eq a b) \<and> sn_cmp tbl b a = Ret (swap_ordering o1)
    \<and> (o1 = Less \<and> o2 = Less \<longrightarrow> sn_cmp tbl a d = Ret Less)
    \<and> sn_cmp tbl (sn_set_order k a) b = sn_cmp tbl a b"
proof -
  have ret: "sn_cmp tbl x y = Ret (returned (sn_cmp tbl x y))" if "ad_in tbl (sn_addr x)" "ad_in tbl (sn_addr y)" for x y
    unfolding sn_cmp_def by (subst (1 2) ad_cmp_returns [OF that]) (simp add: returned_def)
  have "sn_cmp tbl (sn_set_order k a) b = sn_cmp tbl a b" by (simp add: sn_cmp_def sn_set_order_def)
  then show ?thesis
    using ret [OF assms(1,2)] ret [OF assms(2,3)] ret [OF assms(2,1)] ret [OF assms(1,3)]
      sn_ord.equal_iff [of tbl a b] sn_ord.swap [of tbl a b] sn_ord.less_trans [of tbl a b d] assms
    by (simp add: ad_key_eq sn_eq_def) (metis (no_types, lifting))
qed

section \<open>Containment\<close>

text \<open>
  \<open>justified_contain\<close> for a field that lies inside its container: the answer is the distance of the least
  significant bytes, counted from the low end for little endian (or when forced) and from the
  high end for big endian; a field that sticks out at either end is rejected.
\<close>

theorem justified_contain_exact:
  assumes "0 < sz" "sz < 2 ^ 31" "0 < sz2" "sz2 < 2 ^ 31"
    and "uint x + sz \<le> 2 ^ 64" "uint y + sz2 \<le> 2 ^ 64"
  shows "justified_contain (sa_new s x) sz (sa_new s y) sz2 forceleft =
    (if uint x \<le> uint y \<and> uint y + sz2 \<le> uint x + sz
     then if space_is_big_endian s \<and> \<not> forceleft then uint x + sz - (uint y + sz2) else uint y - uint x
     else - 1)"
proof -
  have u: "uint (v + as_u64 (wrap_i32 (k - 1))) = uint v + k - 1"
    if "0 < k" "k < 2 ^ 31" "uint v + k \<le> 2 ^ 64" for v :: u64 and k :: int
  proof -
    have "wrap_i32 (k - 1) = k - 1"
      unfolding wrap_i32_def by (rule signed_take_bit_int_eq_self [OF order_trans [of _ 0]]) (use that in simp_all)
    moreover have "uint (as_u64 (k - 1)) = k - 1"
      using that unfolding as_u64_def uint_word_of_int_eq by (intro take_bit_int_eq_self) simp_all
    moreover have "(uint v + (k - 1)) mod 2 ^ 64 = uint v + (k - 1)"
      using that uint_ge_0 [of v] by (intro mod_pos_pos_trivial) linarith+
    ultimately show ?thesis by (simp only: uint_plus_u64)
  qed
  have low: "as_i32 ((p - q) AND 0xffffffff) = uint p - uint q"
    if "uint q \<le> uint p" "uint p - uint q < 2 ^ 31" for p q :: u64
  proof -
    have d: "uint (p - q) = uint p - uint q" using that(1) by (simp add: uint_sub_lem [THEN iffD1])
    have m: "(0xffffffff :: u64) = mask 32" by (simp add: mask_eq_exp_minus_1)
    have "uint ((p - q) AND 0xffffffff) = uint p - uint q"
      unfolding m using that by (simp add: uint_and_mask d mod_pos_pos_trivial)
    then show ?thesis using as_i32_small [of "(p - q) AND 0xffffffff"] that(2) by simp
  qed
  note ux = u [OF assms(1,2,5)] and uy = u [OF assms(3,4,6)]
  have c: "justified_contain (sa_new s x) sz (sa_new s y) sz2 forceleft =
    (let off1 = x + as_u64 (wrap_i32 (sz - 1)); off2 = y + as_u64 (wrap_i32 (sz2 - 1))
     in if uint y < uint x \<or> uint off1 < uint off2 then - 1
        else if space_is_big_endian s \<and> \<not> forceleft then as_i32 ((off1 - off2) AND 0xffffffff)
        else as_i32 ((y - x) AND 0xffffffff))"
    by (simp add: justified_contain_def sa_new_def same_base_def same_space_def sa_is_big_endian_def word_less_def Let_def)
  show ?thesis
  proof (cases "uint x \<le> uint y \<and> uint y + sz2 \<le> uint x + sz")
    case True
    then show ?thesis unfolding c Let_def ux uy
      using low [of "y + as_u64 (wrap_i32 (sz2 - 1))" "x + as_u64 (wrap_i32 (sz - 1))"] low [of x y] assms(1-4) by (simp add: ux uy)
  next
    case False
    then show ?thesis unfolding c Let_def ux uy by auto
  qed
qed


section \<open>Concrete addresses\<close>

theorem address_add_sub_roundtrip_witness:
  "sa_offset (sa_add (sa_new ram_space 0xffffffff) 5) = 4
    \<and> sa_sub (sa_add (sa_new ram_space 0xffffffff) 5) 5 = sa_new ram_space 0xffffffff"
proof -
  have c: "0xffffffff \<le> sp_highest ram_space" "sa_offset (sa_add (sa_new ram_space 0xffffffff) 5) = 4" by code_simp+
  show ?thesis using address_add_sub_roundtrip [OF ram_space_def c(1), of 5] c(2) by simp
qed

theorem overlap_exact_witness:
  "sa_overlap (sa_new ram_space 2) 1 (sa_new ram_space 0xfffffffe) 8 = 5
    \<and> sa_add (sa_new ram_space 0xfffffffe) 5 = sa_add (sa_new ram_space 2) 1"
proof -
  have c: "sa_overlap (sa_new ram_space 2) 1 (sa_new ram_space 0xfffffffe) 8 = 5" "5 \<le> uint (sp_highest ram_space)" by code_simp+
  show ?thesis using overlap_exact [OF ram_space_def, of 5 8 2 1 "0xfffffffe"] c by simp
qed

theorem space_address_bridge_roundtrip_witness:
  "distinct (map sp_identity [io_space]) \<and> (\<exists>tbl' a sa'. ad_from_space_address [io_space] (sa_new ram_space 0x10) = Ret (tbl', a)
    \<and> ad_to_space_address tbl' a = Ret sa' \<and> sa_eq sa' (sa_new ram_space 0x10))"
proof -
  have d: "distinct (map sp_identity [io_space])" by simp
  show ?thesis using space_address_bridge_roundtrip [OF d, of "sa_new ram_space 0x10"] d
    by (auto simp: sa_new_def split: res.splits)
qed

theorem space_address_order_witness:
  "coherent {ram_space, io_space} \<and> sa_cmp (sa_new ram_space 0x20) (sa_new io_space 0x10) = Less
    \<and> sa_cmp (sa_new io_space 0x10) sa_maximal = Less \<and> sa_cmp (sa_new ram_space 0x20) sa_maximal = Less"
proof -
  have c: "coherent {ram_space, io_space}" "sa_in {ram_space, io_space} (sa_new ram_space 0x20)"
    "sa_in {ram_space, io_space} (sa_new io_space 0x10)" "sa_in {ram_space, io_space} sa_maximal"
    by (auto simp: coherent_def sa_in_def sa_new_def sa_maximal_def ram_space_def io_space_def new_space_def
      calc_scale_mask_def set_flags_def Let_def)
  have l: "sa_cmp (sa_new ram_space 0x20) (sa_new io_space 0x10) = Less" "sa_cmp (sa_new io_space 0x10) sa_maximal = Less"
    by code_simp+
  show ?thesis using space_address_order [OF c] c(1) l by blast
qed

theorem seq_num_order_witness:
  "sn_cmp [ram_space] (sn_new (ad_new 4) 1) (sn_new \<lparr>ad_offset = 4, ad_space = Some 0\<rparr> 2) = Ret Less
    \<and> sn_cmp [ram_space] (sn_new \<lparr>ad_offset = 4, ad_space = Some 0\<rparr> 2) (sn_new \<lparr>ad_offset = 4, ad_space = Some 0\<rparr> 3) = Ret Less
    \<and> sn_cmp [ram_space] (sn_new (ad_new 4) 1) (sn_new \<lparr>ad_offset = 4, ad_space = Some 0\<rparr> 3) = Ret Less"
proof -
  let ?a = "sn_new (ad_new 4) 1" and ?b = "sn_new \<lparr>ad_offset = 4, ad_space = Some 0\<rparr> 2" and ?d = "sn_new \<lparr>ad_offset = 4, ad_space = Some 0\<rparr> 3"
  have c: "ad_in [ram_space] (sn_addr ?a)" "ad_in [ram_space] (sn_addr ?b)" "ad_in [ram_space] (sn_addr ?d)"
    "sn_cmp [ram_space] ?a ?b = Ret Less" "sn_cmp [ram_space] ?b ?d = Ret Less" by code_simp+
  show ?thesis using seq_num_order [OF c(1-3)] c(4,5) by auto
qed

theorem justified_contain_exact_witness:
  "justified_contain (sa_new ram_space 0x10) 8 (sa_new ram_space 0x12) 2 False = 2
    \<and> justified_contain (sa_new io_space 0x10) 8 (sa_new io_space 0x12) 2 False = 4"
proof -
  have e: "space_is_big_endian ram_space = False" "space_is_big_endian io_space = True" by code_simp+
  show ?thesis using justified_contain_exact [of 8 2 "0x10" "0x12" ram_space False]
      justified_contain_exact [of 8 2 "0x10" "0x12" io_space False] e by simp
qed

text \<open>Where the size of a space is not a power of two the remainder is taken of the signed offset.\<close>

theorem wrap_offset_signed:
  "let s = new_space 1 Processor ''w3'' False 1 3 2 0 0 0
   in sp_highest s = 767 \<and> wrap_offset s 0xffffffffffffffff = 767 \<and> (0xffffffffffffffff :: u64) mod 768 = 255"
  by code_simp

end
