(* ===== verification/Registry_Clients.thy ===== *)
theory Registry_Clients
  imports Registry_Runs Packed_Laws Addr_Laws
begin

text \<open>
  Operations that ask the manager of the spaces: \<open>SpaceRange::from_properties\<close> and \<open>get_last_addr_open\<close> of
  src/src/address.rs, and \<open>PackedDecode::read_space\<close> of src/src/marshal.rs.
\<close>

section \<open>Ranges\<close>

record range_properties =
  rp_space_name :: string
  rp_first :: u64
  rp_last :: u64
  rp_is_register :: bool
  rp_seen_last :: bool

definition sr_from_properties :: "space_heap \<Rightarrow> registry \<Rightarrow> range_properties \<Rightarrow> string + space_range" where
  "sr_from_properties hp rg p =
     (if rp_is_register p
      then Inl (''register-name range requires the Translate register table: '' @ rp_space_name p)
      else case get_space_by_name rg (rp_space_name p) of
             None \<Rightarrow> Inl (''Undefined space: '' @ rp_space_name p)
           | Some h \<Rightarrow>
               (let spc = space_at hp h;
                    lst = (if rp_seen_last p then rp_last p else sp_highest spc)
                in if rp_first p > sp_highest spc \<or> lst > sp_highest spc \<or> lst < rp_first p
                   then Inl ''Illegal range tag''
                   else Inr (sr_new spc (rp_first p) lst)))"

definition sr_get_last_addr_open :: "space_heap \<Rightarrow> registry \<Rightarrow> space_range \<Rightarrow> space_address" where
  "sr_get_last_addr_open hp rg r =
     (if sr_last r = sp_highest (sr_spc r)
      then (case get_next_space_in_order hp rg (Some (sp_identity (sr_spc r))) of
              Some nxt \<Rightarrow> sa_new (space_at hp nxt) 0
            | None \<Rightarrow> \<lparr>sa_base = Maximal, sa_offset = 0\<rparr>)
      else sa_new (sr_spc r) (sr_last r + 1))"

section \<open>References to spaces\<close>

definition read_space :: "registry \<Rightarrow> packed_decode \<Rightarrow> (string + nat) \<times> packed_decode" where
  "read_space rg d = (case pd_type d of
      None \<Rightarrow> (Inl ''Expecting space attribute'', d)
    | Some type_byte \<Rightarrow>
        (let d1 = d\<lparr>pd_type := None\<rparr>;
             tc = type_code type_byte;
             special = (\<lambda>x. case x of Some h \<Rightarrow> Inr h | None \<Rightarrow> Inl ''Cannot marshal special address space'');
             int_len = (case pd_int_len d1 of Some n \<Rightarrow> n | None \<Rightarrow> 0)
         in if tc = TYPECODE_ADDRESSSPACE
            then (case read_integer int_len (d1\<lparr>pd_int_len := None\<rparr>) of (res, d2) \<Rightarrow>
                    (case get_space rg (unat res) of
                       None \<Rightarrow> (Inl ''Unknown address space index'', d2)
                     | Some h \<Rightarrow> (Inr h, d2)))
            else if tc = TYPECODE_SPECIALSPACE
            then (let code = ucast (length_code type_byte) :: u32
                  in (if code = SPECIALSPACE_STACK then special (stack_space rg)
                      else if code = SPECIALSPACE_JOIN then special (join_space rg)
                      else Inl ''Cannot marshal special address space'', d1))
            else (Inl ''Expecting space attribute'',
                  if tc = TYPECODE_STRING
                  then (case pd_string_len d1 of
                          Some len \<Rightarrow> skip_bytes len (d1\<lparr>pd_string_len := None\<rparr>)
                        | None \<Rightarrow> d1)
                  else if tc = TYPECODE_BOOLEAN then d1
                  else skip_bytes int_len (d1\<lparr>pd_int_len := None\<rparr>))))"

section \<open>Round trip of a reference\<close>

text \<open>How a space is referred to: by its index, as the stack or the join space, or not at all.\<close>

definition reference_of :: "space_heap \<Rightarrow> registry \<Rightarrow> nat \<Rightarrow> string + nat" where
  "reference_of hp rg h = (let s = space_at hp h;
       slot = (\<lambda>x. case x of Some k \<Rightarrow> Inr k | None \<Rightarrow> Inl ''Cannot marshal special address space'')
     in case sp_type s of
          Join \<Rightarrow> slot (join_space rg)
        | SpaceBaseType \<Rightarrow> if is_formal_stackspace s then slot (stack_space rg) else Inl ''Cannot marshal special address space''
        | Fspec \<Rightarrow> Inl ''Cannot marshal special address space''
        | Iop \<Rightarrow> Inl ''Cannot marshal special address space''
        | _ \<Rightarrow> Inr h)"

lemma write_space_append: "write_space i s out = out @ write_space i s []"
  using write_integer_append [where out = "out @ header_bytes ATTRIBUTE i"]
    write_integer_append [where out = "header_bytes ATTRIBUTE i"]
  by (cases "sp_type s") (simp_all add: write_space_def write_header_bytes Let_def)

lemma read_special:
  assumes a: "at d (header_bytes ATTRIBUTE i @ ucast (push_bit TYPECODE_SHIFT (ucast TYPECODE_SPECIALSPACE) OR code :: u32) # xs)"
    and i: "i < 0x1000" and c: "code \<in> {SPECIALSPACE_STACK, SPECIALSPACE_JOIN, SPECIALSPACE_FSPEC, SPECIALSPACE_IOP, SPECIALSPACE_SPACEBASE}"
  shows "\<exists>d1 d2. next_attribute_id d = (i, d1) \<and> moved (length (header_bytes ATTRIBUTE i) + 1) d d2
    \<and> read_space rg d1 = (if code = SPECIALSPACE_STACK then (case stack_space rg of Some h \<Rightarrow> Inr h | None \<Rightarrow> Inl ''Cannot marshal special address space'')
        else if code = SPECIALSPACE_JOIN then (case join_space rg of Some h \<Rightarrow> Inr h | None \<Rightarrow> Inl ''Cannot marshal special address space'')
        else Inl ''Cannot marshal special address space'', d2)"
proof -
  let ?tb = "ucast (push_bit TYPECODE_SHIFT (ucast TYPECODE_SPECIALSPACE) OR code :: u32) :: u8"
  have t: "type_code ?tb = TYPECODE_SPECIALSPACE" "ucast (length_code ?tb) = code"
    using c by (auto simp: packed_consts type_code_def length_code_def)
  note nx = next_attribute_at [OF a i]
  let ?d3 = "skip (length (header_bytes ATTRIBUTE i) + 1) d"
  have e: "next_attribute_id d = (i, (set_cursor ?d3)\<lparr>pd_type := Some ?tb\<rparr>)" using nx(1) t(1) by simp
  moreover have "moved (length (header_bytes ATTRIBUTE i) + 1) d ((set_cursor ?d3)\<lparr>pd_type := None\<rparr>)"
    using nx(3) by (intro moved_update moved_set_cursor)
  ultimately show ?thesis
    using t by (intro exI [of _ "(set_cursor ?d3)\<lparr>pd_type := Some ?tb\<rparr>"] exI [of _ "(set_cursor ?d3)\<lparr>pd_type := None\<rparr>"])
      (simp add: read_space_def Let_def packed_consts)
qed

lemma read_indexed:
  assumes a: "at d (header_bytes ATTRIBUTE i @ write_integer (push_bit TYPECODE_SHIFT TYPECODE_ADDRESSSPACE) v [] @ xs)"
    and i: "i < 0x1000" and g: "get_space rg (unat v) = Some h"
  shows "\<exists>d1 d2. next_attribute_id d = (i, d1) \<and> read_space rg d1 = (Inr h, d2)
    \<and> moved (length (header_bytes ATTRIBUTE i @ write_integer (push_bit TYPECODE_SHIFT TYPECODE_ADDRESSSPACE) v [])) d d2"
proof -
  obtain d1 n tb where d1: "next_attribute_id d = (i, d1)" "pd_int_len d1 = Some n" "pd_type d1 = Some tb" "type_code tb = TYPECODE_ADDRESSSPACE"
    and r: "\<forall>d2. moved 0 d1 d2 \<longrightarrow> read_integer n d2 = (v, skip n d2)"
    and m: "moved (length (header_bytes ATTRIBUTE i @ write_integer (push_bit TYPECODE_SHIFT TYPECODE_ADDRESSSPACE) v [])) d (skip n d1)"
    using integer_attribute [OF a i] by auto
  let ?d2 = "d1\<lparr>pd_type := None, pd_int_len := None\<rparr>"
  have "moved 0 d1 ?d2" by (intro moved_update moved_refl)
  then have "read_integer n ?d2 = (v, skip n ?d2)" using r by blast
  then have "read_space rg d1 = (Inr h, skip n ?d2)" using d1 g by (simp add: read_space_def Let_def)
  moreover have "skip n ?d2 = (skip n d1)\<lparr>pd_type := None, pd_int_len := None\<rparr>" by (simp add: skip_def)
  moreover have "moved (length (header_bytes ATTRIBUTE i @ write_integer (push_bit TYPECODE_SHIFT TYPECODE_ADDRESSSPACE) v [])) d
      ((skip n d1)\<lparr>pd_type := None, pd_int_len := None\<rparr>)"
    using m by (intro moved_update)
  ultimately show ?thesis using d1(1) by auto
qed

text \<open>
  Property C24. The encoder of space references and the decoder agree through the manager: in every reachable state, reading
  back the attribute written for a registered space consumes exactly its bytes and gives the space itself when it
  is referred to by index, the stack or join space of the manager when it is one of those, and the
  documented error for the spaces that have no reference.
\<close>

theorem space_reference_roundtrip:
  assumes "reg_reach (hp, rg)" "registered rg h" "num_spaces rg < 2 ^ 31" "i < 0x1000"
    and a: "at d (write_space i (space_at hp h) [] @ xs)"
  shows "\<exists>d1 d2. next_attribute_id d = (i, d1) \<and> read_space rg d1 = (reference_of hp rg h, d2)
    \<and> pd_input d2 = pd_input d \<and> pd_pos d2 = pd_pos d + length (write_space i (space_at hp h) [])"
proof -
  let ?s = "space_at hp h"
  note inv = reg_reach_index [OF assms(1)]
  note ix = by_indexD [OF inv assms(2)]
  have "nat (sp_index ?s) < num_spaces rg" using ix by (auto simp: get_space_def num_spaces_def split: if_splits)
  then have "unat (as_u64 (sp_index ?s)) = nat (sp_index ?s)"
    using ix assms(3) by (simp add: as_u64_def unat_eq_nat_uint uint_word_of_int)
  then have g: "get_space rg (unat (as_u64 (sp_index ?s))) = Some h" using ix by simp
  have "\<exists>d1 d2. next_attribute_id d = (i, d1) \<and> read_space rg d1 = (reference_of hp rg h, d2)
      \<and> moved (length (write_space i ?s [])) d d2"
  proof (cases "sp_type ?s \<in> {Fspec, Iop, Join, SpaceBaseType}")
    case True
    define code where "code = (if sp_type ?s = Fspec then SPECIALSPACE_FSPEC else if sp_type ?s = Iop then SPECIALSPACE_IOP
       else if sp_type ?s = Join then SPECIALSPACE_JOIN
       else if is_formal_stackspace ?s then SPECIALSPACE_STACK else SPECIALSPACE_SPACEBASE)"
    have w: "write_space i ?s [] = header_bytes ATTRIBUTE i @ [ucast (push_bit TYPECODE_SHIFT (ucast TYPECODE_SPECIALSPACE) OR code :: u32)]"
      using True by (auto simp: write_space_def Let_def write_header_bytes code_def)
    have c: "code \<in> {SPECIALSPACE_STACK, SPECIALSPACE_JOIN, SPECIALSPACE_FSPEC, SPECIALSPACE_IOP, SPECIALSPACE_SPACEBASE}"
      by (simp add: code_def)
    have "reference_of hp rg h = (if code = SPECIALSPACE_STACK then (case stack_space rg of Some h \<Rightarrow> Inr h | None \<Rightarrow> Inl ''Cannot marshal special address space'')
        else if code = SPECIALSPACE_JOIN then (case join_space rg of Some h \<Rightarrow> Inr h | None \<Rightarrow> Inl ''Cannot marshal special address space'')
        else Inl ''Cannot marshal special address space'')"
      using True by (auto simp: reference_of_def Let_def code_def packed_consts)
    then show ?thesis using read_special [OF _ assms(4) c, of d xs rg] a unfolding w by auto
  next
    case False
    then have w: "write_space i ?s [] = header_bytes ATTRIBUTE i @ write_integer (push_bit TYPECODE_SHIFT TYPECODE_ADDRESSSPACE) (as_u64 (sp_index ?s)) []"
      using write_integer_append [where out = "header_bytes ATTRIBUTE i"]
      by (cases "sp_type ?s") (simp_all add: write_space_def Let_def write_header_bytes)
    have "reference_of hp rg h = Inr h" using False by (cases "sp_type ?s") (simp_all add: reference_of_def)
    then show ?thesis using read_indexed [OF _ assms(4) g, of d xs] a unfolding w by simp
  qed
  then show ?thesis unfolding moved_def by blast
qed

section \<open>Ranges from attributes\<close>

text \<open>
  A range built from parsed attributes: unless a call was refused for the name, it is built exactly when the name is that of a
  registered space and the bounds are ordered within the space, a missing end standing for the highest offset; it
  is then a range of the kind the range lists take.
\<close>

theorem from_properties_exact:
  assumes "reg_run C (hp, rg)" and "rp_space_name p \<notin> C"
  shows "sr_from_properties hp rg p = Inr r \<longleftrightarrow>
    \<not> rp_is_register p \<and> (\<exists>h. registered rg h \<and> name_at hp h = rp_space_name p
      \<and> r = sr_new (space_at hp h) (rp_first p) (if rp_seen_last p then rp_last p else sp_highest (space_at hp h))
      \<and> range_over hp rg r \<and> sr_last r \<le> sp_highest (space_at hp h))"
proof -
  have nm: "get_space_by_name rg n = Some h \<longleftrightarrow> registered rg h \<and> name_at hp h = n" if "n = rp_space_name p" for n h
    using reg_run_inv [OF assms(1)] assms(2) that by (simp add: reg_inv_but_def get_space_by_name_def) (rule by_name_but_iff, blast+)
  show ?thesis
  proof (cases "get_space_by_name rg (rp_space_name p)")
    case None
    then show ?thesis using nm [of "rp_space_name p"] by (auto simp: sr_from_properties_def)
  next
    case (Some h)
    then have uniq: "registered rg k \<and> name_at hp k = rp_space_name p \<and> Q \<longleftrightarrow> k = h \<and> Q" for k Q
      using nm [of "rp_space_name p" k] nm [of "rp_space_name p" h] Some by (metis option.inject)
    define lst where "lst = (if rp_seen_last p then rp_last p else sp_highest (space_at hp h))"
    have "sr_from_properties hp rg p = Inr r \<longleftrightarrow> \<not> rp_is_register p
        \<and> r = sr_new (space_at hp h) (rp_first p) lst \<and> rp_first p \<le> lst \<and> lst \<le> sp_highest (space_at hp h)"
      using Some order_trans [of "rp_first p" lst "sp_highest (space_at hp h)"]
      by (auto simp: sr_from_properties_def Let_def lst_def [symmetric] not_less split: if_splits)
    moreover have "registered rg h" using uniq [of h True] by simp
    ultimately show ?thesis unfolding uniq by (auto simp: lst_def range_over_def sr_new_def)
  qed
qed

section \<open>The end of a range\<close>

lemma in_set_drop: "x \<in> set (drop n xs) \<longleftrightarrow> (\<exists>m. n \<le> m \<and> m < length xs \<and> xs ! m = x)"
proof
  assume "x \<in> set (drop n xs)"
  then obtain i where "i < length xs - n" "xs ! (n + i) = x" by (auto simp: in_set_conv_nth)
  then show "\<exists>m. n \<le> m \<and> m < length xs \<and> xs ! m = x" by (intro exI [of _ "n + i"]) simp
next
  assume "\<exists>m. n \<le> m \<and> m < length xs \<and> xs ! m = x"
  then obtain m where "n \<le> m" "m < length xs" "xs ! m = x" by blast
  then show "x \<in> set (drop n xs)" by (auto simp: in_set_conv_nth intro!: exI [of _ "m - n"])
qed

lemma next_space:
  assumes "by_index hp rg" "num_spaces rg < 2 ^ 31" "registered rg h"
  shows "(get_next_space_in_order hp rg (Some h) = None \<longrightarrow> (\<forall>k. registered rg k \<longrightarrow> index_at hp k \<le> index_at hp h))
    \<and> (get_next_space_in_order hp rg (Some h) = Some n \<longrightarrow> registered rg n \<and> index_at hp h < index_at hp n
         \<and> (\<forall>k. registered rg k \<and> index_at hp k < index_at hp n \<longrightarrow> index_at hp k \<le> index_at hp h))"
proof -
  let ?j = "nat (index_at hp h)" and ?bl = "base_list rg"
  note ih = by_indexD [OF assms(1,3)]
  have nx: "get_next_space_in_order hp rg (Some h) = first_some (drop (Suc ?j) ?bl)"
    using next_in_order [OF assms(1,2)] ih by blast
  have pos: "index_at hp k \<le> index_at hp h \<or> k \<in> set (somes (drop (Suc ?j) ?bl))" if k: "registered rg k" for k
  proof (cases "index_at hp k \<le> index_at hp h")
    case False
    have "get_space rg (nat (index_at hp k)) = Some k" using by_indexD [OF assms(1) k] by blast
    then have "nat (index_at hp k) < length ?bl \<and> ?bl ! nat (index_at hp k) = Some k"
      by (simp add: get_space_def split: if_splits)
    moreover have "Suc ?j \<le> nat (index_at hp k)" using False ih by linarith
    ultimately have "Some k \<in> set (drop (Suc ?j) ?bl)"
      unfolding in_set_drop by blast
    then show ?thesis by (simp add: set_somes)
  qed simp
  have later: "f \<in> set (somes (drop (Suc i) ?bl)) \<Longrightarrow> int i < index_at hp f" for f i
  proof -
    assume "f \<in> set (somes (drop (Suc i) ?bl))"
    then obtain m where "Suc i \<le> m" "m < length ?bl" "?bl ! m = Some f" by (auto simp: set_somes in_set_drop)
    moreover from this have "get_space rg m = Some f" by (simp add: get_space_def)
    ultimately show ?thesis using assms(1) by (fastforce simp: by_index_def)
  qed
  show ?thesis
  proof (cases "first_some (drop (Suc ?j) ?bl)")
    case None
    then show ?thesis using nx pos first_some_somes(1) [OF None] by simp
  next
    case (Some x)
    obtain m where m: "m < length (drop (Suc ?j) ?bl)" "drop (Suc ?j) ?bl ! m = Some x"
        "somes (drop (Suc ?j) ?bl) = x # somes (drop (Suc m) (drop (Suc ?j) ?bl))"
      using first_some_somes(2) [OF Some] by (elim exE conjE)
    have gx: "get_space rg (Suc ?j + m) = Some x" using m(1,2) by (simp add: get_space_def)
    then have ix: "index_at hp x = int (Suc ?j + m)" using assms(1) by (simp add: by_index_def)
    have dd: "drop (Suc m) (drop (Suc ?j) ?bl) = drop (Suc (Suc ?j + m)) ?bl"
      unfolding drop_drop by (rule arg_cong [where f = "\<lambda>i. drop i ?bl"]) simp
    have "index_at hp k \<le> index_at hp h" if "registered rg k" "index_at hp k < index_at hp x" for k
      using pos [OF that(1)] that(2) m(3) later [of k "Suc ?j + m"] ix unfolding dd by auto
    moreover have "registered rg x" using gx get_space_registered by blast
    moreover have "index_at hp h < index_at hp x" using ix ih by simp
    ultimately show ?thesis using nx Some by (cases "n = x") auto
  qed
qed

lemma cmp_registered:
  assumes "by_index hp rg" "handles_agree hp" "registered rg a" "registered rg b"
  shows "sa_cmp (sa_new (space_at hp a) x) (sa_new (space_at hp b) y) =
    (if a = b then cmp x y else cmp (index_at hp a) (index_at hp b))"
  using assms(2) inj_on_eq_iff [OF index_inj [OF assms(1)], of a b] assms(3,4)
  by (auto simp: sa_cmp_def same_base_def same_space_def sa_new_def sa_is_invalid_def handles_agree_def cmp_def)

lemma less_succ_iff:
  assumes "(lst :: u64) < bound"
  shows "off < lst + 1 \<longleftrightarrow> off \<le> lst"
proof -
  have "uint lst + 1 < 2 ^ 64" using assms uint_lt_u64 [of bound] by (simp add: word_less_def)
  then have "uint (lst + 1) = uint lst + 1" by (simp add: uint_plus_if')
  then show ?thesis by (simp add: word_less_def word_le_def)
qed

text \<open>
  The open end of a range is the next address in the order of the manager: among the addresses of
  registered spaces, those before the open end are exactly those that are not after the last address of the range.
\<close>

theorem last_addr_open_next:
  assumes "reg_reach (hp, rg)" "handles_agree hp" "num_spaces rg < 2 ^ 31" "registered rg h" "registered rg k"
    and "lst \<le> sp_highest (space_at hp h)" "off \<le> sp_highest (space_at hp k)"
  shows "sa_cmp (sa_new (space_at hp k) off) (sr_get_last_addr_open hp rg (sr_new (space_at hp h) fst_off lst)) = Less \<longleftrightarrow>
    sa_cmp (sa_new (space_at hp k) off) (sa_new (space_at hp h) lst) \<noteq> Greater"
proof -
  let ?a = "sa_new (space_at hp k) off"
  note ix = reg_reach_index [OF assms(1)]
  note cr = cmp_registered [OF ix assms(2)]
  have inj: "index_at hp x = index_at hp y \<longleftrightarrow> x = y" if "registered rg x" "registered rg y" for x y
    using inj_on_eq_iff [OF index_inj [OF ix]] that by simp
  have id: "sp_identity (space_at hp h) = h" using assms(2) by (simp add: handles_agree_def)
  show ?thesis
  proof (cases "lst = sp_highest (space_at hp h)")
    case False
    then have "off < lst + 1 \<longleftrightarrow> off \<le> lst" using assms(6) less_succ_iff [of lst "sp_highest (space_at hp h)" off] by simp
    then show ?thesis
      using False cr [OF assms(5,4)] inj [OF assms(5,4)] by (auto simp: sr_get_last_addr_open_def sr_new_def cmp_def)
  next
    case T: True
    show ?thesis
    proof (cases "get_next_space_in_order hp rg (Some h)")
      case None
      then have "index_at hp k \<le> index_at hp h" using next_space [OF ix assms(3,4)] assms(5) by blast
      moreover have "sa_cmp ?a (sr_get_last_addr_open hp rg (sr_new (space_at hp h) fst_off lst)) = Less"
        using None T id by (simp add: sr_get_last_addr_open_def sr_new_def sa_cmp_def same_base_def sa_new_def sa_is_invalid_def)
      ultimately show ?thesis using cr [OF assms(5,4), of off lst] assms(7) T by (auto simp: cmp_def)
    next
      case (Some n)
      then have n: "registered rg n" "index_at hp h < index_at hp n"
          "index_at hp k < index_at hp n \<longrightarrow> index_at hp k \<le> index_at hp h"
        using next_space [OF ix assms(3,4), of n] assms(5) by blast+
      have "sr_get_last_addr_open hp rg (sr_new (space_at hp h) fst_off lst) = sa_new (space_at hp n) 0"
        using Some T id by (simp add: sr_get_last_addr_open_def sr_new_def)
      moreover have "cmp off lst \<noteq> Greater" if "k = h" using that assms(7) T by (auto simp: cmp_def)
      moreover have "cmp off 0 \<noteq> Less" by (simp add: cmp_def)
      moreover have "cmp (index_at hp k) (index_at hp n) = Less \<longleftrightarrow> cmp (index_at hp k) (index_at hp h) \<noteq> Greater" if "k \<noteq> n"
        using n(2,3) by (auto simp: cmp_def)
      moreover have "cmp (index_at hp n) (index_at hp h) = Greater" "cmp (index_at hp h) (index_at hp n) = Less"
        using n(2) by (auto simp: cmp_def)
      ultimately show ?thesis
        using cr [OF assms(5) n(1), of off 0] cr [OF assms(5,4), of off lst] n(2) by (cases "k = h"; cases "k = n") auto
    qed
  qed
qed

section \<open>Witnesses\<close>

lemma demo_registered: "registered (snd demo) 1" "num_spaces (snd demo) < 2 ^ 31"
  by (simp_all add: demo_base num_spaces_def)

theorem space_reference_roundtrip_witness:
  "\<exists>d1 d2. next_attribute_id (pd_new (write_space 7 (space_at (fst demo) 1) [])) = (7, d1)
     \<and> read_space (snd demo) d1 = (Inr 1, d2)"
proof -
  have a: "at (pd_new (write_space 7 (space_at (fst demo) 1) [])) (write_space 7 (space_at (fst demo) 1) [] @ [])"
    by (simp add: at_def pd_new_def)
  have "reference_of (fst demo) (snd demo) 1 = Inr 1" by code_simp
  then show ?thesis
    using space_reference_roundtrip [OF demo_reach demo_registered, of 7, OF _ a] by auto
qed

theorem from_properties_exact_witness:
  "sr_from_properties (fst demo) (snd demo)
     \<lparr>rp_space_name = ''ram'', rp_first = 16, rp_last = 31, rp_is_register = False, rp_seen_last = True\<rparr>
   = Inr (sr_new (space_at (fst demo) 1) 16 31)"
proof -
  let ?p = "\<lparr>rp_space_name = ''ram'', rp_first = 16, rp_last = 31, rp_is_register = False, rp_seen_last = True\<rparr>"
  have "rp_space_name ?p \<notin> {}" by simp
  note exact = from_properties_exact [OF demo_run this]
  have "name_at (fst demo) 1 = ''ram''" "31 \<le> sp_highest (space_at (fst demo) 1)" by code_simp+
  then show ?thesis
    unfolding exact using demo_registered(1)
    by (auto simp: range_over_def sr_new_def intro!: exI [of _ 1])
qed

theorem last_addr_open_next_witness:
  "sa_cmp (sa_new (space_at (fst demo) 2) 0)
      (sr_get_last_addr_open (fst demo) (snd demo) (sr_new (space_at (fst demo) 1) 0 (sp_highest (space_at (fst demo) 1)))) \<noteq> Less"
proof -
  have r: "registered (snd demo) 2" by (simp add: demo_base)
  have "sa_cmp (sa_new (space_at (fst demo) 2) 0) (sa_new (space_at (fst demo) 1) (sp_highest (space_at (fst demo) 1))) = Greater"
    by code_simp
  then show ?thesis
    using last_addr_open_next [OF demo_reach demo_agree demo_registered(2,1) r, of "sp_highest (space_at (fst demo) 1)" 0 0] by simp
qed

end
