(* ===== verification/Crc32.thy ===== *)
theory Crc32
  imports Rust_Prelude
begin

text \<open>
  The cyclic redundancy check of src/src/crc32.rs: the table and the step that feeds one byte. The step is shown to be eight
  steps of the bitwise register for the reversed polynomial \<open>0xEDB88320\<close>.
\<close>

unbundle bit_operations_syntax

definition CRC32_TABLE :: "u32 list" where
  "CRC32_TABLE = [
     0x0, 0x77073096, 0xee0e612c, 0x990951ba, 0x76dc419, 0x706af48f, 0xe963a535, 0x9e6495a3,
     0xedb8832, 0x79dcb8a4, 0xe0d5e91e, 0x97d2d988, 0x9b64c2b, 0x7eb17cbd, 0xe7b82d07, 0x90bf1d91,
     0x1db71064, 0x6ab020f2, 0xf3b97148, 0x84be41de, 0x1adad47d, 0x6ddde4eb, 0xf4d4b551, 0x83d385c7,
     0x136c9856, 0x646ba8c0, 0xfd62f97a, 0x8a65c9ec, 0x14015c4f, 0x63066cd9, 0xfa0f3d63, 0x8d080df5,
     0x3b6e20c8, 0x4c69105e, 0xd56041e4, 0xa2677172, 0x3c03e4d1, 0x4b04d447, 0xd20d85fd, 0xa50ab56b,
     0x35b5a8fa, 0x42b2986c, 0xdbbbc9d6, 0xacbcf940, 0x32d86ce3, 0x45df5c75, 0xdcd60dcf, 0xabd13d59,
     0x26d930ac, 0x51de003a, 0xc8d75180, 0xbfd06116, 0x21b4f4b5, 0x56b3c423, 0xcfba9599, 0xb8bda50f,
     0x2802b89e, 0x5f058808, 0xc60cd9b2, 0xb10be924, 0x2f6f7c87, 0x58684c11, 0xc1611dab, 0xb6662d3d,
     0x76dc4190, 0x1db7106, 0x98d220bc, 0xefd5102a, 0x71b18589, 0x6b6b51f, 0x9fbfe4a5, 0xe8b8d433,
     0x7807c9a2, 0xf00f934, 0x9609a88e, 0xe10e9818, 0x7f6a0dbb, 0x86d3d2d, 0x91646c97, 0xe6635c01,
     0x6b6b51f4, 0x1c6c6162, 0x856530d8, 0xf262004e, 0x6c0695ed, 0x1b01a57b, 0x8208f4c1, 0xf50fc457,
     0x65b0d9c6, 0x12b7e950, 0x8bbeb8ea, 0xfcb9887c, 0x62dd1ddf, 0x15da2d49, 0x8cd37cf3, 0xfbd44c65,
     0x4db26158, 0x3ab551ce, 0xa3bc0074, 0xd4bb30e2, 0x4adfa541, 0x3dd895d7, 0xa4d1c46d, 0xd3d6f4fb,
     0x4369e96a, 0x346ed9fc, 0xad678846, 0xda60b8d0, 0x44042d73, 0x33031de5, 0xaa0a4c5f, 0xdd0d7cc9,
     0x5005713c, 0x270241aa, 0xbe0b1010, 0xc90c2086, 0x5768b525, 0x206f85b3, 0xb966d409, 0xce61e49f,
     0x5edef90e, 0x29d9c998, 0xb0d09822, 0xc7d7a8b4, 0x59b33d17, 0x2eb40d81, 0xb7bd5c3b, 0xc0ba6cad,
     0xedb88320, 0x9abfb3b6, 0x3b6e20c, 0x74b1d29a, 0xead54739, 0x9dd277af, 0x4db2615, 0x73dc1683,
     0xe3630b12, 0x94643b84, 0xd6d6a3e, 0x7a6a5aa8, 0xe40ecf0b, 0x9309ff9d, 0xa00ae27, 0x7d079eb1,
     0xf00f9344, 0x8708a3d2, 0x1e01f268, 0x6906c2fe, 0xf762575d, 0x806567cb, 0x196c3671, 0x6e6b06e7,
     0xfed41b76, 0x89d32be0, 0x10da7a5a, 0x67dd4acc, 0xf9b9df6f, 0x8ebeeff9, 0x17b7be43, 0x60b08ed5,
     0xd6d6a3e8, 0xa1d1937e, 0x38d8c2c4, 0x4fdff252, 0xd1bb67f1, 0xa6bc5767, 0x3fb506dd, 0x48b2364b,
     0xd80d2bda, 0xaf0a1b4c, 0x36034af6, 0x41047a60, 0xdf60efc3, 0xa867df55, 0x316e8eef, 0x4669be79,
     0xcb61b38c, 0xbc66831a, 0x256fd2a0, 0x5268e236, 0xcc0c7795, 0xbb0b4703, 0x220216b9, 0x5505262f,
     0xc5ba3bbe, 0xb2bd0b28, 0x2bb45a92, 0x5cb36a04, 0xc2d7ffa7, 0xb5d0cf31, 0x2cd99e8b, 0x5bdeae1d,
     0x9b64c2b0, 0xec63f226, 0x756aa39c, 0x26d930a, 0x9c0906a9, 0xeb0e363f, 0x72076785, 0x5005713,
     0x95bf4a82, 0xe2b87a14, 0x7bb12bae, 0xcb61b38, 0x92d28e9b, 0xe5d5be0d, 0x7cdcefb7, 0xbdbdf21,
     0x86d3d2d4, 0xf1d4e242, 0x68ddb3f8, 0x1fda836e, 0x81be16cd, 0xf6b9265b, 0x6fb077e1, 0x18b74777,
     0x88085ae6, 0xff0f6a70, 0x66063bca, 0x11010b5c, 0x8f659eff, 0xf862ae69, 0x616bffd3, 0x166ccf45,
     0xa00ae278, 0xd70dd2ee, 0x4e048354, 0x3903b3c2, 0xa7672661, 0xd06016f7, 0x4969474d, 0x3e6e77db,
     0xaed16a4a, 0xd9d65adc, 0x40df0b66, 0x37d83bf0, 0xa9bcae53, 0xdebb9ec5, 0x47b2cf7f, 0x30b5ffe9,
     0xbdbdf21c, 0xcabac28a, 0x53b39330, 0x24b4a3a6, 0xbad03605, 0xcdd70693, 0x54de5729, 0x23d967bf,
     0xb3667a2e, 0xc4614ab8, 0x5d681b02, 0x2a6f2b94, 0xb40bbe37, 0xc30c8ea1, 0x5a05df1b, 0x2d02ef8d]"

text \<open>The index is masked to the size of the table, so the access does not panic.\<close>

definition crc_update :: "u32 \<Rightarrow> u32 \<Rightarrow> u32" where
  "crc_update reg val = CRC32_TABLE ! unat ((reg XOR val) AND 0xff) XOR drop_bit 8 reg"

section \<open>The bitwise register\<close>

definition crc_bit :: "u32 \<Rightarrow> u32" where
  "crc_bit x = drop_bit 1 x XOR (if bit x 0 then 0xEDB88320 else 0)"

definition crc_byte :: "u32 \<Rightarrow> u32" where
  "crc_byte x = (crc_bit ^^ 8) x"

lemma crc_bit_xor: "crc_bit (x XOR y) = crc_bit x XOR crc_bit y"
  by (rule bit_word_eqI) (auto simp: crc_bit_def bit_simps)

lemma crc_bit_power_xor: "(crc_bit ^^ n) (x XOR y) = (crc_bit ^^ n) x XOR (crc_bit ^^ n) y"
  by (induction n) (simp_all add: crc_bit_xor)

lemma crc_bit_power_shift: "(\<And>i. i < n \<Longrightarrow> \<not> bit x i) \<Longrightarrow> (crc_bit ^^ n) x = drop_bit n x"
proof (induction n arbitrary: x)
  case (Suc n)
  have "crc_bit x = drop_bit 1 x" using Suc.prems [of 0] by (simp add: crc_bit_def)
  moreover have "\<not> bit (drop_bit 1 x) i" if "i < n" for i using Suc.prems [of "Suc i"] that by (simp add: bit_drop_bit_eq)
  ultimately have "(crc_bit ^^ n) (crc_bit x) = drop_bit n (drop_bit 1 x)" using Suc.IH by simp
  then show ?case by (simp add: funpow_swap1 drop_bit_drop_bit)
qed simp

text \<open>The table is spanned by its entries at the powers of two.\<close>

definition span :: "nat \<Rightarrow> u32 list \<Rightarrow> u32 list" where
  "span k xs = xs @ map (\<lambda>x. crc_byte (2 ^ k) XOR x) xs"

primrec spans :: "nat \<Rightarrow> u32 list" where
  "spans 0 = [0]"
| "spans (Suc k) = span k (spans k)"

lemma crc_byte_xor: "crc_byte (x XOR y) = crc_byte x XOR crc_byte y"
  by (simp add: crc_byte_def crc_bit_power_xor del: funpow.simps)

lemma crc_byte_powers:
  "crc_byte 1 = 0x77073096" "crc_byte 2 = 0xee0e612c" "crc_byte 4 = 0x76dc419" "crc_byte 8 = 0xedb8832"
  "crc_byte 16 = 0x1db71064" "crc_byte 32 = 0x3b6e20c8" "crc_byte 64 = 0x76dc4190" "crc_byte 128 = 0xedb88320"
  by code_simp+

lemma power_plus_xor:
  assumes "i < 2 ^ k"
  shows "of_nat (2 ^ k + i) = (2 ^ k XOR of_nat i :: u32)"
proof -
  have "\<not> bit i k" using assms by (simp add: bit_iff_odd)
  then have "2 ^ k AND of_nat i = (0 :: u32)"
    by (intro bit_word_eqI) (auto simp: bit_simps)
  then have "2 ^ k + of_nat i = (2 ^ k XOR of_nat i :: u32)" by (rule disjunctive_add_eq_xor)
  then show ?thesis by simp
qed

lemma span_entries:
  assumes "xs = map (\<lambda>i. crc_byte (of_nat i)) [0..<2 ^ k]"
  shows "span k xs = map (\<lambda>i. crc_byte (of_nat i)) [0..<2 ^ Suc k]"
proof -
  have "[0..<2 ^ Suc k] = [0..<2 ^ k] @ map (\<lambda>i. 2 ^ k + i) [0..<2 ^ k :: nat]"
    using upt_add_eq_append [of 0 "2 ^ k" "2 ^ k"] map_add_upt [of "2 ^ k" "2 ^ k"] by (simp add: mult_2 add.commute)
  moreover have "crc_byte (of_nat (2 ^ k + i)) = crc_byte (2 ^ k) XOR crc_byte (of_nat i)" if "i < 2 ^ k" for i
    by (simp only: power_plus_xor [OF that] crc_byte_xor)
  ultimately show ?thesis by (simp add: span_def assms del: of_nat_add)
qed

lemma spans_entries: "spans k = map (\<lambda>i. crc_byte (of_nat i)) [0..<2 ^ k]"
proof (induction k)
  case 0
  show ?case by (simp add: crc_byte_def crc_bit_power_shift)
next
  case (Suc k)
  then show ?case by (simp only: spans.simps span_entries)
qed

lemma spans_table: "spans 8 = CRC32_TABLE"
  by (simp add: eval_nat_numeral span_def crc_byte_powers CRC32_TABLE_def)

lemma table_entries: "CRC32_TABLE = map (\<lambda>i. crc_byte (of_nat i)) [0..<256]"
  using spans_entries [of 8] by (simp add: spans_table)

text \<open>
  Property C8. The table-driven step is the bitwise one: feeding a byte is eight steps of the shift register for the reversed
  polynomial on the register with the byte added to its low end.
\<close>

theorem crc_update_bitwise: "crc_update reg val = (crc_bit ^^ 8) (reg XOR (val AND 0xff))"
proof -
  let ?x = "reg XOR (val AND 0xff)" and ?low = "(reg XOR val) AND 0xff"
  have m: "(0xff :: u32) = mask 8" by (simp add: mask_eq_exp_minus_1)
  have split: "?x = ?low XOR (reg AND NOT 0xff)" unfolding m by (rule bit_word_eqI) (auto simp: bit_simps)
  have "(crc_bit ^^ 8) (reg AND NOT 0xff) = drop_bit 8 (reg AND NOT 0xff)"
    unfolding m by (rule crc_bit_power_shift) (simp add: bit_simps)
  also have "\<dots> = drop_bit 8 reg" unfolding m by (rule bit_word_eqI) (auto simp: bit_simps dest: bit_imp_le_length)
  finally have high: "(crc_bit ^^ 8) (reg AND NOT 0xff) = drop_bit 8 reg" .
  have "unat ?low < 2 ^ 8" unfolding m take_bit_eq_mask [symmetric] by (simp only: unsigned_take_bit_eq take_bit_nat_less_exp)
  then have "CRC32_TABLE ! unat ?low = (crc_bit ^^ 8) ?low" by (simp add: table_entries crc_byte_def del: funpow.simps)
  then show ?thesis unfolding split crc_bit_power_xor high by (simp add: crc_update_def)
qed

end
