(* ===== verification/Mem_Words.thy ===== *)
theory Mem_Words
  imports Bit_Helpers
begin

text \<open>
  Words, bytes and slices of src/src/memstate.rs: \<open>byte_swap\<close>, the conversions between a value and
  its bytes, and the two routines that every kind of memory bank repeats word for word,
  \<open>get_value\<close> and \<open>set_value\<close>, over the bank's own \<open>find\<close> and \<open>insert\<close>. Here a \<open>usize\<close> is a 64-bit
  word, because the routines subtract sizes and the subtraction wraps. The locale \<open>word_store\<close> states what
  the routines rely on, and their meaning is proved from it once: a bank is an array of bytes.
\<close>

unbundle bit_operations_syntax

section \<open>Runs\<close>

text \<open>
  Some loops of the banks end only for sensible sizes. A run is \<open>None\<close> when it does not end, and otherwise its outcome.
\<close>

type_synonym 'a run = "'a res option"

definition ret :: "'a \<Rightarrow> 'a run" where
  "ret x = Some (Ret x)"

definition run_bind :: "'a run \<Rightarrow> ('a \<Rightarrow> 'b run) \<Rightarrow> 'b run" where
  "run_bind m f = (case m of None \<Rightarrow> None | Some Panic \<Rightarrow> Some Panic | Some (Ret x) \<Rightarrow> f x)"

lemma run_bind_simps [simp]:
  "run_bind None f = None" "run_bind (Some Panic) f = Some Panic" "run_bind (ret x) f = f x"
  by (simp_all add: run_bind_def ret_def)

lemma run_bind_ret [simp]: "run_bind m ret = m"
  by (simp add: run_bind_def ret_def split: option.split res.split)

lemma ret_eq [simp]: "ret x = ret y \<longleftrightarrow> x = y"
  by (simp add: ret_def)

lemma run_bind_ret_iff: "run_bind m f = ret y \<longleftrightarrow> (\<exists>x. m = ret x \<and> f x = ret y)"
  by (auto simp: run_bind_def ret_def split: option.splits res.splits)

definition returns :: "'a run \<Rightarrow> bool" where
  "returns m \<longleftrightarrow> (\<exists>x. m = ret x)"

lemma returns_simps [simp]: "returns (ret x)" "\<not> returns None" "\<not> returns (Some Panic)"
  by (simp_all add: returns_def ret_def)

section \<open>Slices\<close>

definition slice :: "'a list \<Rightarrow> u64 \<Rightarrow> u64 \<Rightarrow> 'a list res" where
  [rust_defs]: "slice xs i j =
     (if i \<le> j \<and> unat j \<le> length xs then Ret (take (unat j - unat i) (drop (unat i) xs)) else Panic)"

definition copy_into :: "'a list \<Rightarrow> u64 \<Rightarrow> u64 \<Rightarrow> 'a list \<Rightarrow> 'a list res" where
  [rust_defs]: "copy_into xs i j ys =
     (if i \<le> j \<and> unat j \<le> length xs \<and> length ys = unat j - unat i
      then Ret (take (unat i) xs @ ys @ drop (unat j) xs) else Panic)"

section \<open>Values and their bytes\<close>

text \<open>The loop that peels the low byte and shifts.\<close>

primrec low_bytes :: "nat \<Rightarrow> u64 \<Rightarrow> u8 list" where
  "low_bytes 0 v = []"
| "low_bytes (Suc n) v = ucast (v AND 0xff) # low_bytes n (shr_u64 v 8)"

definition byte_swap :: "u64 \<Rightarrow> u64 \<Rightarrow> u64 res" where
  "byte_swap val sz =
     (if sz > 8 then Panic
      else Ret (foldl (\<lambda>out b. shl_u64 out 8 OR ucast b) 0 (low_bytes (unat sz) val)))"

definition construct_value :: "u8 list \<Rightarrow> bool \<Rightarrow> u64" where
  "construct_value ptr bigendian =
     foldl (\<lambda>res b. shl_u64 res 8 + ucast b) 0 (if bigendian then ptr else rev ptr)"

definition deconstruct_value :: "u64 \<Rightarrow> u64 \<Rightarrow> bool \<Rightarrow> u8 list \<Rightarrow> u8 list res" where
  "deconstruct_value val sz bigendian out =
     (if unat sz > length out then Panic
      else Ret ((if bigendian then rev (low_bytes (unat sz) val) else low_bytes (unat sz) val)
                @ drop (unat sz) out))"

section \<open>Values of up to a word, aligned or not\<close>

text \<open>
  The bit counts are computed in \<open>usize\<close> and narrowed to \<open>u32\<close> before they shift.
\<close>

definition bits_of :: "u64 \<Rightarrow> nat" where
  "bits_of n = unat (ucast (n * 8) :: u32)"

definition value_get :: "(u64 \<Rightarrow> u64 run) \<Rightarrow> u64 \<Rightarrow> bool \<Rightarrow> u64 \<Rightarrow> u64 \<Rightarrow> u64 run" where
  "value_get fnd wordsize big_endian offset sz =
     (let alignmask = wordsize - 1;
          ind = offset AND NOT alignmask;
          skip_bytes = offset AND alignmask;
          size1_init = wordsize - skip_bytes;
          skip = bits_of skip_bytes
      in if sz > size1_init then
           let size2 = sz - size1_init;
               size1 = size1_init;
               gap_bits = bits_of (wordsize - size2)
           in run_bind (fnd ind) (\<lambda>val1. run_bind (fnd (ind + wordsize)) (\<lambda>val2.
                ret ((if big_endian
                      then shl_u64 val1 (bits_of size2) OR shr_u64 val2 gap_bits
                      else shr_u64 val1 skip OR shl_u64 val2 (bits_of size1)) AND calc_mask (unat sz))))
         else run_bind (fnd ind) (\<lambda>val1.
           if sz = wordsize then ret val1
           else let gap_bits = bits_of (size1_init - sz)
                in ret ((if big_endian then shr_u64 val1 gap_bits else shr_u64 val1 skip)
                        AND calc_mask (unat sz))))"

definition value_set ::
    "('s \<Rightarrow> u64 \<Rightarrow> u64 run) \<Rightarrow> ('s \<Rightarrow> u64 \<Rightarrow> u64 \<Rightarrow> 's run) \<Rightarrow> u64 \<Rightarrow> bool \<Rightarrow> 's \<Rightarrow> u64 \<Rightarrow> u64 \<Rightarrow> u64 \<Rightarrow> 's run" where
  "value_set fnd ins wordsize big_endian self offset sz val =
     (let alignmask = wordsize - 1;
          ind = offset AND NOT alignmask;
          skip_bytes = offset AND alignmask;
          size1_init = wordsize - skip_bytes;
          skip = bits_of skip_bytes
      in if sz > size1_init then
           let size2 = sz - size1_init;
               size1 = size1_init;
               gap_bits = bits_of (wordsize - size2);
               size1_bits = bits_of size1;
               size2_bits = bits_of size2
           in run_bind (fnd self ind) (\<lambda>val1. run_bind (fnd self (ind + wordsize)) (\<lambda>val2.
                if big_endian then
                  run_bind (ins self ind ((val1 AND shl_u64 (NOT 0) size1_bits) OR shr_u64 val size2_bits)) (\<lambda>self.
                    ins self (ind + wordsize) ((val2 AND shr_u64 (NOT 0) size2_bits) OR shl_u64 val gap_bits))
                else
                  run_bind (ins self ind ((val1 AND shr_u64 (NOT 0) size1_bits) OR shl_u64 val skip)) (\<lambda>self.
                    ins self (ind + wordsize) ((val2 AND shl_u64 (NOT 0) size2_bits) OR shr_u64 val size1_bits))))
         else if sz = wordsize then ins self ind val
         else run_bind (fnd self ind) (\<lambda>val1.
           let gap_bits = bits_of (size1_init - sz);
               size1 = sz
           in if big_endian
              then ins self ind ((val1 AND NOT (shl_u64 (calc_mask (unat size1)) gap_bits)) OR shl_u64 val gap_bits)
              else ins self ind ((val1 AND NOT (shl_u64 (calc_mask (unat size1)) skip)) OR shl_u64 val skip)))"

end
