(* ===== verification/Mem_Bytes.thy ===== *)
theory Mem_Bytes
  imports Mem_Words
begin

text \<open>
  Memory as an array of bytes. The abstract memory is a function from addresses to bytes with a read and a write of
  \<open>n\<close> consecutive bytes in either byte order. A client of the locale \<open>word_store\<close>, which says what a word-sized
  \<open>find\<close> and \<open>insert\<close> promise on aligned addresses, gets this memory from the routines \<open>value_get\<close> and
  \<open>value_set\<close>: they refine the read and the write, for every offset, aligned or not.
\<close>

unbundle bit_operations_syntax

section \<open>Bytes of a word\<close>

definition word_byte :: "u64 \<Rightarrow> nat \<Rightarrow> u8" where
  "word_byte w k = ucast (drop_bit (8 * k) w)"

lemma bit_word_byte: "bit (word_byte w k) i \<longleftrightarrow> i < 8 \<and> bit w (8 * k + i)"
  by (auto simp: word_byte_def bit_simps dest: bit_imp_le_length)

lemma word_byte_eqI:
  assumes "\<And>i. i < 8 \<Longrightarrow> bit w (8 * k + i) \<longleftrightarrow> bit v (8 * j + i)"
  shows "word_byte w k = word_byte v j"
  by (rule bit_word_eqI) (simp add: bit_word_byte assms)

lemma word_eq_bytesI:
  assumes "\<And>k. k < 8 \<Longrightarrow> word_byte w k = word_byte v k"
  shows "w = v"
proof (rule bit_word_eqI)
  fix i assume "i < LENGTH(64)"
  then have "i div 8 < 8" and "i = 8 * (i div 8) + i mod 8" by simp_all
  with assms [of "i div 8"] show "bit w i \<longleftrightarrow> bit v i"
    by (metis bit_word_byte mod_less_divisor zero_less_numeral)
qed

lemma word_byte_0 [simp]: "word_byte 0 k = 0"
  by (simp add: word_byte_def)

lemma fits_bit:
  fixes v :: u64
  assumes "v \<le> mask m" and "m \<le> i"
  shows "\<not> bit v i"
proof (cases "i < 64")
  case True
  then have "uint v < 2 ^ m" using assms by (intro le_mask_u64_iff [THEN iffD1]) simp_all
  then have "v AND mask m = v" by (rule mask_eq_iff [THEN iffD2])
  then have "bit v i \<longleftrightarrow> bit (v AND mask m) i" by (simp only:)
  also have "\<dots> \<longleftrightarrow> False" using assms(2) by (simp add: bit_and_iff bit_mask_iff)
  finally show ?thesis by (simp only: not_False_eq_True)
next
  case False
  then show ?thesis using bit_imp_le_length [of v i] by auto
qed

text \<open>The three ways a part of a word is replaced.\<close>

lemma byte_inside:
  assumes "v \<le> mask (8 * n)" and "s + n \<le> 8" and "k < 8"
  shows "word_byte ((w AND NOT (push_bit (8 * s) (mask (8 * n)))) OR push_bit (8 * s) v) k =
    (if s \<le> k \<and> k < s + n then word_byte v (k - s) else word_byte w k)"
proof (cases "s \<le> k \<and> k < s + n")
  case True
  then show ?thesis using assms by (auto intro!: word_byte_eqI simp: bit_simps diff_mult_distrib2)
next
  case False
  have "\<not> bit v (8 * k + i - 8 * s)" if "s + n \<le> k" for i
    by (rule fits_bit [OF assms(1)]) (use that in linarith)
  with False show ?thesis using assms(2,3)
    by (auto intro!: word_byte_eqI simp: bit_simps not_le not_less)
qed

lemma byte_above:
  assumes "s < 8" and "k < 8"
  shows "word_byte ((w AND drop_bit (8 * (8 - s)) (NOT 0)) OR push_bit (8 * s) v) k =
    (if s \<le> k then word_byte v (k - s) else word_byte w k)"
  using assms by (auto intro!: word_byte_eqI simp: bit_simps diff_mult_distrib2)

lemma byte_below:
  assumes "v \<le> mask (8 * (m + t))" and "t < 8" and "k < 8"
  shows "word_byte ((w AND push_bit (8 * t) (NOT 0)) OR drop_bit (8 * m) v) k =
    (if k < t then word_byte v (m + k) else word_byte w k)"
proof (cases "k < t")
  case True
  then show ?thesis by (auto intro!: word_byte_eqI simp: bit_simps algebra_simps)
next
  case False
  have "\<not> bit v (8 * m + (8 * k + i))" for i
    by (rule fits_bit [OF assms(1)]) (use False in simp)
  with False show ?thesis using assms(2,3)
    by (auto intro!: word_byte_eqI simp: bit_simps)
qed

section \<open>Values and byte lists\<close>

lemma ucast_low_byte: "ucast (v AND 0xff :: u64) = (ucast v :: u8)"
proof -
  have m: "(0xff :: u64) = mask 8" by (simp add: mask_eq_exp_minus_1)
  show ?thesis unfolding m by (rule bit_word_eqI) (auto simp: bit_simps)
qed

lemma length_low_bytes [simp]: "length (low_bytes n v) = n"
  by (induction n arbitrary: v) simp_all

lemma word_byte_shr: "word_byte (shr_u64 v 8) j = word_byte v (Suc j)"
proof -
  have "shr_u64 v 8 = drop_bit 8 v" by (simp add: shr_u64_def)
  then show ?thesis by (simp only: word_byte_def drop_bit_drop_bit mult_Suc_right add.commute)
qed

lemma low_bytes_nth: "k < n \<Longrightarrow> low_bytes n v ! k = word_byte v k"
proof (induction n arbitrary: v k)
  case (Suc n)
  show ?case
  proof (cases k)
    case 0
    then show ?thesis by (simp add: ucast_low_byte word_byte_def)
  next
    case (Suc j)
    then have "low_bytes (Suc n) v ! k = word_byte (shr_u64 v 8) j" using Suc.IH Suc.prems by simp
    also have "\<dots> = word_byte v k" by (simp only: word_byte_shr Suc)
    finally show ?thesis .
  qed
qed simp

text \<open>Prepending a byte at the low end.\<close>

lemma word_byte_shift_in:
  "word_byte (shl_u64 w 8 + ucast (b :: u8)) k = (case k of 0 \<Rightarrow> b | Suc j \<Rightarrow> if k < 8 then word_byte w j else 0)"
proof -
  have "push_bit 8 w AND ucast b = 0" by (rule bit_word_eqI) (auto simp: bit_simps dest: bit_imp_le_length)
  then have *: "shl_u64 w 8 + ucast b = push_bit 8 w OR ucast b"
    by (simp add: shl_u64_def disjunctive_add_eq_or)
  show ?thesis
    unfolding * by (rule bit_word_eqI) (auto simp: bit_word_byte bit_simps split: nat.split dest: bit_imp_le_length)
qed

lemma word_byte_foldl:
  "length bs \<le> 8 \<Longrightarrow> k < 8 \<Longrightarrow>
    word_byte (foldl (\<lambda>res b. shl_u64 res 8 + ucast b) 0 bs) k = (if k < length bs then rev bs ! k else 0)"
proof (induction bs arbitrary: k rule: rev_induct)
  case (snoc b bs)
  then show ?case by (cases k) (auto simp: word_byte_shift_in)
qed simp

lemma word_byte_construct:
  assumes "length bs \<le> 8" and "k < 8"
  shows "word_byte (construct_value bs be) k =
    (if k < length bs then if be then rev bs ! k else bs ! k else 0)"
  using assms by (simp add: construct_value_def word_byte_foldl)

lemma word_byte_fits:
  assumes "v \<le> mask (8 * n)" and "n \<le> k"
  shows "word_byte v k = 0"
  by (rule bit_word_eqI) (use assms in \<open>simp add: bit_word_byte fits_bit\<close>)

lemma bytes_fit:
  assumes "\<And>k. n \<le> k \<Longrightarrow> k < 8 \<Longrightarrow> word_byte v k = 0"
  shows "v AND mask (8 * n) = v"
proof (rule word_eq_bytesI)
  fix k :: nat assume "k < 8"
  show "word_byte (v AND mask (8 * n)) k = word_byte v k"
  proof (cases "k < n")
    case True
    then show ?thesis using \<open>k < 8\<close> by (intro word_byte_eqI) (simp add: bit_simps)
  next
    case False
    then have "word_byte v k = 0" using assms \<open>k < 8\<close> by simp
    moreover have "word_byte (v AND mask (8 * n)) k = 0"
      using False by (intro bit_word_eqI) (simp add: bit_word_byte bit_simps)
    ultimately show ?thesis by simp
  qed
qed

section \<open>Aligned words and offsets inside them\<close>

definition word_base :: "u64 \<Rightarrow> u64" where
  "word_base a = a AND NOT 7"

definition word_pos :: "u64 \<Rightarrow> nat" where
  "word_pos a = unat (a AND 7)"

definition aligned :: "u64 \<Rightarrow> bool" where
  "aligned a \<longleftrightarrow> word_pos a = 0"

lemma uint_and_7: "uint (a AND 7 :: u64) = uint a mod 8"
proof -
  have m: "(7 :: u64) = mask 3" by (simp add: mask_eq_exp_minus_1)
  show ?thesis unfolding m by (subst uint_and_mask) simp_all
qed

lemma word_pos_uint: "int (word_pos a) = uint a mod 8"
  unfolding word_pos_def uint_nat [symmetric] by (rule uint_and_7)

lemma word_pos_less [simp]: "word_pos a < 8"
  using word_pos_uint [of a] pos_mod_bound [of 8 "uint a"] by linarith

lemma diff_and: "(a :: u64) - (a AND b) = a AND NOT b"
proof -
  have "NOT a AND (a AND b) = 0" by (rule bit_word_eqI) (simp add: bit_simps)
  then have "a - (a AND b) = a AND NOT (a AND b)" by (rule disjunctive_diff_eq_and_not)
  also have "\<dots> = a AND NOT b" by (rule bit_word_eqI) (auto simp: bit_simps)
  finally show ?thesis .
qed

lemma uint_word_base: "uint (word_base a) = 8 * (uint a div 8)"
proof -
  have "word_base a = a - (a AND 7)"
    by (simp only: word_base_def diff_and)
  then have "uint (word_base a) = (uint a - uint a mod 8) mod 2 ^ 64"
    by (simp only: uint_minus_u64 uint_and_7)
  also have "\<dots> = 8 * (uint a div 8)"
    unfolding minus_mod_eq_mult_div using uint_lt_u64 [of a] uint_ge_0 [of a]
    by (intro mod_pos_pos_trivial) (simp_all add: pos_imp_zdiv_nonneg_iff)
  finally show ?thesis .
qed

lemma addr_split: "a - word_base a = of_nat (word_pos a)"
  by (simp only: word_base_def word_pos_def diff_and [symmetric] of_nat_unat ucast_id) simp

lemma aligned_uint: "aligned a \<longleftrightarrow> uint a mod 8 = 0"
  unfolding aligned_def word_pos_uint [symmetric] by simp

lemma aligned_word_base [simp]: "aligned (word_base a)"
  by (simp add: aligned_uint uint_word_base)

lemma aligned_plus_8 [simp]: "aligned a \<Longrightarrow> aligned (a + 8)"
  by (simp add: aligned_uint uint_plus_u64 mod_mod_cancel)

lemma word_base_aligned: "aligned a \<Longrightarrow> word_base a = a"
  by (rule word_uint_eqI) (auto simp: uint_word_base aligned_uint)

text \<open>How far an address is from an offset, by the words the two lie in.\<close>

lemma dist_words:
  "uint (a - off) = (uint (word_base a - word_base off) + int (word_pos a) - int (word_pos off)) mod 18446744073709551616"
proof -
  have "a - off = (word_base a - word_base off) + (a - word_base a) - (off - word_base off)" by simp
  also have "\<dots> = of_int (uint (word_base a - word_base off) + int (word_pos a) - int (word_pos off))"
    by (simp only: addr_split of_int_add of_int_diff of_int_of_nat_eq of_int_uint ucast_id)
  finally show ?thesis by (simp only: uint_word_of_int) simp
qed

lemma dist_same_word:
  assumes "word_base a = word_base off"
  shows "uint (a - off) = (int (word_pos a) - int (word_pos off)) mod 18446744073709551616"
  using dist_words [of a off] by (simp only: assms) simp

lemma dist_next_word:
  assumes "word_base a = word_base off + 8"
  shows "uint (a - off) = 8 + int (word_pos a) - int (word_pos off)"
proof -
  have "uint (a - off) = (8 + int (word_pos a) - int (word_pos off)) mod 18446744073709551616"
    using dist_words [of a off] by (simp only: assms) simp
  also have "\<dots> = 8 + int (word_pos a) - int (word_pos off)"
    by (rule mod_pos_pos_trivial) (use word_pos_less [of a] word_pos_less [of off] in linarith)+
  finally show ?thesis .
qed

lemma dist_other_word:
  assumes "word_base a \<noteq> word_base off" and "word_base a \<noteq> word_base off + 8"
  shows "8 \<le> uint (a - off)"
proof -
  define d where "d = uint (word_base a - word_base off)"
  have "d = (8 * (uint a div 8) - 8 * (uint off div 8)) mod 18446744073709551616"
    by (simp add: d_def uint_minus_u64 uint_word_base)
  then have "8 dvd d" by (simp only:) (intro dvd_mod dvd_diff dvd_triv_left, simp)
  then obtain e where e: "d = 8 * e" ..
  have le: "0 \<le> d" and less: "d < 18446744073709551616"
    unfolding d_def by (rule uint_ge_0, rule uint_lt_u64)
  have nz: "d \<noteq> 0" using assms(1) by (simp add: d_def uint_0_iff)
  have n8: "d \<noteq> 8"
  proof
    assume "d = 8"
    then have "word_base a - word_base off = 8" unfolding d_def by (intro word_uint_eqI) simp
    with assms(2) show False by (simp add: diff_eq_eq add.commute)
  qed
  have "2 \<le> e" using e le nz n8 by presburger
  moreover have "e \<le> 2305843009213693951" using e less by linarith
  ultimately have d: "16 \<le> d" "d \<le> 18446744073709551608" unfolding e by linarith+
  have "uint (a - off) = d + int (word_pos a) - int (word_pos off)"
    unfolding dist_words [of a off] d_def [symmetric]
    by (rule mod_pos_pos_trivial) (use d word_pos_less [of a] word_pos_less [of off] in linarith)+
  then show ?thesis using d word_pos_less [of a] word_pos_less [of off] by linarith
qed

section \<open>The abstract memory\<close>

type_synonym memory = "u64 \<Rightarrow> u8"

definition mem_read :: "bool \<Rightarrow> memory \<Rightarrow> u64 \<Rightarrow> nat \<Rightarrow> u64" where
  "mem_read be m off n = construct_value (map (\<lambda>i. m (off + of_nat i)) [0..<n]) be"

definition mem_write :: "bool \<Rightarrow> memory \<Rightarrow> u64 \<Rightarrow> nat \<Rightarrow> u64 \<Rightarrow> memory" where
  "mem_write be m off n v = (\<lambda>a. if unat (a - off) < n
     then (if be then rev (low_bytes n v) else low_bytes n v) ! unat (a - off) else m a)"

text \<open>The bytes of a store of words: in a little-endian space the byte at the lowest address is the low byte of its word.\<close>

definition byte_view :: "bool \<Rightarrow> (u64 \<Rightarrow> u64) \<Rightarrow> memory" where
  "byte_view be f = (\<lambda>a. word_byte (f (word_base a)) (if be then 7 - word_pos a else word_pos a))"

section \<open>The routines on words of eight bytes\<close>

lemma small_u64_less: "m \<le> 16 \<Longrightarrow> n \<le> 16 \<Longrightarrow> (of_nat m :: u64) < of_nat n \<longleftrightarrow> m < n"
  by (simp add: word_of_nat_less_iff take_bit_nat_eq_self)

lemma small_u64_eq: "m \<le> 16 \<Longrightarrow> (of_nat m = (8 :: u64)) \<longleftrightarrow> m = 8"
  using word_of_nat_eq_iff [of m 8, where 'a = 64] by (simp add: take_bit_nat_eq_self)

lemma small_unat: "m \<le> 16 \<Longrightarrow> unat (of_nat m :: u64) = m"
  by (simp add: unsigned_of_nat take_bit_nat_eq_self)

lemma small_diff: "m \<le> n \<Longrightarrow> (of_nat n - of_nat m :: u64) = of_nat (n - m)"
  by (simp add: of_nat_diff)

lemma small_8_diff: "m \<le> 8 \<Longrightarrow> (8 - of_nat m :: u64) = of_nat (8 - m)"
  using small_diff [of m 8] by simp

lemma bits_of_small: "m \<le> 16 \<Longrightarrow> bits_of (of_nat m) = 8 * m"
proof -
  assume "m \<le> 16"
  moreover have "of_nat m * 8 = (of_nat (8 * m) :: u64)" by simp
  ultimately show ?thesis
    by (simp only: bits_of_def unsigned_ucast_eq unsigned_of_nat) (simp add: take_bit_nat_eq_self)
qed

lemma shl_bytes: "m < 8 \<Longrightarrow> shl_u64 x (8 * m) = push_bit (8 * m) x"
  by (simp add: shl_u64_def)

lemma shr_bytes: "m < 8 \<Longrightarrow> shr_u64 x (8 * m) = drop_bit (8 * m) x"
  by (simp add: shr_u64_def)

lemma and_7_of_nat: "a AND 7 = of_nat (word_pos a)"
  by (simp only: word_pos_def of_nat_unat ucast_id)

lemmas small_simps = small_u64_less small_u64_eq small_unat small_diff small_8_diff bits_of_small shl_bytes shr_bytes

lemma word_parts:
  assumes "p = word_pos off"
  shows "(8 - 1 :: u64) = 7" and "off AND 7 = of_nat p" and "off AND NOT 7 = word_base off"
    and "(8 - of_nat p :: u64) = of_nat (8 - p)" and "bits_of (of_nat p) = 8 * p"
    and "shl_u64 x (8 * p) = push_bit (8 * p) x" and "shr_u64 x (8 * p) = drop_bit (8 * p) x"
proof -
  have "p < 8" using assms by simp
  then show "(8 - of_nat p :: u64) = of_nat (8 - p)" "bits_of (of_nat p) = 8 * p"
      "shl_u64 x (8 * p) = push_bit (8 * p) x" "shr_u64 x (8 * p) = drop_bit (8 * p) x"
    by (simp_all only: small_simps)
qed (simp_all only: word_base_def and_7_of_nat assms diff_numeral_special, simp)

lemma spill_parts:
  assumes "8 < p + n" and "n \<le> 8" and "p = word_pos off"
  shows "(of_nat n > (of_nat (8 - p) :: u64)) = True" and "(of_nat n - of_nat (8 - p) :: u64) = of_nat (p + n - 8)"
    and "(8 - of_nat (p + n - 8) :: u64) = of_nat (16 - p - n)"
    and "bits_of (of_nat (8 - p)) = 8 * (8 - p)" and "bits_of (of_nat (p + n - 8)) = 8 * (p + n - 8)"
    and "bits_of (of_nat (16 - p - n)) = 8 * (16 - p - n)"
    and "shl_u64 x (8 * (8 - p)) = push_bit (8 * (8 - p)) x" and "shr_u64 x (8 * (8 - p)) = drop_bit (8 * (8 - p)) x"
    and "shl_u64 x (8 * (p + n - 8)) = push_bit (8 * (p + n - 8)) x"
    and "shr_u64 x (8 * (p + n - 8)) = drop_bit (8 * (p + n - 8)) x"
    and "shl_u64 x (8 * (16 - p - n)) = push_bit (8 * (16 - p - n)) x"
    and "shr_u64 x (8 * (16 - p - n)) = drop_bit (8 * (16 - p - n)) x"
    and "calc_mask (unat (of_nat n :: u64)) = mask (8 * n)"
proof -
  have p: "p < 8" using assms by simp
  then have *: "8 - p < n" "n \<le> 16" "8 - p \<le> n" "8 - p \<le> 16" "p + n - 8 \<le> 16" "p + n - 8 \<le> 8" "16 - p - n \<le> 16"
      "8 - p < 8" "p + n - 8 < 8" "16 - p - n < 8" "n - (8 - p) = p + n - 8" "8 - (p + n - 8) = 16 - p - n"
    using assms(1,2) by simp_all
  show "(of_nat n > (of_nat (8 - p) :: u64)) = True" using * by (simp only: small_u64_less)
  show "(of_nat n - of_nat (8 - p) :: u64) = of_nat (p + n - 8)" using * by (simp only: small_diff)
  show "(8 - of_nat (p + n - 8) :: u64) = of_nat (16 - p - n)" using * by (simp only: small_8_diff)
  show "calc_mask (unat (of_nat n :: u64)) = mask (8 * n)" using * assms(2) by (simp only: small_unat calc_mask_eq nbits_small)
qed (use assms word_pos_less [of off] in \<open>simp_all only: bits_of_small shl_bytes shr_bytes\<close>)

lemma inside_parts:
  assumes "1 \<le> n" and "p + n \<le> 8" and "n < 8" and "p = word_pos off"
  shows "(of_nat n > (of_nat (8 - p) :: u64)) = False" and "(of_nat (8 - p) - of_nat n :: u64) = of_nat (8 - p - n)"
    and "(of_nat n = (8 :: u64)) = False"
    and "bits_of (of_nat (8 - p - n)) = 8 * (8 - p - n)"
    and "shl_u64 x (8 * (8 - p - n)) = push_bit (8 * (8 - p - n)) x"
    and "shr_u64 x (8 * (8 - p - n)) = drop_bit (8 * (8 - p - n)) x"
    and "calc_mask (unat (of_nat n :: u64)) = mask (8 * n)"
proof -
  have *: "\<not> 8 - p < n" "n \<le> 16" "n \<le> 8" "8 - p \<le> 16" "n \<le> 8 - p" "n \<noteq> 8" "8 - p - n < 8" "8 - p - n \<le> 16"
    using assms(1-3) by simp_all
  show "(of_nat n > (of_nat (8 - p) :: u64)) = False" using * by (simp only: small_u64_less)
  show "(of_nat (8 - p) - of_nat n :: u64) = of_nat (8 - p - n)" using * by (simp only: small_diff)
  show "(of_nat n = (8 :: u64)) = False" using * by (simp only: small_u64_eq)
  show "calc_mask (unat (of_nat n :: u64)) = mask (8 * n)" using * by (simp only: small_unat calc_mask_eq nbits_small)
qed (use assms in \<open>simp_all add: bits_of_small shl_bytes shr_bytes del: of_nat_diff\<close>)

lemma full_parts:
  assumes "n = 8" and "\<not> 8 < p + n"
  shows "(of_nat n > (of_nat (8 - p) :: u64)) = False" and "(of_nat n = (8 :: u64)) = True"
  using assms by simp_all

lemma value_get_8:
  assumes "1 \<le> n" and "n \<le> 8" and "p = word_pos off"
  shows "value_get fnd 8 be off (of_nat n) =
    (if 8 < p + n then
       run_bind (fnd (word_base off)) (\<lambda>w1. run_bind (fnd (word_base off + 8)) (\<lambda>w2.
         ret ((if be then push_bit (8 * (p + n - 8)) w1 OR drop_bit (8 * (16 - p - n)) w2
               else drop_bit (8 * p) w1 OR push_bit (8 * (8 - p)) w2) AND mask (8 * n))))
     else if n = 8 then fnd (word_base off)
     else run_bind (fnd (word_base off)) (\<lambda>w1.
       ret (drop_bit (8 * (if be then 8 - p - n else p)) w1 AND mask (8 * n))))"
proof (cases "8 < p + n")
  case True
  note sp = spill_parts [OF True assms(2,3)] and parts = word_parts [OF assms(3)]
  show ?thesis using True by (simp only: value_get_def Let_def parts sp if_True)
next
  case False
  note parts = word_parts [OF assms(3)] and ins = inside_parts [OF assms(1) _ _ assms(3)]
  show ?thesis
  proof (cases "n = 8")
    case True
    note full = full_parts [OF refl False [unfolded True]]
    show ?thesis using False True
      by (simp only: value_get_def Let_def parts full if_False if_True simp_thms run_bind_ret)
  next
    case n8: False
    then have pn: "p + n \<le> 8" and n: "n < 8" using False assms(2) by simp_all
    show ?thesis using False n8
      by (cases be) (simp_all only: value_get_def Let_def parts ins [OF pn n] if_True if_False)
  qed
qed

lemma value_set_8:
  assumes "1 \<le> n" and "n \<le> 8" and "p = word_pos off"
  shows "value_set fnd ins 8 be st off (of_nat n) v =
    (if 8 < p + n then
       run_bind (fnd st (word_base off)) (\<lambda>w1. run_bind (fnd st (word_base off + 8)) (\<lambda>w2.
         run_bind (ins st (word_base off)
           (if be then (w1 AND push_bit (8 * (8 - p)) (NOT 0)) OR drop_bit (8 * (p + n - 8)) v
            else (w1 AND drop_bit (8 * (8 - p)) (NOT 0)) OR push_bit (8 * p) v)) (\<lambda>st.
           ins st (word_base off + 8)
             (if be then (w2 AND drop_bit (8 * (p + n - 8)) (NOT 0)) OR push_bit (8 * (16 - p - n)) v
              else (w2 AND push_bit (8 * (p + n - 8)) (NOT 0)) OR drop_bit (8 * (8 - p)) v))))
     else if n = 8 then ins st (word_base off) v
     else run_bind (fnd st (word_base off)) (\<lambda>w1. ins st (word_base off)
       (let g = if be then 8 - p - n else p
        in (w1 AND NOT (push_bit (8 * g) (mask (8 * n)))) OR push_bit (8 * g) v)))"
proof (cases "8 < p + n")
  case True
  note sp = spill_parts [OF True assms(2,3)] and parts = word_parts [OF assms(3)]
  show ?thesis using True by (cases be) (simp_all only: value_set_def Let_def parts sp if_True if_False)
next
  case False
  note parts = word_parts [OF assms(3)]
  show ?thesis
  proof (cases "n = 8")
    case True
    note full = full_parts [OF refl False [unfolded True]]
    show ?thesis using False True by (simp only: value_set_def Let_def parts full if_False if_True refl)
  next
    case n8: False
    then have pn: "p + n \<le> 8" and n: "n < 8" using False assms(2) by simp_all
    show ?thesis using False n8
      by (cases be) (simp_all only: value_set_def Let_def parts inside_parts [OF assms(1) pn n assms(3)] if_True if_False)
  qed
qed

section \<open>What the routines do to the bytes\<close>

lemma unat_dist_same:
  assumes "word_base a = word_base off"
  shows "unat (a - off) < 8 \<longleftrightarrow> word_pos off \<le> word_pos a"
    and "word_pos off \<le> word_pos a \<Longrightarrow> unat (a - off) = word_pos a - word_pos off"
proof -
  let ?x = "int (word_pos a)" and ?y = "int (word_pos off)"
  note d = dist_same_word [OF assms]
  have le: "unat (a - off) = word_pos a - word_pos off" if "word_pos off \<le> word_pos a"
  proof -
    have "(?x - ?y) mod 18446744073709551616 = ?x - ?y"
      by (rule mod_pos_pos_trivial) (use that word_pos_less [of a] in linarith)+
    then have "int (unat (a - off)) = ?x - ?y" using d by (simp only: uint_nat [symmetric])
    then show ?thesis using that by linarith
  qed
  have gt: "8 \<le> unat (a - off)" if "word_pos a < word_pos off"
  proof -
    have "(?x - ?y) mod 18446744073709551616 = ?x - ?y + 18446744073709551616"
      by (rule mod_plus_once) (use that word_pos_less [of off] in linarith)+
    then have "int (unat (a - off)) = ?x - ?y + 18446744073709551616" using d by (simp only: uint_nat [symmetric])
    then show ?thesis using word_pos_less [of off] by linarith
  qed
  show "word_pos off \<le> word_pos a \<Longrightarrow> unat (a - off) = word_pos a - word_pos off" by (rule le)
  show "unat (a - off) < 8 \<longleftrightarrow> word_pos off \<le> word_pos a"
    using le gt by (cases "word_pos off \<le> word_pos a") (auto simp: less_imp_diff_less)
qed

lemma unat_dist_next:
  assumes "word_base a = word_base off + 8"
  shows "unat (a - off) = 8 + word_pos a - word_pos off"
proof -
  have "int (unat (a - off)) = 8 + int (word_pos a) - int (word_pos off)"
    using dist_next_word [OF assms] by (simp only: uint_nat [symmetric])
  then show ?thesis using word_pos_less [of off] by linarith
qed

lemma unat_dist_other:
  assumes "word_base a \<noteq> word_base off" and "word_base a \<noteq> word_base off + 8"
  shows "8 \<le> unat (a - off)"
proof -
  have "8 \<le> int (unat (a - off))" using dist_other_word [OF assms] by (simp only: uint_nat [symmetric])
  then show ?thesis by linarith
qed

lemma mem_write_byte:
  assumes "unat (a - off) < n"
  shows "mem_write be m off n v a = word_byte v (if be then n - 1 - unat (a - off) else unat (a - off))"
  using assms by (simp add: mem_write_def low_bytes_nth rev_nth)

lemma mem_write_frame: "\<not> unat (a - off) < n \<Longrightarrow> mem_write be m off n v a = m a"
  by (simp add: mem_write_def)

lemma view_inside:
  assumes n: "1 \<le> n" "p + n \<le> 8" and p: "p = word_pos off" and v: "v \<le> mask (8 * n)"
    and upd: "g (word_base off) = (let s = if be then 8 - p - n else p
      in (f (word_base off) AND NOT (push_bit (8 * s) (mask (8 * n)))) OR push_bit (8 * s) v)"
    and frame: "\<And>b. aligned b \<Longrightarrow> b \<noteq> word_base off \<Longrightarrow> g b = f b"
  shows "byte_view be g = mem_write be (byte_view be f) off n v"
proof
  fix a
  show "byte_view be g a = mem_write be (byte_view be f) off n v a"
  proof (cases "word_base a = word_base off")
    case False
    then have "8 - p \<le> unat (a - off)"
      using unat_dist_next [of a off] unat_dist_other [of a off] p word_pos_less [of off]
      by (cases "word_base a = word_base off + 8") simp_all
    then have "\<not> unat (a - off) < n" using n by simp
    then show ?thesis using False frame [of "word_base a"] by (simp add: mem_write_frame byte_view_def)
  next
    case True
    let ?k = "word_pos a"
    let ?s = "if be then 8 - p - n else p"
    let ?l = "if be then 7 - ?k else ?k"
    have "?s + n \<le> 8" "?l < 8" using n by auto
    note b = byte_inside [OF v this, of "f (word_base off)"]
    have view: "byte_view be g a = (if ?s \<le> ?l \<and> ?l < ?s + n then word_byte v (?l - ?s) else byte_view be f a)"
      unfolding byte_view_def True upd Let_def b ..
    have iff: "?s \<le> ?l \<and> ?l < ?s + n \<longleftrightarrow> p \<le> ?k \<and> ?k < p + n"
      using n word_pos_less [of a] by (auto simp del: word_pos_less)
    note d = unat_dist_same [OF True, folded p]
    show ?thesis
    proof (cases "p \<le> ?k \<and> ?k < p + n")
      case True
      then have dist: "unat (a - off) = ?k - p" and lt: "?k - p < n" and inside: "?s \<le> ?l \<and> ?l < ?s + n"
        using d(2) iff n by auto
      have lanes: "?l - ?s = (if be then n - 1 - (?k - p) else ?k - p)"
        using True n word_pos_less [of a] by (simp add: add.commute del: word_pos_less)
      show ?thesis unfolding view if_P [OF inside] mem_write_byte [of a off n, unfolded dist, OF lt] lanes ..
    next
      case False
      then have "\<not> unat (a - off) < n" using d n by auto
      then show ?thesis using view iff False by (simp add: mem_write_frame)
    qed
  qed
qed

lemma view_spill:
  assumes n: "n \<le> 8" "8 < p + n" and p: "p = word_pos off" and v: "v \<le> mask (8 * n)"
    and upd1: "g (word_base off) =
      (if be then (f (word_base off) AND push_bit (8 * (8 - p)) (NOT 0)) OR drop_bit (8 * (p + n - 8)) v
       else (f (word_base off) AND drop_bit (8 * (8 - p)) (NOT 0)) OR push_bit (8 * p) v)"
    and upd2: "g (word_base off + 8) =
      (if be then (f (word_base off + 8) AND drop_bit (8 * (p + n - 8)) (NOT 0)) OR push_bit (8 * (16 - p - n)) v
       else (f (word_base off + 8) AND push_bit (8 * (p + n - 8)) (NOT 0)) OR drop_bit (8 * (8 - p)) v)"
    and frame: "\<And>b. aligned b \<Longrightarrow> b \<noteq> word_base off \<Longrightarrow> b \<noteq> word_base off + 8 \<Longrightarrow> g b = f b"
  shows "byte_view be g = mem_write be (byte_view be f) off n v"
proof
  fix a
  let ?k = "word_pos a"
  have p8: "p < 8" and k8: "?k < 8" using p by simp_all
  consider "word_base a = word_base off" | "word_base a = word_base off + 8"
    | "word_base a \<noteq> word_base off" "word_base a \<noteq> word_base off + 8" by blast
  then show "byte_view be g a = mem_write be (byte_view be f) off n v a"
  proof cases
    case 1
    note d = unat_dist_same [OF 1, folded p]
    have view: "byte_view be g a = (if p \<le> ?k then word_byte v (if be then n - 1 - (?k - p) else ?k - p) else byte_view be f a)"
    proof (cases be)
      case True
      have "(p + n - 8) + (8 - p) = n" using n p8 by linarith
      then have v': "v \<le> mask (8 * ((p + n - 8) + (8 - p)))" using v by (simp only:)
      have lanes: "8 - p < 8" "7 - ?k < 8" using n by simp_all
      have "byte_view be g a =
          (if 7 - ?k < 8 - p then word_byte v ((p + n - 8) + (7 - ?k)) else word_byte (f (word_base off)) (7 - ?k))"
        by (simp only: byte_view_def 1 upd1 True if_True byte_below [OF v' lanes])
      moreover have "7 - ?k < 8 - p \<longleftrightarrow> p \<le> ?k" using p8 k8 by linarith
      moreover have "(p + n - 8) + (7 - ?k) = n - 1 - (?k - p)" if "p \<le> ?k" using p8 k8 n that by linarith
      ultimately show ?thesis using True by (simp add: byte_view_def 1)
    next
      case False
      then show ?thesis by (simp only: byte_view_def 1 upd1 if_False byte_above [OF p8 k8])
    qed
    show ?thesis
    proof (cases "p \<le> ?k")
      case True
      then have "unat (a - off) = ?k - p" and "?k - p < n"
        using d(2) n k8 by (simp_all del: word_pos_less)
      then show ?thesis using True view by (simp add: mem_write_byte)
    next
      case False
      then have "\<not> unat (a - off) < n" using d(1) n by simp
      then show ?thesis using False view by (simp add: mem_write_frame)
    qed
  next
    case 2
    define t where "t = p + n - 8"
    have t: "1 \<le> t" "t < 8" "t \<le> n" "16 - p - n = 8 - t" "n - t = 8 - p" using n p8 by (simp_all add: t_def)
    have dist: "unat (a - off) = 8 - p + ?k" using unat_dist_next [OF 2, folded p] p8 by simp
    have view: "byte_view be g a = (if ?k < t then word_byte v (if be then n - 1 - (8 - p + ?k) else 8 - p + ?k) else byte_view be f a)"
    proof (cases be)
      case True
      have tt: "8 - (8 - t) = t" and lanes: "8 - t < 8" "7 - ?k < 8" using t by simp_all
      have "byte_view be g a = (if 8 - t \<le> 7 - ?k then word_byte v (7 - ?k - (8 - t)) else word_byte (f (word_base off + 8)) (7 - ?k))"
        by (simp only: byte_view_def 2 upd2 t(4) t_def [symmetric] True if_True byte_above [OF lanes, unfolded tt])
      moreover have "8 - t \<le> 7 - ?k \<longleftrightarrow> ?k < t" using t(2) k8 by linarith
      moreover have "7 - ?k - (8 - t) = n - 1 - (8 - p + ?k)" if "?k < t" using t(1-3,5) that by simp
      ultimately show ?thesis using True by (simp add: byte_view_def 2)
    next
      case False
      have "8 - p + t = n" using t(3,5) by linarith
      then have v': "v \<le> mask (8 * (8 - p + t))" using v by (simp only:)
      show ?thesis using False
        by (simp only: byte_view_def 2 upd2 t_def [symmetric] if_False byte_below [OF v' t(2) k8])
    qed
    have iff: "?k < t \<longleftrightarrow> unat (a - off) < n" using dist n(2) p8 t_def by linarith
    show ?thesis using view dist iff by (cases "?k < t") (simp_all add: mem_write_byte mem_write_frame)
  next
    case 3
    then show ?thesis using unat_dist_other [of a off] frame [of "word_base a"] n
      by (simp add: mem_write_frame byte_view_def)
  qed
qed

lemma word_parts_of_sum:
  assumes "aligned b" and "j < 8"
  shows "word_base (b + of_nat j) = b" and "word_pos (b + of_nat j) = j"
proof -
  obtain e where e: "uint b = 8 * e" using assms(1) by (auto simp: aligned_uint)
  then have "e < 2305843009213693952" using uint_lt_u64 [of b] by linarith
  moreover have "0 \<le> e" using e uint_ge_0 [of b] by linarith
  moreover have "uint (of_nat j :: u64) = int j" using assms(2) by (simp add: unsigned_of_nat take_bit_nat_eq_self)
  ultimately have sum: "uint (b + of_nat j) = 8 * e + int j"
    unfolding uint_plus_u64 e using assms(2) by (simp add: mod_pos_pos_trivial)
  show "word_pos (b + of_nat j) = j" using word_pos_uint [of "b + of_nat j"] sum assms(2) by simp
  show "word_base (b + of_nat j) = b"
    by (rule word_uint_eqI) (use uint_word_base [of "b + of_nat j"] sum e assms(2) in simp)
qed

lemma byte_view_step:
  assumes "p = word_pos off" and "i < 8"
  shows "byte_view be f (off + of_nat i) =
    (if p + i < 8 then word_byte (f (word_base off)) (if be then 7 - (p + i) else p + i)
     else word_byte (f (word_base off + 8)) (if be then 7 - (p + i - 8) else p + i - 8))"
proof -
  have "off = word_base off + of_nat p" using addr_split [of off] assms(1) by (simp add: algebra_simps)
  from arg_cong [OF this, of "\<lambda>x. x + of_nat i"]
  have off: "off + of_nat i = word_base off + of_nat (p + i)" by (simp only: add.assoc of_nat_add)
  show ?thesis
  proof (cases "p + i < 8")
    case True
    then show ?thesis by (simp only: off byte_view_def word_parts_of_sum [OF aligned_word_base True] if_True)
  next
    case False
    have "p < 8" using assms(1) by simp
    then have j: "p + i - 8 < 8" using assms(2) by simp
    have "p + i = 8 + (p + i - 8)" using False by simp
    then have "of_nat (p + i) = (8 + of_nat (p + i - 8) :: u64)" by (metis of_nat_add of_nat_numeral)
    then have "off + of_nat i = word_base off + 8 + of_nat (p + i - 8)" by (simp only: off add.assoc)
    then show ?thesis using False
      by (simp only: byte_view_def word_parts_of_sum [OF aligned_plus_8 [OF aligned_word_base] j] if_False)
  qed
qed

lemma word_byte_mem_read:
  assumes "n \<le> 8" and "k < 8"
  shows "word_byte (mem_read be m off n) k =
    (if k < n then m (off + of_nat (if be then n - 1 - k else k)) else 0)"
  using assms by (simp add: mem_read_def word_byte_construct rev_nth)

lemma byte_part:
  assumes "g + n \<le> 8" and "k < 8"
  shows "word_byte (drop_bit (8 * g) w AND mask (8 * n)) k = (if k < n then word_byte w (g + k) else 0)"
  using assms by (auto intro!: bit_word_eqI simp: bit_word_byte bit_simps algebra_simps)

lemma byte_join:
  assumes "q < 8" and "k < 8"
  shows "word_byte ((drop_bit (8 * q) x OR push_bit (8 * (8 - q)) y) AND mask (8 * n)) k =
    (if k < n then if k < 8 - q then word_byte x (q + k) else word_byte y (k - (8 - q)) else 0)"
proof -
  have "\<not> bit x (8 * q + (8 * k + i))" if "\<not> k < 8 - q" for i
    using bit_imp_le_length [of x "8 * q + (8 * k + i)"] that assms by auto
  then show ?thesis using assms
    by (auto intro!: bit_word_eqI simp: bit_word_byte bit_simps algebra_simps diff_mult_distrib2)
qed

lemma read_inside:
  assumes "1 \<le> n" and "p + n \<le> 8" and "p = word_pos off"
  shows "drop_bit (8 * (if be then 8 - p - n else p)) (f (word_base off)) AND mask (8 * n) =
    mem_read be (byte_view be f) off n"
proof (rule word_eq_bytesI)
  fix k :: nat assume k: "k < 8"
  let ?g = "if be then 8 - p - n else p"
  have "?g + n \<le> 8" and n: "n \<le> 8" using assms by auto
  note part = byte_part [OF this(1) k] and rd = word_byte_mem_read [OF n k]
  show "word_byte (drop_bit (8 * ?g) (f (word_base off)) AND mask (8 * n)) k = word_byte (mem_read be (byte_view be f) off n) k"
  proof (cases "k < n")
    case True
    let ?i = "if be then n - 1 - k else k"
    have i: "?i < 8" and small: "p + ?i < 8" using True assms by auto
    have "(if be then 7 - (p + ?i) else p + ?i) = ?g + k" using True assms(1,2) by auto
    then show ?thesis using True by (simp only: part rd if_True byte_view_step [OF assms(3) i] small)
  qed (simp only: part rd if_False)
qed

lemma read_spill:
  assumes "n \<le> 8" and "8 < p + n" and "p = word_pos off"
  shows "(if be then push_bit (8 * (p + n - 8)) (f (word_base off)) OR drop_bit (8 * (16 - p - n)) (f (word_base off + 8))
      else drop_bit (8 * p) (f (word_base off)) OR push_bit (8 * (8 - p)) (f (word_base off + 8))) AND mask (8 * n) =
    mem_read be (byte_view be f) off n"
proof (rule word_eq_bytesI)
  fix k :: nat assume k: "k < 8"
  have p: "p < 8" using assms by simp
  note rd = word_byte_mem_read [OF assms(1) k]
  let ?w = "(if be then push_bit (8 * (p + n - 8)) (f (word_base off)) OR drop_bit (8 * (16 - p - n)) (f (word_base off + 8))
      else drop_bit (8 * p) (f (word_base off)) OR push_bit (8 * (8 - p)) (f (word_base off + 8))) AND mask (8 * n)"
  show "word_byte ?w k = word_byte (mem_read be (byte_view be f) off n) k"
  proof (cases be)
    case False
    then have "word_byte ?w k = (if k < n then byte_view be f (off + of_nat k) else 0)"
      by (simp only: if_False byte_join [OF p k] byte_view_step [OF assms(3) k]) (use p in \<open>auto simp: add.commute\<close>)
    then show ?thesis using False by (simp only: rd if_False)
  next
    case True
    have q: "16 - p - n < 8" and t: "8 - (16 - p - n) = p + n - 8" using assms(1,2) p by linarith+
    have "word_byte ?w k = (if k < n then if k < p + n - 8 then word_byte (f (word_base off + 8)) (16 - p - n + k)
        else word_byte (f (word_base off)) (k - (p + n - 8)) else 0)"
      using True byte_join [OF q k, unfolded t] by (simp only: if_True or.commute)
    also have "\<dots> = (if k < n then byte_view be f (off + of_nat (n - 1 - k)) else 0)"
    proof (cases "k < n")
      case kn: True
      have i: "n - 1 - k < 8" using assms(1) kn by linarith
      have iff: "p + (n - 1 - k) < 8 \<longleftrightarrow> \<not> k < p + n - 8" using assms(2) p kn by linarith
      show ?thesis
      proof (cases "k < p + n - 8")
        case low: True
        have "7 - (p + (n - 1 - k) - 8) = 16 - p - n + k" using low assms(1) p kn by linarith
        then show ?thesis using low kn True iff by (simp only: byte_view_step [OF assms(3) i] if_True if_False not_True_eq_False)
      next
        case high: False
        have "7 - (p + (n - 1 - k)) = k - (p + n - 8)" using high assms(2) p kn by linarith
        then show ?thesis using high kn True iff by (simp only: byte_view_step [OF assms(3) i] if_True if_False not_False_eq_True)
      qed
    qed simp
    finally show ?thesis using True by (simp only: rd if_True)
  qed
qed

lemma and_mask_64: "(x :: u64) AND mask 64 = x"
  by (rule bit_word_eqI) (simp add: bit_simps)

lemma replace_whole: "v = (let s = if be then 8 - 0 - 8 else 0 in (w AND NOT (push_bit (8 * s) (mask (8 * 8)))) OR push_bit (8 * s) v)"
  for v w :: u64
  by (rule bit_word_eqI) (simp add: bit_simps Let_def)

section \<open>Laws of the abstract memory\<close>

lemma dist_offset: "i < 8 \<Longrightarrow> unat (off + of_nat i - off :: u64) = i"
  by (simp add: small_unat)

lemma mem_read_write:
  assumes "n \<le> 8" and "v \<le> mask (8 * n)"
  shows "mem_read be (mem_write be m off n v) off n = v"
proof (rule word_eq_bytesI)
  fix k :: nat assume k: "k < 8"
  show "word_byte (mem_read be (mem_write be m off n v) off n) k = word_byte v k"
  proof (cases "k < n")
    case True
    let ?i = "if be then n - 1 - k else k"
    have "?i < 8" and lt: "?i < n" using True assms(1) k by auto
    then have "unat (off + of_nat ?i - off) = ?i" by (intro dist_offset)
    then have "mem_write be m off n v (off + of_nat ?i) = word_byte v (if be then n - 1 - ?i else ?i)"
      using lt mem_write_byte [of "off + of_nat ?i" off n be m v] by (simp only:)
    moreover have "(if be then n - 1 - ?i else ?i) = k" using True by simp
    ultimately show ?thesis using True by (simp only: word_byte_mem_read [OF assms(1) k] if_True)
  next
    case False
    then show ?thesis using word_byte_fits [OF assms(2)] by (simp add: word_byte_mem_read [OF assms(1) k])
  qed
qed

lemma mem_read_cong:
  assumes "\<And>i. i < n \<Longrightarrow> m (off + of_nat i) = m' (off + of_nat i)"
  shows "mem_read be m off n = mem_read be m' off n"
  unfolding mem_read_def using assms by (metis (no_types, lifting) atLeast_upt lessThan_iff map_eq_conv)

lemma mem_read_write_apart:
  assumes "\<And>i. i < k \<Longrightarrow> n \<le> unat (off' + of_nat i - off)"
  shows "mem_read be (mem_write be m off n v) off' k = mem_read be m off' k"
  by (rule mem_read_cong) (simp add: mem_write_frame assms leD)

lemma mem_write_write:
  "mem_write be (mem_write be m off n v) off n w = mem_write be m off n w"
  by (auto simp: mem_write_def)

lemma deconstruct_construct:
  assumes "unat sz \<le> 8" and "deconstruct_value v sz be out = Ret bs"
  shows "construct_value (take (unat sz) bs) be = v AND mask (8 * unat sz)"
proof (rule word_eq_bytesI)
  fix k :: nat assume k: "k < 8"
  define n where "n = unat sz"
  have bs: "take n bs = (if be then rev (low_bytes n v) else low_bytes n v)"
    using assms(2) by (auto simp: deconstruct_value_def n_def split: if_splits)
  have "word_byte (v AND mask (8 * n)) k = (if k < n then word_byte v k else 0)"
    using byte_part [of 0 n k v] assms(1) k by (simp add: n_def)
  moreover have "word_byte (construct_value (take n bs) be) k = (if k < n then word_byte v k else 0)"
    unfolding bs using assms(1) k by (simp add: word_byte_construct low_bytes_nth flip: n_def)
  ultimately show "word_byte (construct_value (take (unat sz) bs) be) k = word_byte (v AND mask (8 * unat sz)) k"
    by (simp add: n_def)
qed

lemma construct_deconstruct:
  assumes "length bs \<le> 8"
  shows "deconstruct_value (construct_value bs be) (of_nat (length bs)) be bs = Ret bs"
proof -
  have n: "unat (of_nat (length bs) :: u64) = length bs" using assms by (simp add: small_unat)
  have "low_bytes (length bs) (construct_value bs be) = (if be then rev bs else bs)"
    by (rule nth_equalityI) (use assms in \<open>simp_all add: low_bytes_nth word_byte_construct\<close>)
  then show ?thesis by (cases be) (simp_all add: deconstruct_value_def n)
qed

section \<open>The interface of a store of words\<close>

text \<open>
  \<open>cell st a\<close> is the word at the aligned address \<open>a\<close>. An insertion may fail (the hash overlay is of fixed size);
  the extension \<open>total_store\<close> is for the banks where it does not, at the addresses that satisfy \<open>fits\<close>.
\<close>

locale word_store =
  fixes fnd :: "'s \<Rightarrow> u64 \<Rightarrow> u64 run" and ins :: "'s \<Rightarrow> u64 \<Rightarrow> u64 \<Rightarrow> 's run"
    and ok :: "'s \<Rightarrow> bool" and cell :: "'s \<Rightarrow> u64 \<Rightarrow> u64"
  assumes find_cell: "ok st \<Longrightarrow> aligned a \<Longrightarrow> fnd st a = ret (cell st a)"
    and insert_ok: "ok st \<Longrightarrow> aligned a \<Longrightarrow> ins st a v = ret st' \<Longrightarrow> ok st'"
    and insert_cell: "ok st \<Longrightarrow> aligned a \<Longrightarrow> ins st a v = ret st' \<Longrightarrow> aligned b \<Longrightarrow>
      cell st' b = (if b = a then v else cell st b)"
begin

lemma get_reads:
  assumes "ok st" and "1 \<le> n" and "n \<le> 8"
  shows "value_get (fnd st) 8 be off (of_nat n) = ret (mem_read be (byte_view be (cell st)) off n)"
proof -
  define p where "p = word_pos off"
  note cells = find_cell [OF assms(1) aligned_word_base] find_cell [OF assms(1) aligned_plus_8 [OF aligned_word_base]]
  show ?thesis
  proof (cases "8 < p + n")
    case True
    then show ?thesis
      by (simp only: value_get_8 [OF assms(2,3) p_def] cells if_True run_bind_simps read_spill [OF assms(3) True p_def])
  next
    case False
    then have pn: "p + n \<le> 8" by simp
    note rd = read_inside [OF assms(2) pn p_def, of be "cell st"]
    show ?thesis
    proof (cases "n = 8")
      case True
      then have g: "(if be then 8 - p - n else p) = 0" using pn by simp
      have "cell st (word_base off) = mem_read be (byte_view be (cell st)) off n"
        using True rd [unfolded g] by (simp add: and_mask_64)
      then show ?thesis unfolding value_get_8 [OF assms(2,3) p_def] using True False by (simp add: cells)
    next
      case n8: False
      then show ?thesis using False
        by (simp only: value_get_8 [OF assms(2,3) p_def] cells if_False run_bind_simps rd)
    qed
  qed
qed

lemma set_writes:
  assumes ok: "ok st" and n: "1 \<le> n" "n \<le> 8" and v: "v \<le> mask (8 * n)"
    and set: "value_set fnd ins 8 be st off (of_nat n) v = ret st'"
  shows "ok st'" and "byte_view be (cell st') = mem_write be (byte_view be (cell st)) off n v"
proof -
  define p where "p = word_pos off"
  let ?b = "word_base off"
  have al: "aligned ?b" "aligned (?b + 8)" by simp_all
  note cells = find_cell [OF ok al(1)] find_cell [OF ok al(2)]
  note run = set [unfolded value_set_8 [OF n p_def] cells run_bind_simps]
  have "ok st' \<and> byte_view be (cell st') = mem_write be (byte_view be (cell st)) off n v"
  proof (cases "8 < p + n")
    case True
    from run [unfolded if_P [OF True]] obtain st1
      where s1: "ins st ?b (if be then (cell st ?b AND push_bit (8 * (8 - p)) (NOT 0)) OR drop_bit (8 * (p + n - 8)) v
          else (cell st ?b AND drop_bit (8 * (8 - p)) (NOT 0)) OR push_bit (8 * p) v) = ret st1"
        and s2: "ins st1 (?b + 8) (if be then (cell st (?b + 8) AND drop_bit (8 * (p + n - 8)) (NOT 0)) OR push_bit (8 * (16 - p - n)) v
          else (cell st (?b + 8) AND push_bit (8 * (p + n - 8)) (NOT 0)) OR drop_bit (8 * (8 - p)) v) = ret st'"
      unfolding run_bind_ret_iff by blast
    note ok1 = insert_ok [OF ok al(1) s1]
    have ne: "?b \<noteq> ?b + 8" by simp
    note c1 = insert_cell [OF ok al(1) s1] and c2 = insert_cell [OF ok1 al(2) s2]
    have "byte_view be (cell st') = mem_write be (byte_view be (cell st)) off n v"
      by (rule view_spill [OF n(2) True p_def v]) (use ne c1 c2 al in \<open>simp_all only: if_True if_False refl\<close>)
    then show ?thesis using insert_ok [OF ok1 al(2) s2] by simp
  next
    case False
    then have pn: "p + n \<le> 8" by simp
    obtain w where s1: "ins st ?b w = ret st'"
      and w: "w = (let g = if be then 8 - p - n else p
        in (cell st ?b AND NOT (push_bit (8 * g) (mask (8 * n)))) OR push_bit (8 * g) v)"
    proof (cases "n = 8")
      case True
      then have p0: "p = 0" using pn by simp
      show ?thesis
      proof (rule that)
        show "ins st ?b v = ret st'" using run False True by (simp only: if_True if_False simp_thms)
        show "v = (let g = if be then 8 - p - n else p
            in (cell st ?b AND NOT (push_bit (8 * g) (mask (8 * n)))) OR push_bit (8 * g) v)"
          unfolding p0 True by (rule replace_whole)
      qed
    next
      case n8: False
      show ?thesis by (rule that [OF _ refl]) (use run False n8 in \<open>simp only: if_False\<close>)
    qed
    note c = insert_cell [OF ok al(1) s1]
    have "byte_view be (cell st') = mem_write be (byte_view be (cell st)) off n v"
      by (rule view_inside [OF n(1) pn p_def v]) (use c al w in \<open>simp_all only: if_True if_False refl\<close>)
    then show ?thesis using insert_ok [OF ok al(1) s1] by simp
  qed
  then show "ok st'" and "byte_view be (cell st') = mem_write be (byte_view be (cell st)) off n v" by simp_all
qed

end

locale total_store = word_store +
  fixes fits :: "u64 \<Rightarrow> bool"
  assumes insert_total: "ok st \<Longrightarrow> aligned a \<Longrightarrow> fits a \<Longrightarrow> returns (ins st a v)"
begin

lemma set_total:
  assumes "ok st" and "1 \<le> n" and "n \<le> 8" and "fits (word_base off)" and "fits (word_base off + 8)"
  shows "returns (value_set fnd ins 8 be st off (of_nat n) v)"
proof -
  define p where "p = word_pos off"
  have al: "aligned (word_base off)" "aligned (word_base off + 8)" by simp_all
  note cells = find_cell [OF assms(1) al(1)] find_cell [OF assms(1) al(2)]
  have one: "returns (ins st (word_base off) w)" for w by (rule insert_total [OF assms(1) al(1) assms(4)])
  have two: "returns (run_bind (ins st (word_base off) w) (\<lambda>st. ins st (word_base off + 8) w'))" for w w'
    using one [of w] insert_ok [OF assms(1) al(1)] insert_total [OF _ al(2) assms(5)]
    by (auto simp: returns_def)
  show ?thesis
    unfolding value_set_8 [OF assms(2,3) p_def] cells run_bind_simps using one two by (simp only: if_split) simp
qed

lemma set_value_run:
  assumes "ok st" and "1 \<le> n" and "n \<le> 8" and "v \<le> mask (8 * n)" and "fits (word_base off)" and "fits (word_base off + 8)"
  shows "\<exists>st'. value_set fnd ins 8 be st off (of_nat n) v = ret st' \<and> ok st' \<and>
    byte_view be (cell st') = mem_write be (byte_view be (cell st)) off n v"
proof -
  obtain st' where run: "value_set fnd ins 8 be st off (of_nat n) v = ret st'"
    using set_total [OF assms(1-3,5,6), where be = be and v = v] by (auto simp: returns_def)
  then show ?thesis using set_writes [OF assms(1-4) run] by blast
qed

end

end
