(* ===== verification/Mem_Bank.thy ===== *)
theory Mem_Bank
  imports Mem_Bytes
begin

text \<open>
  The plain memory bank of src/src/memstate.rs, a map from the addresses of words to words, and the legacy tag of an
  address space (src/src/space.rs) that it carries for its byte order. Pages and chunks run over the words of the bank.
\<close>

unbundle bit_operations_syntax

section \<open>The tag of an address space\<close>

datatype address_space = Ram | Register | Unique | Const | Stack | Join | Iop | Overlay | Other u8

fun is_big_endian :: "address_space \<Rightarrow> bool" where
  "is_big_endian spc = False"

fun space_name :: "address_space \<Rightarrow> string" where
  "space_name Ram = ''ram''"
| "space_name Register = ''register''"
| "space_name Unique = ''unique''"
| "space_name Const = ''const''"
| "space_name Stack = ''stack''"
| "space_name Join = ''join''"
| "space_name Iop = ''iop''"
| "space_name Overlay = ''overlay''"
| "space_name (Other i) = ''other''"

section \<open>The bank\<close>

definition HOST_ENDIAN :: u32 where
  "HOST_ENDIAN = 0"

record memory_bank =
  mb_wordsize :: u64
  mb_pagesize :: u64
  mb_space :: address_space
  mb_words :: "u64 \<rightharpoonup> u64"

definition bank_new :: "address_space \<Rightarrow> u64 \<Rightarrow> u64 \<Rightarrow> memory_bank" where
  "bank_new spc wordsize pagesize =
     \<lparr>mb_wordsize = wordsize, mb_pagesize = pagesize, mb_space = spc, mb_words = Map.empty\<rparr>"

definition bank_insert :: "memory_bank \<Rightarrow> u64 \<Rightarrow> u64 \<Rightarrow> memory_bank" where
  "bank_insert b addr val = b\<lparr>mb_words := (mb_words b)(addr \<mapsto> val)\<rparr>"

definition bank_find :: "memory_bank \<Rightarrow> u64 \<Rightarrow> u64" where
  "bank_find b addr = (case mb_words b addr of Some val \<Rightarrow> val | None \<Rightarrow> 0)"

definition bank_clear :: "memory_bank \<Rightarrow> memory_bank" where
  "bank_clear b = b\<lparr>mb_words := Map.empty\<rparr>"

section \<open>Pages\<close>

text \<open>
  One turn of the loops of \<open>get_page\<close> and \<open>set_page\<close>: which bytes of the word at \<open>startalign\<close> belong to the request, as the index
  of the first and their number.
\<close>

definition word_window :: "u64 \<Rightarrow> u64 \<Rightarrow> u64 \<Rightarrow> u64 \<Rightarrow> u64 \<times> u64" where
  "word_window wordsize addr endaddr startalign =
     (let (ptr_idx, sz) = (if startalign < addr then (addr - startalign, wordsize - (addr - startalign)) else (0, wordsize))
      in (ptr_idx, if startalign + wordsize > endaddr then sz - (startalign + wordsize - endaddr) else sz))"

definition bswap_needed :: "address_space \<Rightarrow> bool" where
  "bswap_needed spc \<longleftrightarrow> (HOST_ENDIAN = 1) \<noteq> is_big_endian spc"

text \<open>The eight-byte buffer holds \<open>wordsize\<close> bytes; a larger word indexes it out of range.\<close>

definition word_buf :: "u64 \<Rightarrow> u64 \<Rightarrow> u8 list res" where
  "word_buf wordsize val =
     (if wordsize > 8 then Panic
      else Ret (map (\<lambda>i. ucast (shr_u64 val (i * 8) AND 0xff)) [0..<unat wordsize] @ replicate (8 - unat wordsize) 0))"

definition buf_word :: "u64 \<Rightarrow> u8 list \<Rightarrow> u64" where
  "buf_word wordsize buf = foldl (\<lambda>v i. v OR shl_u64 (ucast (buf ! i)) (i * 8)) 0 [0..<unat wordsize]"

definition swap_if :: "bool \<Rightarrow> u64 \<Rightarrow> u64 \<Rightarrow> u64 res" where
  "swap_if bswap val wordsize = (if bswap then byte_swap val wordsize else Ret val)"

definition get_page_word :: "memory_bank \<Rightarrow> u64 \<Rightarrow> u64 \<Rightarrow> u64 \<Rightarrow> u8 list \<Rightarrow> u64 \<Rightarrow> (u8 list \<times> u64) res" where
  "get_page_word b addr endaddr startalign res out_pos =
     res_bind (swap_if (bswap_needed (mb_space b)) (bank_find b startalign) (mb_wordsize b)) (\<lambda>curval.
     res_bind (word_buf (mb_wordsize b) curval) (\<lambda>buf.
       let (ptr_idx, sz) = word_window (mb_wordsize b) addr endaddr startalign
       in res_bind (slice buf ptr_idx (ptr_idx + sz)) (\<lambda>part.
          res_map (\<lambda>res. (res, out_pos + sz)) (copy_into res out_pos (out_pos + sz) part))))"

partial_function (option) get_page_loop ::
    "memory_bank \<Rightarrow> u64 \<Rightarrow> u64 \<Rightarrow> u64 \<Rightarrow> u64 \<Rightarrow> u8 list \<Rightarrow> u64 \<Rightarrow> u8 list run" where
  "get_page_loop b addr endaddr endalign startalign res out_pos =
     (case get_page_word b addr endaddr startalign res out_pos of
        Panic \<Rightarrow> Some Panic
      | Ret (res, out_pos) \<Rightarrow>
          (if startalign + mb_wordsize b = endalign then ret res
           else get_page_loop b addr endaddr endalign (startalign + mb_wordsize b) res out_pos))"

definition page_ends :: "u64 \<Rightarrow> u64 \<Rightarrow> u64 \<Rightarrow> u64 \<Rightarrow> u64 \<times> u64 \<times> u64" where
  "page_ends wordsize addr skip sz =
     (let ptraddr = addr + skip;
          endaddr = ptraddr + sz;
          alignmask = wordsize - 1;
          endalign = endaddr AND NOT alignmask
      in (endaddr, ptraddr AND NOT alignmask, if endaddr AND alignmask \<noteq> 0 then endalign + wordsize else endalign))"

definition bank_get_page :: "memory_bank \<Rightarrow> u64 \<Rightarrow> u64 \<Rightarrow> u64 \<Rightarrow> u8 list run" where
  "bank_get_page b addr skip sz =
     (let (endaddr, startalign, endalign) = page_ends (mb_wordsize b) addr skip sz
      in get_page_loop b addr endaddr endalign startalign (replicate (unat sz) 0) 0)"

definition set_page_word :: "memory_bank \<Rightarrow> u64 \<Rightarrow> u64 \<Rightarrow> u64 \<Rightarrow> u8 list \<Rightarrow> u64 \<Rightarrow> (memory_bank \<times> u64) res" where
  "set_page_word b addr endaddr startalign val val_pos =
     (let (ptr_idx, sz) = word_window (mb_wordsize b) addr endaddr startalign
      in res_bind
           (if sz \<noteq> mb_wordsize b then
              res_bind (word_buf (mb_wordsize b) (bank_find b startalign)) (\<lambda>buf.
              res_bind (slice val val_pos (val_pos + sz)) (\<lambda>part.
              res_map (buf_word (mb_wordsize b)) (copy_into buf ptr_idx (ptr_idx + sz) part)))
            else res_map (buf_word (mb_wordsize b)) (slice val val_pos (val_pos + mb_wordsize b)))
           (\<lambda>curval. res_map (\<lambda>curval. (bank_insert b startalign curval, val_pos + sz))
              (swap_if (bswap_needed (mb_space b)) curval (mb_wordsize b))))"

partial_function (option) set_page_loop ::
    "u64 \<Rightarrow> u64 \<Rightarrow> u64 \<Rightarrow> u8 list \<Rightarrow> memory_bank \<Rightarrow> u64 \<Rightarrow> u64 \<Rightarrow> memory_bank run" where
  "set_page_loop addr endaddr endalign val b startalign val_pos =
     (case set_page_word b addr endaddr startalign val val_pos of
        Panic \<Rightarrow> Some Panic
      | Ret (b, val_pos) \<Rightarrow>
          (if startalign + mb_wordsize b = endalign then ret b
           else set_page_loop addr endaddr endalign val b (startalign + mb_wordsize b) val_pos))"

definition bank_set_page :: "memory_bank \<Rightarrow> u64 \<Rightarrow> u8 list \<Rightarrow> u64 \<Rightarrow> u64 \<Rightarrow> memory_bank run" where
  "bank_set_page b addr val skip sz =
     (let (endaddr, startalign, endalign) = page_ends (mb_wordsize b) addr skip sz
      in set_page_loop addr endaddr endalign val b startalign 0)"

section \<open>Values and chunks\<close>

definition bank_get_value :: "memory_bank \<Rightarrow> u64 \<Rightarrow> u64 \<Rightarrow> u64 run" where
  "bank_get_value b offset sz =
     value_get (\<lambda>a. ret (bank_find b a)) (mb_wordsize b) (is_big_endian (mb_space b)) offset sz"

definition bank_set_value :: "memory_bank \<Rightarrow> u64 \<Rightarrow> u64 \<Rightarrow> u64 \<Rightarrow> memory_bank run" where
  "bank_set_value b offset sz val =
     value_set (\<lambda>b a. ret (bank_find b a)) (\<lambda>b a v. ret (bank_insert b a v)) (mb_wordsize b) (is_big_endian (mb_space b))
       b offset sz val"

text \<open>
  The part of a chunk that lies in the page of \<open>offset\<close>: the page, the bytes of it to skip and the number of bytes.
\<close>

definition chunk_piece :: "u64 \<Rightarrow> u64 \<Rightarrow> u64 \<Rightarrow> u64 \<Rightarrow> u64 \<times> u64 \<times> u64" where
  "chunk_piece pagesize offset sz count =
     (let offalign = offset AND NOT (pagesize - 1);
          skip = (if offalign \<noteq> offset then offset - offalign else 0);
          cursize = (if offalign \<noteq> offset then pagesize - skip else pagesize)
      in (offalign, skip, if sz - count < cursize then sz - count else cursize))"

partial_function (option) set_chunk_loop ::
    "('s \<Rightarrow> u64 \<Rightarrow> u8 list \<Rightarrow> u64 \<Rightarrow> u64 \<Rightarrow> 's run) \<Rightarrow> u64 \<Rightarrow> u8 list \<Rightarrow> u64 \<Rightarrow> 's \<Rightarrow> u64 \<Rightarrow> u64 \<Rightarrow> u64 \<Rightarrow> 's run" where
  "set_chunk_loop set_page pagesize val sz b offset count val_pos =
     (if count < sz then
        (let (offalign, skip, cursize) = chunk_piece pagesize offset sz count
         in case slice val val_pos (val_pos + cursize) of
              Panic \<Rightarrow> Some Panic
            | Ret part \<Rightarrow>
                (case set_page b offalign part skip cursize of
                   None \<Rightarrow> None
                 | Some Panic \<Rightarrow> Some Panic
                 | Some (Ret b) \<Rightarrow>
                     set_chunk_loop set_page pagesize val sz b (offset + cursize) (count + cursize) (val_pos + cursize)))
      else ret b)"

definition bank_set_chunk :: "memory_bank \<Rightarrow> u64 \<Rightarrow> u8 list \<Rightarrow> memory_bank run" where
  "bank_set_chunk b offset val =
     set_chunk_loop bank_set_page (mb_pagesize b) val (of_nat (length val)) b offset 0 0"

partial_function (option) get_chunk_loop ::
    "(u64 \<Rightarrow> u64 \<Rightarrow> u64 \<Rightarrow> u8 list run) \<Rightarrow> u64 \<Rightarrow> u64 \<Rightarrow> u64 \<Rightarrow> u64 \<Rightarrow> u8 list \<Rightarrow> u8 list run" where
  "get_chunk_loop get_page pagesize sz offset count res =
     (if count < sz then
        (let (offalign, skip, cursize) = chunk_piece pagesize offset sz count
         in case get_page offalign skip cursize of
              None \<Rightarrow> None
            | Some Panic \<Rightarrow> Some Panic
            | Some (Ret chunk) \<Rightarrow>
                get_chunk_loop get_page pagesize sz (offset + cursize) (count + cursize) (res @ chunk))
      else ret res)"

definition bank_get_chunk :: "memory_bank \<Rightarrow> u64 \<Rightarrow> u64 \<Rightarrow> u8 list run" where
  "bank_get_chunk b offset sz = get_chunk_loop (bank_get_page b) (mb_pagesize b) sz offset 0 []"

declare get_page_loop.simps [code] set_page_loop.simps [code] get_chunk_loop.simps [code] set_chunk_loop.simps [code]

section \<open>A bank of eight-byte words is an array of bytes\<close>

definition bank_ok :: "memory_bank \<Rightarrow> bool" where
  "bank_ok b \<longleftrightarrow> mb_wordsize b = 8"

definition bank_bytes :: "memory_bank \<Rightarrow> memory" where
  "bank_bytes b = byte_view (is_big_endian (mb_space b)) (bank_find b)"

lemma bank_find_insert: "bank_find (bank_insert b a v) c = (if c = a then v else bank_find b c)"
  by (simp add: bank_find_def bank_insert_def)

lemma bank_insert_fields [simp]:
  "mb_wordsize (bank_insert b a v) = mb_wordsize b" "mb_pagesize (bank_insert b a v) = mb_pagesize b"
  "mb_space (bank_insert b a v) = mb_space b"
  by (simp_all add: bank_insert_def)

interpretation bank: total_store "\<lambda>b a. ret (bank_find b a)" "\<lambda>b a v. ret (bank_insert b a v)" bank_ok bank_find "\<lambda>a. True"
  by unfold_locales (auto simp: bank_ok_def bank_find_insert)

lemma byte_view_bank: "byte_view be (bank_find b) = bank_bytes b" if "be = is_big_endian (mb_space b)"
  by (simp only: bank_bytes_def that)

lemma bank_bytes_at:
  assumes "aligned s" and "k < 8"
  shows "bank_bytes b (s + of_nat k) = word_byte (bank_find b s) k"
  using assms by (simp add: bank_bytes_def byte_view_def word_parts_of_sum)

section \<open>Pages\<close>

lemma word_buf_8: "word_buf 8 w = Ret (map (word_byte w) [0..<8])"
  by (simp add: word_buf_def ucast_low_byte word_byte_def shr_u64_def mult.commute [of _ 8] cong: map_cong)

lemma aligned_add: "aligned s \<Longrightarrow> aligned (s + of_nat (8 * j))"
proof (induction j)
  case (Suc j)
  have "s + of_nat (8 * Suc j) = (s + of_nat (8 * j)) + 8" by (simp add: algebra_simps)
  then show ?case using Suc by (simp only: aligned_plus_8)
qed simp

text \<open>Addresses of a request that stays a word away from the end of the space.\<close>

definition room :: "u64 \<Rightarrow> nat \<Rightarrow> bool" where
  "room s n \<longleftrightarrow> unat s + n + 8 \<le> 2 ^ 64"

lemma room_unat: "room s n \<Longrightarrow> k < n + 8 \<Longrightarrow> unat (s + of_nat k) = unat s + k"
  unfolding room_def by (simp add: unat_word_ariths unsigned_of_nat take_bit_nat_eq_self)

lemma room_less: "room s n \<Longrightarrow> i < n + 8 \<Longrightarrow> k < n + 8 \<Longrightarrow> s + of_nat i < s + of_nat k \<longleftrightarrow> i < k"
  by (simp add: word_less_nat_alt room_unat)

lemma room_eq: "room s n \<Longrightarrow> i < n + 8 \<Longrightarrow> k < n + 8 \<Longrightarrow> s + of_nat i = s + of_nat k \<longleftrightarrow> i = k"
  by (simp add: word_unat_eq_iff room_unat)

lemma room_of_nat: "room s n \<Longrightarrow> k < n + 8 \<Longrightarrow> unat (of_nat k :: u64) = k"
  unfolding room_def by (simp add: unsigned_of_nat take_bit_nat_eq_self)

lemma window_8:
  assumes "room s n" and "addr \<le> s" and "8 * j < n"
  shows "word_window 8 addr (s + of_nat n) (s + of_nat (8 * j)) = (0, of_nat (min 8 (n - 8 * j)))"
proof -
  have "s \<le> s + of_nat (8 * j)" using room_unat [OF assms(1), of "8 * j"] assms(3) by (simp add: word_le_nat_alt)
  then have start: "\<not> s + of_nat (8 * j) < addr" using assms(2) by (simp add: not_less)
  have next_: "s + of_nat (8 * j) + 8 = s + of_nat (8 * j + 8)" by simp
  have gt: "s + of_nat (8 * j) + 8 > s + of_nat n \<longleftrightarrow> n < 8 * j + 8"
    unfolding next_ using room_less [OF assms(1), of n "8 * j + 8"] assms(3) by simp
  have "8 - (s + of_nat (8 * j) + 8 - (s + of_nat n)) = of_nat n - of_nat (8 * j)" by simp
  also have "\<dots> = (of_nat (n - 8 * j) :: u64)" using assms(3) by (simp add: of_nat_diff)
  finally have "8 - (s + of_nat (8 * j) + 8 - (s + of_nat n)) = of_nat (n - 8 * j)" .
  then show ?thesis using assms(3)
    unfolding word_window_def Let_def gt if_not_P [OF start] by (auto simp: min_def)
qed

lemma take_bytes_step:
  assumes "8 * j + m \<le> n" and "m \<le> 8" and "aligned s"
  shows "take (8 * j) (map (\<lambda>i. bank_bytes b (s + of_nat i)) [0..<n]) @ take m (map (word_byte (bank_find b (s + of_nat (8 * j)))) [0..<8]) =
    take (8 * j + m) (map (\<lambda>i. bank_bytes b (s + of_nat i)) [0..<n])"
proof -
  have "word_byte (bank_find b (s + of_nat (8 * j))) i = bank_bytes b (s + of_nat (8 * j + i))" if "i < 8" for i
    using bank_bytes_at [OF aligned_add [OF assms(3), of j] that] by (simp add: add.assoc)
  then show ?thesis using assms(1,2)
    by (intro nth_equalityI) (auto simp: nth_append min_def)
qed

lemma get_page_word_8:
  assumes "bank_ok b" and "room s n" and "addr \<le> s" and "8 * j < n" and "aligned s" and "m = min 8 (n - 8 * j)"
    and "bytes = map (\<lambda>i. bank_bytes b (s + of_nat i)) [0..<n]"
  shows "get_page_word b addr (s + of_nat n) (s + of_nat (8 * j)) (take (8 * j) bytes @ replicate (n - 8 * j) 0) (of_nat (8 * j)) =
    Ret (take (8 * j + m) bytes @ replicate (n - (8 * j + m)) 0, of_nat (8 * j + m))"
proof -
  have m: "8 * j + m \<le> n" "m \<le> 8" using assms(4,6) by simp_all
  have u: "unat (of_nat (8 * j) :: u64) = 8 * j" "unat (of_nat (8 * j + m) :: u64) = 8 * j + m" "unat (of_nat m :: u64) = m"
    by (rule room_of_nat [OF assms(2)], use m in linarith)+
  have len: "length bytes = n" by (simp add: assms(7))
  have "slice (map (word_byte (bank_find b (s + of_nat (8 * j)))) [0..<8]) 0 (of_nat m) =
      Ret (take m (map (word_byte (bank_find b (s + of_nat (8 * j)))) [0..<8]))"
    using m u by (simp add: slice_def)
  moreover have "copy_into (take (8 * j) bytes @ replicate (n - 8 * j) 0) (of_nat (8 * j)) (of_nat (8 * j + m))
      (take m (map (word_byte (bank_find b (s + of_nat (8 * j)))) [0..<8])) =
      Ret (take (8 * j + m) bytes @ replicate (n - (8 * j + m)) 0)"
    using m u len take_bytes_step [OF m assms(5), of b, folded assms(7)]
    by (simp add: copy_into_def word_le_nat_alt)
  ultimately show ?thesis
    using assms(1) unfolding get_page_word_def bank_ok_def
    by (simp add: swap_if_def bswap_needed_def HOST_ENDIAN_def word_buf_8 window_8 [OF assms(2-4)] flip: assms(6) of_nat_add
      del: of_nat_mult of_nat_add)
qed

lemma last_word:
  assumes "room s n" and "8 * j < n"
  shows "s + of_nat (8 * Suc j) = s + of_nat (8 * ((n + 7) div 8)) \<longleftrightarrow> Suc j = (n + 7) div 8"
proof -
  have a: "8 * Suc j < n + 8" using assms(2) by simp
  have b: "8 * ((n + 7) div 8) < n + 8" by linarith
  from room_eq [OF assms(1) a b] show ?thesis by (simp only: mult_cancel1) simp
qed

lemma get_page_loop_8:
  assumes "bank_ok b" and "room s n" and "addr \<le> s" and "8 * j < n" and "aligned s"
    and "bytes = map (\<lambda>i. bank_bytes b (s + of_nat i)) [0..<n]"
  shows "get_page_loop b addr (s + of_nat n) (s + of_nat (8 * ((n + 7) div 8))) (s + of_nat (8 * j))
    (take (8 * j) bytes @ replicate (n - 8 * j) 0) (of_nat (8 * j)) = ret bytes"
  using assms(4)
proof (induction "n - 8 * j" arbitrary: j rule: less_induct)
  case less
  have len: "length bytes = n" by (simp add: assms(6))
  have ws: "mb_wordsize b = 8" using assms(1) by (simp add: bank_ok_def)
  have next_: "s + of_nat (8 * j) + 8 = s + of_nat (8 * Suc j)" by (simp add: algebra_simps)
  note last = last_word [OF assms(2) less.prems]
  note turn = get_page_word_8 [OF assms(1-3) less.prems assms(5) refl assms(6)]
  show ?case
  proof (cases "n \<le> 8 * Suc j")
    case True
    then have "min 8 (n - 8 * j) = n - 8 * j" and "Suc j = (n + 7) div 8" using less.prems by simp_all
    then show ?thesis using turn len less.prems
      by (subst get_page_loop.simps) (simp add: ws next_ last del: of_nat_mult mult_Suc_right of_nat_Suc)
  next
    case False
    then have "min 8 (n - 8 * j) = 8" and "Suc j \<noteq> (n + 7) div 8" by simp_all
    moreover have "get_page_loop b addr (s + of_nat n) (s + of_nat (8 * ((n + 7) div 8))) (s + of_nat (8 * Suc j))
      (take (8 * Suc j) bytes @ replicate (n - 8 * Suc j) 0) (of_nat (8 * Suc j)) = ret bytes"
      by (rule less.hyps) (use False in simp_all)
    moreover have "8 * j + 8 = 8 * Suc j" by simp
    ultimately show ?thesis using turn
      by (subst get_page_loop.simps) (simp only: ws next_ last res.case prod.case if_False simp_thms)
  qed
qed

lemma page_ends_parts:
  assumes "aligned base" and "addr + skip = base + of_nat p" and "p < 8" and "n = p + k"
  shows "page_ends 8 addr skip (of_nat k) = (base + of_nat n, base, base + of_nat (8 * ((n + 7) div 8)))"
proof -
  let ?e = "base + of_nat n :: u64"
  define q r where "q = n div 8" and "r = n mod 8"
  have n: "n = 8 * q + r" and r: "r < 8" by (simp_all add: q_def r_def)
  have e: "?e = (base + of_nat (8 * q)) + of_nat r" by (simp add: n)
  have sum: "base + of_nat p + of_nat k = ?e" by (simp add: assms(4))
  note parts = word_parts_of_sum [OF aligned_add [OF assms(1), of q] r, folded e]
  have low: "?e AND NOT 7 = base + of_nat (8 * q)" using parts(1) by (simp only: word_base_def)
  have pos: "?e AND 7 \<noteq> 0 \<longleftrightarrow> r \<noteq> 0" using parts(2) unfolding word_pos_def by (metis unat_0 unat_eq_zero)
  have start: "(base + of_nat p) AND NOT 7 = base"
    using word_parts_of_sum(1) [OF assms(1,3)] by (simp only: word_base_def)
  have up: "(n + 7) div 8 = (if r \<noteq> 0 then q + 1 else q)" using n r by auto
  have "(8 - 1 :: u64) = 7" by simp
  then show ?thesis
    by (simp only: page_ends_def Let_def assms(2) sum low pos start up) (simp add: algebra_simps)
qed

lemma page_ends_8:
  assumes "aligned (addr + skip)"
  shows "page_ends 8 addr skip (of_nat n) = (addr + skip + of_nat n, addr + skip, addr + skip + of_nat (8 * ((n + 7) div 8)))"
  using page_ends_parts [OF assms, of addr skip 0 n n] by simp

lemma get_page_8:
  assumes "bank_ok b" and "aligned (addr + skip)" and "addr \<le> addr + skip" and "room (addr + skip) n" and "0 < n"
  shows "bank_get_page b addr skip (of_nat n) = ret (map (\<lambda>i. bank_bytes b (addr + skip + of_nat i)) [0..<n])"
proof -
  have ws: "mb_wordsize b = 8" using assms(1) by (simp add: bank_ok_def)
  have "unat (of_nat n :: u64) = n" by (rule room_of_nat [OF assms(4)]) simp
  then show ?thesis
    using get_page_loop_8 [OF assms(1,4,3) _ assms(2) refl, of 0] assms(5)
    by (simp add: bank_get_page_def ws page_ends_8 [OF assms(2)])
qed

definition bytes_write :: "memory \<Rightarrow> u64 \<Rightarrow> u8 list \<Rightarrow> memory" where
  "bytes_write m s xs = (\<lambda>a. if unat (a - s) < length xs then xs ! unat (a - s) else m a)"

lemma bytes_write_Nil [simp]: "bytes_write m s [] = m"
  by (simp add: bytes_write_def)

lemma bytes_write_append:
  assumes "length xs + length ys \<le> 2 ^ 64 - 1"
  shows "bytes_write (bytes_write m s xs) (s + of_nat (length xs)) ys = bytes_write m s (xs @ ys)"
proof
  fix a
  let ?d = "unat (a - s)" and ?l = "length xs"
  have l: "unat (of_nat ?l :: u64) = ?l" using assms by (simp add: unsigned_of_nat take_bit_nat_eq_self)
  have "unat (x - of_nat ?l :: u64) = (if ?l \<le> unat x then unat x - ?l else unat x + 2 ^ 64 - ?l)" for x
    using unat_sub_if' [of x "of_nat ?l"] by (simp only: l) simp
  from this [of "a - s"] have d: "unat (a - (s + of_nat ?l)) = (if ?l \<le> ?d then ?d - ?l else ?d + 2 ^ 64 - ?l)"
    by (simp only: diff_diff_eq)
  have "?d < 2 ^ 64" using unsigned_less [of "a - s"] by simp
  then show "bytes_write (bytes_write m s xs) (s + of_nat ?l) ys a = bytes_write m s (xs @ ys) a"
    using assms by (auto simp: bytes_write_def d nth_append)
qed

lemma word_byte_or_shl:
  assumes "word_byte v n = 0" and "n < 8" and "k < 8"
  shows "word_byte (v OR shl_u64 (ucast (x :: u8)) (n * 8)) k = (if k = n then x else word_byte v k)"
proof -
  have shl: "shl_u64 (ucast x) (n * 8) = push_bit (8 * n) (ucast x)" using assms(2) by (simp add: shl_u64_def mult.commute)
  have z: "\<not> bit v (8 * n + i)" if "i < 8" for i
    using assms(1) that bit_word_byte [of v n i] by simp
  have hi: "\<not> bit x (8 * k + i - 8 * n)" if "n < k" for i
    using bit_imp_le_length [of x "8 * k + i - 8 * n"] that by auto
  show ?thesis unfolding shl using z hi assms(2,3)
    by (intro bit_word_eqI) (auto simp: bit_word_byte bit_simps not_le dest: bit_imp_le_length)
qed

lemma word_byte_buf_word:
  assumes "k < 8"
  shows "word_byte (buf_word 8 buf) k = buf ! k"
proof -
  have "n \<le> 8 \<Longrightarrow> k < 8 \<Longrightarrow> word_byte (foldl (\<lambda>v i. v OR shl_u64 (ucast (buf ! i)) (i * 8)) 0 [0..<n]) k =
      (if k < n then buf ! k else 0)" for n k
    by (induction n arbitrary: k) (auto simp: word_byte_or_shl less_Suc_eq)
  from this [of 8 k] show ?thesis using assms by (simp add: buf_word_def)
qed

lemma dist_aligned:
  assumes "aligned s"
  shows "unat (a - s) < 8 \<longleftrightarrow> word_base a = s" and "word_base a = s \<Longrightarrow> unat (a - s) = word_pos a"
proof -
  have base: "word_base s = s" and pos: "word_pos s = 0"
    using assms by (simp_all add: word_base_aligned) (simp add: aligned_def)
  have same: "unat (a - s) = word_pos a" if "word_base a = s" using unat_dist_same(2) [of a s] that base pos by simp
  then show "word_base a = s \<Longrightarrow> unat (a - s) = word_pos a" .
  have "8 \<le> unat (a - s)" if "word_base a \<noteq> s"
    using unat_dist_next [of a s] unat_dist_other [of a s] base pos that by (cases "word_base a = s + 8") simp_all
  then show "unat (a - s) < 8 \<longleftrightarrow> word_base a = s" using same by (cases "word_base a = s") auto
qed

lemma bank_bytes_insert:
  assumes "aligned s" and "length xs \<le> 8"
    and "\<And>k. k < 8 \<Longrightarrow> word_byte w k = (if k < length xs then xs ! k else word_byte (bank_find b s) k)"
  shows "bank_bytes (bank_insert b s w) = bytes_write (bank_bytes b) s xs"
proof
  fix a
  show "bank_bytes (bank_insert b s w) a = bytes_write (bank_bytes b) s xs a"
  proof (cases "word_base a = s")
    case True
    then show ?thesis using dist_aligned(2) [OF assms(1) True] assms(3) [of "word_pos a"]
      by (simp add: bank_bytes_def byte_view_def bank_find_insert bytes_write_def)
  next
    case False
    then have "\<not> unat (a - s) < length xs" using dist_aligned(1) [OF assms(1), of a] assms(2) by auto
    then show ?thesis using False by (simp add: bank_bytes_def byte_view_def bank_find_insert bytes_write_def)
  qed
qed

lemma set_page_word_8:
  assumes "bank_ok b" and "room s n" and "addr \<le> s" and "8 * j < n" and "aligned s" and "m = min 8 (n - 8 * j)" and "length val = n"
  obtains w where "set_page_word b addr (s + of_nat n) (s + of_nat (8 * j)) val (of_nat (8 * j)) =
      Ret (bank_insert b (s + of_nat (8 * j)) w, of_nat (8 * j + m))"
    and "bank_bytes (bank_insert b (s + of_nat (8 * j)) w) = bytes_write (bank_bytes b) (s + of_nat (8 * j)) (take m (drop (8 * j) val))"
proof -
  let ?start = "s + of_nat (8 * j)" and ?part = "take m (drop (8 * j) val)"
  have ws: "mb_wordsize b = 8" using assms(1) by (simp add: bank_ok_def)
  have m: "8 * j + m \<le> n" "m \<le> 8" "0 < m" using assms(4,6) by simp_all
  have u: "unat (of_nat (8 * j) :: u64) = 8 * j" "unat (of_nat (8 * j + m) :: u64) = 8 * j + m" "unat (of_nat m :: u64) = m"
    by (rule room_of_nat [OF assms(2)], use m in linarith)+
  have plus: "of_nat (8 * j) + of_nat m = (of_nat (8 * j + m) :: u64)" by (simp only: of_nat_add)
  have part: "slice val (of_nat (8 * j)) (of_nat (8 * j + m)) = Ret ?part"
    using m u assms(7) by (simp add: slice_def word_le_nat_alt)
  have len: "length ?part = m" using m assms(7) by simp
  define buf where "buf = (if m = 8 then ?part else ?part @ drop m (map (word_byte (bank_find b ?start)) [0..<8]))"
  have nth: "buf ! k = (if k < m then ?part ! k else word_byte (bank_find b ?start) k)" if "k < 8" for k
    using that m len by (auto simp: buf_def nth_append)
  have eq8: "of_nat m = (8 :: u64) \<longleftrightarrow> m = 8" using m(2) by (intro small_u64_eq) simp
  have copy: "copy_into (map (word_byte (bank_find b ?start)) [0..<8]) 0 (of_nat m) ?part =
      Ret (?part @ drop m (map (word_byte (bank_find b ?start)) [0..<8]))"
    using m u len by (simp add: copy_into_def)
  have run: "set_page_word b addr (s + of_nat n) ?start val (of_nat (8 * j)) =
      Ret (bank_insert b ?start (buf_word 8 buf), of_nat (8 * j + m))"
  proof (cases "m = 8")
    case True
    then have "set_page_word b addr (s + of_nat n) ?start val (of_nat (8 * j)) =
        Ret (bank_insert b ?start (buf_word 8 ?part), of_nat (8 * j + m))"
      using part eq8 plus unfolding set_page_word_def ws window_8 [OF assms(2-4)] assms(6) [symmetric]
      by (simp add: swap_if_def bswap_needed_def HOST_ENDIAN_def del: of_nat_mult of_nat_add)
    then show ?thesis using True by (simp only: buf_def if_True simp_thms)
  next
    case False
    then have "set_page_word b addr (s + of_nat n) ?start val (of_nat (8 * j)) =
        Ret (bank_insert b ?start (buf_word 8 (?part @ drop m (map (word_byte (bank_find b ?start)) [0..<8]))), of_nat (8 * j + m))"
      using part eq8 plus copy unfolding set_page_word_def ws window_8 [OF assms(2-4)] assms(6) [symmetric]
      by (simp add: swap_if_def bswap_needed_def HOST_ENDIAN_def word_buf_8 del: of_nat_mult of_nat_add)
    then show ?thesis using False by (simp only: buf_def if_False)
  qed
  moreover have "bank_bytes (bank_insert b ?start (buf_word 8 buf)) = bytes_write (bank_bytes b) ?start ?part"
    by (rule bank_bytes_insert [OF aligned_add [OF assms(5)]]) (use m len in \<open>simp_all only: word_byte_buf_word nth\<close>)
  ultimately show thesis by (rule that)
qed

lemma set_page_loop_8:
  assumes "room s n" and "addr \<le> s" and "aligned s" and "length val = n" and "8 * j < n" and "bank_ok b"
  obtains b' where "set_page_loop addr (s + of_nat n) (s + of_nat (8 * ((n + 7) div 8))) val b (s + of_nat (8 * j)) (of_nat (8 * j)) = ret b'"
    and "bank_ok b'" and "mb_pagesize b' = mb_pagesize b" and "mb_space b' = mb_space b"
    and "bank_bytes b' = bytes_write (bank_bytes b) (s + of_nat (8 * j)) (drop (8 * j) val)"
  using assms(5,6)
proof (induction "n - 8 * j" arbitrary: j b thesis rule: less_induct)
  case less
  have ws: "mb_wordsize b = 8" using less.prems(3) by (simp add: bank_ok_def)
  have next_: "s + of_nat (8 * j) + 8 = s + of_nat (8 * Suc j)" by (simp add: algebra_simps)
  note last = last_word [OF assms(1) less.prems(2)]
  define m where "m = min 8 (n - 8 * j)"
  obtain w where turn: "set_page_word b addr (s + of_nat n) (s + of_nat (8 * j)) val (of_nat (8 * j)) =
      Ret (bank_insert b (s + of_nat (8 * j)) w, of_nat (8 * j + m))"
    and bytes: "bank_bytes (bank_insert b (s + of_nat (8 * j)) w) =
      bytes_write (bank_bytes b) (s + of_nat (8 * j)) (take m (drop (8 * j) val))"
    by (rule set_page_word_8 [OF less.prems(3) assms(1,2) less.prems(2) assms(3) m_def assms(4)]) (rule that)
  define b1 where "b1 = bank_insert b (s + of_nat (8 * j)) w"
  have b1: "bank_ok b1" "mb_pagesize b1 = mb_pagesize b" "mb_space b1 = mb_space b" "mb_wordsize b1 = 8"
    using less.prems(3) by (simp_all add: b1_def bank_ok_def)
  show ?case
  proof (cases "n \<le> 8 * Suc j")
    case True
    then have m: "m = n - 8 * j" and l: "Suc j = (n + 7) div 8" using less.prems(2) by (simp_all add: m_def)
    have "set_page_loop addr (s + of_nat n) (s + of_nat (8 * ((n + 7) div 8))) val b (s + of_nat (8 * j)) (of_nat (8 * j)) = ret b1"
      by (subst set_page_loop.simps) (simp only: turn res.case prod.case b1_def [symmetric] b1(4) next_ last l if_True simp_thms)
    moreover have "bank_bytes b1 = bytes_write (bank_bytes b) (s + of_nat (8 * j)) (drop (8 * j) val)"
      using bytes assms(4) by (simp only: b1_def m) simp
    ultimately show ?thesis using b1 by (intro less.prems(1))
  next
    case False
    then have m: "m = 8" and l: "Suc j \<noteq> (n + 7) div 8" and dec: "n - 8 * Suc j < n - 8 * j" and more: "8 * Suc j < n"
      by (simp_all add: m_def)
    obtain b2 where run: "set_page_loop addr (s + of_nat n) (s + of_nat (8 * ((n + 7) div 8))) val b1 (s + of_nat (8 * Suc j)) (of_nat (8 * Suc j)) = ret b2"
      and b2: "bank_ok b2" "mb_pagesize b2 = mb_pagesize b1" "mb_space b2 = mb_space b1"
      and bytes2: "bank_bytes b2 = bytes_write (bank_bytes b1) (s + of_nat (8 * Suc j)) (drop (8 * Suc j) val)"
      by (rule less.hyps [OF dec _ more b1(1)]) (rule that)
    have "8 * j + m = 8 * Suc j" using m by simp
    then have "set_page_loop addr (s + of_nat n) (s + of_nat (8 * ((n + 7) div 8))) val b (s + of_nat (8 * j)) (of_nat (8 * j)) = ret b2"
      using run l by (subst set_page_loop.simps) (simp only: turn res.case prod.case b1_def [symmetric] b1(4) next_ last if_False)
    moreover have "bank_bytes b2 = bytes_write (bank_bytes b) (s + of_nat (8 * j)) (drop (8 * j) val)"
    proof -
      let ?xs = "take 8 (drop (8 * j) val)" and ?ys = "drop (8 * Suc j) val"
      have len: "length ?xs = 8" and split: "?xs @ ?ys = drop (8 * j) val"
        using more assms(4) append_take_drop_id [of 8 "drop (8 * j) val"] by (simp_all add: add.commute)
      have sum: "length ?xs + length ?ys \<le> 2 ^ 64 - 1"
        using assms(1,4) more unfolding len room_def by simp
      have "s + of_nat (8 * j) + of_nat (length ?xs) = s + of_nat (8 * Suc j)" unfolding len next_ [symmetric] by simp
      then show ?thesis
        using bytes_write_append [OF sum, of "bank_bytes b" "s + of_nat (8 * j)"] bytes
        by (simp only: bytes2 b1_def m split)
    qed
    ultimately show ?thesis using b1 b2 by (intro less.prems(1)) simp_all
  qed
qed

lemma set_page_8:
  assumes "bank_ok b" and "aligned (addr + skip)" and "addr \<le> addr + skip" and "room (addr + skip) (length val)" and "val \<noteq> []"
  obtains b' where "bank_set_page b addr val skip (of_nat (length val)) = ret b'"
    and "bank_ok b'" and "mb_pagesize b' = mb_pagesize b" and "mb_space b' = mb_space b"
    and "bank_bytes b' = bytes_write (bank_bytes b) (addr + skip) val"
proof -
  have ws: "mb_wordsize b = 8" using assms(1) by (simp add: bank_ok_def)
  have "8 * 0 < length val" using assms(5) by simp
  then obtain b' where "set_page_loop addr (addr + skip + of_nat (length val))
      (addr + skip + of_nat (8 * ((length val + 7) div 8))) val b (addr + skip + of_nat (8 * 0)) (of_nat (8 * 0)) = ret b'"
    and "bank_ok b'" "mb_pagesize b' = mb_pagesize b" "mb_space b' = mb_space b"
      "bank_bytes b' = bytes_write (bank_bytes b) (addr + skip + of_nat (8 * 0)) (drop (8 * 0) val)"
    by (rule set_page_loop_8 [OF assms(4,3,2) refl _ assms(1)]) (rule that)
  then show thesis
    by (intro that) (simp_all add: bank_set_page_def ws page_ends_8 [OF assms(2)])
qed

text \<open>
  The loops compare the word with the page instead of with the first byte of the request, so a request that does not start at a word
  is served from the start of its word, which is too much for the result.
\<close>

lemma get_page_word_unaligned:
  assumes "bank_ok b" and "room base n" and "addr \<le> base" and "8 * j < n" and "length res < n"
  shows "get_page_word b addr (base + of_nat n) (base + of_nat (8 * j)) res (of_nat (8 * j)) =
    (if 8 * Suc j \<le> length res
     then Ret (take (8 * j) res @ map (word_byte (bank_find b (base + of_nat (8 * j)))) [0..<8] @ drop (8 * Suc j) res, of_nat (8 * Suc j))
     else Panic)"
proof -
  let ?buf = "map (word_byte (bank_find b (base + of_nat (8 * j)))) [0..<8]"
  define m where "m = min 8 (n - 8 * j)"
  have m: "8 * j + m \<le> n" "m \<le> 8" using assms(4) by (simp_all add: m_def)
  have u: "unat (of_nat (8 * j) :: u64) = 8 * j" "unat (of_nat (8 * j + m) :: u64) = 8 * j + m" "unat (of_nat m :: u64) = m"
    by (rule room_of_nat [OF assms(2)], use m in linarith)+
  have "slice ?buf 0 (of_nat m) = Ret (take m ?buf)" using m u by (simp add: slice_def)
  moreover have "copy_into res (of_nat (8 * j)) (of_nat (8 * j + m)) (take m ?buf) =
      (if 8 * j + m \<le> length res then Ret (take (8 * j) res @ take m ?buf @ drop (8 * j + m) res) else Panic)"
    using m u by (simp add: copy_into_def word_le_nat_alt)
  ultimately have run: "get_page_word b addr (base + of_nat n) (base + of_nat (8 * j)) res (of_nat (8 * j)) =
      (if 8 * j + m \<le> length res then Ret (take (8 * j) res @ take m ?buf @ drop (8 * j + m) res, of_nat (8 * j + m)) else Panic)"
    using assms(1) unfolding get_page_word_def bank_ok_def
    by (simp add: swap_if_def bswap_needed_def HOST_ENDIAN_def word_buf_8 window_8 [OF assms(2-4)] flip: m_def of_nat_add
      del: of_nat_mult of_nat_add)
  show ?thesis
  proof (cases "8 * j + 8 \<le> n")
    case True
    then have "m = 8" by (simp add: m_def)
    then show ?thesis unfolding run by (simp add: add.commute)
  next
    case False
    then have "8 * j + m = n" and "\<not> 8 * Suc j \<le> length res" using assms(4,5) by (simp_all add: m_def)
    then show ?thesis unfolding run using assms(5) by (simp only: if_False not_less [symmetric] simp_thms)
  qed
qed

lemma get_page_loop_unaligned:
  assumes "bank_ok b" and "room base n" and "addr \<le> base" and "8 * j < n" and "length res < n"
  shows "get_page_loop b addr (base + of_nat n) (base + of_nat (8 * ((n + 7) div 8))) (base + of_nat (8 * j)) res (of_nat (8 * j)) = Some Panic"
  using assms(4,5)
proof (induction "n - 8 * j" arbitrary: j res rule: less_induct)
  case less
  have ws: "mb_wordsize b = 8" using assms(1) by (simp add: bank_ok_def)
  have next_: "base + of_nat (8 * j) + 8 = base + of_nat (8 * Suc j)" by (simp add: algebra_simps)
  note turn = get_page_word_unaligned [OF assms(1-3) less.prems] and last = last_word [OF assms(2) less.prems(1)]
  show ?case
  proof (cases "8 * Suc j \<le> length res")
    case False
    then show ?thesis by (subst get_page_loop.simps) (simp only: turn if_False res.case)
  next
    case True
    then have more: "8 * Suc j < n" and l: "Suc j \<noteq> (n + 7) div 8" using less.prems(2) by simp_all
    let ?res = "take (8 * j) res @ map (word_byte (bank_find b (base + of_nat (8 * j)))) [0..<8] @ drop (8 * Suc j) res"
    have "length ?res = length res" using True by simp
    then have "length ?res < n" using less.prems(2) by (simp only:)
    from less.hyps [OF _ more this] more show ?thesis using True l
      by (subst get_page_loop.simps) (simp only: turn if_True if_False res.case prod.case ws next_ last, simp)
  qed
qed

lemma get_page_unaligned:
  assumes "bank_ok b" and "\<not> aligned (addr + skip)" and "aligned addr" and "addr \<le> addr + skip" and "room (addr + skip) n" and "0 < n"
  shows "bank_get_page b addr skip (of_nat n) = Some Panic"
proof -
  define base p where "base = word_base (addr + skip)" and "p = word_pos (addr + skip)"
  have p: "p < 8" "0 < p" using assms(2) by (simp_all add: p_def aligned_def)
  have al: "aligned base" by (simp add: base_def)
  have split: "addr + skip = base + of_nat p" using addr_split [of "addr + skip"] by (simp add: base_def p_def algebra_simps)
  have ws: "mb_wordsize b = 8" using assms(1) by (simp add: bank_ok_def)
  have ubase: "unat base + p = unat (addr + skip)"
  proof -
    have "int (unat base) = 8 * (uint (addr + skip) div 8)" using uint_word_base [of "addr + skip"] by (simp only: base_def uint_nat)
    moreover have "int p = uint (addr + skip) mod 8" unfolding p_def by (rule word_pos_uint)
    ultimately have "int (unat base) + int p = uint (addr + skip)" by simp
    then show ?thesis by (simp only: uint_nat flip: of_nat_add)
  qed
  have room: "room base (p + n)" using assms(5) ubase by (simp add: room_def)
  have le: "addr \<le> base"
  proof -
    have "8 * (uint addr div 8) \<le> 8 * (uint (addr + skip) div 8)"
      using assms(4) by (simp add: word_le_def zdiv_mono1)
    then have "uint (word_base addr) \<le> uint base" by (simp only: uint_word_base base_def)
    then show ?thesis using word_base_aligned [OF assms(3)] by (simp only: word_le_def)
  qed
  have "unat (of_nat n :: u64) = n" by (rule room_of_nat [OF assms(5)]) simp
  then show ?thesis
    using get_page_loop_unaligned [OF assms(1) room le, of 0 "replicate n 0"] p(2) assms(6)
    by (simp add: bank_get_page_def ws page_ends_parts [OF al split p(1) refl] del: of_nat_add)
qed

end
