(* ===== verification/Mem_Chunks.thy ===== *)
theory Mem_Chunks
  imports Mem_Bank
begin

text \<open>
  Chunks of bytes over pages (\<open>get_chunk\<close> and \<open>set_chunk\<close> of src/src/memstate.rs, and \<open>read\<close> and \<open>write\<close> of the page overlay, which are the
  same loops). The locale \<open>page_store\<close> states what the loops rely on: reading and writing inside one page. Then a chunk is read and
  written byte by byte, and the loops end.
\<close>

unbundle bit_operations_syntax

section \<open>Pages of a power of two\<close>

definition page_base :: "nat \<Rightarrow> u64 \<Rightarrow> u64" where
  "page_base k a = a AND NOT (mask k)"

definition page_pos :: "nat \<Rightarrow> u64 \<Rightarrow> nat" where
  "page_pos k a = unat a mod 2 ^ k"

lemma page_pos_less [simp]: "page_pos k a < 2 ^ k"
  by (simp add: page_pos_def)

lemma unat_and_mask: "k \<le> 64 \<Longrightarrow> unat ((a :: u64) AND mask k) = unat a mod 2 ^ k"
  unfolding take_bit_eq_mask [symmetric] unsigned_take_bit_eq by (rule take_bit_eq_mod)

lemma page_split:
  assumes "k \<le> 64"
  shows "a - page_base k a = of_nat (page_pos k a)" and "unat (page_base k a) + page_pos k a = unat a"
    and "unat (page_base k a) mod 2 ^ k = 0"
proof -
  have base: "page_base k a = a - (a AND mask k)" by (simp only: page_base_def diff_and)
  have pos: "unat (a AND mask k) = page_pos k a" unfolding page_pos_def by (rule unat_and_mask [OF assms])
  have le: "unat (a AND mask k) \<le> unat a" unfolding unat_and_mask [OF assms] by simp
  show "a - page_base k a = of_nat (page_pos k a)" unfolding base pos [symmetric] by simp
  have "unat (page_base k a) = unat a - page_pos k a"
    unfolding base using le pos by (metis unat_sub word_le_nat_alt)
  then show "unat (page_base k a) + page_pos k a = unat a" using le pos by simp
  then show "unat (page_base k a) mod 2 ^ k = 0" unfolding page_pos_def
    by (metis add_diff_cancel_right' minus_mod_eq_mult_div mod_mult_self1_is_0)
qed

lemma page_base_le: "k \<le> 64 \<Longrightarrow> page_base k a \<le> a"
  using page_split(2) [of k a] by (simp add: word_le_nat_alt)

lemma chunk_piece_eq:
  assumes "k < 64" and "count \<le> n" and "n < 2 ^ 64"
  shows "chunk_piece (2 ^ k) off (of_nat n) (of_nat count) =
    (page_base k off, of_nat (page_pos k off), of_nat (min (2 ^ k - page_pos k off) (n - count)))"
proof -
  let ?p = "page_pos k off"
  have m: "(2 ^ k - 1 :: u64) = mask k" by (simp add: mask_eq_exp_minus_1)
  have p: "?p < 2 ^ k" by simp
  have k64: "(2 :: nat) ^ k < 2 ^ 64" using assms(1) by (rule power_strict_increasing) simp
  have rest: "of_nat n - of_nat count = (of_nat (n - count) :: u64)" using assms(2) by (simp add: of_nat_diff)
  have cur: "2 ^ k - of_nat ?p = (of_nat (2 ^ k - ?p) :: u64)" 
    using of_nat_diff [OF less_imp_le [OF p], where 'a = "64 word"] by simp
  have u: "unat (of_nat x :: u64) = x" if "x < 2 ^ 64" for x
    using that by (simp add: unsigned_of_nat take_bit_nat_eq_self)
  have "n - count < 2 ^ 64" and "2 ^ k - ?p < 2 ^ 64" using assms(3) k64 by linarith+
  then have less: "(of_nat (n - count) :: u64) < of_nat (2 ^ k - ?p) \<longleftrightarrow> n - count < 2 ^ k - ?p"
    by (simp only: word_less_nat_alt u)
  have zero: "page_base k off = off \<longleftrightarrow> ?p = 0"
  proof
    assume "page_base k off = off"
    then show "?p = 0" using page_split(2) [of k off] assms(1) by simp
  next
    assume "?p = 0"
    then have "off - page_base k off = 0" using page_split(1) [of k off] assms(1) by simp
    then show "page_base k off = off" by simp
  qed
  have base: "off AND NOT (2 ^ k - 1) = page_base k off" by (simp only: m page_base_def)
  have pos: "off - page_base k off = of_nat ?p" using page_split(1) [of k off] assms(1) by simp
  have amount: "(if n - count < 2 ^ k - ?p then of_nat (n - count) else of_nat (2 ^ k - ?p)) =
      (of_nat (min (2 ^ k - ?p) (n - count)) :: u64)" by (simp only: min_def not_le [symmetric] if_not_P split: if_split) auto
  show ?thesis
  proof (cases "?p = 0")
    case True
    have "(2 ^ k :: u64) = of_nat (2 ^ k - ?p)" using True by simp
    then show ?thesis using zero True amount less rest unfolding chunk_piece_def Let_def base by simp
  next
    case False
    then have ne: "page_base k off \<noteq> off" using zero by simp
    show ?thesis unfolding chunk_piece_def Let_def base if_P [OF ne] pos cur rest less amount ..
  qed
qed

section \<open>Reading and writing chunks\<close>

text \<open>
  \<open>starts a\<close> says where a request may begin: at a word for the plain bank, anywhere for the page overlay.
\<close>

locale page_store =
  fixes k :: nat
    and get_page :: "'s \<Rightarrow> u64 \<Rightarrow> u64 \<Rightarrow> u64 \<Rightarrow> u8 list run"
    and set_page :: "'s \<Rightarrow> u64 \<Rightarrow> u8 list \<Rightarrow> u64 \<Rightarrow> u64 \<Rightarrow> 's run"
    and ok :: "'s \<Rightarrow> bool" and bytes :: "'s \<Rightarrow> memory" and starts :: "u64 \<Rightarrow> bool"
  assumes page_size: "ok st \<Longrightarrow> 3 \<le> k \<and> k < 63"
    and starts_page: "3 \<le> k \<Longrightarrow> unat a mod 2 ^ k = 0 \<Longrightarrow> starts a"
    and get_page_bytes: "ok st \<Longrightarrow> unat addr mod 2 ^ k = 0 \<Longrightarrow> starts (addr + of_nat p) \<Longrightarrow> p + n \<le> 2 ^ k \<Longrightarrow> 0 < n \<Longrightarrow>
      room addr (2 ^ k) \<Longrightarrow> unat (addr + of_nat p) = unat addr + p \<Longrightarrow>
      get_page st addr (of_nat p) (of_nat n) = ret (map (\<lambda>i. bytes st (addr + of_nat p + of_nat i)) [0..<n])"
    and set_page_bytes: "ok st \<Longrightarrow> unat addr mod 2 ^ k = 0 \<Longrightarrow> starts (addr + of_nat p) \<Longrightarrow> p + length val \<le> 2 ^ k \<Longrightarrow> val \<noteq> [] \<Longrightarrow>
      room addr (2 ^ k) \<Longrightarrow> unat (addr + of_nat p) = unat addr + p \<Longrightarrow>
      \<exists>st'. set_page st addr val (of_nat p) (of_nat (length val)) = ret st' \<and> ok st' \<and>
        bytes st' = bytes_write (bytes st) (addr + of_nat p) val"
begin

text \<open>One turn of either loop: the piece that lies in the first page.\<close>

lemma piece:
  assumes "ok st" and "room off (n - count + 2 ^ k)" and "count < n" and "n < 2 ^ 64" and "starts off"
  obtains addr p m where "chunk_piece (2 ^ k) off (of_nat n) (of_nat count) = (addr, of_nat p, of_nat m)"
    and "addr + of_nat p = off" and "unat addr mod 2 ^ k = 0" and "unat off = unat addr + p" and "p + m \<le> 2 ^ k" and "0 < m"
    and "count + m \<le> n" and "room addr (2 ^ k)" and "room (off + of_nat m) (n - (count + m) + 2 ^ k)"
    and "count + m < n \<Longrightarrow> starts (off + of_nat m)"
proof -
  define p m where "p = page_pos k off" and "m = min (2 ^ k - p) (n - count)"
  have k64: "k \<le> 64" "k < 64" using page_size [OF assms(1)] by simp_all
  note split = page_split [OF k64(1), of off, folded p_def]
  have p: "p < 2 ^ k" by (simp add: p_def)
  have off: "page_base k off + of_nat p = off" using split(1) by (simp add: algebra_simps)
  have m: "p + m \<le> 2 ^ k" "0 < m" "count + m \<le> n" using p assms(3) by (simp_all add: m_def)
  have u: "unat (off + of_nat m) = unat off + m" by (rule room_unat [OF assms(2)]) (simp add: m_def)
  have starts': "starts (off + of_nat m)" if "count + m < n"
  proof (rule starts_page)
    show "3 \<le> k" using page_size [OF assms(1)] by simp
  next
    have "m = 2 ^ k - p" using that m(3) by (simp add: m_def min_def split: if_splits)
    then have "unat off + m = unat (page_base k off) + 2 ^ k" using split(2) p by simp
    then show "unat (off + of_nat m) mod 2 ^ k = 0" unfolding u using split(3) by simp
  qed
  have chunk: "chunk_piece (2 ^ k) off (of_nat n) (of_nat count) = (page_base k off, of_nat p, of_nat m)"
    using chunk_piece_eq [OF k64(2), of count n off] assms(3,4) by (simp add: p_def m_def)
  have room: "room (page_base k off) (2 ^ k)" "room (off + of_nat m) (n - (count + m) + 2 ^ k)"
    using assms(2) m split(2) unfolding room_def u by simp_all
  show thesis
    by (rule that [OF chunk off split(3) split(2) [symmetric] m room starts'])
qed

lemma get_chunk_loop_bytes:
  assumes "ok st" and "n < 2 ^ 64" and "starts off" and "count \<le> n" and "room off (n - count + 2 ^ k)"
  shows "get_chunk_loop (get_page st) (2 ^ k) (of_nat n) off (of_nat count) acc =
    ret (acc @ map (\<lambda>i. bytes st (off + of_nat i)) [0..<n - count])"
  using assms(3-5)
proof (induction "n - count" arbitrary: off count acc rule: less_induct)
  case less
  have less_iff: "(of_nat count :: u64) < of_nat n \<longleftrightarrow> count < n"
    using assms(2) less.prems(2) by (simp add: word_less_nat_alt unsigned_of_nat take_bit_nat_eq_self)
  show ?case
  proof (cases "count < n")
    case False
    then show ?thesis using less.prems(2) by (subst get_chunk_loop.simps) (simp add: less_iff)
  next
    case True
    obtain addr p m where piece: "chunk_piece (2 ^ k) off (of_nat n) (of_nat count) = (addr, of_nat p, of_nat m)"
      and off: "addr + of_nat p = off" and al: "unat addr mod 2 ^ k = 0" and u: "unat off = unat addr + p"
      and m: "p + m \<le> 2 ^ k" "0 < m" "count + m \<le> n"
      and room: "room addr (2 ^ k)" "room (off + of_nat m) (n - (count + m) + 2 ^ k)"
      and st: "count + m < n \<Longrightarrow> starts (off + of_nat m)"
      by (rule piece [OF assms(1) less.prems(3) True assms(2) less.prems(1)]) (rule that)
    have "get_page st (addr :: u64) (of_nat p) (of_nat m) = ret (map (\<lambda>i. bytes st (addr + of_nat p + of_nat i)) [0..<m])"
      by (rule get_page_bytes [OF assms(1) al]) (simp_all add: off less.prems(1) m room(1) u)
    then have page: "get_page st addr (of_nat p) (of_nat m) = Some (Ret (map (\<lambda>i. bytes st (off + of_nat i)) [0..<m]))"
      by (simp add: off ret_def)
    have rest: "get_chunk_loop (get_page st) (2 ^ k) (of_nat n) (off + of_nat m) (of_nat (count + m)) acc' =
        ret (acc' @ map (\<lambda>i. bytes st (off + of_nat m + of_nat i)) [0..<n - (count + m)])" for acc'
    proof (cases "count + m < n")
      case True
      then show ?thesis using m(2) by (intro less.hyps st room(2)) simp_all
    next
      case False
      then have "count + m = n" using m(3) by simp
      then show ?thesis by (subst get_chunk_loop.simps) (simp del: of_nat_add)
    qed
    have "[0..<n - count] = [0..<m] @ map (\<lambda>i. i + m) [0..<n - (count + m)]"
      using m(3) map_add_upt [of m "n - (count + m)"] upt_add_eq_append [of 0 m "n - (count + m)"] by simp
    then have "map (\<lambda>i. bytes st (off + of_nat i)) [0..<n - count] = map (\<lambda>i. bytes st (off + of_nat i)) [0..<m] @
        map (\<lambda>i. bytes st (off + of_nat m + of_nat i)) [0..<n - (count + m)]"
      by (simp add: ac_simps)
    then show ?thesis using True rest
      by (subst get_chunk_loop.simps)
        (simp add: less_iff piece page del: of_nat_add flip: of_nat_add)
  qed
qed

lemma set_chunk_loop_bytes:
  assumes "n = length val" and "n < 2 ^ 64" and "ok st" and "starts off" and "count \<le> n" and "room off (n - count + 2 ^ k)"
  shows "\<exists>st'. set_chunk_loop set_page (2 ^ k) val (of_nat n) st off (of_nat count) (of_nat count) = ret st' \<and> ok st' \<and>
    bytes st' = bytes_write (bytes st) off (drop count val)"
  using assms(3-6)
proof (induction "n - count" arbitrary: st off count rule: less_induct)
  case less
  have u: "unat (of_nat x :: u64) = x" if "x \<le> n" for x
    using that assms(2) by (simp add: unsigned_of_nat take_bit_nat_eq_self)
  have less_iff: "(of_nat count :: u64) < of_nat n \<longleftrightarrow> count < n"
    using u [OF less.prems(3)] u [OF order_refl] by (simp only: word_less_nat_alt)
  show ?case
  proof (cases "count < n")
    case False
    then show ?thesis using less.prems(1,3) assms(1) by (subst set_chunk_loop.simps) (simp add: less_iff)
  next
    case True
    obtain addr p m where piece: "chunk_piece (2 ^ k) off (of_nat n) (of_nat count) = (addr, of_nat p, of_nat m)"
      and off: "addr + of_nat p = off" and al: "unat addr mod 2 ^ k = 0" and uoff: "unat off = unat addr + p"
      and m: "p + m \<le> 2 ^ k" "0 < m" "count + m \<le> n"
      and room: "room addr (2 ^ k)" "room (off + of_nat m) (n - (count + m) + 2 ^ k)"
      and st: "count + m < n \<Longrightarrow> starts (off + of_nat m)"
      by (rule piece [OF less.prems(1) less.prems(4) True assms(2) less.prems(2)]) (rule that)
    let ?part = "take m (drop count val)"
    have len: "length ?part = m" using m(3) assms(1) by simp
    have part: "slice val (of_nat count) (of_nat (count + m)) = Ret ?part"
      using m(3) assms(1) u [OF less.prems(3)] u [OF m(3)] by (simp add: slice_def word_le_nat_alt)
    have "\<exists>st1. set_page st addr ?part (of_nat p) (of_nat (length ?part)) = ret st1 \<and> ok st1 \<and>
        bytes st1 = bytes_write (bytes st) (addr + of_nat p) ?part"
      by (rule set_page_bytes [OF less.prems(1) al]) (use m room(1) less.prems(2) len in \<open>auto simp: off uoff\<close>)
    then obtain st1 where page: "set_page st addr ?part (of_nat p) (of_nat m) = Some (Ret st1)" and ok1: "ok st1"
      and bytes1: "bytes st1 = bytes_write (bytes st) off ?part" unfolding len off ret_def by blast
    obtain st2 where rest: "set_chunk_loop set_page (2 ^ k) val (of_nat n) st1 (off + of_nat m) (of_nat (count + m)) (of_nat (count + m)) = ret st2"
      and ok2: "ok st2" and bytes2: "bytes st2 = bytes_write (bytes st1) (off + of_nat m) (drop (count + m) val)"
    proof (cases "count + m < n")
      case True
      have "n - (count + m) < n - count" using m(2) True by simp
      from less.hyps [OF this ok1 st [OF True] m(3) room(2)] show ?thesis using that by blast
    next
      case False
      then have "count + m = n" using m(3) by simp
      then show ?thesis using ok1 assms(1)
        by (intro that [of st1]) (subst set_chunk_loop.simps, simp_all del: of_nat_add)
    qed
    have "bytes st2 = bytes_write (bytes st) off (?part @ drop (count + m) val)"
      using bytes_write_append [of ?part "drop (count + m) val" "bytes st" off] assms(1,2) m(3)
      by (simp add: bytes2 bytes1 len)
    also have "?part @ drop (count + m) val = drop count val"
      using append_take_drop_id [of m "drop count val"] by (simp add: add.commute)
    finally have "bytes st2 = bytes_write (bytes st) off (drop count val)" .
    moreover have "set_chunk_loop set_page (2 ^ k) val (of_nat n) st off (of_nat count) (of_nat count) = ret st2"
      using True rest part by (subst set_chunk_loop.simps) (simp add: less_iff piece page del: of_nat_add flip: of_nat_add)
    ultimately show ?thesis using ok2 by blast
  qed
qed

lemma write_read_chunk:
  assumes "ok st" and "starts off" and "room off (length val + 2 ^ k)"
  obtains st' where "set_chunk_loop set_page (2 ^ k) val (of_nat (length val)) st off 0 0 = ret st'" and "ok st'"
    and "bytes st' = bytes_write (bytes st) off val"
    and "get_chunk_loop (get_page st') (2 ^ k) (of_nat (length val)) off 0 [] = ret val"
proof -
  have n: "length val < 2 ^ 64" using assms(3) by (simp add: room_def)
  obtain st' where run: "set_chunk_loop set_page (2 ^ k) val (of_nat (length val)) st off 0 0 = ret st'" and ok': "ok st'"
    and bytes': "bytes st' = bytes_write (bytes st) off val"
    using set_chunk_loop_bytes [OF refl n assms(1,2), of 0] assms(3) by auto
  have "bytes st' (off + of_nat i) = val ! i" if "i < length val" for i
  proof -
    have "unat (of_nat i :: u64) = i" using that n by (simp add: unsigned_of_nat take_bit_nat_eq_self)
    then show ?thesis using that by (simp add: bytes' bytes_write_def)
  qed
  then have "map (\<lambda>i. bytes st' (off + of_nat i)) [0..<length val] = val" by (intro nth_equalityI) simp_all
  then have "get_chunk_loop (get_page st') (2 ^ k) (of_nat (length val)) off 0 [] = ret val"
    using get_chunk_loop_bytes [OF ok' n assms(2), of 0 "[]"] assms(3) by simp
  from that [OF run ok' bytes' this] show thesis .
qed

end

text \<open>The plain bank with pages of a power of two serves chunks that begin at a word.\<close>

definition bank_paged :: "nat \<Rightarrow> memory_bank \<Rightarrow> bool" where
  "bank_paged k b \<longleftrightarrow> bank_ok b \<and> mb_pagesize b = 2 ^ k \<and> 3 \<le> k \<and> k < 63"

lemma aligned_page: "3 \<le> k \<Longrightarrow> unat a mod 2 ^ k = 0 \<Longrightarrow> aligned a"
proof -
  assume "3 \<le> k" and "unat a mod 2 ^ k = 0"
  then have "(8 :: nat) dvd 2 ^ k" and "2 ^ k dvd unat a" using le_imp_power_dvd [of 3 k "2 :: nat"] by auto
  then have "8 dvd unat a" by (rule dvd_trans)
  moreover have "int (word_pos a) = int (unat a mod 8)" by (simp only: word_pos_uint uint_nat zmod_int of_nat_numeral)
  ultimately show "aligned a" by (simp add: aligned_def dvd_eq_mod_eq_0)
qed

interpretation bank_chunks: page_store k bank_get_page bank_set_page "bank_paged k" bank_bytes aligned for k
proof
  fix b and addr :: u64 and p n :: nat and val :: "u8 list"
  assume ok: "bank_paged k b"
  then show "3 \<le> k \<and> k < 63" by (simp add: bank_paged_def)
  have bank: "bank_ok b" using ok by (simp add: bank_paged_def)
  have le: "addr \<le> addr + of_nat p" if "unat (addr + of_nat p) = unat addr + p"
    using that by (simp add: word_le_nat_alt)
  show "bank_get_page b addr (of_nat p) (of_nat n) = ret (map (\<lambda>i. bank_bytes b (addr + of_nat p + of_nat i)) [0..<n])"
    if "aligned (addr + of_nat p)" "p + n \<le> 2 ^ k" "0 < n" "room addr (2 ^ k)" "unat (addr + of_nat p) = unat addr + p"
    by (rule get_page_8 [OF bank that(1) le [OF that(5)] _ that(3)]) (use that(2,4,5) in \<open>simp add: room_def\<close>)
  show "\<exists>b'. bank_set_page b addr val (of_nat p) (of_nat (length val)) = ret b' \<and> bank_paged k b' \<and>
      bank_bytes b' = bytes_write (bank_bytes b) (addr + of_nat p) val"
    if h: "aligned (addr + of_nat p)" "p + length val \<le> 2 ^ k" "val \<noteq> []" "room addr (2 ^ k)" "unat (addr + of_nat p) = unat addr + p"
  proof -
    have room: "room (addr + of_nat p) (length val)" using h(2,4,5) by (simp add: room_def)
    obtain b' where "bank_set_page b addr val (of_nat p) (of_nat (length val)) = ret b'" "bank_ok b'"
      "mb_pagesize b' = mb_pagesize b" "bank_bytes b' = bytes_write (bank_bytes b) (addr + of_nat p) val"
      by (rule set_page_8 [OF bank h(1) le [OF h(5)] room h(3)]) (rule that)
    then show ?thesis using ok by (auto simp: bank_paged_def)
  qed
qed (rule aligned_page)

end
