(* ===== verification/Load_Image.thy ===== *)
theory Load_Image
  imports Addr_Space Mem_Chunks
begin

text \<open>
  The load images of src/src/loadimage.rs that hold their bytes in memory, and the read-only bank over a load image of src/src/memstate.rs
  (\<open>MemoryImage\<close>). A load image is behind a trait object in the source, so the bank has the image's \<open>load_fill\<close> as a
  field, a function of the size and the address. The text inside a \<open>DataUnavailError\<close> is not modelled.
\<close>

unbundle bit_operations_syntax

section \<open>Load images\<close>

datatype data_unavail_error = DataUnavailError

type_synonym load_fill = "u64 \<Rightarrow> address \<Rightarrow> (data_unavail_error + u8 list) res"

record load_image_func =
  lf_address :: address
  lf_name :: string

record load_image_section =
  ls_address :: address
  ls_size :: u64
  ls_flags :: u32

text \<open>The default \<open>load_value\<close> of the trait.\<close>

definition load_value :: "load_fill \<Rightarrow> address \<Rightarrow> u64 \<Rightarrow> (data_unavail_error + u64) res" where
  "load_value fill addr sz = res_map (\<lambda>r. case r of
      Inl e \<Rightarrow> Inl e
    | Inr bytes \<Rightarrow> Inr (foldl (\<lambda>val (i, b). val OR shl_u64 (ucast b) (i * 8)) 0 (take 8 (enumerate 0 bytes)))) (fill sz addr)"

record raw_load_image =
  ri_filename :: string
  ri_vma :: u64
  ri_filedata :: "u8 list"

definition raw_new :: "string \<Rightarrow> raw_load_image" where
  "raw_new filename = \<lparr>ri_filename = filename, ri_vma = 0, ri_filedata = []\<rparr>"

definition raw_from_bytes :: "string \<Rightarrow> u64 \<Rightarrow> u8 list \<Rightarrow> raw_load_image" where
  "raw_from_bytes filename vma data = \<lparr>ri_filename = filename, ri_vma = vma, ri_filedata = data\<rparr>"

definition raw_file_size :: "raw_load_image \<Rightarrow> u64" where
  "raw_file_size img = of_nat (length (ri_filedata img))"

text \<open>
  The loop of \<open>load_fill\<close>. Both slices it copies are in range, because the read stops at the end of the file and of the request.
\<close>

function raw_fill :: "u8 list \<Rightarrow> u8 list \<Rightarrow> u64 \<Rightarrow> nat \<Rightarrow> nat \<Rightarrow> data_unavail_error + u8 list" where
  "raw_fill filedata result cur_addr offset remaining =
     (if remaining > 0 then
        if unat cur_addr \<ge> length filedata then
          if offset = 0 then Inl DataUnavailError else Inr result
        else let read_size = min remaining (length filedata - unat cur_addr)
          in raw_fill filedata
               (take offset result @ take read_size (drop (unat cur_addr) filedata) @ drop (offset + read_size) result)
               (cur_addr + of_nat read_size) (offset + read_size) (remaining - read_size)
      else Inr result)"
  by auto
termination by (relation "measure (\<lambda>(filedata, result, cur_addr, offset, remaining). remaining)") auto

declare raw_fill.simps [simp del]

definition raw_load_fill :: "raw_load_image \<Rightarrow> load_fill" where
  "raw_load_fill img sz addr =
     Ret (raw_fill (ri_filedata img) (replicate (unat sz) 0) (ad_offset addr - ri_vma img) 0 (unat sz))"

definition raw_adjust_vma :: "raw_load_image \<Rightarrow> i64 \<Rightarrow> raw_load_image" where
  "raw_adjust_vma img adjust = img\<lparr>ri_vma := ri_vma img + as_u64 adjust\<rparr>"

record memory_load_image =
  mi_data :: "u8 list"
  mi_base_addr :: u64
  mi_arch_type :: string

definition mem_image_new :: "u8 list \<Rightarrow> u64 \<Rightarrow> string \<Rightarrow> memory_load_image" where
  "mem_image_new data base_addr arch_type = \<lparr>mi_data = data, mi_base_addr = base_addr, mi_arch_type = arch_type\<rparr>"

definition mem_load_fill :: "memory_load_image \<Rightarrow> load_fill" where
  "mem_load_fill img sz addr =
     (let offset = (if ad_offset addr \<ge> mi_base_addr img then ad_offset addr - mi_base_addr img else 0)
      in if unat (offset + sz) > length (mi_data img) then Ret (Inl DataUnavailError)
         else res_map Inr (slice (mi_data img) offset (offset + sz)))"

definition mem_adjust_vma :: "memory_load_image \<Rightarrow> i64 \<Rightarrow> memory_load_image" where
  "mem_adjust_vma img adjust = img\<lparr>mi_base_addr := mi_base_addr img + as_u64 adjust\<rparr>"

section \<open>The bank over a load image\<close>

record memory_image =
  im_space :: address_space
  im_wordsize :: u64
  im_pagesize :: u64
  im_loader :: load_fill

definition image_new :: "address_space \<Rightarrow> u64 \<Rightarrow> u64 \<Rightarrow> load_fill \<Rightarrow> memory_image" where
  "image_new spc wordsize pagesize loader =
     \<lparr>im_space = spc, im_wordsize = wordsize, im_pagesize = pagesize, im_loader = loader\<rparr>"

definition image_insert :: "memory_image \<Rightarrow> u64 \<Rightarrow> u64 \<Rightarrow> memory_image res" where
  "image_insert im addr val = Panic"

definition image_find :: "memory_image \<Rightarrow> u64 \<Rightarrow> u64 res" where
  "image_find im addr =
     res_bind (im_loader im (im_wordsize im) (ad_new addr)) (\<lambda>r.
       let word = (case r of
           Inr bytes \<Rightarrow> foldl (\<lambda>res (i, b). res OR shl_u64 (ucast b) (i * 8)) 0 (take (unat (im_wordsize im)) (enumerate 0 bytes))
         | Inl DataUnavailError \<Rightarrow> 0)
       in if (HOST_ENDIAN = 1) \<noteq> is_big_endian (im_space im) then byte_swap word (im_wordsize im) else Ret word)"

definition image_get_page :: "memory_image \<Rightarrow> u64 \<Rightarrow> u64 \<Rightarrow> u64 \<Rightarrow> u8 list run" where
  "image_get_page im addr skip sz = Some (res_map (\<lambda>r. case r of
      Inr bytes \<Rightarrow> bytes
    | Inl DataUnavailError \<Rightarrow> replicate (unat sz) 0) (im_loader im sz (ad_new (addr + skip))))"

definition image_set_value :: "memory_image \<Rightarrow> u64 \<Rightarrow> u64 \<Rightarrow> u64 \<Rightarrow> memory_image res" where
  "image_set_value im offset sz val = Panic"

definition image_get_value :: "memory_image \<Rightarrow> u64 \<Rightarrow> u64 \<Rightarrow> u64 run" where
  "image_get_value im offset sz =
     value_get (\<lambda>a. Some (image_find im a)) (im_wordsize im) (is_big_endian (im_space im)) offset sz"

definition image_get_chunk :: "memory_image \<Rightarrow> u64 \<Rightarrow> u64 \<Rightarrow> u8 list run" where
  "image_get_chunk im offset sz = get_chunk_loop (image_get_page im) (im_pagesize im) sz offset 0 []"

section \<open>What a raw image holds\<close>

lemma raw_fill_eq:
  assumes "0 < n" and "unat a < length data" and "length data < 2 ^ 64"
  shows "raw_fill data (replicate n 0) a 0 n = Inr (take n (drop (unat a) data) @ replicate (n - (length data - unat a)) 0)"
proof (cases "n \<le> length data - unat a")
  case True
  then show ?thesis using assms(1,2) by (simp add: raw_fill.simps [of data _ a 0 n] raw_fill.simps [of data _ _ _ 0] Let_def)
next
  case False
  define r where "r = length data - unat a"
  have ur: "unat (of_nat r :: u64) = r" using assms(3) by (simp add: r_def unsigned_of_nat take_bit_nat_eq_self)
  have "unat a + r = length data" using assms(2) by (simp add: r_def)
  then have "unat (a + of_nat r) = length data"
    using assms(3) by (simp only: unat_word_ariths ur) simp
  moreover have "0 < r" "min n r = r" "0 < n - r" using False assms(2) by (simp_all add: r_def)
  ultimately show ?thesis using assms(1,2)
    by (simp add: raw_fill.simps [of data _ a 0 n] raw_fill.simps [of data _ "a + of_nat r"] Let_def flip: r_def)
qed

lemma raw_load_fill_eq:
  assumes "length (ri_filedata img) < 2 ^ 64" and "d = unat (ad_offset addr - ri_vma img)" and "n = unat sz"
  shows "raw_load_fill img sz addr = Ret (if n = 0 then Inr []
    else if d < length (ri_filedata img)
      then Inr (take n (drop d (ri_filedata img)) @ replicate (n - (length (ri_filedata img) - d)) 0)
    else Inl DataUnavailError)"
proof (cases "n = 0 \<or> length (ri_filedata img) \<le> d")
  case True
  then show ?thesis using assms(2,3) by (auto simp: raw_load_fill_def raw_fill.simps)
next
  case False
  then show ?thesis using raw_fill_eq [of n "ad_offset addr - ri_vma img" "ri_filedata img"] assms
    by (simp add: raw_load_fill_def)
qed

text \<open>The bytes of the image: those of the file from its first address on, and zeros.\<close>

definition raw_bytes :: "raw_load_image \<Rightarrow> memory" where
  "raw_bytes img = (\<lambda>a. let d = unat (a - ri_vma img) in if d < length (ri_filedata img) then ri_filedata img ! d else 0)"

lemma word_byte_enumerate:
  "length xs \<le> 8 \<Longrightarrow> k < 8 \<Longrightarrow> word_byte (foldl (\<lambda>v (i, b). v OR shl_u64 (ucast b) (i * 8)) 0 (enumerate 0 xs)) k =
    (if k < length xs then xs ! k else 0)"
proof (induction xs arbitrary: k rule: rev_induct)
  case (snoc x xs)
  then show ?case by (auto simp: enumerate_append_eq word_byte_or_shl nth_append less_Suc_eq)
qed simp

lemma load_word_bytes:
  assumes "k < 8"
  shows "word_byte (foldl (\<lambda>v (i, b). v OR shl_u64 (ucast b) (i * 8)) 0 (take 8 (enumerate 0 bs))) k =
    (if k < length bs then bs ! k else 0)"
proof -
  have "take 8 (enumerate 0 bs) = enumerate 0 (take 8 bs)" by (rule nth_equalityI) (simp_all add: nth_enumerate_eq)
  then show ?thesis using word_byte_enumerate [of "take 8 bs" k] assms by simp
qed

definition image_ok :: "raw_load_image \<Rightarrow> memory_image \<Rightarrow> bool" where
  "image_ok img im \<longleftrightarrow> im_wordsize im = 8 \<and> im_loader im = raw_load_fill img \<and> aligned (ri_vma img) \<and>
     length (ri_filedata img) < 2 ^ 63"

lemma image_find_cell:
  assumes "image_ok img im" and "aligned a"
  shows "image_find im a = Ret (mem_read False (raw_bytes img) a 8)"
proof -
  let ?l = "length (ri_filedata img)"
  define d where "d = unat (a - ri_vma img)"
  have ok: "im_wordsize im = 8" "im_loader im = raw_load_fill img" "aligned (ri_vma img)" "?l < 2 ^ 64"
    using assms(1) by (simp_all add: image_ok_def)
  have "8 dvd d"
  proof -
    have "uint (a - ri_vma img) mod 8 = (uint a - uint (ri_vma img)) mod 8"
      unfolding uint_minus_u64 by (rule mod_mod_cancel) simp
    also have "\<dots> = 0" using assms(2) ok(3) unfolding aligned_uint by (metis mod_diff_eq diff_zero mod_0)
    finally have "int d mod 8 = 0" by (simp only: d_def uint_nat)
    then show ?thesis by presburger
  qed
  then have "d + 8 \<le> 2 ^ 64" using unsigned_less [of "a - ri_vma img", where 'a = nat] by (auto simp: d_def elim!: dvdE)
  have raw: "raw_bytes img (a + of_nat k) = (if d + k < ?l then ri_filedata img ! (d + k) else 0)" if "k < 8" for k
  proof -
    have "a + of_nat k - ri_vma img = (a - ri_vma img) + of_nat k" by simp
    then have "unat (a + of_nat k - ri_vma img) = d + k"
      using \<open>d + 8 \<le> 2 ^ 64\<close> that by (simp only: unat_word_ariths) (simp add: d_def small_unat)
    then show ?thesis by (simp add: raw_bytes_def Let_def)
  qed
  have fill: "im_loader im 8 (ad_new a) = Ret (if d < ?l then Inr (take 8 (drop d (ri_filedata img)) @ replicate (8 - (?l - d)) 0)
      else Inl DataUnavailError)"
    using raw_load_fill_eq [OF ok(4), of d "ad_new a" 8 8] by (simp add: ok(2) d_def ad_new_def)
  let ?bs = "take 8 (drop d (ri_filedata img)) @ replicate (8 - (?l - d)) 0"
  have "(if d < ?l then foldl (\<lambda>v (i, b). v OR shl_u64 (ucast b) (i * 8)) 0 (take 8 (enumerate 0 ?bs)) else 0) =
      mem_read False (raw_bytes img) a 8"
  proof (rule word_eq_bytesI)
    fix k :: nat assume k: "k < 8"
    show "word_byte (if d < ?l then foldl (\<lambda>v (i, b). v OR shl_u64 (ucast b) (i * 8)) 0 (take 8 (enumerate 0 ?bs)) else 0) k =
        word_byte (mem_read False (raw_bytes img) a 8) k"
      using k load_word_bytes [OF k, of ?bs] by (auto simp: word_byte_mem_read raw nth_append)
  qed
  then show ?thesis unfolding image_find_def ok(1) fill
    by (simp add: HOST_ENDIAN_def Let_def split: if_splits)
qed

interpretation image: word_store "\<lambda>im a. Some (image_find im a)" "\<lambda>im a v. Some (image_insert im a v)" "image_ok img"
    "\<lambda>im a. mem_read False (raw_bytes img) a 8" for img
  by unfold_locales (auto simp: image_find_cell image_insert_def ret_def)

lemma raw_load_value:
  assumes "length (ri_filedata img) < 2 ^ 63" and "1 \<le> n" and "n \<le> 8" and "unat (ad_offset addr - ri_vma img) < length (ri_filedata img)"
  shows "load_value (raw_load_fill img) addr (of_nat n) = Ret (Inr (mem_read False (raw_bytes img) (ad_offset addr) n))"
proof -
  let ?l = "length (ri_filedata img)"
  define d where "d = unat (ad_offset addr - ri_vma img)"
  have l: "?l < 2 ^ 64" and d: "d < ?l" using assms(1,4) by (simp_all add: d_def)
  have raw: "raw_bytes img (ad_offset addr + of_nat k) = (if d + k < ?l then ri_filedata img ! (d + k) else 0)" if "k < 8" for k
  proof -
    have "d + k < 2 ^ 64" using d assms(1) that by simp
    moreover have "ad_offset addr + of_nat k - ri_vma img = (ad_offset addr - ri_vma img) + of_nat k" by simp
    ultimately have "unat (ad_offset addr + of_nat k - ri_vma img) = d + k"
      using that by (simp only: unat_word_ariths) (simp add: d_def small_unat)
    then show ?thesis by (simp add: raw_bytes_def Let_def)
  qed
  have un: "n = unat (of_nat n :: u64)" using assms(3) by (simp add: small_unat)
  let ?bs = "take n (drop d (ri_filedata img)) @ replicate (n - (?l - d)) 0"
  have fill: "raw_load_fill img (of_nat n) addr = Ret (Inr ?bs)"
    using raw_load_fill_eq [OF l d_def un] d assms(2) by simp
  have "foldl (\<lambda>v (i, b). v OR shl_u64 (ucast b) (i * 8)) 0 (take 8 (enumerate 0 ?bs)) = mem_read False (raw_bytes img) (ad_offset addr) n"
  proof (rule word_eq_bytesI)
    fix k :: nat assume k: "k < 8"
    show "word_byte (foldl (\<lambda>v (i, b). v OR shl_u64 (ucast b) (i * 8)) 0 (take 8 (enumerate 0 ?bs))) k =
        word_byte (mem_read False (raw_bytes img) (ad_offset addr) n) k"
      using k assms(3) load_word_bytes [OF k, of ?bs] by (auto simp: word_byte_mem_read raw nth_append)
  qed
  then show ?thesis unfolding load_value_def fill by simp
qed

text \<open>
  An address below the base of a memory image is served with the bytes at the base, where the trait promises an error for an address
  range that does not exist: the subtraction saturates.
\<close>

lemma mem_load_fill_below:
  assumes "ad_offset addr < mi_base_addr img" and "unat sz \<le> length (mi_data img)"
  shows "mem_load_fill img sz addr = Ret (Inr (take (unat sz) (mi_data img)))"
proof -
  have "\<not> mi_base_addr img \<le> ad_offset addr" using assms(1) by (simp add: not_le)
  then show ?thesis using assms(2) by (simp add: mem_load_fill_def slice_def)
qed

lemma mem_load_fill_inside:
  assumes "mi_base_addr img \<le> ad_offset addr" and "length (mi_data img) < 2 ^ 63" and "unat sz < 2 ^ 63"
    and "d = unat (ad_offset addr - mi_base_addr img)" and "d < 2 ^ 63"
  shows "mem_load_fill img sz addr = Ret (if d + unat sz \<le> length (mi_data img)
    then Inr (take (unat sz) (drop d (mi_data img))) else Inl DataUnavailError)"
proof -
  have "unat (ad_offset addr - mi_base_addr img + sz) = d + unat sz"
    using assms(3-5) by (simp only: unat_word_ariths) simp
  then show ?thesis using assms(1,4) by (auto simp: mem_load_fill_def Let_def slice_def word_le_nat_alt)
qed

end
