(* ===== verification/Mem_State.thy ===== *)
theory Mem_State
  imports Mem_Chunks
begin

text \<open>
  The memory state of a p-code machine (\<open>MemState\<close> of src/src/memstate.rs): a bank per address space, by the name of the space. A value in the
  constant space is its own offset; an access to a space with no bank is ignored, and a register is a slot of the register bank
  found by hashing its name.
\<close>

unbundle bit_operations_syntax

record mem_state =
  ms_banks :: "string \<rightharpoonup> memory_bank"

definition state_new :: mem_state where
  "state_new = \<lparr>ms_banks = Map.empty\<rparr>"

definition construct_memory_bank :: "address_space \<Rightarrow> u64 \<Rightarrow> u64 \<Rightarrow> memory_bank" where
  "construct_memory_bank spc wordsize pagesize = bank_new spc wordsize pagesize"

definition set_bank :: "mem_state \<Rightarrow> string \<Rightarrow> memory_bank \<Rightarrow> mem_state" where
  "set_bank ms nm bank = ms\<lparr>ms_banks := (ms_banks ms)(nm \<mapsto> bank)\<rparr>"

definition set_memory_bank :: "mem_state \<Rightarrow> memory_bank \<Rightarrow> mem_state" where
  "set_memory_bank ms bank = set_bank ms (space_name (mb_space bank)) bank"

definition get_memory_bank :: "mem_state \<Rightarrow> string \<Rightarrow> memory_bank option" where
  "get_memory_bank ms nm = ms_banks ms nm"

text \<open>A call on the bank of a space, whose result goes back into the map.\<close>

definition on_bank :: "mem_state \<Rightarrow> string \<Rightarrow> (memory_bank \<Rightarrow> memory_bank run) \<Rightarrow> mem_state run" where
  "on_bank ms nm f = (case ms_banks ms nm of
      None \<Rightarrow> ret ms
    | Some bank \<Rightarrow> run_bind (f bank) (\<lambda>bank. ret (set_bank ms nm bank)))"

definition state_set_value :: "mem_state \<Rightarrow> string \<Rightarrow> u64 \<Rightarrow> u64 \<Rightarrow> u64 \<Rightarrow> mem_state run" where
  "state_set_value ms nm offset sz val = on_bank ms nm (\<lambda>bank. bank_set_value bank offset sz val)"

definition state_get_value :: "mem_state \<Rightarrow> string \<Rightarrow> u64 \<Rightarrow> u64 \<Rightarrow> u64 option run" where
  "state_get_value ms nm offset sz =
     (if nm = space_name Const then ret (Some offset)
      else case ms_banks ms nm of
          None \<Rightarrow> ret None
        | Some bank \<Rightarrow> run_bind (bank_get_value bank offset sz) (\<lambda>v. ret (Some v)))"

definition hash_register_name :: "u8 list \<Rightarrow> u64" where
  "hash_register_name name =
     foldl (\<lambda>hash b. (hash XOR ucast b) * 0x100000001b3) 0xcbf29ce484222325 name AND 0xFFFFFFF0"

definition set_register_value :: "mem_state \<Rightarrow> u8 list \<Rightarrow> u64 \<Rightarrow> mem_state run" where
  "set_register_value ms reg_name val =
     on_bank ms ''register'' (\<lambda>bank. bank_set_value bank (hash_register_name reg_name) 8 val)"

definition get_register_value :: "mem_state \<Rightarrow> u8 list \<Rightarrow> u64 option run" where
  "get_register_value ms reg_name = (case ms_banks ms ''register'' of
      None \<Rightarrow> ret None
    | Some bank \<Rightarrow> run_bind (bank_get_value bank (hash_register_name reg_name) 8) (\<lambda>v. ret (Some v)))"

definition state_get_chunk :: "mem_state \<Rightarrow> string \<Rightarrow> u64 \<Rightarrow> u64 \<Rightarrow> u8 list run" where
  "state_get_chunk ms nm offset sz = (case ms_banks ms nm of
      None \<Rightarrow> ret []
    | Some bank \<Rightarrow> bank_get_chunk bank offset sz)"

definition state_set_chunk :: "mem_state \<Rightarrow> string \<Rightarrow> u64 \<Rightarrow> u8 list \<Rightarrow> mem_state run" where
  "state_set_chunk ms nm offset val = on_bank ms nm (\<lambda>bank. bank_set_chunk bank offset val)"

section \<open>Values per space\<close>

definition state_ok :: "mem_state \<Rightarrow> bool" where
  "state_ok ms \<longleftrightarrow> (\<forall>nm bank. ms_banks ms nm = Some bank \<longrightarrow> bank_ok bank)"

definition state_bytes :: "mem_state \<Rightarrow> string \<Rightarrow> memory option" where
  "state_bytes ms nm = map_option bank_bytes (ms_banks ms nm)"

lemma set_bank_simps [simp]:
  "ms_banks (set_bank ms nm bank) = (ms_banks ms)(nm \<mapsto> bank)"
  by (simp add: set_bank_def)

lemma bank_value_run:
  assumes "bank_ok b" and "1 \<le> n" and "n \<le> 8" and "v \<le> mask (8 * n)"
  shows "\<exists>b'. bank_set_value b off (of_nat n) v = ret b' \<and> bank_ok b' \<and> bank_bytes b' = mem_write False (bank_bytes b) off n v"
  using bank.set_value_run [OF assms, where be = False and off = off] assms(1) by (simp add: bank_set_value_def bank_ok_def bank_bytes_def)

lemma bank_value_read:
  assumes "bank_ok b" and "1 \<le> n" and "n \<le> 8"
  shows "bank_get_value b off (of_nat n) = ret (mem_read False (bank_bytes b) off n)"
  using bank.get_reads [OF assms] assms(1) by (simp add: bank_get_value_def bank_ok_def bank_bytes_def)

end
