(* ===== verification/Mem_Overlay.thy ===== *)
theory Mem_Overlay
  imports Mem_Chunks
begin

text \<open>
  The copy-on-write overlay of src/src/memstate.rs (\<open>MemoryPageOverlay\<close>): a map of pages over an underlying bank. A page is copied from the
  bank when it is first written. The overlay is again a store of words and of pages, so the routines on values and chunks read and write its bytes.
\<close>

unbundle bit_operations_syntax

record page_overlay =
  po_wordsize :: u64
  po_pagesize :: u64
  po_space :: address_space
  po_underlie :: "memory_bank option"
  po_page :: "u64 \<rightharpoonup> u8 list"

definition overlay_new :: "address_space \<Rightarrow> u64 \<Rightarrow> u64 \<Rightarrow> memory_bank option \<Rightarrow> page_overlay" where
  "overlay_new spc wordsize pagesize underlie =
     \<lparr>po_wordsize = wordsize, po_pagesize = pagesize, po_space = spc, po_underlie = underlie, po_page = Map.empty\<rparr>"

text \<open>The page as the writing operations obtain it: the mapped one, or a copy of the underlying one, or zeros.\<close>

definition fresh_page :: "page_overlay \<Rightarrow> u64 \<Rightarrow> u8 list run" where
  "fresh_page ov pageaddr =
     (let pagebuf = replicate (unat (po_pagesize ov)) 0
      in case po_underlie ov of
           None \<Rightarrow> ret pagebuf
         | Some ul \<Rightarrow> run_bind (bank_get_page ul pageaddr 0 (po_pagesize ov)) (\<lambda>bytes.
             Some (copy_into pagebuf 0 (po_pagesize ov) bytes)))"

definition overlay_insert :: "page_overlay \<Rightarrow> u64 \<Rightarrow> u64 \<Rightarrow> page_overlay run" where
  "overlay_insert ov addr val =
     (let pagemask = po_pagesize ov - 1;
          pageaddr = addr AND NOT pagemask;
          pageoffset = addr AND pagemask
      in run_bind (case po_page ov pageaddr of Some page \<Rightarrow> ret page | None \<Rightarrow> fresh_page ov pageaddr) (\<lambda>page.
         run_bind (Some (slice page pageoffset (pageoffset + po_wordsize ov))) (\<lambda>part.
         run_bind (Some (deconstruct_value val (po_wordsize ov) (is_big_endian (po_space ov)) part)) (\<lambda>part.
         run_bind (Some (copy_into page pageoffset (pageoffset + po_wordsize ov) part)) (\<lambda>page.
         ret (ov\<lparr>po_page := (po_page ov)(pageaddr \<mapsto> page)\<rparr>))))))"

definition overlay_find :: "page_overlay \<Rightarrow> u64 \<Rightarrow> u64 run" where
  "overlay_find ov addr =
     (let pagemask = po_pagesize ov - 1;
          pageaddr = addr AND NOT pagemask
      in case po_page ov pageaddr of
           None \<Rightarrow> (case po_underlie ov of None \<Rightarrow> ret 0 | Some ul \<Rightarrow> ret (bank_find ul addr))
         | Some page \<Rightarrow>
             (let pageoffset = addr AND pagemask
              in run_bind (Some (slice page pageoffset (pageoffset + po_wordsize ov))) (\<lambda>part.
                 ret (construct_value part (is_big_endian (po_space ov))))))"

definition overlay_get_page :: "page_overlay \<Rightarrow> u64 \<Rightarrow> u64 \<Rightarrow> u64 \<Rightarrow> u8 list run" where
  "overlay_get_page ov addr skip sz = (case po_page ov addr of
      None \<Rightarrow> (case po_underlie ov of
          None \<Rightarrow> ret (replicate (unat sz) 0)
        | Some ul \<Rightarrow> bank_get_page ul addr skip sz)
    | Some page \<Rightarrow> run_bind (Some (slice page skip (skip + sz))) (\<lambda>part.
        Some (copy_into (replicate (unat sz) 0) 0 sz part)))"

definition overlay_set_page :: "page_overlay \<Rightarrow> u64 \<Rightarrow> u8 list \<Rightarrow> u64 \<Rightarrow> u64 \<Rightarrow> page_overlay run" where
  "overlay_set_page ov addr val skip sz =
     run_bind (case po_page ov addr of
         Some page \<Rightarrow> ret page
       | None \<Rightarrow> if sz = po_pagesize ov then ret (replicate (unat (po_pagesize ov)) 0) else fresh_page ov addr) (\<lambda>page.
     run_bind (Some (copy_into page skip (skip + sz) val)) (\<lambda>page.
     ret (ov\<lparr>po_page := (po_page ov)(addr \<mapsto> page)\<rparr>)))"

definition is_page_overlayed :: "page_overlay \<Rightarrow> u64 \<Rightarrow> bool" where
  "is_page_overlayed ov page_addr \<longleftrightarrow> po_page ov page_addr \<noteq> None"

definition num_pages :: "page_overlay \<Rightarrow> nat" where
  "num_pages ov = card (dom (po_page ov))"

definition overlay_read :: "page_overlay \<Rightarrow> u64 \<Rightarrow> u64 \<Rightarrow> u8 list run" where
  "overlay_read ov offset sz = get_chunk_loop (overlay_get_page ov) (po_pagesize ov) sz offset 0 []"

definition overlay_write :: "page_overlay \<Rightarrow> u64 \<Rightarrow> u8 list \<Rightarrow> page_overlay run" where
  "overlay_write ov offset data =
     set_chunk_loop overlay_set_page (po_pagesize ov) data (of_nat (length data)) ov offset 0 0"

definition overlay_get_value :: "page_overlay \<Rightarrow> u64 \<Rightarrow> u64 \<Rightarrow> u64 run" where
  "overlay_get_value ov offset sz =
     value_get (overlay_find ov) (po_wordsize ov) (is_big_endian (po_space ov)) offset sz"

definition overlay_set_value :: "page_overlay \<Rightarrow> u64 \<Rightarrow> u64 \<Rightarrow> u64 \<Rightarrow> page_overlay run" where
  "overlay_set_value ov offset sz val =
     value_set overlay_find overlay_insert (po_wordsize ov) (is_big_endian (po_space ov)) ov offset sz val"

section \<open>The invariant and the bytes of the overlay\<close>

text \<open>
  A page is mapped at a page address and has the size of a page. The underlying bank has the overlay's word size, and a page
  has at least two words.
\<close>

definition overlay_ok :: "nat \<Rightarrow> page_overlay \<Rightarrow> bool" where
  "overlay_ok k ov \<longleftrightarrow> po_wordsize ov = 8 \<and> po_pagesize ov = 2 ^ k \<and> 4 \<le> k \<and> k < 63 \<and>
     (\<forall>a page. po_page ov a = Some page \<longrightarrow> unat a mod 2 ^ k = 0 \<and> length page = 2 ^ k) \<and>
     (\<forall>u. po_underlie ov = Some u \<longrightarrow> bank_ok u)"

definition under_bytes :: "page_overlay \<Rightarrow> memory" where
  "under_bytes ov = (case po_underlie ov of None \<Rightarrow> (\<lambda>a. 0) | Some u \<Rightarrow> bank_bytes u)"

definition overlay_bytes :: "nat \<Rightarrow> page_overlay \<Rightarrow> memory" where
  "overlay_bytes k ov = (\<lambda>a. case po_page ov (page_base k a) of
      None \<Rightarrow> under_bytes ov a | Some page \<Rightarrow> page ! page_pos k a)"

lemma u64_of_nat: "n < 2 ^ 64 \<Longrightarrow> unat (of_nat n :: u64) = n"
  by (simp add: unsigned_of_nat take_bit_nat_eq_self)

lemma unat_u64_less: "unat (x :: u64) < 2 ^ 64"
  using unsigned_less [of x, where 'a = nat] by simp

lemma under_bytes_page [simp]: "under_bytes (ov\<lparr>po_page := m\<rparr>) = under_bytes ov"
  by (simp add: under_bytes_def)

lemma page_parts_of_sum:
  assumes "unat base mod 2 ^ k = 0" and "i < 2 ^ k" and "k < 64"
  shows "page_base k (base + of_nat i) = base" and "page_pos k (base + of_nat i) = i"
proof -
  obtain q where q: "unat base = 2 ^ k * q" using assms(1) by (auto elim: dvdE simp: mod_eq_0_iff_dvd)
  have pow: "(2 :: nat) ^ 64 = 2 ^ k * 2 ^ (64 - k)" using assms(3) by (simp flip: power_add)
  have "2 ^ k * q < 2 ^ k * 2 ^ (64 - k)" using q unat_u64_less [of base] pow by simp
  then have "q + 1 \<le> 2 ^ (64 - k)" by simp
  then have "2 ^ k * (q + 1) \<le> 2 ^ 64" unfolding pow by (rule mult_le_mono2)
  then have fit: "2 ^ k * q + i < 2 ^ 64" using assms(2) by simp
  have ui: "unat (of_nat i :: u64) = i" using fit by (intro u64_of_nat) simp
  have u: "unat (base + of_nat i) = 2 ^ k * q + i" using fit by (simp add: unat_word_ariths ui q)
  show pos: "page_pos k (base + of_nat i) = i" unfolding page_pos_def u using assms(2) by simp
  show "page_base k (base + of_nat i) = base"
    using page_split(1) [of k "base + of_nat i"] pos assms(3) by (simp add: diff_eq_eq algebra_simps)
qed

lemma page_sum: "k < 64 \<Longrightarrow> page_base k a + of_nat (page_pos k a) = a"
  using page_split(1) [of k a] by (simp add: algebra_simps)

lemma page_dist:
  assumes "unat base mod 2 ^ k = 0" and "p + l \<le> 2 ^ k" and "k < 64"
  shows "unat (a - (base + of_nat p)) < l \<longleftrightarrow> page_base k a = base \<and> p \<le> page_pos k a \<and> page_pos k a < p + l"
    and "page_base k a = base \<Longrightarrow> p \<le> page_pos k a \<Longrightarrow> unat (a - (base + of_nat p)) = page_pos k a - p"
proof -
  have same: "unat (a - (base + of_nat p)) = page_pos k a - p" if "page_base k a = base" and "p \<le> page_pos k a"
  proof -
    have "a - (base + of_nat p) = of_nat (page_pos k a) - of_nat p"
      using arg_cong [OF page_sum [OF assms(3), of a, unfolded that(1)], of "\<lambda>x. x - (base + of_nat p)"]
      by (simp only: add_diff_cancel_left)
    then have "a - (base + of_nat p) = of_nat (page_pos k a - p)" using that(2) by (simp add: of_nat_diff)
    moreover have "page_pos k a < 2 ^ 64"
      using page_pos_less [of k a] power_strict_increasing [OF assms(3), of "2 :: nat"] by linarith
    ultimately show ?thesis by (simp add: u64_of_nat)
  qed
  then show "page_base k a = base \<Longrightarrow> p \<le> page_pos k a \<Longrightarrow> unat (a - (base + of_nat p)) = page_pos k a - p" .
  show "unat (a - (base + of_nat p)) < l \<longleftrightarrow> page_base k a = base \<and> p \<le> page_pos k a \<and> page_pos k a < p + l"
  proof
    let ?d = "unat (a - (base + of_nat p))"
    assume d: "?d < l"
    have "a = base + of_nat (p + ?d)" by (simp only: of_nat_add of_nat_unat ucast_id) simp
    then show "page_base k a = base \<and> p \<le> page_pos k a \<and> page_pos k a < p + l"
      using page_parts_of_sum [OF assms(1), of "p + ?d"] d assms(2,3) by (simp del: of_nat_add)
  next
    assume "page_base k a = base \<and> p \<le> page_pos k a \<and> page_pos k a < p + l"
    then show "unat (a - (base + of_nat p)) < l" using same by auto
  qed
qed

text \<open>Replacing a part of a page writes the bytes of the overlay.\<close>

lemma overlay_bytes_update:
  assumes "unat base mod 2 ^ k = 0" and "k < 64" and "p + length xs \<le> 2 ^ k"
    and "length page = 2 ^ k" and "\<And>i. i < 2 ^ k \<Longrightarrow> p \<le> i \<and> i < p + length xs \<or> page ! i = overlay_bytes k ov (base + of_nat i)"
  shows "overlay_bytes k (ov\<lparr>po_page := (po_page ov)(base \<mapsto> take p page @ xs @ drop (p + length xs) page)\<rparr>) =
    bytes_write (overlay_bytes k ov) (base + of_nat p) xs"
proof
  fix a
  let ?ov = "ov\<lparr>po_page := (po_page ov)(base \<mapsto> take p page @ xs @ drop (p + length xs) page)\<rparr>"
  note d = page_dist [OF assms(1,3,2), of a]
  show "overlay_bytes k ?ov a = bytes_write (overlay_bytes k ov) (base + of_nat p) xs a"
  proof (cases "page_base k a = base")
    case False
    then have "\<not> unat (a - (base + of_nat p)) < length xs" using d(1) by simp
    then show ?thesis using False by (simp add: overlay_bytes_def bytes_write_def split: option.split)
  next
    case True
    let ?i = "page_pos k a"
    have a: "a = base + of_nat ?i" using page_sum [OF assms(2), of a] True by simp
    have i: "?i < 2 ^ k" by simp
    have "overlay_bytes k ?ov a = (take p page @ xs @ drop (p + length xs) page) ! ?i"
      using True by (simp add: overlay_bytes_def)
    also have "\<dots> = (if p \<le> ?i \<and> ?i < p + length xs then xs ! (?i - p) else page ! ?i)"
      using i assms(3,4) by (auto simp: nth_append min_def)
    also have "\<dots> = bytes_write (overlay_bytes k ov) (base + of_nat p) xs a"
    proof (cases "p \<le> ?i \<and> ?i < p + length xs")
      case inside: True
      then have "unat (a - (base + of_nat p)) = ?i - p" using d(2) [OF True] by simp
      then show ?thesis using inside by (auto simp: bytes_write_def)
    next
      case outside: False
      then have "\<not> unat (a - (base + of_nat p)) < length xs" using d(1) True by simp
      then show ?thesis using outside assms(5) [OF i] a by (auto simp: bytes_write_def)
    qed
    finally show ?thesis .
  qed
qed

section \<open>Fetching a page\<close>

text \<open>A read of the last page of the space by the plain bank panics: its end address wraps to zero.\<close>

lemma pow_u64: "k < 63 \<Longrightarrow> (2 :: nat) ^ k < 2 ^ 64"
  by (rule power_strict_increasing) simp_all

lemma unat_pow_u64: "k < 63 \<Longrightarrow> unat (2 ^ k :: u64) = 2 ^ k"
  using u64_of_nat [OF pow_u64] by simp

lemma page_room:
  assumes "unat addr mod 2 ^ k = 0" and "4 \<le> k" and "k < 63"
  shows "room addr (2 ^ k) \<or> unat addr = 2 ^ 64 - 2 ^ k"
proof -
  obtain q where q: "unat addr = 2 ^ k * q" using assms(1) by (auto elim: dvdE simp: mod_eq_0_iff_dvd)
  have pow: "(2 :: nat) ^ 64 = 2 ^ k * 2 ^ (64 - k)" using assms(3) by (simp flip: power_add)
  have "(16 :: nat) \<le> 2 ^ k" using assms(2) power_increasing [of 4 k "2 :: nat"] by simp
  have "2 ^ k * q < 2 ^ k * 2 ^ (64 - k)" using q unat_u64_less [of addr] pow by simp
  then have less: "q < 2 ^ (64 - k)" by simp
  show ?thesis
  proof (cases "q + 2 \<le> 2 ^ (64 - k)")
    case True
    then have "2 ^ k * (q + 2) \<le> 2 ^ 64" unfolding pow by (rule mult_le_mono2)
    then show ?thesis using q \<open>16 \<le> 2 ^ k\<close> by (simp add: room_def)
  next
    case False
    then have "q + 1 = 2 ^ (64 - k)" using less by simp
    then have "2 ^ k * q + 2 ^ k = 2 ^ 64" unfolding pow by (metis distrib_left mult.right_neutral)
    then have "2 ^ k * q = 2 ^ 64 - 2 ^ k" by linarith
    then show ?thesis using q by simp
  qed
qed

lemma get_page_last:
  assumes "bank_ok u" and "unat addr = 2 ^ 64 - 2 ^ k" and "4 \<le> k" and "k < 63" and "unat addr mod 2 ^ k = 0"
  shows "bank_get_page u addr 0 (2 ^ k) = Some Panic"
proof -
  have ws: "mb_wordsize u = 8" using assms(1) by (simp add: bank_ok_def)
  have k: "(2 :: nat) ^ k < 2 ^ 64" "(16 :: nat) \<le> 2 ^ k"
    using assms(3,4) power_increasing [of 4 k "2 :: nat"] by (simp_all only: pow_u64) simp_all
  have upow: "unat (2 ^ k :: u64) = 2 ^ k" using u64_of_nat [OF k(1)] by simp
  have "unat (addr + 2 ^ k) = 0" using assms(2) k(1) by (simp add: unat_word_ariths upow)
  then have "addr + 2 ^ k = 0" by (simp only: unat_eq_zero)
  then have addr: "addr = - (2 ^ k)" by (simp only: eq_neg_iff_add_eq_0)
  have al: "aligned (addr + 0)"
    using aligned_page [OF _ assms(5)] assms(3) by simp
  have n: "(2 ^ k :: u64) = of_nat (2 ^ k)" by simp
  have ends: "page_ends 8 addr 0 (2 ^ k) = (0, addr, addr + of_nat (8 * ((2 ^ k + 7) div 8)))"
    unfolding n using page_ends_8 [OF al, of "2 ^ k"] addr by simp
  have "unat (addr + 8) = unat addr + 8" using assms(2) k by (simp add: unat_word_ariths)
  then have "0 < addr + 8" by (simp add: word_less_nat_alt)
  then have window: "word_window 8 addr 0 addr = (0, 2 ^ k)" by (simp add: word_window_def addr)
  have "get_page_word u addr 0 addr (replicate (unat (2 ^ k :: u64)) 0) 0 = Panic"
    using k(2) by (simp add: get_page_word_def ws swap_if_def bswap_needed_def HOST_ENDIAN_def word_buf_8 window slice_def upow)
  then show ?thesis unfolding bank_get_page_def ws ends by (simp add: get_page_loop.simps)
qed

lemma fresh_page_eq:
  assumes "overlay_ok k ov" and "unat addr mod 2 ^ k = 0"
  shows "fresh_page ov addr = (if po_underlie ov = None \<or> room addr (2 ^ k)
    then ret (map (\<lambda>i. under_bytes ov (addr + of_nat i)) [0..<2 ^ k]) else Some Panic)"
proof -
  have ok: "po_pagesize ov = 2 ^ k" "4 \<le> k" "k < 63" using assms(1) by (simp_all add: overlay_ok_def)
  show ?thesis
  proof (cases "po_underlie ov")
    case None
    then show ?thesis using unat_pow_u64 [OF ok(3)]
      by (simp add: fresh_page_def ok(1) under_bytes_def map_replicate_const)
  next
    case (Some u)
    have u: "bank_ok u" using assms(1) Some by (simp add: overlay_ok_def)
    show ?thesis
    proof (cases "room addr (2 ^ k)")
      case True
      have al: "aligned (addr + 0)" using aligned_page [of k addr] assms(2) ok(2) by simp
      have "bank_get_page u addr 0 (of_nat (2 ^ k)) = ret (map (\<lambda>i. bank_bytes u (addr + 0 + of_nat i)) [0..<2 ^ k])"
        by (rule get_page_8 [OF u al]) (use True in simp_all)
      then have "bank_get_page u addr 0 (2 ^ k) = ret (map (\<lambda>i. under_bytes ov (addr + of_nat i)) [0..<2 ^ k])"
        by (simp add: under_bytes_def Some)
      then show ?thesis using True unat_pow_u64 [OF ok(3)]
        by (simp add: fresh_page_def Some ok(1) copy_into_def) (simp add: ret_def)
    next
      case False
      then have "unat addr = 2 ^ 64 - 2 ^ k" using page_room [OF assms(2) ok(2,3)] by simp
      then show ?thesis using False get_page_last [OF u _ ok(2,3) assms(2)] by (simp add: fresh_page_def Some ok(1))
    qed
  qed
qed

text \<open>The page the writing operations change holds the bytes of the overlay.\<close>

definition current_page :: "page_overlay \<Rightarrow> u64 \<Rightarrow> u8 list run" where
  "current_page ov base = (case po_page ov base of Some page \<Rightarrow> ret page | None \<Rightarrow> fresh_page ov base)"

lemma current_page_bytes:
  assumes "overlay_ok k ov" and "unat base mod 2 ^ k = 0" and "current_page ov base = ret page"
  shows "length page = 2 ^ k" and "\<And>i. i < 2 ^ k \<Longrightarrow> page ! i = overlay_bytes k ov (base + of_nat i)"
proof -
  have k: "k < 64" using assms(1) by (simp add: overlay_ok_def)
  have "length page = 2 ^ k \<and> (\<forall>i < 2 ^ k. page ! i = overlay_bytes k ov (base + of_nat i))"
  proof (cases "po_page ov base")
    case None
    then have "page = map (\<lambda>i. under_bytes ov (base + of_nat i)) [0..<2 ^ k]"
      using assms(3) fresh_page_eq [OF assms(1,2)] by (auto simp: current_page_def ret_def split: if_splits)
    then show ?thesis using None page_parts_of_sum [OF assms(2) _ k] by (simp add: overlay_bytes_def)
  next
    case (Some page')
    then have "page = page'" using assms(3) by (simp add: current_page_def)
    then show ?thesis using Some assms(1) page_parts_of_sum [OF assms(2) _ k] by (simp add: overlay_bytes_def overlay_ok_def)
  qed
  then show "length page = 2 ^ k" and "\<And>i. i < 2 ^ k \<Longrightarrow> page ! i = overlay_bytes k ov (base + of_nat i)" by simp_all
qed

lemma current_page_total:
  assumes "overlay_ok k ov" and "unat base mod 2 ^ k = 0" and "po_underlie ov = None \<or> room base (2 ^ k)"
  shows "returns (current_page ov base)"
  using assms by (simp add: current_page_def fresh_page_eq split: option.split)

lemma overlay_ok_update:
  assumes "overlay_ok k ov" and "unat base mod 2 ^ k = 0" and "length page = 2 ^ k"
  shows "overlay_ok k (ov\<lparr>po_page := (po_page ov)(base \<mapsto> page)\<rparr>)"
  using assms by (auto simp: overlay_ok_def)

section \<open>The overlay as a store of words\<close>

definition overlay_cell :: "nat \<Rightarrow> page_overlay \<Rightarrow> u64 \<Rightarrow> u64" where
  "overlay_cell k ov a = mem_read False (overlay_bytes k ov) a 8"

lemma byte_view_read: "byte_view False (\<lambda>a. mem_read False m a 8) = m"
proof
  fix a
  have "a = word_base a + of_nat (word_pos a)" using addr_split [of a] by (simp add: algebra_simps)
  then show "byte_view False (\<lambda>a. mem_read False m a 8) a = m a"
    by (simp add: byte_view_def word_byte_mem_read)
qed

lemma overlay_view: "byte_view False (overlay_cell k ov) = overlay_bytes k ov"
  unfolding overlay_cell_def byte_view_read ..

lemma word_in_page:
  assumes "aligned a" and "3 \<le> k" and "k < 64"
  shows "page_pos k a + 8 \<le> 2 ^ k"
    and "i < 8 \<Longrightarrow> page_base k (a + of_nat i) = page_base k a" and "i < 8 \<Longrightarrow> page_pos k (a + of_nat i) = page_pos k a + i"
proof -
  have "int (word_pos a) = int (unat a mod 8)" by (simp only: word_pos_uint uint_nat zmod_int of_nat_numeral)
  then have "8 dvd unat a" using assms(1) by (simp add: aligned_def dvd_eq_mod_eq_0)
  moreover have "(8 :: nat) dvd 2 ^ k" using le_imp_power_dvd [of 3 k "2 :: nat"] assms(2) by simp
  ultimately have "8 dvd page_pos k a" unfolding page_pos_def by (rule dvd_mod)
  then show fit: "page_pos k a + 8 \<le> 2 ^ k" using page_pos_less [of k a] \<open>8 dvd 2 ^ k\<close> by (elim dvdE) simp
  have sum: "a + of_nat i = page_base k a + of_nat (page_pos k a + i)"
    using arg_cong [OF page_sum [OF assms(3), of a], of "\<lambda>x. x + of_nat i"] by (simp only: of_nat_add add.assoc)
  have base: "unat (page_base k a) mod 2 ^ k = 0" using page_split(3) assms(3) by simp
  note parts = page_parts_of_sum [OF base _ assms(3), of "page_pos k a + i", folded sum]
  show "i < 8 \<Longrightarrow> page_base k (a + of_nat i) = page_base k a" "i < 8 \<Longrightarrow> page_pos k (a + of_nat i) = page_pos k a + i"
    using parts fit by simp_all
qed

lemma overlay_addr:
  assumes "overlay_ok k ov"
  shows "a AND NOT (po_pagesize ov - 1) = page_base k a" and "a AND (po_pagesize ov - 1) = of_nat (page_pos k a)"
    and "po_wordsize ov = 8" and "3 \<le> k" and "k < 64" and "unat (of_nat (page_pos k a) :: u64) = page_pos k a"
proof -
  have ok: "po_pagesize ov = 2 ^ k" "k < 63" using assms by (simp_all add: overlay_ok_def)
  then have m: "po_pagesize ov - 1 = mask k" by (simp add: mask_eq_exp_minus_1)
  show "a AND NOT (po_pagesize ov - 1) = page_base k a" by (simp only: m page_base_def)
  have "unat (a AND mask k) = page_pos k a" unfolding page_pos_def using ok(2) by (intro unat_and_mask) simp
  then show "a AND (po_pagesize ov - 1) = of_nat (page_pos k a)" by (simp only: m) (metis of_nat_unat ucast_id)
  have "page_pos k a < 2 ^ 64" using page_pos_less [of k a] pow_u64 [OF ok(2)] by linarith
  then show "unat (of_nat (page_pos k a) :: u64) = page_pos k a" by (rule u64_of_nat)
qed (use assms in \<open>simp_all add: overlay_ok_def\<close>)

text \<open>The bytes of an aligned word of a page.\<close>

lemma page_word_slice:
  assumes "overlay_ok k ov" and "aligned a" and "length page = 2 ^ k"
  shows "slice page (of_nat (page_pos k a)) (of_nat (page_pos k a) + 8) = Ret (take 8 (drop (page_pos k a) page))"
    and "unat (of_nat (page_pos k a) + 8 :: u64) = page_pos k a + 8"
proof -
  note ad = overlay_addr [OF assms(1)]
  note fit = word_in_page(1) [OF assms(2) ad(4,5)]
  have "page_pos k a + 8 < 2 ^ 64" using fit pow_u64 [of k] assms(1) by (simp add: overlay_ok_def)
  then have "unat (of_nat (page_pos k a + 8) :: u64) = page_pos k a + 8" by (rule u64_of_nat)
  then show u: "unat (of_nat (page_pos k a) + 8 :: u64) = page_pos k a + 8" by simp
  show "slice page (of_nat (page_pos k a)) (of_nat (page_pos k a) + 8) = Ret (take 8 (drop (page_pos k a) page))"
    using fit assms(3) by (simp add: slice_def word_le_nat_alt u ad(6))
qed

lemma overlay_find_cell:
  assumes "overlay_ok k ov" and "aligned a"
  shows "overlay_find ov a = ret (overlay_cell k ov a)"
proof -
  note ad = overlay_addr [OF assms(1)]
  note word = word_in_page [OF assms(2) ad(4,5)]
  show ?thesis
  proof (cases "po_page ov (page_base k a)")
    case None
    then have bytes: "overlay_bytes k ov (a + of_nat i) = under_bytes ov (a + of_nat i)" if "i < 8" for i
      using word(2) [OF that] by (simp add: overlay_bytes_def)
    have "overlay_cell k ov a = (case po_underlie ov of None \<Rightarrow> 0 | Some u \<Rightarrow> bank_find u a)"
      unfolding overlay_cell_def
      by (rule word_eq_bytesI)
        (simp add: word_byte_mem_read bytes under_bytes_def bank_bytes_at [OF assms(2)] split: option.split)
    then show ?thesis using None by (simp add: overlay_find_def Let_def ad split: option.split)
  next
    case (Some page)
    then have len: "length page = 2 ^ k" using assms(1) by (simp add: overlay_ok_def)
    have room8: "8 \<le> 2 ^ k - page_pos k a" using word(1) by linarith
    have "map (\<lambda>i. overlay_bytes k ov (a + of_nat i)) [0..<8] = take 8 (drop (page_pos k a) page)"
      by (rule nth_equalityI) (use word(2,3) room8 len Some in \<open>simp_all add: overlay_bytes_def\<close>)
    then have "construct_value (take 8 (drop (page_pos k a) page)) False = overlay_cell k ov a"
      by (simp add: overlay_cell_def mem_read_def)
    then show ?thesis
      using Some page_word_slice(1) [OF assms len] by (simp add: overlay_find_def Let_def ad flip: ret_def)
  qed
qed

lemma overlay_insert_eq:
  assumes "overlay_ok k ov" and "aligned a"
  shows "overlay_insert ov a v = run_bind (current_page ov (page_base k a)) (\<lambda>page.
    ret (ov\<lparr>po_page := (po_page ov)(page_base k a \<mapsto> take (page_pos k a) page @ low_bytes 8 v @ drop (page_pos k a + 8) page)\<rparr>))"
proof -
  note ad = overlay_addr [OF assms(1)]
  have base: "unat (page_base k a) mod 2 ^ k = 0" using page_split(3) ad(5) by simp
  have step: "run_bind (Some (slice page (of_nat (page_pos k a)) (of_nat (page_pos k a) + 8))) (\<lambda>part.
      run_bind (Some (deconstruct_value v 8 False part)) (\<lambda>part.
      run_bind (Some (copy_into page (of_nat (page_pos k a)) (of_nat (page_pos k a) + 8) part)) f)) =
      f (take (page_pos k a) page @ low_bytes 8 v @ drop (page_pos k a + 8) page)"
    if "length page = 2 ^ k" for page and f :: "u8 list \<Rightarrow> page_overlay run"
  proof -
    note sl = page_word_slice [OF assms that] and fit = word_in_page(1) [OF assms(2) ad(4,5)]
    have "deconstruct_value v 8 False (take 8 (drop (page_pos k a) page)) = Ret (low_bytes 8 v)"
      using fit that by (simp add: deconstruct_value_def)
    moreover have "copy_into page (of_nat (page_pos k a)) (of_nat (page_pos k a) + 8) (low_bytes 8 v) =
        Ret (take (page_pos k a) page @ low_bytes 8 v @ drop (page_pos k a + 8) page)"
      using fit that sl(2) ad(6) by (simp add: copy_into_def word_le_nat_alt)
    ultimately show ?thesis by (simp add: sl(1) flip: ret_def)
  qed
  have "overlay_insert ov a v = run_bind (current_page ov (page_base k a)) (\<lambda>page.
      run_bind (Some (slice page (of_nat (page_pos k a)) (of_nat (page_pos k a) + 8))) (\<lambda>part.
      run_bind (Some (deconstruct_value v 8 False part)) (\<lambda>part.
      run_bind (Some (copy_into page (of_nat (page_pos k a)) (of_nat (page_pos k a) + 8) part)) (\<lambda>page.
      ret (ov\<lparr>po_page := (po_page ov)(page_base k a \<mapsto> page)\<rparr>)))))"
    by (simp only: overlay_insert_def Let_def ad(1-3) current_page_def is_big_endian.simps)
  also have "\<dots> = run_bind (current_page ov (page_base k a)) (\<lambda>page.
      ret (ov\<lparr>po_page := (po_page ov)(page_base k a \<mapsto> take (page_pos k a) page @ low_bytes 8 v @ drop (page_pos k a + 8) page)\<rparr>))"
  proof (cases "returns (current_page ov (page_base k a))")
    case True
    then obtain page where page: "current_page ov (page_base k a) = ret page" by (auto simp: returns_def)
    show ?thesis unfolding page run_bind_simps by (rule step [OF current_page_bytes(1) [OF assms(1) base page]])
  next
    case False
    then show ?thesis by (auto simp: run_bind_def returns_def ret_def split: option.split res.split)
  qed
  finally show ?thesis .
qed

lemma overlay_insert_bytes:
  assumes "overlay_ok k ov" and "aligned a" and "overlay_insert ov a v = ret ov'"
  shows "overlay_ok k ov'" and "overlay_bytes k ov' = bytes_write (overlay_bytes k ov) a (low_bytes 8 v)"
    and "po_underlie ov' = po_underlie ov"
proof -
  note ad = overlay_addr [OF assms(1)] 
  note fit = word_in_page(1) [OF assms(2) ad(4,5)]
  have base: "unat (page_base k a) mod 2 ^ k = 0" using page_split(3) ad(5) by simp
  obtain page where page: "current_page ov (page_base k a) = ret page"
    and ov': "ov' = ov\<lparr>po_page := (po_page ov)(page_base k a \<mapsto> take (page_pos k a) page @ low_bytes 8 v @ drop (page_pos k a + 8) page)\<rparr>"
    using assms(3) unfolding overlay_insert_eq [OF assms(1,2)] run_bind_ret_iff by auto
  note P = current_page_bytes [OF assms(1) base page]
  show "overlay_ok k ov'" unfolding ov' by (rule overlay_ok_update [OF assms(1) base]) (use P(1) fit in simp)
  show "overlay_bytes k ov' = bytes_write (overlay_bytes k ov) a (low_bytes 8 v)"
    using overlay_bytes_update [OF base ad(5), of "page_pos k a" "low_bytes 8 v" page ov] P fit page_sum [OF ad(5), of a]
    by (simp add: ov')
  show "po_underlie ov' = po_underlie ov" by (simp add: ov')
qed

lemma overlay_cell_insert:
  assumes "overlay_ok k ov" and "aligned a" and "overlay_insert ov a v = ret ov'" and "aligned b"
  shows "overlay_cell k ov' b = (if b = a then v else overlay_cell k ov b)"
proof -
  note bytes = overlay_insert_bytes(2) [OF assms(1-3)]
  have w: "bytes_write m a (low_bytes 8 v) = mem_write False m a 8 v" for m
    by (simp add: bytes_write_def mem_write_def)
  show ?thesis
  proof (cases "b = a")
    case True
    have "8 * 8 = (64 :: nat)" by simp
    then have "v \<le> mask (8 * 8)" by (simp only: U64_MAX_mask [symmetric] le_U64_MAX)
    then show ?thesis using True by (simp only: overlay_cell_def bytes w mem_read_write [OF order_refl] if_True simp_thms)
  next
    case False
    have "8 \<le> unat (b + of_nat i - a)" if "i < 8" for i
    proof -
      have "word_base (b + of_nat i) = b" by (rule word_parts_of_sum [OF assms(4) that])
      then show ?thesis using dist_aligned(1) [OF assms(2), of "b + of_nat i"] False by simp
    qed
    then show ?thesis using False by (simp add: overlay_cell_def bytes w mem_read_write_apart)
  qed
qed

lemma overlay_insert_total:
  assumes "overlay_ok k ov" and "aligned a" and "po_underlie ov = None \<or> room (page_base k a) (2 ^ k)"
  shows "returns (overlay_insert ov a v)"
proof -
  have base: "unat (page_base k a) mod 2 ^ k = 0" using page_split(3) overlay_addr(5) [OF assms(1)] by simp
  obtain page where "current_page ov (page_base k a) = ret page"
    using current_page_total [OF assms(1) base assms(3)] by (auto simp: returns_def)
  then show ?thesis by (simp add: overlay_insert_eq [OF assms(1,2)])
qed

text \<open>
  The overlay over a given bank. An insertion into the last page of the space panics when the page has to be copied; with no bank
  underneath it never does.
\<close>

definition overlay_on :: "nat \<Rightarrow> memory_bank option \<Rightarrow> page_overlay \<Rightarrow> bool" where
  "overlay_on k ul ov \<longleftrightarrow> overlay_ok k ov \<and> po_underlie ov = ul"

interpretation overlay: total_store overlay_find overlay_insert "overlay_on k ul" "overlay_cell k" "\<lambda>a. ul = None \<or> room (page_base k a) (2 ^ k)"
    for k ul
  by unfold_locales
    (auto simp: overlay_on_def overlay_find_cell overlay_insert_bytes(1,3) overlay_cell_insert intro: overlay_insert_total)

section \<open>The overlay as a store of pages\<close>

lemma overlay_get_page_bytes:
  assumes "overlay_ok k ov" and "unat addr mod 2 ^ k = 0" and "p + n \<le> 2 ^ k" and "0 < n" and "room addr (2 ^ k)"
    and "unat (addr + of_nat p) = unat addr + p" and "po_underlie ov = None \<or> aligned (addr + of_nat p)"
  shows "overlay_get_page ov addr (of_nat p) (of_nat n) = ret (map (\<lambda>i. overlay_bytes k ov (addr + of_nat p + of_nat i)) [0..<n])"
proof -
  have k: "k < 63" "k < 64" using assms(1) by (simp_all add: overlay_ok_def)
  have lim: "p + n < 2 ^ 64" using assms(3) pow_u64 [OF k(1)] by linarith
  have u: "unat (of_nat n :: u64) = n" "unat (of_nat p :: u64) = p" "unat (of_nat (p + n) :: u64) = p + n"
    by (rule u64_of_nat, use lim in linarith)+
  have parts: "page_base k (addr + of_nat p + of_nat i) = addr" "page_pos k (addr + of_nat p + of_nat i) = p + i" if "i < n" for i
    using page_parts_of_sum [OF assms(2) _ k(2), of "p + i"] that assms(3) by (simp_all add: add.assoc)
  show ?thesis
  proof (cases "po_page ov addr")
    case None
    then have bytes: "map (\<lambda>i. overlay_bytes k ov (addr + of_nat p + of_nat i)) [0..<n] =
        map (\<lambda>i. under_bytes ov (addr + of_nat p + of_nat i)) [0..<n]"
      by (simp add: overlay_bytes_def parts)
    show ?thesis
    proof (cases "po_underlie ov")
      case no: None
      then show ?thesis
        using None u(1) unfolding bytes by (simp add: overlay_get_page_def under_bytes_def map_replicate_const)
    next
      case (Some b)
      then have "bank_ok b" and al: "aligned (addr + of_nat p)" using assms(1,7) by (auto simp: overlay_ok_def)
      moreover have "addr \<le> addr + of_nat p" using assms(6) by (simp add: word_le_nat_alt)
      moreover have "room (addr + of_nat p) n" using assms(3,5,6) by (simp add: room_def)
      ultimately have "bank_get_page b addr (of_nat p) (of_nat n) =
          ret (map (\<lambda>i. bank_bytes b (addr + of_nat p + of_nat i)) [0..<n])" using assms(4) by (intro get_page_8)
      then show ?thesis using None Some unfolding bytes by (simp add: overlay_get_page_def under_bytes_def)
    qed
  next
    case (Some page)
    then have len: "length page = 2 ^ k" using assms(1) by (simp add: overlay_ok_def)
    have sum: "of_nat p + of_nat n = (of_nat (p + n) :: u64)" by simp
    have part: "slice page (of_nat p) (of_nat p + of_nat n) = Ret (take n (drop p page))"
      unfolding sum slice_def using u len assms(3) by (simp add: word_le_nat_alt del: of_nat_add)
    have "n \<le> 2 ^ k - p" using assms(3) by linarith
    then have "map (\<lambda>i. overlay_bytes k ov (addr + of_nat p + of_nat i)) [0..<n] = take n (drop p page)"
      by (intro nth_equalityI) (use len assms(3) Some in \<open>simp_all add: overlay_bytes_def parts\<close>)
    moreover have "copy_into (replicate n 0) 0 (of_nat n) (take n (drop p page)) = Ret (take n (drop p page))"
      using u len \<open>n \<le> 2 ^ k - p\<close> by (simp add: copy_into_def)
    ultimately show ?thesis using Some part u by (simp add: overlay_get_page_def flip: ret_def)
  qed
qed

lemma overlay_set_page_bytes:
  assumes "overlay_ok k ov" and "unat addr mod 2 ^ k = 0" and "p + length val \<le> 2 ^ k" and "room addr (2 ^ k)"
  shows "\<exists>ov'. overlay_set_page ov addr val (of_nat p) (of_nat (length val)) = ret ov' \<and> overlay_ok k ov' \<and>
    po_underlie ov' = po_underlie ov \<and> overlay_bytes k ov' = bytes_write (overlay_bytes k ov) (addr + of_nat p) val"
proof -
  let ?n = "length val"
  have k: "k < 63" "k < 64" "po_pagesize ov = 2 ^ k" using assms(1) by (simp_all add: overlay_ok_def)
  have lim: "p + ?n < 2 ^ 64" using assms(3) pow_u64 [OF k(1)] by linarith
  have u: "unat (of_nat ?n :: u64) = ?n" "unat (of_nat p :: u64) = p" "unat (of_nat (p + ?n) :: u64) = p + ?n"
    by (rule u64_of_nat, use lim in linarith)+
  have full: "(of_nat ?n = po_pagesize ov) \<longleftrightarrow> ?n = 2 ^ k"
    using u(1) unat_pow_u64 [OF k(1)] by (simp add: k(3) word_unat_eq_iff)
  obtain page where page: "(case po_page ov addr of Some page \<Rightarrow> ret page
      | None \<Rightarrow> if of_nat ?n = po_pagesize ov then ret (replicate (unat (po_pagesize ov)) 0) else fresh_page ov addr) = ret page"
    and len: "length page = 2 ^ k"
    and cover: "\<And>i. i < 2 ^ k \<Longrightarrow> p \<le> i \<and> i < p + ?n \<or> page ! i = overlay_bytes k ov (addr + of_nat i)"
  proof (cases "po_page ov addr = None \<and> ?n = 2 ^ k")
    case True
    then have "p = 0" using assms(3) by simp
    then show ?thesis using True full unat_pow_u64 [OF k(1)] by (intro that [of "replicate (2 ^ k) 0"]) (simp_all add: k(3))
  next
    case False
    obtain page where page: "current_page ov addr = ret page"
      using current_page_total [OF assms(1,2)] assms(4) by (auto simp: returns_def)
    show ?thesis using False full page current_page_bytes [OF assms(1,2) page]
      by (intro that [of page]) (auto simp: current_page_def split: option.splits)
  qed
  have sum: "of_nat p + of_nat ?n = (of_nat (p + ?n) :: u64)" by simp
  have copy: "copy_into page (of_nat p) (of_nat p + of_nat ?n) val = Ret (take p page @ val @ drop (p + ?n) page)"
    unfolding sum copy_into_def using u len assms(3) by (simp add: word_le_nat_alt del: of_nat_add)
  let ?ov = "ov\<lparr>po_page := (po_page ov)(addr \<mapsto> take p page @ val @ drop (p + ?n) page)\<rparr>"
  have "overlay_set_page ov addr val (of_nat p) (of_nat ?n) = ret ?ov"
    unfolding overlay_set_page_def page run_bind_simps copy ret_def [symmetric] ..
  moreover have "overlay_ok k ?ov" by (rule overlay_ok_update [OF assms(1,2)]) (use len assms(3) in simp)
  moreover have "overlay_bytes k ?ov = bytes_write (overlay_bytes k ov) (addr + of_nat p) val"
    by (rule overlay_bytes_update [OF assms(2) k(2) assms(3) len cover])
  ultimately show ?thesis by auto
qed

interpretation overlay_chunks: page_store k overlay_get_page overlay_set_page "overlay_on k ul" "overlay_bytes k" "\<lambda>a. ul = None \<or> aligned a" for k ul
proof
  fix ov and addr :: u64 and p :: nat and val :: "u8 list"
  assume on: "overlay_on k ul ov"
  then have ok: "overlay_ok k ov" by (simp add: overlay_on_def)
  then show "3 \<le> k \<and> k < 63" by (simp add: overlay_ok_def)
  show "\<exists>ov'. overlay_set_page ov addr val (of_nat p) (of_nat (length val)) = ret ov' \<and> overlay_on k ul ov' \<and>
      overlay_bytes k ov' = bytes_write (overlay_bytes k ov) (addr + of_nat p) val"
    if "unat addr mod 2 ^ k = 0" "p + length val \<le> 2 ^ k" "room addr (2 ^ k)"
    using overlay_set_page_bytes [OF ok that] on by (auto simp: overlay_on_def)
qed (auto simp: overlay_on_def intro: aligned_page overlay_get_page_bytes)

end
