(* ===== verification/Mem_Hash.thy ===== *)
theory Mem_Hash
  imports Mem_Bank
begin

text \<open>
  The hash overlay of src/src/memstate.rs (\<open>MemoryHashOverlay\<close>): an open-addressing table of words over an underlying bank. The invariant of the
  table, that a stored address is met on its probe sequence before any empty slot, makes it a store of words.
\<close>

unbundle bit_operations_syntax

record hash_overlay =
  ho_wordsize :: u64
  ho_pagesize :: u64
  ho_space :: address_space
  ho_underlie :: "memory_bank option"
  ho_alignshift :: u32
  ho_collideskip :: u64
  ho_address :: "u64 list"
  ho_value :: "u64 list"

definition HASH_EMPTY :: u64 where
  "HASH_EMPTY = 0xBADBEEF"

function align_shift :: "u32 \<Rightarrow> u32 \<Rightarrow> u32" where
  "align_shift tmp alignshift = (if tmp \<noteq> 0 then align_shift (drop_bit 1 tmp) (alignshift + 1) else alignshift)"
  by auto
termination
proof (relation "measure (\<lambda>(tmp, alignshift). unat tmp)")
  fix tmp alignshift :: u32 assume "tmp \<noteq> 0"
  then have "0 < unat tmp" by (simp add: unat_gt_0)
  moreover have "unat (drop_bit 1 tmp) = unat tmp div 2" by (simp add: drop_bit_eq_div unat_div)
  ultimately show "((drop_bit 1 tmp, alignshift + 1), tmp, alignshift) \<in> measure (\<lambda>(tmp, alignshift). unat tmp)" by simp
qed simp

declare align_shift.simps [simp del]

definition hash_new :: "address_space \<Rightarrow> u64 \<Rightarrow> u64 \<Rightarrow> nat \<Rightarrow> memory_bank option \<Rightarrow> hash_overlay" where
  "hash_new spc wordsize pagesize hashsize underlie =
     \<lparr>ho_wordsize = wordsize, ho_pagesize = pagesize, ho_space = spc, ho_underlie = underlie,
      ho_alignshift = align_shift (ucast (wordsize - 1)) 0, ho_collideskip = 1023,
      ho_address = replicate hashsize HASH_EMPTY, ho_value = replicate hashsize 0\<rparr>"

text \<open>An assignment to a slot, with the check of the index.\<close>

definition set_slot :: "'a list \<Rightarrow> nat \<Rightarrow> 'a \<Rightarrow> 'a list res" where
  [rust_defs]: "set_slot xs i v = (if i < length xs then Ret (xs[i := v]) else Panic)"

definition get_slot :: "'a list \<Rightarrow> nat \<Rightarrow> 'a res" where
  [rust_defs]: "get_slot xs i = (if i < length xs then Ret (xs ! i) else Panic)"

definition first_slot :: "hash_overlay \<Rightarrow> u64 \<Rightarrow> nat" where
  "first_slot h addr = unat (shr_u64 addr (unat (ho_alignshift h)) mod of_nat (length (ho_address h)))"

definition next_slot :: "hash_overlay \<Rightarrow> nat \<Rightarrow> nat" where
  "next_slot h off = unat ((of_nat off + ho_collideskip h) mod of_nat (length (ho_address h)))"

primrec insert_probe :: "nat \<Rightarrow> hash_overlay \<Rightarrow> u64 \<Rightarrow> u64 \<Rightarrow> nat \<Rightarrow> hash_overlay res" where
  "insert_probe 0 h addr val off = Panic"
| "insert_probe (Suc n) h addr val off =
     (if ho_address h ! off = addr then
        res_map (\<lambda>vs. h\<lparr>ho_value := vs\<rparr>) (set_slot (ho_value h) off val)
      else if ho_address h ! off = HASH_EMPTY then
        res_map (\<lambda>vs. h\<lparr>ho_address := (ho_address h)[off := addr], ho_value := vs\<rparr>) (set_slot (ho_value h) off val)
      else insert_probe n h addr val (next_slot h off))"

definition hash_insert :: "hash_overlay \<Rightarrow> u64 \<Rightarrow> u64 \<Rightarrow> hash_overlay res" where
  "hash_insert h addr val =
     (if length (ho_address h) = 0 then Panic
      else insert_probe (length (ho_address h)) h addr val (first_slot h addr))"

definition hash_under :: "hash_overlay \<Rightarrow> u64 \<Rightarrow> u64" where
  "hash_under h addr = (case ho_underlie h of None \<Rightarrow> 0 | Some u \<Rightarrow> bank_find u addr)"

primrec find_probe :: "nat \<Rightarrow> hash_overlay \<Rightarrow> u64 \<Rightarrow> nat \<Rightarrow> u64 res" where
  "find_probe 0 h addr off = Ret (hash_under h addr)"
| "find_probe (Suc n) h addr off =
     (if ho_address h ! off = addr then get_slot (ho_value h) off
      else if ho_address h ! off = HASH_EMPTY then Ret (hash_under h addr)
      else find_probe n h addr (next_slot h off))"

definition hash_find :: "hash_overlay \<Rightarrow> u64 \<Rightarrow> u64 res" where
  "hash_find h addr =
     (if length (ho_address h) = 0 then Ret (hash_under h addr)
      else find_probe (length (ho_address h)) h addr (first_slot h addr))"

definition hash_get_value :: "hash_overlay \<Rightarrow> u64 \<Rightarrow> u64 \<Rightarrow> u64 run" where
  "hash_get_value h offset sz =
     value_get (\<lambda>a. Some (hash_find h a)) (ho_wordsize h) (is_big_endian (ho_space h)) offset sz"

definition hash_set_value :: "hash_overlay \<Rightarrow> u64 \<Rightarrow> u64 \<Rightarrow> u64 \<Rightarrow> hash_overlay run" where
  "hash_set_value h offset sz val =
     value_set (\<lambda>h a. Some (hash_find h a)) (\<lambda>h a v. Some (hash_insert h a v)) (ho_wordsize h) (is_big_endian (ho_space h))
       h offset sz val"

section \<open>The invariant of the table\<close>

definition slot :: "hash_overlay \<Rightarrow> u64 \<Rightarrow> nat \<Rightarrow> nat" where
  "slot h addr m = (next_slot h ^^ m) (first_slot h addr)"

text \<open>An address that occurs on its probe sequence occurs there before any empty slot.\<close>

definition met :: "hash_overlay \<Rightarrow> u64 \<Rightarrow> bool" where
  "met h addr \<longleftrightarrow> (\<forall>m < length (ho_address h). ho_address h ! slot h addr m = addr \<longrightarrow>
     (\<exists>n < length (ho_address h). ho_address h ! slot h addr n = addr \<and> (\<forall>i < n. ho_address h ! slot h addr i \<noteq> HASH_EMPTY)))"

definition hash_ok :: "hash_overlay \<Rightarrow> bool" where
  "hash_ok h \<longleftrightarrow> ho_wordsize h = 8 \<and> 0 < length (ho_address h) \<and> length (ho_address h) < 2 ^ 63 \<and>
     length (ho_value h) = length (ho_address h) \<and> (\<forall>addr. addr \<noteq> HASH_EMPTY \<longrightarrow> met h addr)"

abbreviation key_at :: "hash_overlay \<Rightarrow> u64 \<Rightarrow> nat \<Rightarrow> u64" where
  "key_at h addr m \<equiv> ho_address h ! slot h addr m"

definition stops :: "hash_overlay \<Rightarrow> u64 \<Rightarrow> nat \<Rightarrow> bool" where
  "stops h addr i \<longleftrightarrow> key_at h addr i = addr \<or> key_at h addr i = HASH_EMPTY"

lemma slot_0: "slot h addr 0 = first_slot h addr"
  by (simp add: slot_def)

lemma slot_Suc: "slot h addr (Suc m) = next_slot h (slot h addr m)"
  by (simp add: slot_def)

lemma slot_less:
  assumes "hash_ok h"
  shows "slot h addr m < length (ho_address h)"
proof -
  let ?l = "length (ho_address h)"
  have l: "unat (of_nat ?l :: u64) = ?l" using assms by (simp add: hash_ok_def unsigned_of_nat take_bit_nat_eq_self)
  have "unat (x mod of_nat ?l) < ?l" for x :: u64
    using assms by (simp add: unat_mod l hash_ok_def)
  then show ?thesis by (cases m) (simp_all only: slot_0 slot_Suc first_slot_def next_slot_def)
qed

lemma insert_probe_stop:
  "i < n \<Longrightarrow> stops h addr (m + i) \<Longrightarrow> (\<And>j. j < i \<Longrightarrow> \<not> stops h addr (m + j)) \<Longrightarrow>
    insert_probe n h addr val (slot h addr m) = insert_probe 1 h addr val (slot h addr (m + i))"
proof (induction n arbitrary: m i)
  case (Suc n)
  show ?case
  proof (cases i)
    case 0
    then show ?thesis using Suc.prems(2) by (auto simp: stops_def)
  next
    case (Suc i')
    have nx: "\<not> stops h addr (Suc m + j)" if "j < i'" for j using Suc.prems(3) [of "Suc j"] Suc that by simp
    have "\<not> stops h addr m" using Suc.prems(3) [of 0] Suc by simp
    then have "insert_probe (Suc n) h addr val (slot h addr m) = insert_probe n h addr val (slot h addr (Suc m))"
      by (simp add: stops_def slot_Suc)
    also have "\<dots> = insert_probe 1 h addr val (slot h addr (Suc m + i'))"
      using Suc.prems(1,2) Suc nx by (intro Suc.IH) simp_all
    finally show ?thesis using Suc by simp
  qed
qed simp

lemma insert_probe_full:
  "(\<And>j. j < n \<Longrightarrow> \<not> stops h addr (m + j)) \<Longrightarrow> insert_probe n h addr val (slot h addr m) = Panic"
proof (induction n arbitrary: m)
  case (Suc n)
  have "\<not> stops h addr m" using Suc.prems [of 0] by simp
  moreover have "insert_probe n h addr val (slot h addr (Suc m)) = Panic"
    by (rule Suc.IH) (use Suc.prems [of "Suc _"] in auto)
  ultimately show ?case by (simp add: stops_def slot_Suc)
qed simp

lemma find_probe_stop:
  "i < n \<Longrightarrow> stops h addr (m + i) \<Longrightarrow> (\<And>j. j < i \<Longrightarrow> \<not> stops h addr (m + j)) \<Longrightarrow>
    find_probe n h addr (slot h addr m) = find_probe 1 h addr (slot h addr (m + i))"
proof (induction n arbitrary: m i)
  case (Suc n)
  show ?case
  proof (cases i)
    case 0
    then show ?thesis using Suc.prems(2) by (auto simp: stops_def)
  next
    case (Suc i')
    have nx: "\<not> stops h addr (Suc m + j)" if "j < i'" for j using Suc.prems(3) [of "Suc j"] Suc that by simp
    have "\<not> stops h addr m" using Suc.prems(3) [of 0] Suc by simp
    then have "find_probe (Suc n) h addr (slot h addr m) = find_probe n h addr (slot h addr (Suc m))"
      by (simp add: stops_def slot_Suc)
    also have "\<dots> = find_probe 1 h addr (slot h addr (Suc m + i'))"
      using Suc.prems(1,2) Suc nx by (intro Suc.IH) simp_all
    finally show ?thesis using Suc by simp
  qed
qed simp

lemma find_probe_full:
  "(\<And>j. j < n \<Longrightarrow> \<not> stops h addr (m + j)) \<Longrightarrow> find_probe n h addr (slot h addr m) = Ret (hash_under h addr)"
proof (induction n arbitrary: m)
  case (Suc n)
  have "\<not> stops h addr m" using Suc.prems [of 0] by simp
  moreover have "find_probe n h addr (slot h addr (Suc m)) = Ret (hash_under h addr)"
    by (rule Suc.IH) (use Suc.prems [of "Suc _"] in auto)
  ultimately show ?case by (simp add: stops_def slot_Suc)
qed simp

text \<open>The slot where the probe of an address ends, if it ends before the table is exhausted.\<close>

lemma probe_cases:
  assumes "hash_ok h"
  obtains (full) "\<And>j. j < length (ho_address h) \<Longrightarrow> \<not> stops h addr j"
    | (stop) i where "i < length (ho_address h)" and "stops h addr i" and "\<And>j. j < i \<Longrightarrow> \<not> stops h addr j"
proof (cases "\<exists>j < length (ho_address h). stops h addr j")
  case True
  then obtain j where j: "j < length (ho_address h)" "stops h addr j" by blast
  define i where "i = (LEAST j. stops h addr j)"
  have "stops h addr i" unfolding i_def by (rule LeastI) (rule j(2))
  moreover have "i \<le> j" unfolding i_def by (rule Least_le) (rule j(2))
  moreover have "\<not> stops h addr j" if "j < i" for j using not_less_Least that unfolding i_def .
  ultimately show thesis using j(1) by (intro stop) auto
next
  case False
  then show thesis by (intro full) auto
qed

lemma hash_insert_eq: "hash_ok h \<Longrightarrow> hash_insert h addr val = insert_probe (length (ho_address h)) h addr val (slot h addr 0)"
  by (simp add: hash_insert_def hash_ok_def slot_0)

lemma hash_find_eq: "hash_ok h \<Longrightarrow> hash_find h addr = find_probe (length (ho_address h)) h addr (slot h addr 0)"
  by (simp add: hash_find_def hash_ok_def slot_0)

lemma find_stored:
  assumes "hash_ok h" and "b \<noteq> HASH_EMPTY" and "i < length (ho_address h)" and "key_at h b i = b" and "\<And>j. j < i \<Longrightarrow> key_at h b j \<noteq> b"
  shows "hash_find h b = Ret (ho_value h ! slot h b i)"
proof -
  obtain n where n: "key_at h b n = b" "\<forall>j < n. key_at h b j \<noteq> HASH_EMPTY"
    using assms(1-4) unfolding hash_ok_def met_def by blast
  have "i \<le> n" using n(1) assms(5) by (meson not_le)
  then have "\<not> stops h b j" if "j < i" for j using that n(2) assms(5) by (simp add: stops_def)
  moreover have "stops h b i" using assms(4) by (simp add: stops_def)
  ultimately have "hash_find h b = find_probe 1 h b (slot h b i)"
    using find_probe_stop [of i "length (ho_address h)" h b 0] assms(3) by (simp add: hash_find_eq [OF assms(1)])
  then show ?thesis using assms(1,4) slot_less [OF assms(1), of b i] by (simp add: get_slot_def hash_ok_def)
qed

lemma find_absent:
  assumes "hash_ok h" and "\<And>m. m < length (ho_address h) \<Longrightarrow> key_at h b m \<noteq> b"
  shows "hash_find h b = Ret (hash_under h b)"
  using assms(1)
proof (cases rule: probe_cases [where addr = b])
  case full
  then show ?thesis using find_probe_full [of "length (ho_address h)" h b 0] by (simp add: hash_find_eq [OF assms(1)])
next
  case (stop i)
  have "key_at h b i \<noteq> b" "key_at h b i = HASH_EMPTY" using stop(1,2) assms(2) by (auto simp: stops_def)
  then show ?thesis using find_probe_stop [of i "length (ho_address h)" h b 0] stop by (simp add: hash_find_eq [OF assms(1)])
qed

lemma hash_insert_run:
  assumes "hash_ok h" and "hash_insert h a v = Ret h'"
  obtains i where "i < length (ho_address h)" and "stops h a i" and "\<And>j. j < i \<Longrightarrow> \<not> stops h a j"
    and "h' = h\<lparr>ho_address := (ho_address h)[slot h a i := a], ho_value := (ho_value h)[slot h a i := v]\<rparr>"
  using assms(1)
proof (cases rule: probe_cases [where addr = a])
  case full
  then show ?thesis using insert_probe_full [of "length (ho_address h)" h a 0] assms(2) by (simp add: hash_insert_eq [OF assms(1)])
next
  case (stop i)
  have "insert_probe 1 h a v (slot h a i) = Ret h'"
    using insert_probe_stop [of i "length (ho_address h)" h a 0 v] stop assms(2) by (simp add: hash_insert_eq [OF assms(1)])
  then have "h' = h\<lparr>ho_address := (ho_address h)[slot h a i := a], ho_value := (ho_value h)[slot h a i := v]\<rparr>"
  proof (cases "key_at h a i = a")
    case True
    then have "(ho_address h)[slot h a i := a] = ho_address h" using list_update_id [of "ho_address h" "slot h a i"] by simp
    then have "h\<lparr>ho_address := (ho_address h)[slot h a i := a]\<rparr> = h" by simp
    then show ?thesis
      using \<open>insert_probe 1 h a v (slot h a i) = Ret h'\<close> True slot_less [OF assms(1), of a i] assms(1)
      by (simp add: set_slot_def hash_ok_def)
  next
    case False
    then show ?thesis
      using \<open>insert_probe 1 h a v (slot h a i) = Ret h'\<close> stop(2) slot_less [OF assms(1), of a i] assms(1)
      by (simp add: set_slot_def hash_ok_def stops_def)
  qed
  then show ?thesis using stop by (intro that [of i])
qed

lemma slot_update: "length xs = length (ho_address h) \<Longrightarrow> slot (h\<lparr>ho_address := xs, ho_value := ys\<rparr>) = slot h"
  by (intro ext) (simp add: slot_def first_slot_def next_slot_def [abs_def])

lemma hash_insert_keys:
  assumes "hash_ok h" and "stops h a i" and "b \<noteq> a" and "b \<noteq> HASH_EMPTY"
  shows "(ho_address h)[slot h a i := a] ! slot h b m = b \<longleftrightarrow> key_at h b m = b"
  using assms slot_less [OF assms(1)] by (cases "slot h b m = slot h a i") (auto simp: stops_def)

lemma hash_insert_ok:
  assumes "hash_ok h" and "hash_insert h a v = Ret h'" and "a \<noteq> HASH_EMPTY"
  shows "hash_ok h'"
proof -
  obtain i where i: "i < length (ho_address h)" "stops h a i" "\<And>j. j < i \<Longrightarrow> \<not> stops h a j"
    and h': "h' = h\<lparr>ho_address := (ho_address h)[slot h a i := a], ho_value := (ho_value h)[slot h a i := v]\<rparr>"
    by (rule hash_insert_run [OF assms(1,2)]) (rule that)
  have len: "length (ho_address h') = length (ho_address h)" "ho_address h' = (ho_address h)[slot h a i := a]" by (simp_all add: h')
  have slots: "slot h' = slot h" by (simp add: h' slot_update)
  have keep: "key_at h' b j \<noteq> HASH_EMPTY" if "key_at h b j \<noteq> HASH_EMPTY" for b j
    using that assms(3) slot_less [OF assms(1), of a i] unfolding len(2) slots
    by (cases "slot h b j = slot h a i") simp_all
  have "met h' b" if "b \<noteq> HASH_EMPTY" for b
  proof (cases "b = a")
    case True
    have "key_at h' a i = a" using slot_less [OF assms(1), of a i] by (simp add: len(2) slots)
    moreover have "key_at h' a j \<noteq> HASH_EMPTY" if "j < i" for j using keep i(3) [OF that] by (simp add: stops_def)
    ultimately show ?thesis using True i(1) unfolding met_def len(1) by blast
  next
    case False
    note same = hash_insert_keys [OF assms(1) i(2) False that]
    have "met h b" using assms(1) that by (simp add: hash_ok_def)
    then show ?thesis unfolding met_def len(1) using keep same by (simp add: len(2) slots) blast
  qed
  then show ?thesis using assms(1) by (simp add: hash_ok_def h')
qed

lemma hash_find_insert:
  assumes "hash_ok h" and "hash_insert h a v = Ret h'" and "a \<noteq> HASH_EMPTY" and "b \<noteq> HASH_EMPTY"
  shows "hash_find h' b = (if b = a then Ret v else hash_find h b)"
proof -
  obtain i where i: "i < length (ho_address h)" "stops h a i" "\<And>j. j < i \<Longrightarrow> \<not> stops h a j"
    and h': "h' = h\<lparr>ho_address := (ho_address h)[slot h a i := a], ho_value := (ho_value h)[slot h a i := v]\<rparr>"
    by (rule hash_insert_run [OF assms(1,2)]) (rule that)
  have len: "length (ho_address h') = length (ho_address h)" "ho_address h' = (ho_address h)[slot h a i := a]" by (simp_all add: h')
  have slots: "slot h' = slot h" by (simp add: h' slot_update)
  have s: "slot h a i < length (ho_address h)" "slot h a i < length (ho_value h)"
    using slot_less [OF assms(1), of a i] assms(1) by (simp_all add: hash_ok_def)
  note ok' = hash_insert_ok [OF assms(1-3)]
  show ?thesis
  proof (cases "b = a")
    case True
    have "key_at h' a j \<noteq> a" if "j < i" for j
    proof -
      have "slot h a j \<noteq> slot h a i" using i(2) i(3) [OF that] by (auto simp: stops_def)
      then show ?thesis using i(3) [OF that] by (simp add: len(2) slots stops_def)
    qed
    moreover have "key_at h' a i = a" using s by (simp add: len(2) slots)
    ultimately have "hash_find h' a = Ret (ho_value h' ! slot h' a i)"
      using find_stored [OF ok' assms(3), of i] i(1) by (simp add: len(1))
    then show ?thesis using True s by (simp add: slots) (simp add: h')
  next
    case False
    note same = hash_insert_keys [OF assms(1) i(2) False assms(4)]
    show ?thesis
    proof (cases "\<exists>m < length (ho_address h). key_at h b m = b")
      case True
      then obtain m0 where "m0 < length (ho_address h)" "key_at h b m0 = b" by blast
      define m where "m = (LEAST m. key_at h b m = b)"
      have m: "key_at h b m = b" "m \<le> m0" unfolding m_def by (rule LeastI, fact, rule Least_le, fact)
      have first: "key_at h b j \<noteq> b" if "j < m" for j using not_less_Least that unfolding m_def .
      have lt: "m < length (ho_address h)" using m(2) \<open>m0 < _\<close> by simp
      have "hash_find h b = Ret (ho_value h ! slot h b m)" by (rule find_stored [OF assms(1,4) lt m(1) first])
      moreover have "hash_find h' b = Ret (ho_value h' ! slot h' b m)"
        by (rule find_stored [OF ok' assms(4)]) (use lt m(1) first same in \<open>simp_all add: len slots\<close>)
      moreover have "slot h b m \<noteq> slot h a i" using m(1) i(2) False assms(4) by (auto simp: stops_def)
      ultimately show ?thesis using False by (simp add: slots) (simp add: h')
    next
      case absent: False
      have "hash_find h b = Ret (hash_under h b)" by (rule find_absent [OF assms(1)]) (use absent in auto)
      moreover have "hash_find h' b = Ret (hash_under h' b)"
        by (rule find_absent [OF ok']) (use absent same in \<open>auto simp: len slots\<close>)
      ultimately show ?thesis using False by (simp add: hash_under_def h')
    qed
  qed
qed

section \<open>The overlay as a store of words\<close>

definition hash_cell :: "hash_overlay \<Rightarrow> u64 \<Rightarrow> u64" where
  "hash_cell h a = (case hash_find h a of Ret v \<Rightarrow> v | Panic \<Rightarrow> 0)"

lemma aligned_not_empty: "aligned a \<Longrightarrow> a \<noteq> HASH_EMPTY"
  by (auto simp: aligned_def word_pos_def HASH_EMPTY_def)

lemma hash_find_cell:
  assumes "hash_ok h" and "a \<noteq> HASH_EMPTY"
  shows "hash_find h a = Ret (hash_cell h a)"
  using assms(1)
proof (cases rule: probe_cases [where addr = a])
  case full
  then show ?thesis
    using find_probe_full [of "length (ho_address h)" h a 0] by (simp add: hash_cell_def hash_find_eq [OF assms(1)])
next
  case (stop i)
  then have "hash_find h a = find_probe 1 h a (slot h a i)"
    using find_probe_stop [of i "length (ho_address h)" h a 0] by (simp add: hash_find_eq [OF assms(1)])
  then show ?thesis using stop(2) slot_less [OF assms(1), of a i] assms(1)
    by (auto simp: hash_cell_def stops_def get_slot_def hash_ok_def)
qed

lemma hash_cell_insert:
  assumes "hash_ok h" and "aligned a" and "hash_insert h a v = Ret h'" and "aligned b"
  shows "hash_cell h' b = (if b = a then v else hash_cell h b)"
  using hash_find_insert [OF assms(1,3) aligned_not_empty [OF assms(2)] aligned_not_empty [OF assms(4)]]
  by (simp add: hash_cell_def)

interpretation hash: word_store "\<lambda>h a. Some (hash_find h a)" "\<lambda>h a v. Some (hash_insert h a v)" hash_ok hash_cell
  by unfold_locales (auto simp: ret_def hash_find_cell aligned_not_empty hash_cell_insert dest: hash_insert_ok [OF _ _ aligned_not_empty])

lemma hash_new_ok: "0 < n \<Longrightarrow> n < 2 ^ 63 \<Longrightarrow> hash_ok (hash_new spc 8 pagesize n underlie)"
proof -
  assume n: "0 < n" "n < 2 ^ 63"
  let ?h = "hash_new spc 8 pagesize n underlie"
  have "unat (x mod of_nat n :: u64) < n" for x
    using n by (simp add: unat_mod unsigned_of_nat take_bit_nat_eq_self)
  then have "slot ?h a m < n" for a m
    by (cases m) (simp_all add: slot_0 slot_Suc first_slot_def next_slot_def hash_new_def)
  then have "key_at ?h a m = HASH_EMPTY" for a m by (simp add: hash_new_def)
  then show ?thesis using n by (simp add: hash_ok_def met_def) (simp add: hash_new_def)
qed

section \<open>When the table is full\<close>

definition skips :: "hash_overlay \<Rightarrow> bool" where
  "skips h \<longleftrightarrow> ho_collideskip h = 1023"

lemma slot_arith:
  assumes "hash_ok h" and "skips h"
  shows "slot h a m = (first_slot h a + 1023 * m) mod length (ho_address h)"
proof (induction m)
  case 0
  show ?case using slot_less [OF assms(1), of a 0] by (simp add: slot_0)
next
  case (Suc m)
  let ?l = "length (ho_address h)"
  have l: "?l < 2 ^ 63" using assms(1) by (simp add: hash_ok_def)
  then have ul: "unat (of_nat ?l :: u64) = ?l" by (simp add: unsigned_of_nat take_bit_nat_eq_self)
  have "slot h a m + 1023 < 2 ^ 64" using slot_less [OF assms(1), of a m] l by simp
  then have "unat (of_nat (slot h a m + 1023) :: u64) = slot h a m + 1023" by (simp add: unsigned_of_nat take_bit_nat_eq_self del: of_nat_add)
  then have "next_slot h (slot h a m) = (slot h a m + 1023) mod ?l"
    using assms(2) by (simp add: next_slot_def skips_def unat_mod ul)
  also have "\<dots> = (first_slot h a + 1023 * Suc m) mod ?l" unfolding Suc.IH by (simp add: mod_add_left_eq mod_add_right_eq algebra_simps)
  finally show ?case by (simp only: slot_Suc)
qed

lemma slots_cover:
  assumes "hash_ok h" and "skips h" and "coprime 1023 (length (ho_address h))" and "s < length (ho_address h)"
  obtains m where "m < length (ho_address h)" and "slot h a m = s"
proof -
  let ?l = "length (ho_address h)" and ?f = "slot h a"
  have "inj_on ?f {..<?l}"
  proof (rule linorder_inj_onI')
    fix m m' assume "m < m'" and m': "m \<in> {..<?l}" "m' \<in> {..<?l}"
    show "?f m \<noteq> ?f m'"
    proof
      assume "?f m = ?f m'"
      then have "?l dvd (first_slot h a + 1023 * m') - (first_slot h a + 1023 * m)"
        unfolding slot_arith [OF assms(1,2)] using \<open>m < m'\<close> by (intro mod_eq_dvd_iff_nat [THEN iffD1]) simp_all
      then have "?l dvd 1023 * (m' - m)" by (simp add: diff_mult_distrib2)
      then have "?l dvd m' - m" using assms(3) by (simp add: coprime_dvd_mult_right_iff coprime_commute)
      then have "?l \<le> m' - m" using \<open>m < m'\<close> by (intro dvd_imp_le) simp_all
      then show False using m' by simp
    qed
  qed
  moreover have "?f ` {..<?l} \<subseteq> {..<?l}" using slot_less [OF assms(1)] by auto
  ultimately have "?f ` {..<?l} = {..<?l}" by (intro card_subset_eq) (simp_all add: card_image)
  then have "s \<in> ?f ` {..<?l}" using assms(4) by simp
  then show thesis using that by auto
qed

lemma hash_insert_total:
  assumes "hash_ok h" and "skips h" and "coprime 1023 (length (ho_address h))" and "HASH_EMPTY \<in> set (ho_address h)"
  shows "no_panic (hash_insert h a v)"
proof -
  obtain s where s: "s < length (ho_address h)" "ho_address h ! s = HASH_EMPTY" using assms(4) by (auto simp: in_set_conv_nth)
  obtain m where m: "m < length (ho_address h)" "slot h a m = s" by (rule slots_cover [OF assms(1-3) s(1)])
  show ?thesis using assms(1)
  proof (cases rule: probe_cases [where addr = a])
    case full
    then show ?thesis using m s(2) by (auto simp: stops_def)
  next
    case (stop i)
    then have "hash_insert h a v = insert_probe 1 h a v (slot h a i)"
      using insert_probe_stop [of i "length (ho_address h)" h a 0 v] by (simp add: hash_insert_eq [OF assms(1)])
    then show ?thesis using stop(2) slot_less [OF assms(1), of a i] assms(1)
      by (auto simp: stops_def set_slot_def hash_ok_def)
  qed
qed

lemma hash_insert_fields:
  assumes "hash_ok h" and "hash_insert h a v = Ret h'"
  shows "length (ho_address h') = length (ho_address h)" and "skips h' \<longleftrightarrow> skips h" and "ho_underlie h' = ho_underlie h"
proof -
  obtain i where "h' = h\<lparr>ho_address := (ho_address h)[slot h a i := a], ho_value := (ho_value h)[slot h a i := v]\<rparr>"
    by (rule hash_insert_run [OF assms]) (rule that)
  then show "length (ho_address h') = length (ho_address h)" "skips h' \<longleftrightarrow> skips h" "ho_underlie h' = ho_underlie h"
    by (simp_all add: skips_def)
qed

text \<open>
  The step of 1023 slots visits the whole table only when the size of the table has no factor in common with \<open>1023 = 3 * 11 * 31\<close>. In a table of three
  slots the second of two addresses with the same first slot is refused, with two slots free.
\<close>

lemma hash_refuses_with_room:
  "res_map ho_address (hash_insert (hash_new Ram 8 4096 3 None) 0 1) = Ret [0, HASH_EMPTY, HASH_EMPTY]"
  "res_bind (hash_insert (hash_new Ram 8 4096 3 None) 0 1) (\<lambda>h. hash_insert h 24 2) = Panic"
  by code_simp+

end
