(* ===== verification/Mem_Laws.thy ===== *)
theory Mem_Laws
  imports Load_Image Mem_State Mem_Overlay Mem_Hash
begin

text \<open>
  The properties of the memory banks, drawn from the interpretations of their interfaces: each bank reads and writes the abstract
  memory of bytes, a chunk that is written is read back, and the requests that the banks refuse.
\<close>

unbundle bit_operations_syntax

section \<open>Values\<close>

text \<open>
  Property C4. A bank of eight-byte words refines an array of bytes. For every offset, aligned or not, and every size from one to
  eight bytes, \<open>get_value\<close> returns the value of the bytes at the offset, and \<open>set_value\<close>, given a value that fits the size, returns a bank in which
  exactly these bytes are replaced.
\<close>

theorem bank_refines_bytes:
  assumes "bank_ok b" and "1 \<le> n" and "n \<le> 8" and "v \<le> mask (8 * n)"
  shows "bank_get_value b off (of_nat n) = ret (mem_read False (bank_bytes b) off n) \<and>
    (\<exists>b'. bank_set_value b off (of_nat n) v = ret b' \<and> bank_ok b' \<and> bank_bytes b' = mem_write False (bank_bytes b) off n v)"
  using bank_value_read [OF assms(1-3)] bank_value_run [OF assms] by blast

theorem bank_refines_bytes_witness:
  "bank_get_value (bank_new Ram 8 4096) 5 (of_nat 6) = ret (mem_read False (bank_bytes (bank_new Ram 8 4096)) 5 6) \<and>
    (\<exists>b'. bank_set_value (bank_new Ram 8 4096) 5 (of_nat 6) 0x112233445566 = ret b' \<and> bank_ok b' \<and>
      bank_bytes b' = mem_write False (bank_bytes (bank_new Ram 8 4096)) 5 6 0x112233445566)"
  by (rule bank_refines_bytes) (simp_all add: bank_ok_def bank_new_def mask_eq_exp_minus_1)

lemma bank_new_ok: "bank_ok (bank_new spc 8 pagesize)"
  by (simp add: bank_ok_def bank_new_def)

text \<open>
  Reading back what was written gives the value, and a read of bytes the write does not cover gives what it gave
  before.
\<close>

theorem bank_set_get:
  assumes "bank_ok b" and "1 \<le> n" and "n \<le> 8" and "v \<le> mask (8 * n)"
  shows "\<exists>b'. bank_set_value b off (of_nat n) v = ret b' \<and> bank_get_value b' off (of_nat n) = ret v \<and>
    (\<forall>off' k. 1 \<le> k \<longrightarrow> k \<le> 8 \<longrightarrow> (\<forall>i < k. n \<le> unat (off' + of_nat i - off)) \<longrightarrow>
      bank_get_value b' off' (of_nat k) = bank_get_value b off' (of_nat k))"
proof -
  obtain b' where b': "bank_set_value b off (of_nat n) v = ret b'" "bank_ok b'" "bank_bytes b' = mem_write False (bank_bytes b) off n v"
    using bank_value_run [OF assms] by blast
  have "bank_get_value b' off (of_nat n) = ret v"
    using bank_value_read [OF b'(2) assms(2,3)] mem_read_write [OF assms(3,4)] by (simp only: b'(3))
  moreover have "bank_get_value b' off' (of_nat k) = bank_get_value b off' (of_nat k)"
    if "1 \<le> k" "k \<le> 8" "\<forall>i < k. n \<le> unat (off' + of_nat i - off)" for off' k
    using that mem_read_write_apart [of k n off' off] by (simp only: bank_value_read [OF b'(2)] bank_value_read [OF assms(1)] b'(3))
  ultimately show ?thesis using b'(1) by blast
qed

theorem bank_set_get_witness:
  "\<exists>b'. bank_set_value (bank_new Ram 8 4096) 7 (of_nat 2) 0xabcd = ret b' \<and> bank_get_value b' 7 (of_nat 2) = ret 0xabcd"
  using bank_set_get [of "bank_new Ram 8 4096" 2 "0xabcd" 7] by (auto simp: bank_new_ok mask_eq_exp_minus_1)


lemma overlay_new_ok:
  assumes "4 \<le> k" and "k < 63" and "ul = None \<or> (\<exists>b. ul = Some b \<and> bank_ok b)"
  shows "overlay_ok k (overlay_new spc 8 (2 ^ k) ul)"
  using assms by (auto simp: overlay_ok_def overlay_new_def)



text \<open>
  The end of the last page wraps to zero, so \<open>get_page\<close> takes its first word to reach beyond the end and slices out of range
  (\<open>get_page_last\<close>). The first write into that page, which copies it, panics.
\<close>

lemma overlay_last_page_panics:
  assumes "overlay_ok k ov" and "po_underlie ov = Some b" and "page_base k off = - (2 ^ k)" and "po_page ov (- (2 ^ k)) = None"
  shows "overlay_insert ov off v = Some Panic"
proof -
  have k: "po_pagesize ov = 2 ^ k" "4 \<le> k" "k < 63" "bank_ok b" using assms(1,2) by (simp_all add: overlay_ok_def)
  have neg: "(of_nat (2 ^ 64 - 2 ^ k) :: u64) = - (2 ^ k)" using pow_u64 [OF k(3)] by (simp only: of_nat_diff less_imp_le) simp
  have "unat (of_nat (2 ^ 64 - 2 ^ k) :: u64) = 2 ^ 64 - 2 ^ k" by (rule u64_of_nat) simp
  then have "unat (- (2 ^ k) :: u64) = 2 ^ 64 - 2 ^ k" by (simp only: neg)
  moreover have "unat (- (2 ^ k) :: u64) mod 2 ^ k = 0" using page_split(3) [of k off] k(3) by (simp add: assms(3))
  moreover have "off AND NOT (2 ^ k - 1) = - (2 ^ k)" using assms(3) by (simp add: page_base_def mask_eq_exp_minus_1)
  ultimately show ?thesis using assms(2,4) get_page_last [OF k(4) _ k(2,3)]
    by (simp add: overlay_insert_def k(1) fresh_page_def Let_def)
qed

lemma overlay_last_page_sample:
  "overlay_set_value (overlay_new Ram 8 (2 ^ 12) (Some (bank_new Ram 8 4096))) 0xfffffffffffffff0 8 v = Some Panic"
proof -
  have "overlay_ok 12 (overlay_new Ram 8 (2 ^ 12) (Some (bank_new Ram 8 4096)))" by (rule overlay_new_ok) (simp_all add: bank_new_ok)
  from overlay_last_page_panics [OF this, of "bank_new Ram 8 4096" "0xfffffffffffffff0" v]
  have "overlay_insert (overlay_new Ram 8 (2 ^ 12) (Some (bank_new Ram 8 4096))) 0xfffffffffffffff0 v = Some Panic"
    by (simp add: overlay_new_def page_base_def mask_eq_exp_minus_1)
  then show ?thesis by (simp add: overlay_set_value_def value_set_def overlay_new_def)
qed

text \<open>
  Property C6. The hash overlay keeps its invariant, that a stored address is met on its probe sequence before an empty slot, and so it is a
  store: after an insertion the inserted address is found with the new word and every other address as before.
\<close>

theorem hash_insert_find:
  assumes "hash_ok h" and "hash_insert h a v = Ret h'" and "a \<noteq> HASH_EMPTY"
  shows "hash_ok h' \<and> (\<forall>b. b \<noteq> HASH_EMPTY \<longrightarrow> hash_find h' b = (if b = a then Ret v else hash_find h b))"
  using hash_insert_ok [OF assms] hash_find_insert [OF assms] by blast

lemma coprime_1023_64: "coprime 1023 (64 :: nat)"
  by (simp add: coprime_iff_gcd_eq_1 gcd_non_0_nat)

theorem hash_insert_find_witness:
  "\<exists>h'. hash_insert (hash_new Ram 8 4096 64 None) 24 7 = Ret h' \<and> hash_ok h' \<and> hash_find h' 24 = Ret 7"
proof -
  let ?h = "hash_new Ram 8 4096 64 None"
  have ok: "hash_ok ?h" by (rule hash_new_ok) simp_all
  have "no_panic (hash_insert ?h 24 7)"
    by (rule hash_insert_total [OF ok]) (simp_all add: skips_def hash_new_def coprime_1023_64)
  then obtain h' where "hash_insert ?h 24 7 = Ret h'" by (auto simp: no_panic_iff)
  moreover have "(24 :: u64) \<noteq> HASH_EMPTY" by (simp add: HASH_EMPTY_def)
  ultimately show ?thesis using hash_insert_find [OF ok, of 24 7 h'] by auto
qed

text \<open>
  Property C38. When the size of the table has no factor in common with the step of the probe, an insertion succeeds as long as the
  table has an empty slot.
\<close>

theorem hash_insert_while_room:
  assumes "hash_ok h" and "ho_collideskip h = 1023" and "coprime 1023 (length (ho_address h))" and "HASH_EMPTY \<in> set (ho_address h)"
  shows "\<exists>h'. hash_insert h a v = Ret h'"
  using hash_insert_total [OF assms(1) _ assms(3,4)] assms(2) by (auto simp: skips_def no_panic_iff)

theorem hash_insert_while_room_witness: "\<exists>h'. hash_insert (hash_new Ram 8 4096 64 None) 24 7 = Ret h'"
  using hash_insert_while_room [OF hash_new_ok [of 64 Ram 4096 None], of 24 7]
  by (simp add: hash_new_def coprime_1023_64)

text \<open>The values of the hash overlay, through the same interface.\<close>

definition hash_bytes :: "hash_overlay \<Rightarrow> memory" where
  "hash_bytes h = byte_view False (hash_cell h)"

lemma hash_value_refines:
  assumes "hash_ok h" and "1 \<le> n" and "n \<le> 8" and "v \<le> mask (8 * n)"
  shows "hash_get_value h off (of_nat n) = ret (mem_read False (hash_bytes h) off n)"
    and "hash_set_value h off (of_nat n) v = ret h' \<Longrightarrow> hash_ok h' \<and> hash_bytes h' = mem_write False (hash_bytes h) off n v"
proof -
  have ws: "ho_wordsize h = 8" using assms(1) by (simp add: hash_ok_def)
  show "hash_get_value h off (of_nat n) = ret (mem_read False (hash_bytes h) off n)"
    using hash.get_reads [OF assms(1-3), of False off] by (simp add: hash_get_value_def ws hash_bytes_def)
  show "hash_set_value h off (of_nat n) v = ret h' \<Longrightarrow> hash_ok h' \<and> hash_bytes h' = mem_write False (hash_bytes h) off n v"
    using hash.set_writes [OF assms, of False off h'] by (simp add: hash_set_value_def ws hash_bytes_def)
qed

text \<open>
  Property C39. A bank over a raw image reads the bytes of the file from its first address on, and zeros elsewhere, for every offset
  and size, when the first address is aligned to a word. Writing to it panics.
\<close>

theorem image_reads_file:
  assumes "1 \<le> n" and "n \<le> 8" and "aligned vma" and "length data < 2 ^ 63"
    and "im = image_new spc 8 pagesize (raw_load_fill (raw_from_bytes filename vma data))"
  shows "image_get_value im off (of_nat n) =
      ret (mem_read False (\<lambda>a. if unat (a - vma) < length data then data ! unat (a - vma) else 0) off n) \<and>
    image_insert im a v = Panic"
proof -
  have ok: "image_ok (raw_from_bytes filename vma data) im"
    using assms(3-5) by (simp add: image_ok_def image_new_def raw_from_bytes_def)
  have "raw_bytes (raw_from_bytes filename vma data) = (\<lambda>a. if unat (a - vma) < length data then data ! unat (a - vma) else 0)"
    by (rule ext) (simp add: raw_bytes_def raw_from_bytes_def Let_def)
  then show ?thesis
    using image.get_reads [OF ok assms(1,2), of False off] assms(5)
    by (simp add: image_get_value_def image_new_def image_insert_def byte_view_read)
qed

theorem image_reads_file_witness:
  "image_get_value (image_new Ram 8 4096 (raw_load_fill (raw_from_bytes ''f'' 0x1000 [0x78, 0x56, 0x34, 0x12]))) 0x1001 (of_nat 4) =
    ret (mem_read False (\<lambda>a. if unat (a - 0x1000) < length [0x78, 0x56, 0x34, 0x12 :: u8] then [0x78, 0x56, 0x34, 0x12] ! unat (a - 0x1000) else 0) 0x1001 4)"
  by (rule image_reads_file [THEN conjunct1, OF _ _ _ _ refl]) (simp_all add: aligned_def word_pos_def)

section \<open>Chunks and pages\<close>

text \<open>
  Property C7. A chunk of bytes that begins at a word and stays away from the end of the space is written page by page, changes
  exactly its bytes, and is read back.
\<close>

theorem bank_chunk_roundtrip:
  assumes "bank_ok b" and "mb_pagesize b = 2 ^ k" and "3 \<le> k" and "k < 63" and "off AND 7 = 0"
    and "unat off + length val + 2 ^ k + 8 \<le> 2 ^ 64"
  shows "\<exists>b'. bank_set_chunk b off val = ret b' \<and> bank_bytes b' = bytes_write (bank_bytes b) off val \<and>
    bank_get_chunk b' off (of_nat (length val)) = ret val"
proof -
  have ok: "bank_paged k b" using assms(1-4) by (simp add: bank_paged_def)
  have al: "aligned off" using assms(5) by (simp add: aligned_def word_pos_def)
  have "room off (length val + 2 ^ k)" using assms(6) by (simp add: room_def)
  then obtain b' where "set_chunk_loop bank_set_page (2 ^ k) val (of_nat (length val)) b off 0 0 = ret b'" "bank_paged k b'"
    "bank_bytes b' = bytes_write (bank_bytes b) off val"
    "get_chunk_loop (bank_get_page b') (2 ^ k) (of_nat (length val)) off 0 [] = ret val"
    by (rule bank_chunks.write_read_chunk [OF ok al]) (rule that)
  then show ?thesis using assms(2) by (auto simp: bank_set_chunk_def bank_get_chunk_def bank_paged_def)
qed

theorem bank_chunk_roundtrip_witness:
  "\<exists>b'. bank_set_chunk (bank_new Ram 8 (2 ^ 4)) 8 [1, 2, 3, 4, 5, 6, 7, 8, 9, 10] = ret b' \<and> bank_get_chunk b' 8 (of_nat 10) = ret [1, 2, 3, 4, 5, 6, 7, 8, 9, 10]"
  using bank_chunk_roundtrip [OF bank_new_ok [of Ram "2 ^ 4"], of 4 8 "[1, 2, 3, 4, 5, 6, 7, 8, 9, 10]"]
  by (auto simp: bank_new_def)

text \<open>
  A page read that does not begin at a word panics, for every content of the bank and every size: the loop compares the word
  with the page instead of with the first byte of the request, and copies more bytes than the result holds.
\<close>

theorem get_page_unaligned_panics:
  assumes "bank_ok b" and "(addr + skip) AND 7 \<noteq> 0" and "addr AND 7 = 0" and "addr \<le> addr + skip" and "0 < n"
    and "unat (addr + skip) + n + 8 \<le> 2 ^ 64"
  shows "bank_get_page b addr skip (of_nat n) = Some Panic"
  by (rule get_page_unaligned [OF assms(1) _ _ assms(4) _ assms(5)])
    (use assms(2,3,6) in \<open>simp_all add: aligned_def word_pos_def room_def unat_eq_zero\<close>)

theorem get_page_unaligned_panics_witness: "bank_get_page (bank_new Ram 8 4096) 4096 1 (of_nat 3) = Some Panic"
  by (rule get_page_unaligned_panics) (simp_all add: bank_new_ok)

text \<open>
  The page overlay with no bank underneath writes and reads back a chunk at any offset. Over a bank the same holds of a
  chunk that begins at a word.
\<close>

theorem overlay_chunk_roundtrip:
  assumes "overlay_ok k ov" and "po_underlie ov = None \<or> off AND 7 = 0" and "unat off + length data + 2 ^ k + 8 \<le> 2 ^ 64"
  shows "\<exists>ov'. overlay_write ov off data = ret ov' \<and> po_underlie ov' = po_underlie ov \<and>
    overlay_bytes k ov' = bytes_write (overlay_bytes k ov) off data \<and> overlay_read ov' off (of_nat (length data)) = ret data"
proof -
  have on: "overlay_on k (po_underlie ov) ov" using assms(1) by (simp add: overlay_on_def)
  have starts: "po_underlie ov = None \<or> aligned off" using assms(2) by (auto simp: aligned_def word_pos_def)
  have "room off (length data + 2 ^ k)" using assms(3) by (simp add: room_def)
  then obtain ov' where "set_chunk_loop overlay_set_page (2 ^ k) data (of_nat (length data)) ov off 0 0 = ret ov'"
    "overlay_on k (po_underlie ov) ov'" "overlay_bytes k ov' = bytes_write (overlay_bytes k ov) off data"
    "get_chunk_loop (overlay_get_page ov') (2 ^ k) (of_nat (length data)) off 0 [] = ret data"
    by (rule overlay_chunks.write_read_chunk [OF on starts]) (rule that)
  moreover have "po_pagesize o' = 2 ^ k" if "overlay_ok k o'" for o' using that by (simp add: overlay_ok_def)
  ultimately show ?thesis using assms(1) by (auto simp: overlay_write_def overlay_read_def overlay_on_def)
qed

theorem overlay_chunk_roundtrip_witness:
  "\<exists>ov'. overlay_write (overlay_new Ram 8 (2 ^ 4) None) 13 [1, 2, 3, 4, 5] = ret ov' \<and> overlay_read ov' 13 (of_nat 5) = ret [1, 2, 3, 4, 5]"
  using overlay_chunk_roundtrip [OF overlay_new_ok [of 4 None Ram], of 13 "[1, 2, 3, 4, 5]"]
  by (auto simp: overlay_new_def)

section \<open>Bytes of a value\<close>

text \<open>
  \<open>construct_value\<close> and \<open>deconstruct_value\<close> are inverse in either byte order: the bytes of a value give the value
  truncated to their number, and the value of up to eight bytes gives the bytes.
\<close>

theorem construct_deconstruct_roundtrip:
  assumes "unat sz \<le> 8" and "unat sz \<le> length out" and "length bs \<le> 8"
  shows "(\<exists>bytes. deconstruct_value v sz be out = Ret bytes \<and> length bytes = length out \<and>
      construct_value (take (unat sz) bytes) be = v AND mask (8 * unat sz)) \<and>
    deconstruct_value (construct_value bs be) (of_nat (length bs)) be bs = Ret bs"
proof -
  obtain bytes where run: "deconstruct_value v sz be out = Ret bytes" using assms(2) by (simp add: deconstruct_value_def)
  then have "length bytes = length out" using assms(2) by (auto simp: deconstruct_value_def split: if_splits)
  then show ?thesis using run deconstruct_construct [OF assms(1) run] construct_deconstruct [OF assms(3), of be] by simp
qed

theorem construct_deconstruct_roundtrip_witness:
  "\<exists>bytes. deconstruct_value 0x1122334455 4 True [0, 0, 0, 0] = Ret bytes \<and> construct_value bytes True = 0x1122334455 AND mask 32"
  using construct_deconstruct_roundtrip [of 4 "[0, 0, 0, 0]" "[]" "0x1122334455" True] by auto

section \<open>The memory state\<close>



lemma register_set_get:
  assumes "bank_ok b" and "ms_banks ms ''register'' = Some b"
  shows "\<exists>ms'. set_register_value ms reg v = ret ms' \<and> get_register_value ms' reg = ret (Some v)"
proof -
  have v: "v \<le> mask (8 * 8)" using le_U64_MAX [of v] by (simp only: U64_MAX_mask) simp
  have n: "1 \<le> (8 :: nat)" by simp
  have 8: "of_nat 8 = (8 :: u64)" by simp
  obtain b' where b': "bank_set_value b (hash_register_name reg) 8 v = ret b'" "bank_ok b'"
    "bank_bytes b' = mem_write False (bank_bytes b) (hash_register_name reg) 8 v"
    using bank_value_run [OF assms(1) n order_refl v] unfolding 8 by blast
  have "bank_get_value b' (hash_register_name reg) 8 = ret v"
    using bank_value_read [OF b'(2) n order_refl] mem_read_write [OF order_refl v] by (simp only: b'(3) 8)
  then show ?thesis using assms(2) b'(1) by (simp add: set_register_value_def get_register_value_def on_bank_def)
qed

section \<open>Words of fewer than eight bytes\<close>

text \<open>
  With words of four bytes a value that spills into the next word is merged with the old bytes instead of replacing them: the masks that keep the
  other bytes of the two words are shifts of a full 64-bit mask.
\<close>

lemma spill_merges_old_bytes:
  "run_bind (bank_set_value (bank_new Ram 4 4096) 0 4 0xffffffff) (\<lambda>b.
     run_bind (bank_set_value b 1 4 0) (\<lambda>b. bank_get_value b 1 4)) = ret 0x00ffffff"
  by code_simp

end
