(* ===== verification/Emulate.thy ===== *)
theory Emulate
  imports Mem_State Op_Behavior Addr_Space
begin

text \<open>
  The p-code emulator (src/src/emulate.rs): a register file and a memory state on which operations are executed one at a time, with
  the arithmetic of \<open>Op_Behavior\<close> and the banks of \<open>Mem_Bank\<close>. Of a varnode and of an operation (src/src/varnode.rs, src/src/op.rs)
  the records keep the fields that the emulator reads. The emulator writes none of them, so the shared cells of the source are the records
  themselves, and their locks, which are only read, are left out.
\<close>

unbundle bit_operations_syntax

section \<open>Varnodes and operations\<close>

definition SPACEID_CONST :: u8 where "SPACEID_CONST = 0"
definition SPACEID_OTHER :: u8 where "SPACEID_OTHER = 1"
definition SPACEID_UNIQUE :: u8 where "SPACEID_UNIQUE = 2"
definition SPACEID_RAM :: u8 where "SPACEID_RAM = 3"
definition SPACEID_REGISTER :: u8 where "SPACEID_REGISTER = 4"
definition SPACEID_STACK :: u8 where "SPACEID_STACK = 5"
definition SPACEID_JOIN :: u8 where "SPACEID_JOIN = 6"
definition SPACEID_IOP :: u8 where "SPACEID_IOP = 7"

lemmas space_ids = SPACEID_CONST_def SPACEID_OTHER_def SPACEID_UNIQUE_def SPACEID_RAM_def SPACEID_REGISTER_def SPACEID_STACK_def
  SPACEID_JOIN_def SPACEID_IOP_def

fun space_id :: "address_space \<Rightarrow> u8" where
  "space_id Ram = SPACEID_RAM"
| "space_id Register = SPACEID_REGISTER"
| "space_id Unique = SPACEID_UNIQUE"
| "space_id Const = SPACEID_CONST"
| "space_id Stack = SPACEID_STACK"
| "space_id address_space.Join = SPACEID_JOIN"
| "space_id address_space.Iop = SPACEID_IOP"
| "space_id Overlay = SPACEID_OTHER"
| "space_id (Other i) = i"

record varnode =
  vn_flags :: u32
  vn_size :: u64
  vn_space :: address_space
  vn_loc :: address

definition VN_CONSTANT :: u32 where "VN_CONSTANT = 0x2"
definition VN_ANNOTATION :: u32 where "VN_ANNOTATION = 0x4"
definition VN_COVERDIRTY :: u32 where "VN_COVERDIRTY = 0x1000000"

definition vn_new_with_space :: "u64 \<Rightarrow> address_space \<Rightarrow> u64 \<Rightarrow> varnode" where
  "vn_new_with_space sz spc off =
     \<lparr>vn_flags = (case spc of
          Const \<Rightarrow> VN_CONSTANT
        | address_space.Iop \<Rightarrow> VN_ANNOTATION OR VN_COVERDIRTY
        | _ \<Rightarrow> VN_COVERDIRTY),
      vn_size = sz, vn_space = spc, vn_loc = ad_new off\<rparr>"

definition vn_new_constant :: "u64 \<Rightarrow> u64 \<Rightarrow> varnode" where
  "vn_new_constant val sz = vn_new_with_space sz Const val"

definition vn_new_register :: "u64 \<Rightarrow> u64 \<Rightarrow> varnode" where
  "vn_new_register off sz = vn_new_with_space sz Register off"

definition vn_new_ram :: "u64 \<Rightarrow> u64 \<Rightarrow> varnode" where
  "vn_new_ram off sz = vn_new_with_space sz Ram off"

definition vn_new_stack :: "u64 \<Rightarrow> u64 \<Rightarrow> varnode" where
  "vn_new_stack off sz = vn_new_with_space sz Stack off"

definition vn_new_unique :: "u64 \<Rightarrow> u64 \<Rightarrow> varnode" where
  "vn_new_unique off sz = vn_new_with_space sz Unique off"

definition vn_get_offset :: "varnode \<Rightarrow> u64" where
  "vn_get_offset vn = ad_offset (vn_loc vn)"

definition vn_is_constant :: "varnode \<Rightarrow> bool" where
  "vn_is_constant vn \<longleftrightarrow> vn_flags vn AND VN_CONSTANT \<noteq> 0"

text \<open>
  The space that the first input of a load or store names: a constant holds the number of the space, which is read back by \<open>from_id\<close>
  (\<open>get_space_from_const\<close> of src/src/double_precis.rs).
\<close>

definition from_id :: "u8 \<Rightarrow> address_space" where
  "from_id i =
     (if i = SPACEID_CONST then Const
      else if i = SPACEID_OTHER then Other i
      else if i = SPACEID_UNIQUE then Unique
      else if i = SPACEID_RAM then Ram
      else if i = SPACEID_REGISTER then Register
      else if i = SPACEID_STACK then Stack
      else if i = SPACEID_JOIN then address_space.Join
      else if i = SPACEID_IOP then address_space.Iop
      else Other i)"

definition get_space_from_const :: "varnode \<Rightarrow> address_space" where
  "get_space_from_const vn = (if vn_is_constant vn then from_id (ucast (vn_get_offset vn)) else vn_space vn)"

record pcode_op =
  po_opcode :: opcode
  po_output :: "varnode option"
  po_inrefs :: "varnode list"

definition get_in :: "pcode_op \<Rightarrow> nat \<Rightarrow> varnode option" where
  "get_in op slot = (if slot < length (po_inrefs op) then Some (po_inrefs op ! slot) else None)"

definition size_or :: "u64 \<Rightarrow> varnode option \<Rightarrow> u64" where
  "size_or d vn = (case vn of Some v \<Rightarrow> vn_size v | None \<Rightarrow> d)"

section \<open>The emulator\<close>

datatype emulate_op_behavior = Continue | Branch | Return | Error

record emulate =
  em_mem_state :: mem_state
  em_registers :: "u64 \<times> u64 \<rightharpoonup> u64"
  em_current_address :: u64
  em_terminated :: bool
  em_instruction_count :: u64
  em_max_instructions :: u64

definition emulate_new :: emulate where
  "emulate_new = \<lparr>em_mem_state = state_new, em_registers = Map.empty, em_current_address = 0, em_terminated = False,
     em_instruction_count = 0, em_max_instructions = 0\<rparr>"

definition set_register :: "emulate \<Rightarrow> u64 \<Rightarrow> u64 \<Rightarrow> u64 \<Rightarrow> emulate" where
  "set_register emu spc offset val = emu\<lparr>em_registers := (em_registers emu)((spc, offset) \<mapsto> val)\<rparr>"

definition get_register :: "emulate \<Rightarrow> u64 \<Rightarrow> u64 \<Rightarrow> u64" where
  "get_register emu spc offset = (case em_registers emu (spc, offset) of Some val \<Rightarrow> val | None \<Rightarrow> 0)"

definition em_get_value :: "emulate \<Rightarrow> varnode \<Rightarrow> u64" where
  "em_get_value emu vn =
     (if vn_is_constant vn then vn_get_offset vn
      else get_register emu (ucast (space_id (vn_space vn))) (vn_get_offset vn))"

definition em_set_value :: "emulate \<Rightarrow> varnode \<Rightarrow> u64 \<Rightarrow> emulate" where
  "em_set_value emu vn val = set_register emu (ucast (space_id (vn_space vn))) (vn_get_offset vn) val"

definition execute_unary :: "emulate \<Rightarrow> pcode_op \<Rightarrow> emulate" where
  "execute_unary emu op = (case get_in op 0 of
      None \<Rightarrow> emu
    | Some in_vn \<Rightarrow>
        (let in1 = em_get_value emu in_vn
         in case po_output op of
              None \<Rightarrow> emu
            | Some out \<Rightarrow>
                (case evaluate_unary (po_opcode op) (unat (vn_size out)) (unat (vn_size in_vn)) in1 of
                   None \<Rightarrow> emu
                 | Some val \<Rightarrow> em_set_value emu out val)))"

definition execute_binary :: "emulate \<Rightarrow> pcode_op \<Rightarrow> emulate run" where
  "execute_binary emu op = (case get_in op 0 of
      None \<Rightarrow> ret emu
    | Some in0 \<Rightarrow> (case get_in op 1 of
        None \<Rightarrow> ret emu
      | Some in1 \<Rightarrow>
          (let v0 = em_get_value emu in0;
               v1 = em_get_value emu in1
           in case po_output op of
                None \<Rightarrow> ret emu
              | Some out \<Rightarrow>
                  run_bind (Some (evaluate_binary (po_opcode op) (unat (vn_size out)) (unat (vn_size in0)) v0 v1))
                    (\<lambda>result. ret (case result of None \<Rightarrow> emu | Some val \<Rightarrow> em_set_value emu out val)))))"

definition execute_load :: "emulate \<Rightarrow> pcode_op \<Rightarrow> emulate run" where
  "execute_load emu op = (case get_in op 1 of
      None \<Rightarrow> ret emu
    | Some addr_vn \<Rightarrow>
        (let off = em_get_value emu addr_vn;
             out_size = size_or 1 (po_output op)
         in run_bind (case get_memory_bank (em_mem_state emu) ''ram'' of
                        None \<Rightarrow> ret 0
                      | Some bank \<Rightarrow> bank_get_value bank off out_size)
              (\<lambda>val. ret (case po_output op of None \<Rightarrow> emu | Some out \<Rightarrow> em_set_value emu out val))))"

definition execute_store :: "emulate \<Rightarrow> pcode_op \<Rightarrow> emulate run" where
  "execute_store emu op = (case get_in op 1 of
      None \<Rightarrow> ret emu
    | Some addr_vn \<Rightarrow> (case get_in op 2 of
        None \<Rightarrow> ret emu
      | Some val_vn \<Rightarrow>
          run_bind (on_bank (em_mem_state emu) ''ram'' (\<lambda>bank.
              bank_set_value bank (em_get_value emu addr_vn) (vn_size val_vn) (em_get_value emu val_vn)))
            (\<lambda>ms. ret (emu\<lparr>em_mem_state := ms\<rparr>))))"

text \<open>The direct jumps take the offset of the first input, the indirect ones its value.\<close>

definition jump_to :: "emulate \<Rightarrow> pcode_op \<Rightarrow> emulate" where
  "jump_to emu op = (case get_in op 0 of None \<Rightarrow> emu | Some t \<Rightarrow> emu\<lparr>em_current_address := vn_get_offset t\<rparr>)"

definition jump_indirect :: "emulate \<Rightarrow> pcode_op \<Rightarrow> emulate" where
  "jump_indirect emu op =
     emu\<lparr>em_current_address := (case get_in op 0 of None \<Rightarrow> 0 | Some v \<Rightarrow> em_get_value emu v)\<rparr>"

definition dispatch :: "emulate \<Rightarrow> pcode_op \<Rightarrow> (emulate \<times> emulate_op_behavior) run" where
  "dispatch emu op = (case po_opcode op of
      CPUI_LOAD \<Rightarrow> run_bind (execute_load emu op) (\<lambda>emu. ret (emu, Continue))
    | CPUI_STORE \<Rightarrow> run_bind (execute_store emu op) (\<lambda>emu. ret (emu, Continue))
    | CPUI_BRANCH \<Rightarrow> ret (jump_to emu op, Branch)
    | CPUI_CBRANCH \<Rightarrow>
        (if (case get_in op 1 of None \<Rightarrow> 0 | Some c \<Rightarrow> em_get_value emu c) \<noteq> 0
         then ret (jump_to emu op, Branch) else ret (emu, Continue))
    | CPUI_BRANCHIND \<Rightarrow> ret (jump_indirect emu op, Branch)
    | CPUI_CALL \<Rightarrow> ret (jump_to emu op, Branch)
    | CPUI_CALLIND \<Rightarrow> ret (jump_indirect emu op, Branch)
    | CPUI_RETURN \<Rightarrow> ret (emu\<lparr>em_terminated := True\<rparr>, Return)
    | CPUI_MULTIEQUAL \<Rightarrow> ret (emu, Continue)
    | CPUI_INDIRECT \<Rightarrow> ret (emu, Continue)
    | CPUI_COPY \<Rightarrow> ret (execute_unary emu op, Continue)
    | CPUI_BOOL_NEGATE \<Rightarrow> ret (execute_unary emu op, Continue)
    | CPUI_INT_ZEXT \<Rightarrow> ret (execute_unary emu op, Continue)
    | CPUI_INT_SEXT \<Rightarrow> ret (execute_unary emu op, Continue)
    | CPUI_INT_2COMP \<Rightarrow> ret (execute_unary emu op, Continue)
    | CPUI_INT_NEGATE \<Rightarrow> ret (execute_unary emu op, Continue)
    | CPUI_SUBPIECE \<Rightarrow> ret (execute_unary emu op, Continue)
    | _ \<Rightarrow> run_bind (execute_binary emu op) (\<lambda>emu. ret (emu, Continue)))"

text \<open>The counter and the limit that both entry points check first.\<close>

definition counted :: "(emulate \<Rightarrow> (emulate \<times> emulate_op_behavior) run) \<Rightarrow> emulate \<Rightarrow> (emulate \<times> emulate_op_behavior) run" where
  "counted body emu =
     (let emu = emu\<lparr>em_instruction_count := em_instruction_count emu + 1\<rparr>
      in if em_max_instructions emu > 0 \<and> em_instruction_count emu > em_max_instructions emu
         then ret (emu\<lparr>em_terminated := True\<rparr>, Error)
         else body emu)"

definition execute_current_op :: "emulate \<Rightarrow> pcode_op \<Rightarrow> (emulate \<times> emulate_op_behavior) run" where
  "execute_current_op emu op = counted (\<lambda>emu. dispatch emu op) emu"

fun execute_from :: "emulate \<Rightarrow> pcode_op list \<Rightarrow> emulate_op_behavior \<Rightarrow> (emulate \<times> emulate_op_behavior) run" where
  "execute_from emu [] prev = ret (emu, prev)"
| "execute_from emu (op # ops) prev =
     (if em_terminated emu then ret (emu, prev)
      else run_bind (execute_current_op emu op) (\<lambda>(emu, disp).
        if disp = Continue then execute_from emu ops disp else ret (emu, disp)))"

definition execute :: "emulate \<Rightarrow> pcode_op list \<Rightarrow> (emulate \<times> emulate_op_behavior) run" where
  "execute emu ops = execute_from emu ops Continue"

section \<open>Operations on constants\<close>

definition em_evaluate :: "pcode_op \<Rightarrow> u64 option res" where
  "em_evaluate op = (case po_output op of
      None \<Rightarrow> Ret None
    | Some out \<Rightarrow>
        (case po_inrefs op of
           [] \<Rightarrow> Ret None
         | [a] \<Rightarrow> Ret (evaluate_unary (po_opcode op) (unat (vn_size out)) (unat (vn_size a)) (vn_get_offset a))
         | a # b # rest \<Rightarrow>
             (if length rest \<le> 1
              then evaluate_binary (po_opcode op) (unat (vn_size out)) (unat (vn_size a)) (vn_get_offset a) (vn_get_offset b)
              else Ret None)))"

definition load_constant :: "emulate \<Rightarrow> pcode_op \<Rightarrow> emulate run" where
  "load_constant emu op = (case get_in op 1 of
      None \<Rightarrow> ret emu
    | Some addr \<Rightarrow>
        (if vn_is_constant addr
         then run_bind (case get_memory_bank (em_mem_state emu) ''ram'' of
                          None \<Rightarrow> ret 0
                        | Some bank \<Rightarrow> bank_get_value bank (vn_get_offset addr) (size_or 1 (po_output op)))
                (\<lambda>val. ret (case po_output op of None \<Rightarrow> emu | Some out \<Rightarrow> em_set_value emu out val))
         else ret emu))"

definition store_constant :: "emulate \<Rightarrow> pcode_op \<Rightarrow> emulate run" where
  "store_constant emu op = (case get_in op 2 of
      None \<Rightarrow> ret emu
    | Some val \<Rightarrow>
        (let addr = po_inrefs op ! 1
         in if vn_is_constant addr \<and> vn_is_constant val
            then run_bind (on_bank (em_mem_state emu) ''ram'' (\<lambda>bank.
                     bank_set_value bank (vn_get_offset addr) (vn_size val) (vn_get_offset val)))
                   (\<lambda>ms. ret (emu\<lparr>em_mem_state := ms\<rparr>))
            else ret emu))"

definition fold_constant :: "emulate \<Rightarrow> pcode_op \<Rightarrow> emulate run" where
  "fold_constant emu op = (case po_output op of
      None \<Rightarrow> ret emu
    | Some out \<Rightarrow>
        (if list_all vn_is_constant (po_inrefs op) \<and> po_inrefs op \<noteq> []
         then run_bind (Some (em_evaluate op))
                (\<lambda>result. ret (case result of None \<Rightarrow> emu | Some val \<Rightarrow> em_set_value emu out val))
         else ret emu))"

definition execute_op :: "emulate \<Rightarrow> pcode_op \<Rightarrow> (emulate \<times> emulate_op_behavior) run" where
  "execute_op emu op = counted (\<lambda>emu. (case po_opcode op of
      CPUI_BRANCH \<Rightarrow> ret (emu, Branch)
    | CPUI_CBRANCH \<Rightarrow>
        (if (case get_in op 1 of None \<Rightarrow> False | Some v \<Rightarrow> vn_is_constant v \<and> vn_get_offset v \<noteq> 0)
         then ret (emu, Branch) else ret (emu, Continue))
    | CPUI_BRANCHIND \<Rightarrow> ret (emu, Branch)
    | CPUI_RETURN \<Rightarrow> ret (emu\<lparr>em_terminated := True\<rparr>, Return)
    | CPUI_LOAD \<Rightarrow> run_bind (load_constant emu op) (\<lambda>emu. ret (emu, Continue))
    | CPUI_STORE \<Rightarrow> run_bind (store_constant emu op) (\<lambda>emu. ret (emu, Continue))
    | _ \<Rightarrow> run_bind (fold_constant emu op) (\<lambda>emu. ret (emu, Continue)))) emu"

end
