(* ===== verification/Emulate_Laws.thy ===== *)
theory Emulate_Laws
  imports Emulate Op_Semantics
begin

text \<open>
  What the emulator computes. The specification is a machine with a register per varnode location and bytes per space: no counter, no banks and no
  table of operation codes. It gives an operation the value of the unary evaluation when it has one input and of the binary evaluation when it has
  more, and a load or store goes to the space that its first input names. The emulator is that machine on the operations that are \<open>runnable\<close>, panics
  included; the last section says what it does with the others. On top of it: the limit on the number of operations, the end of a run at a return, and
  the two entry points on constants.
\<close>

unbundle bit_operations_syntax

section \<open>The machine\<close>

text \<open>
  A register for every space number and offset, and a memory for every space name. A varnode is a register whatever its space is; only loads and
  stores reach a memory.
\<close>

type_synonym machine = "(u64 \<times> u64 \<Rightarrow> u64) \<times> (string \<Rightarrow> memory option)"

definition vn_key :: "varnode \<Rightarrow> u64 \<times> u64" where
  "vn_key vn = (ucast (space_id (vn_space vn)), vn_get_offset vn)"

definition vn_bytes :: "varnode \<Rightarrow> nat" where
  "vn_bytes vn = unat (vn_size vn)"

definition operand :: "(u64 \<times> u64 \<Rightarrow> u64) \<Rightarrow> varnode \<Rightarrow> u64" where
  "operand R vn = (if vn_is_constant vn then vn_get_offset vn else R (vn_key vn))"

text \<open>The value an operation gives to its output, if any, from the varnodes it reads and their values.\<close>

definition op_result :: "opcode \<Rightarrow> varnode \<Rightarrow> varnode list \<Rightarrow> u64 list \<Rightarrow> (string \<Rightarrow> memory option) \<Rightarrow> u64 option res" where
  "op_result opc out ins vals M =
     (if opc = CPUI_LOAD then
        (case vals of
           spc # a # _ \<Rightarrow>
             Ret (Some (case M (space_name (get_space_from_const (hd ins))) of None \<Rightarrow> 0 | Some m \<Rightarrow> mem_read False m a (vn_bytes out)))
         | _ \<Rightarrow> Ret None)
      else case vals of
          [] \<Rightarrow> Ret None
        | [a] \<Rightarrow> Ret (evaluate_unary opc (vn_bytes out) (vn_bytes (hd ins)) a)
        | a # b # _ \<Rightarrow> evaluate_binary opc (vn_bytes out) (vn_bytes (hd ins)) a b)"

definition spec_step :: "machine \<Rightarrow> pcode_op \<Rightarrow> machine res" where
  "spec_step mach op = (case mach of (R, M) \<Rightarrow>
     (let vals = map (operand R) (po_inrefs op)
      in if po_opcode op = CPUI_STORE then
           (case vals of
              spc # a # v # _ \<Rightarrow>
                (let nm = space_name (get_space_from_const (hd (po_inrefs op)))
                 in Ret (R, M(nm := map_option (\<lambda>m. mem_write False m a (vn_bytes (po_inrefs op ! 2)) v) (M nm))))
            | _ \<Rightarrow> Ret (R, M))
         else (case po_output op of
             None \<Rightarrow> Ret (R, M)
           | Some out \<Rightarrow>
               res_map (\<lambda>r. case r of None \<Rightarrow> (R, M) | Some v \<Rightarrow> (R(vn_key out := v), M))
                 (op_result (po_opcode op) out (po_inrefs op) vals M))))"

fun spec_run :: "machine \<Rightarrow> pcode_op list \<Rightarrow> machine res" where
  "spec_run mach [] = Ret mach"
| "spec_run mach (op # ops) = res_bind (spec_step mach op) (\<lambda>mach. spec_run mach ops)"

section \<open>Operations that the emulator executes\<close>

text \<open>
  Left out are the operations that change control flow, those that the dispatch of the emulator evaluates with the wrong number of inputs and so never
  executes (\<open>CPUI_SUBPIECE\<close> as unary, \<open>CPUI_POPCOUNT\<close> and \<open>CPUI_LZCOUNT\<close> as binary), unary operations with inputs to spare, and loads and stores
  whose first input names another space than \<open>Ram\<close>, which the emulator would send to the ram all the same.
\<close>

definition unary_opcodes :: "opcode set" where
  "unary_opcodes = {CPUI_COPY, CPUI_BOOL_NEGATE, CPUI_INT_ZEXT, CPUI_INT_SEXT, CPUI_INT_2COMP, CPUI_INT_NEGATE}"

definition jump_opcodes :: "opcode set" where
  "jump_opcodes = {CPUI_BRANCH, CPUI_CBRANCH, CPUI_BRANCHIND, CPUI_CALL, CPUI_CALLIND, CPUI_RETURN}"

definition dropped_opcodes :: "opcode set" where
  "dropped_opcodes = {CPUI_SUBPIECE, CPUI_POPCOUNT, CPUI_LZCOUNT}"

definition runnable :: "pcode_op \<Rightarrow> bool" where
  "runnable op \<longleftrightarrow> po_opcode op \<notin> jump_opcodes \<and> po_opcode op \<notin> dropped_opcodes \<and>
     (po_opcode op \<in> unary_opcodes \<longrightarrow> length (po_inrefs op) \<le> 1) \<and>
     (po_opcode op \<in> {CPUI_LOAD, CPUI_STORE} \<longrightarrow> (case po_inrefs op of [] \<Rightarrow> True | spc # _ \<Rightarrow> get_space_from_const spc = Ram))"

section \<open>Sizes\<close>

text \<open>
  \<open>S\<close> gives every register its number of bytes. A varnode is read and written at the size of its register, a constant fits its size, and a result
  goes to a register.
\<close>

definition vn_sized :: "(u64 \<times> u64 \<Rightarrow> nat) \<Rightarrow> varnode \<Rightarrow> bool" where
  "vn_sized S vn \<longleftrightarrow> 1 \<le> vn_bytes vn \<and> vn_bytes vn \<le> 8 \<and>
     (if vn_is_constant vn then vn_get_offset vn \<le> calc_mask (vn_bytes vn) else S (vn_key vn) = vn_bytes vn)"

definition op_sized :: "(u64 \<times> u64 \<Rightarrow> nat) \<Rightarrow> pcode_op \<Rightarrow> bool" where
  "op_sized S op \<longleftrightarrow> list_all (vn_sized S) (po_inrefs op) \<and>
     (case po_output op of None \<Rightarrow> True | Some out \<Rightarrow> vn_sized S out \<and> \<not> vn_is_constant out)"

definition em_view :: "emulate \<Rightarrow> machine" where
  "em_view emu = (\<lambda>k. get_register emu (fst k) (snd k), state_bytes (em_mem_state emu))"

definition em_ok :: "(u64 \<times> u64 \<Rightarrow> nat) \<Rightarrow> emulate \<Rightarrow> bool" where
  "em_ok S emu \<longleftrightarrow> state_ok (em_mem_state emu) \<and> (\<forall>k. fst (em_view emu) k \<le> calc_mask (S k))"

text \<open>No more than \<open>n\<close> operations are executed before the limit is reached.\<close>

definition em_within :: "emulate \<Rightarrow> nat \<Rightarrow> bool" where
  "em_within emu n \<longleftrightarrow> em_max_instructions emu = 0 \<or> unat (em_instruction_count emu) + n \<le> unat (em_max_instructions emu)"

section \<open>One operation\<close>

lemma em_get_value_view: "em_get_value emu vn = operand (fst (em_view emu)) vn"
  by (simp add: em_get_value_def operand_def em_view_def vn_key_def)

lemma em_set_value_view: "em_view (em_set_value emu vn v) = ((fst (em_view emu))(vn_key vn := v), snd (em_view emu))"
  by (auto simp: em_view_def em_set_value_def set_register_def get_register_def vn_key_def)

lemma em_set_value_fields [simp]:
  "em_mem_state (em_set_value emu vn v) = em_mem_state emu" "em_terminated (em_set_value emu vn v) = em_terminated emu"
  "em_instruction_count (em_set_value emu vn v) = em_instruction_count emu"
  "em_max_instructions (em_set_value emu vn v) = em_max_instructions emu"
  "em_current_address (em_set_value emu vn v) = em_current_address emu"
  by (simp_all add: em_set_value_def set_register_def)

lemma em_ok_set_value:
  assumes "em_ok S emu" and "vn_sized S out" and "\<not> vn_is_constant out" and "v \<le> calc_mask (vn_bytes out)"
  shows "em_ok S (em_set_value emu out v)"
  using assms by (auto simp: em_ok_def em_set_value_view vn_sized_def)

lemma operand_sized: "em_ok S emu \<Longrightarrow> vn_sized S vn \<Longrightarrow> operand (fst (em_view emu)) vn \<le> calc_mask (vn_bytes vn)"
  by (cases "vn_key vn") (auto simp: operand_def vn_sized_def em_ok_def split: if_splits, metis)

lemma evaluate_unary_sized: "evaluate_unary opc so si a = Some v \<Longrightarrow> v \<le> calc_mask so"
  by (auto simp: evaluate_unary_def Let_def)

lemma evaluate_binary_sized: "evaluate_binary opc so si a b = Ret (Some v) \<Longrightarrow> v \<le> calc_mask so"
  by (cases opc) (auto simp: evaluate_binary_def Let_def div_i64_def rem_i64_def split: if_splits prod.splits)

lemma mem_read_sized: "n \<le> 8 \<Longrightarrow> mem_read be m off n \<le> calc_mask n"
proof -
  assume n: "n \<le> 8"
  then have "mem_read be m off n AND mask (8 * n) = mem_read be m off n"
    by (intro bytes_fit) (simp add: word_byte_mem_read)
  then have "mem_read be m off n AND calc_mask n = mem_read be m off n" using n by (simp add: calc_mask_eq nbits_small)
  then show ?thesis using and_calc_mask_le [of "mem_read be m off n" n] by simp
qed

text \<open>
  A run that goes on: it panics where the machine does, and otherwise the emulator shows the machine's new state, with the sizes kept and
  its control fields as before.
\<close>

definition goes_on :: "(u64 \<times> u64 \<Rightarrow> nat) \<Rightarrow> emulate \<Rightarrow> (emulate \<times> emulate_op_behavior) run \<Rightarrow> machine res \<Rightarrow> bool" where
  "goes_on S emu r spec = (case spec of
      Panic \<Rightarrow> r = Some Panic
    | Ret mach \<Rightarrow> (\<exists>emu'. r = ret (emu', Continue) \<and> em_view emu' = mach \<and> em_ok S emu' \<and>
        em_terminated emu' = em_terminated emu \<and> em_instruction_count emu' = em_instruction_count emu \<and>
        em_max_instructions emu' = em_max_instructions emu \<and> em_current_address emu' = em_current_address emu))"

lemma goes_on_stay: "em_ok S emu \<Longrightarrow> em_view emu = mach \<Longrightarrow> goes_on S emu (ret (emu, Continue)) (Ret mach)"
  by (simp add: goes_on_def)

lemma goes_on_assign:
  assumes "em_ok S emu" and "vn_sized S out" and "\<not> vn_is_constant out" and "\<And>v. r = Some v \<Longrightarrow> v \<le> calc_mask (vn_bytes out)"
  shows "goes_on S emu (ret (case r of None \<Rightarrow> emu | Some v \<Rightarrow> em_set_value emu out v, Continue))
    (Ret (case r of None \<Rightarrow> em_view emu | Some v \<Rightarrow> ((fst (em_view emu))(vn_key out := v), snd (em_view emu))))"
  using assms by (cases r) (auto simp: goes_on_def em_set_value_view em_ok_set_value)

lemma get_in_map:
  "get_in op 0 = (case po_inrefs op of [] \<Rightarrow> None | a # _ \<Rightarrow> Some a)"
  "get_in op 1 = (case po_inrefs op of a # b # _ \<Rightarrow> Some b | _ \<Rightarrow> None)"
  "get_in op (Suc 0) = (case po_inrefs op of a # b # _ \<Rightarrow> Some b | _ \<Rightarrow> None)"
  "get_in op 2 = (case po_inrefs op of a # b # c # _ \<Rightarrow> Some c | _ \<Rightarrow> None)"
  by (auto simp: get_in_def split: list.split)

lemma ram_read:
  assumes "em_ok S emu" and "1 \<le> n" and "n \<le> 8"
  shows "(case get_memory_bank (em_mem_state emu) ''ram'' of None \<Rightarrow> ret 0 | Some bank \<Rightarrow> bank_get_value bank off (of_nat n)) =
    ret (case snd (em_view emu) ''ram'' of None \<Rightarrow> 0 | Some m \<Rightarrow> mem_read False m off n)"
  using assms bank_value_read
  by (auto simp: em_ok_def state_ok_def get_memory_bank_def em_view_def state_bytes_def split: option.split)

lemma ram_write:
  assumes "em_ok S emu" and "1 \<le> n" and "n \<le> 8" and "v \<le> calc_mask n"
  shows "\<exists>ms. on_bank (em_mem_state emu) ''ram'' (\<lambda>bank. bank_set_value bank off (of_nat n) v) = ret ms \<and> state_ok ms \<and>
    state_bytes ms = (snd (em_view emu))(''ram'' := map_option (\<lambda>m. mem_write False m off n v) (snd (em_view emu) ''ram''))"
proof (cases "ms_banks (em_mem_state emu) ''ram''")
  case None
  then show ?thesis using assms(1) by (auto simp: on_bank_def em_ok_def em_view_def state_bytes_def fun_eq_iff)
next
  case (Some b)
  with assms(1) have "bank_ok b" by (auto simp: em_ok_def state_ok_def)
  moreover have "v \<le> mask (8 * n)" using assms(3,4) by (simp add: calc_mask_eq nbits_small)
  ultimately obtain b' where "bank_set_value b off (of_nat n) v = ret b'" "bank_ok b'"
    "bank_bytes b' = mem_write False (bank_bytes b) off n v" using bank_value_run assms(2,3) by blast
  then show ?thesis using Some assms(1) by (auto simp: on_bank_def em_ok_def em_view_def state_bytes_def state_ok_def fun_eq_iff)
qed

lemma dispatch_unary: "po_opcode op \<in> unary_opcodes \<Longrightarrow> dispatch emu op = ret (execute_unary emu op, Continue)"
  by (auto simp: unary_opcodes_def dispatch_def)

definition plain_opcodes :: "opcode set" where
  "plain_opcodes = - (unary_opcodes \<union> jump_opcodes \<union> dropped_opcodes \<union> {CPUI_LOAD, CPUI_STORE, CPUI_MULTIEQUAL, CPUI_INDIRECT})"

lemma unary_value_none: "opc \<notin> unary_opcodes \<Longrightarrow> opc \<notin> {CPUI_POPCOUNT, CPUI_LZCOUNT} \<Longrightarrow> evaluate_unary opc so si a = None"
  by (cases opc) (simp_all add: unary_opcodes_def evaluate_unary_def)

lemma plain_unary_none: "opc \<in> plain_opcodes \<Longrightarrow> evaluate_unary opc so si a = None"
  by (rule unary_value_none) (auto simp: plain_opcodes_def dropped_opcodes_def)

lemma dispatch_binary:
  "po_opcode op \<in> plain_opcodes \<Longrightarrow> dispatch emu op = run_bind (execute_binary emu op) (\<lambda>emu. ret (emu, Continue))"
  by (cases "po_opcode op") (simp_all add: plain_opcodes_def unary_opcodes_def jump_opcodes_def dropped_opcodes_def dispatch_def)

lemma spec_step_result:
  assumes "po_opcode op \<noteq> CPUI_STORE"
  shows "spec_step (em_view emu) op = (case po_output op of
      None \<Rightarrow> Ret (em_view emu)
    | Some out \<Rightarrow> res_map (\<lambda>r. case r of None \<Rightarrow> em_view emu | Some v \<Rightarrow> ((fst (em_view emu))(vn_key out := v), snd (em_view emu)))
        (op_result (po_opcode op) out (po_inrefs op) (map (em_get_value emu) (po_inrefs op)) (snd (em_view emu))))"
  using assms by (cases "em_view emu") (auto simp: spec_step_def em_get_value_view Let_def cong: map_cong split: option.split)

lemma vn_size_bytes: "vn_size vn = of_nat (vn_bytes vn)"
  by (simp add: vn_bytes_def)

lemma step_unary:
  assumes "em_ok S emu" and "op_sized S op" and "po_opcode op \<in> unary_opcodes" and "length (po_inrefs op) \<le> 1"
  shows "goes_on S emu (dispatch emu op) (spec_step (em_view emu) op)"
proof -
  have opc: "po_opcode op \<noteq> CPUI_STORE" "po_opcode op \<noteq> CPUI_LOAD"
    using assms(3) by (auto simp: unary_opcodes_def)
  note defs = dispatch_unary [OF assms(3)] spec_step_result [OF opc(1)] execute_unary_def get_in_map op_result_def
  show ?thesis
  proof (cases "po_output op")
    case None
    then show ?thesis using assms(1) by (auto simp: defs intro: goes_on_stay split: list.split)
  next
    case (Some out)
    then have out: "vn_sized S out" "\<not> vn_is_constant out" using assms(2) by (simp_all add: op_sized_def)
    show ?thesis
    proof (cases "po_inrefs op")
      case Nil
      with Some opc assms(1,3) show ?thesis by (simp add: defs goes_on_stay)
    next
      case (Cons a ins)
      with assms(4) have "ins = []" by simp
      note Cons = Cons [unfolded this]
      let ?r = "evaluate_unary (po_opcode op) (vn_bytes out) (vn_bytes a) (em_get_value emu a)"
      from goes_on_assign [OF assms(1) out, of ?r] evaluate_unary_sized show ?thesis
        using Some Cons opc assms(3) by (simp add: defs Let_def vn_bytes_def)
    qed
  qed
qed

lemma step_binary:
  assumes "em_ok S emu" and "op_sized S op" and "po_opcode op \<in> plain_opcodes"
  shows "goes_on S emu (dispatch emu op) (spec_step (em_view emu) op)"
proof -
  have opc: "po_opcode op \<noteq> CPUI_STORE" "po_opcode op \<noteq> CPUI_LOAD" using assms(3) by (auto simp: plain_opcodes_def)
  note defs = dispatch_binary [OF assms(3)] spec_step_result [OF opc(1)] execute_binary_def get_in_map op_result_def plain_unary_none [OF assms(3)]
  show ?thesis
  proof (cases "po_output op")
    case None
    then show ?thesis using assms(1) by (auto simp: defs intro: goes_on_stay split: list.split)
  next
    case (Some out)
    then have out: "vn_sized S out" "\<not> vn_is_constant out" using assms(2) by (simp_all add: op_sized_def)
    consider "\<And>a b ins. po_inrefs op \<noteq> a # b # ins" | a b ins where "po_inrefs op = a # b # ins" by blast
    then show ?thesis
    proof cases
      case 1
      then have "po_inrefs op = [] \<or> (\<exists>a. po_inrefs op = [a])" by (metis list.exhaust)
      with Some opc assms(1) show ?thesis by (auto simp: defs intro: goes_on_stay)
    next
      case (2 a b ins)
      let ?e = "evaluate_binary (po_opcode op) (vn_bytes out) (vn_bytes a) (em_get_value emu a) (em_get_value emu b)"
      show ?thesis
      proof (cases ?e)
        case Panic
        then show ?thesis using Some 2 opc by (simp add: defs Let_def vn_bytes_def goes_on_def)
      next
        case (Ret r)
        then have "v \<le> calc_mask (vn_bytes out)" if "r = Some v" for v using evaluate_binary_sized that by blast
        from goes_on_assign [OF assms(1) out this] show ?thesis
          using Some 2 opc Ret by (simp add: defs Let_def vn_bytes_def flip: ret_def)
      qed
    qed
  qed
qed

lemma step_merge:
  assumes "em_ok S emu" and "po_opcode op = CPUI_MULTIEQUAL \<or> po_opcode op = CPUI_INDIRECT"
  shows "goes_on S emu (dispatch emu op) (spec_step (em_view emu) op)"
proof -
  have "dispatch emu op = ret (emu, Continue)" using assms(2) by (auto simp: dispatch_def)
  moreover have "op_result (po_opcode op) out (po_inrefs op) vals M = Ret None" for out vals M
    using assms(2) by (auto simp: op_result_def evaluate_unary_def evaluate_binary_def split: list.split)
  then have "spec_step (em_view emu) op = Ret (em_view emu)"
    using assms(2) by (subst spec_step_result) (auto split: option.split)
  ultimately show ?thesis using assms(1) by (simp add: goes_on_stay)
qed

lemma step_load:
  assumes "em_ok S emu" and "op_sized S op" and "po_opcode op = CPUI_LOAD"
    and ram: "(case po_inrefs op of [] \<Rightarrow> True | spc # _ \<Rightarrow> get_space_from_const spc = Ram)"
  shows "goes_on S emu (dispatch emu op) (spec_step (em_view emu) op)"
proof -
  have opc: "po_opcode op \<noteq> CPUI_STORE" using assms(3) by simp
  note defs = dispatch_def spec_step_result [OF opc] execute_load_def get_in_map op_result_def assms(3) size_or_def
  consider "\<And>a b ins. po_inrefs op \<noteq> a # b # ins" | a b ins where "po_inrefs op = a # b # ins" by blast
  then show ?thesis
  proof cases
    case 1
    with assms(1) show ?thesis by (auto simp: defs intro: goes_on_stay split: list.split option.split)
  next
    case (2 a b ins)
    with ram have a: "get_space_from_const a = Ram" by simp
    show ?thesis
    proof (cases "po_output op")
      case None
      have "(case get_memory_bank (em_mem_state emu) ''ram'' of None \<Rightarrow> ret 0 | Some bank \<Rightarrow> bank_get_value bank (em_get_value emu b) 1) =
          ret (case snd (em_view emu) ''ram'' of None \<Rightarrow> 0 | Some m \<Rightarrow> mem_read False m (em_get_value emu b) 1)"
        using ram_read [OF assms(1) order_refl, of "em_get_value emu b"] by (simp only: of_nat_1 one_le_numeral)
      then show ?thesis using None 2 a assms(1) by (simp add: defs goes_on_stay)
    next
      case (Some out)
      then have out: "vn_sized S out" "\<not> vn_is_constant out" using assms(2) by (simp_all add: op_sized_def)
      then have n: "1 \<le> vn_bytes out" "vn_bytes out \<le> 8" by (simp_all add: vn_sized_def)
      let ?v = "case snd (em_view emu) ''ram'' of None \<Rightarrow> 0 | Some m \<Rightarrow> mem_read False m (em_get_value emu b) (vn_bytes out)"
      have "?v \<le> calc_mask (vn_bytes out)" using mem_read_sized [OF n(2)] by (auto split: option.split)
      with goes_on_assign [OF assms(1) out, of "Some ?v"] show ?thesis
        using Some 2 a ram_read [OF assms(1) n, of "em_get_value emu b"] by (simp add: defs vn_size_bytes Let_def)
    qed
  qed
qed

lemma step_store:
  assumes "em_ok S emu" and "op_sized S op" and "po_opcode op = CPUI_STORE"
    and ram: "(case po_inrefs op of [] \<Rightarrow> True | spc # _ \<Rightarrow> get_space_from_const spc = Ram)"
  shows "goes_on S emu (dispatch emu op) (spec_step (em_view emu) op)"
proof -
  note defs = dispatch_def spec_step_def execute_store_def get_in_map assms(3)
  consider "\<And>a b c ins. po_inrefs op \<noteq> a # b # c # ins" | a b c ins where "po_inrefs op = a # b # c # ins" by blast
  then show ?thesis
  proof cases
    case 1
    with assms(1) show ?thesis by (cases "em_view emu") (auto simp: defs Let_def intro: goes_on_stay split: list.split)
  next
    case (2 a b c ins)
    then have c: "vn_sized S c" using assms(2) by (simp add: op_sized_def)
    then have n: "1 \<le> vn_bytes c" "vn_bytes c \<le> 8" by (simp_all add: vn_sized_def)
    have v: "em_get_value emu c \<le> calc_mask (vn_bytes c)" using operand_sized [OF assms(1) c] by (simp add: em_get_value_view)
    obtain ms where ms: "on_bank (em_mem_state emu) ''ram'' (\<lambda>bank. bank_set_value bank (em_get_value emu b) (vn_size c) (em_get_value emu c)) = ret ms"
      "state_ok ms" "state_bytes ms = (snd (em_view emu))(''ram'' := map_option (\<lambda>m. mem_write False m (em_get_value emu b) (vn_bytes c) (em_get_value emu c)) (snd (em_view emu) ''ram''))"
      using ram_write [OF assms(1) n v, of "em_get_value emu b"] by (auto simp: vn_size_bytes)
    have "em_view (emu\<lparr>em_mem_state := ms\<rparr>) = (fst (em_view emu), state_bytes ms)"
      by (simp add: em_view_def get_register_def)
    with ms 2 ram assms(1) show ?thesis
      by (cases "em_view emu") (auto simp: defs Let_def goes_on_def em_ok_def em_get_value_view)
  qed
qed

lemma step_refines:
  assumes "em_ok S emu" and "op_sized S op" and "runnable op"
  shows "goes_on S emu (dispatch emu op) (spec_step (em_view emu) op)"
proof -
  consider "po_opcode op \<in> unary_opcodes" | "po_opcode op \<in> plain_opcodes" | "po_opcode op = CPUI_LOAD" | "po_opcode op = CPUI_STORE"
    | "po_opcode op = CPUI_MULTIEQUAL \<or> po_opcode op = CPUI_INDIRECT"
    using assms(3) by (auto simp: plain_opcodes_def runnable_def)
  then show ?thesis
    by cases (use assms step_unary step_binary step_load step_store step_merge in \<open>auto simp: runnable_def\<close>)
qed

section \<open>The loop\<close>

lemma count_up_unat:
  assumes "em_within emu (Suc n)" and "em_max_instructions emu \<noteq> 0"
  shows "unat (em_instruction_count emu + 1) = Suc (unat (em_instruction_count emu))"
  using assms unsigned_less [of "em_max_instructions emu", where 'a = nat] by (simp add: em_within_def unat_word_ariths)

lemma count_up:
  assumes "em_within emu (Suc n)"
  shows "counted body emu = body (emu\<lparr>em_instruction_count := em_instruction_count emu + 1\<rparr>)"
    and "em_within (emu\<lparr>em_instruction_count := em_instruction_count emu + 1\<rparr>) n"
  using assms by (cases "em_max_instructions emu = 0";
      simp add: counted_def Let_def em_within_def word_less_nat_alt count_up_unat [OF assms])+

lemma counter_view [simp]:
  "em_view (emu\<lparr>em_instruction_count := c\<rparr>) = em_view emu" "em_view (emu\<lparr>em_terminated := t\<rparr>) = em_view emu"
  by (simp_all add: em_view_def get_register_def)

lemma counter_ok [simp]:
  "em_ok S (emu\<lparr>em_instruction_count := c\<rparr>) = em_ok S emu" "em_ok S (emu\<lparr>em_terminated := t\<rparr>) = em_ok S emu"
  by (simp_all add: em_ok_def)

definition straight :: "(u64 \<times> u64 \<Rightarrow> nat) \<Rightarrow> pcode_op list \<Rightarrow> bool" where
  "straight S ops \<longleftrightarrow> list_all (\<lambda>op. op_sized S op \<and> runnable op) ops"

lemma straight_simps [simp]:
  "straight S []" "straight S (op # ops) \<longleftrightarrow> op_sized S op \<and> runnable op \<and> straight S ops"
  by (simp_all add: straight_def)

text \<open>The emulator after a straight run of \<open>n\<close> operations that ended in the state \<open>mach\<close> of the machine.\<close>

definition ran_to :: "(u64 \<times> u64 \<Rightarrow> nat) \<Rightarrow> emulate \<Rightarrow> nat \<Rightarrow> machine \<Rightarrow> emulate \<Rightarrow> bool" where
  "ran_to S emu n mach emu' \<longleftrightarrow> em_view emu' = mach \<and> em_ok S emu' \<and> \<not> em_terminated emu' \<and>
     em_instruction_count emu' = em_instruction_count emu + of_nat n \<and> em_max_instructions emu' = em_max_instructions emu \<and>
     em_current_address emu' = em_current_address emu"

lemma execute_step:
  assumes "em_ok S emu" and "op_sized S op" and "runnable op" and "em_within emu (Suc n)" and "\<not> em_terminated emu"
  shows "case spec_step (em_view emu) op of
      Panic \<Rightarrow> execute_current_op emu op = Some Panic
    | Ret mach \<Rightarrow> (\<exists>emu'. execute_current_op emu op = ret (emu', Continue) \<and> ran_to S emu 1 mach emu' \<and> em_within emu' n)"
proof -
  let ?emu = "emu\<lparr>em_instruction_count := em_instruction_count emu + 1\<rparr>"
  have "em_ok S ?emu" using assms(1) by simp
  from step_refines [OF this assms(2,3)] show ?thesis
    using assms(5) count_up(2) [OF assms(4)]
    by (auto simp: execute_current_op_def count_up(1) [OF assms(4)] goes_on_def ran_to_def em_within_def split: res.splits)
qed

lemma execute_straight:
  assumes "em_ok S emu" and "straight S ops" and "em_within emu (length ops)" and "\<not> em_terminated emu"
  shows "case spec_run (em_view emu) ops of
      Panic \<Rightarrow> execute emu ops = Some Panic
    | Ret mach \<Rightarrow> (\<exists>emu'. execute emu ops = ret (emu', Continue) \<and> ran_to S emu (length ops) mach emu')"
  using assms
proof (induction ops arbitrary: emu)
  case Nil
  then show ?case by (simp add: execute_def ran_to_def)
next
  case (Cons op ops)
  note step = execute_step [OF Cons.prems(1) _ _ Cons.prems(3) [unfolded length_Cons] Cons.prems(4), of op]
  show ?case
  proof (cases "spec_step (em_view emu) op")
    case Panic
    with step Cons.prems(2,4) show ?thesis by (simp add: execute_def)
  next
    case (Ret mach)
    with step Cons.prems(2) obtain emu' where e: "execute_current_op emu op = ret (emu', Continue)" "ran_to S emu 1 mach emu'"
      "em_within emu' (length ops)" by auto
    then have "execute emu (op # ops) = execute emu' ops" using Cons.prems(4) by (simp add: execute_def)
    with Cons.IH [of emu'] e Cons.prems(2) Ret show ?thesis
      by (auto simp: ran_to_def algebra_simps split: res.splits)
  qed
qed

lemma execute_from_append:
  "execute_from emu (xs @ ys) Continue =
    run_bind (execute_from emu xs Continue) (\<lambda>(emu, d). if d = Continue then execute_from emu ys d else ret (emu, d))"
proof (induction xs arbitrary: emu)
  case (Cons op xs)
  have stop: "execute_from emu ys Continue = ret (emu, Continue)" if "em_terminated emu" using that by (cases ys) simp_all
  show ?case by (auto simp: Cons.IH stop run_bind_def ret_def split: option.splits res.splits)
qed simp

lemma execute_append:
  "execute emu (xs @ ys) = run_bind (execute emu xs) (\<lambda>(emu, d). if d = Continue then execute emu ys else ret (emu, d))"
  unfolding execute_def execute_from_append by (rule arg_cong [where f = "run_bind _"]) (auto simp: fun_eq_iff)

lemma execute_terminated: "em_terminated emu \<Longrightarrow> execute emu ops = ret (emu, Continue)"
  by (cases ops) (simp_all add: execute_def)

section \<open>Programs\<close>


definition sample_ram :: emulate where
  "sample_ram = emulate_new\<lparr>em_mem_state := set_memory_bank state_new (bank_new Ram 8 4096)\<rparr>"

definition sample_program :: "pcode_op list" where
  "sample_program =
     [\<lparr>po_opcode = CPUI_COPY, po_output = Some (vn_new_unique 0x100 8), po_inrefs = [vn_new_constant 7 8]\<rparr>,
      \<lparr>po_opcode = CPUI_INT_ADD, po_output = Some (vn_new_unique 0x200 8), po_inrefs = [vn_new_unique 0x100 8, vn_new_constant 3 8]\<rparr>,
      \<lparr>po_opcode = CPUI_STORE, po_output = None, po_inrefs = [vn_new_constant 3 8, vn_new_constant 0x1003 8, vn_new_unique 0x200 8]\<rparr>,
      \<lparr>po_opcode = CPUI_LOAD, po_output = Some (vn_new_register 0x10 8), po_inrefs = [vn_new_constant 3 8, vn_new_constant 0x1003 8]\<rparr>]"

lemmas vn_defs = vn_new_with_space_def vn_new_constant_def vn_new_unique_def vn_new_register_def vn_is_constant_def vn_get_offset_def ad_new_def
  vn_bytes_def vn_key_def VN_CONSTANT_def VN_COVERDIRTY_def space_ids

lemma sample_ram_ok: "em_ok (\<lambda>k. 8) sample_ram" "\<not> em_terminated sample_ram" "em_max_instructions sample_ram = 0"
  by (auto simp: sample_ram_def emulate_new_def em_ok_def state_ok_def set_memory_bank_def state_new_def bank_ok_def bank_new_def calc_mask_def)

lemma sample_straight: "straight (\<lambda>k. 8) sample_program"
  by (simp add: sample_program_def op_sized_def vn_sized_def vn_defs runnable_def jump_opcodes_def dropped_opcodes_def unary_opcodes_def
    get_space_from_const_def from_id_def calc_mask_def)

lemma sample_spec:
  "\<exists>R M. spec_run (em_view sample_ram) sample_program = Ret (R, M) \<and> operand R (vn_new_register 0x10 8) = 10"
proof -
  have "em_view sample_ram = (\<lambda>k. 0, [''ram'' \<mapsto> bank_bytes (bank_new Ram 8 4096)])"
    by (auto simp: em_view_def sample_ram_def emulate_new_def get_register_def state_bytes_def set_memory_bank_def state_new_def bank_new_def fun_eq_iff)
  moreover have "mem_read False (mem_write False m 0x1003 8 10) 0x1003 8 = 10" for m
    by (rule mem_read_write) (simp_all add: mask_eq_exp_minus_1)
  ultimately show ?thesis
    by (simp add: sample_program_def spec_step_def op_result_def operand_def vn_defs evaluate_unary_def
      evaluate_binary_def get_space_from_const_def from_id_def calc_mask_def U64_MAX_def)
qed


text \<open>
  Property C26. With a limit on the number of operations, a longer sequence stops with an error after exactly the operations the limit allows: the emulator
  shows the state of the machine after these, is terminated, and executes nothing more.
\<close>

theorem execute_limit:
  assumes "em_ok S emu" and "\<not> em_terminated emu"
    and "0 < em_max_instructions emu" and "em_max_instructions emu < U64_MAX" and "em_instruction_count emu \<le> em_max_instructions emu"
    and "k = unat (em_max_instructions emu) - unat (em_instruction_count emu)"
    and "k < length ops" and "straight S (take k ops)" and "spec_run (em_view emu) (take k ops) = Ret mach"
  shows "\<exists>emu'. execute emu ops = ret (emu', Error) \<and> em_view emu' = mach \<and> em_terminated emu' \<and>
    em_instruction_count emu' = em_max_instructions emu + 1 \<and> (\<forall>more. execute emu' more = ret (emu', Continue))"
proof -
  have room: "unat (em_instruction_count emu) + k = unat (em_max_instructions emu)"
    using assms(5,6) by (simp add: word_le_nat_alt)
  then have "em_within emu (length (take k ops))" using assms(7) by (simp add: em_within_def)
  from execute_straight [OF assms(1,8) this assms(2)] assms(7,9) obtain emu1 where
    e: "execute emu (take k ops) = ret (emu1, Continue)" and r: "ran_to S emu k mach emu1" by auto
  have "of_nat (unat (em_instruction_count emu) + k) = (of_nat (unat (em_max_instructions emu)) :: u64)" by (simp only: room)
  then have c: "em_instruction_count emu1 = em_max_instructions emu" using r by (simp add: ran_to_def)
  have "em_max_instructions emu < em_max_instructions emu + 1"
    using assms(4) by (simp add: U64_MAX_def word_less_nat_alt unat_word_ariths)
  with c r assms(3) have stop: "execute_current_op emu1 op = ret (emu1\<lparr>em_instruction_count := em_max_instructions emu + 1, em_terminated := True\<rparr>, Error)" for op
    by (simp add: execute_current_op_def counted_def ran_to_def Let_def)
  obtain op rest where "ops = take k ops @ op # rest" using assms(7) by (metis append_take_drop_id id_take_nth_drop)
  then have "execute emu ops = execute emu1 (op # rest)" using e execute_append by (metis (mono_tags, lifting) case_prod_conv run_bind_simps(3))
  with stop r show ?thesis by (auto simp: execute_def ran_to_def execute_terminated [unfolded execute_def])
qed

theorem execute_limit_witness:
  "\<exists>emu'. execute (sample_ram\<lparr>em_max_instructions := 2\<rparr>) sample_program = ret (emu', Error) \<and> em_terminated emu' \<and>
    em_instruction_count emu' = 3"
proof -
  let ?emu = "sample_ram\<lparr>em_max_instructions := 2\<rparr>"
  have view: "em_view ?emu = em_view sample_ram" by (simp add: em_view_def get_register_def)
  have ok: "em_ok (\<lambda>k. 8) ?emu" using sample_ram_ok(1) by (simp add: em_ok_def view)
  have st: "straight (\<lambda>k. 8) (take 2 sample_program)" using sample_straight by (simp add: sample_program_def)
  obtain mach where spec: "spec_run (em_view ?emu) (take 2 sample_program) = Ret mach"
    by (cases "em_view ?emu") (auto simp: sample_program_def spec_step_def op_result_def unary_opcodes_def evaluate_unary_def evaluate_binary_def Let_def)
  have "2 = unat (em_max_instructions ?emu) - unat (em_instruction_count ?emu)" by (simp add: sample_ram_def emulate_new_def)
  from execute_limit [OF ok _ _ _ _ this _ st spec] sample_ram_ok(2) show ?thesis
    by (auto simp: sample_program_def U64_MAX_def sample_ram_def emulate_new_def)
qed

text \<open>
  Property C28. A return ends the run: what stands after it is not executed, by this call or by a later one on the same emulator.
\<close>

theorem execute_stops_at_return:
  assumes "em_ok S emu" and "straight S ops" and "em_within emu (Suc (length ops))" and "\<not> em_terminated emu"
    and "spec_run (em_view emu) ops = Ret mach" and "po_opcode op = CPUI_RETURN"
  shows "\<exists>emu'. execute emu (ops @ op # rest) = ret (emu', Return) \<and> em_view emu' = mach \<and> em_ok S emu' \<and>
    (\<forall>more. execute emu' more = ret (emu', Continue))"
proof -
  have "em_within emu (length ops)" using assms(3) by (auto simp: em_within_def)
  from execute_straight [OF assms(1,2) this assms(4)] assms(5) obtain emu1 where
    e: "execute emu ops = ret (emu1, Continue)" and r: "ran_to S emu (length ops) mach emu1" by auto
  have "em_within emu1 (Suc 0)"
    using assms(3) r unsigned_less [of "em_max_instructions emu", where 'a = nat]
    by (auto simp: em_within_def ran_to_def unat_word_ariths unsigned_of_nat take_bit_nat_eq_self)
  then have "execute_current_op emu1 op = ret (emu1\<lparr>em_instruction_count := em_instruction_count emu1 + 1, em_terminated := True\<rparr>, Return)"
    by (simp add: execute_current_op_def count_up dispatch_def assms(6))
  then have "execute emu (ops @ op # rest) = ret (emu1\<lparr>em_instruction_count := em_instruction_count emu1 + 1, em_terminated := True\<rparr>, Return)"
    using r e by (simp add: execute_append) (simp add: execute_def ran_to_def)
  then show ?thesis using r by (auto simp: ran_to_def execute_terminated)
qed

theorem execute_stops_at_return_witness:
  "\<exists>emu'. execute sample_ram (sample_program @ \<lparr>po_opcode = CPUI_RETURN, po_output = None, po_inrefs = []\<rparr> # sample_program) = ret (emu', Return)
    \<and> execute emu' sample_program = ret (emu', Continue)"
proof -
  have "em_within sample_ram (Suc (length sample_program))" by (simp add: em_within_def sample_ram_ok)
  note run = execute_stops_at_return [OF sample_ram_ok(1) sample_straight this sample_ram_ok(2)]
  obtain R M where "spec_run (em_view sample_ram) sample_program = Ret (R, M)" using sample_spec by blast
  from run [OF this, of "\<lparr>po_opcode = CPUI_RETURN, po_output = None, po_inrefs = []\<rparr>" sample_program] show ?thesis by auto
qed

section \<open>Two entry points\<close>

text \<open>
  The operations over constants on which \<open>execute_op\<close>, which folds constants only, does what the dispatch does: jumps and calls are left out, and so
  are the operations that the dispatch drops and those with more inputs than \<open>execute_op\<close> looks at.
\<close>

definition constant_op :: "pcode_op \<Rightarrow> bool" where
  "constant_op op \<longleftrightarrow> list_all vn_is_constant (po_inrefs op) \<and>
     (if po_opcode op \<in> unary_opcodes then length (po_inrefs op) \<le> 1
      else if po_opcode op \<in> plain_opcodes then length (po_inrefs op) \<le> 3
      else po_opcode op \<in> {CPUI_LOAD, CPUI_STORE, CPUI_RETURN, CPUI_MULTIEQUAL, CPUI_INDIRECT})"

lemma constant_value: "vn_is_constant vn \<Longrightarrow> em_get_value emu vn = vn_get_offset vn"
  by (simp add: em_get_value_def)

lemma fold_unary:
  assumes "list_all vn_is_constant (po_inrefs op)" and "length (po_inrefs op) \<le> 1"
  shows "fold_constant emu op = ret (execute_unary emu op)"
  using assms by (cases "po_inrefs op")
    (auto simp: fold_constant_def em_evaluate_def execute_unary_def get_in_map constant_value run_bind_def ret_def split: option.split)

lemma fold_binary:
  assumes "list_all vn_is_constant (po_inrefs op)" and "length (po_inrefs op) \<le> 3" and "po_opcode op \<in> plain_opcodes"
  shows "fold_constant emu op = execute_binary emu op"
proof -
  consider "po_inrefs op = []" | a where "po_inrefs op = [a]" | a b more where "po_inrefs op = a # b # more" by (metis list.exhaust)
  then show ?thesis
  proof cases
    case (3 a b more)
    with assms(2) have "length more \<le> 1" by simp
    with 3 assms(1) show ?thesis
      by (auto simp: fold_constant_def em_evaluate_def execute_binary_def get_in_map constant_value Let_def split: option.split)
  qed (use assms(1) plain_unary_none [OF assms(3)] in
    \<open>auto simp: fold_constant_def em_evaluate_def execute_binary_def get_in_map ret_def run_bind_def split: option.split\<close>)
qed

lemma fold_merge:
  assumes "po_opcode op = CPUI_MULTIEQUAL \<or> po_opcode op = CPUI_INDIRECT"
  shows "fold_constant emu op = ret emu"
  using assms by (auto simp: fold_constant_def em_evaluate_def evaluate_unary_def evaluate_binary_def ret_def run_bind_def split: option.split list.split)

lemma load_constants:
  assumes "list_all vn_is_constant (po_inrefs op)"
  shows "load_constant emu op = execute_load emu op"
  using assms by (auto simp: load_constant_def execute_load_def get_in_map constant_value Let_def split: option.split list.split)

lemma store_constants:
  assumes "list_all vn_is_constant (po_inrefs op)"
  shows "store_constant emu op = execute_store emu op"
  using assms by (auto simp: store_constant_def execute_store_def get_in_map constant_value Let_def split: option.split list.split)

text \<open>
  The operations whose evaluation the dispatch does not reach: \<open>CPUI_SUBPIECE\<close> is dispatched as unary, and unary evaluation has no value for it; the
  counts are dispatched as binary, and binary evaluation has no value for them. Their outputs keep their values.
\<close>

lemma subpiece_ignored: "po_opcode op = CPUI_SUBPIECE \<Longrightarrow> dispatch emu op = ret (emu, Continue)"
  by (simp add: dispatch_def execute_unary_def evaluate_unary_def Let_def split: option.split)

lemma counts_ignored:
  assumes "po_opcode op \<in> {CPUI_POPCOUNT, CPUI_LZCOUNT}"
  shows "dispatch emu op = ret (emu, Continue)"
proof -
  have "evaluate_binary (po_opcode op) so si a b = Ret None" for so si a b
    using assms by (auto simp: evaluate_binary_def)
  then have "execute_binary emu op = ret emu"
    by (simp add: execute_binary_def Let_def ret_def run_bind_def split: option.split)
  then show ?thesis using assms by (auto simp: dispatch_def)
qed

lemma dropped_ignored: "po_opcode op \<in> dropped_opcodes \<Longrightarrow> dispatch emu op = ret (emu, Continue)"
  using subpiece_ignored counts_ignored by (auto simp: dropped_opcodes_def)

lemma entry_points_same:
  assumes "constant_op op"
  shows "execute_op emu op = execute_current_op emu op"
proof -
  have const: "list_all vn_is_constant (po_inrefs op)" using assms by (simp add: constant_op_def)
  have "dispatch emu op = run_bind (fold_constant emu op) (\<lambda>emu. ret (emu, Continue))" if "po_opcode op \<in> unary_opcodes" for emu
    using assms that fold_unary [OF const] by (simp add: constant_op_def dispatch_unary)
  moreover have "dispatch emu op = run_bind (fold_constant emu op) (\<lambda>emu. ret (emu, Continue))" if "po_opcode op \<in> plain_opcodes" for emu
  proof -
    have "po_opcode op \<notin> unary_opcodes" using that by (simp add: plain_opcodes_def)
    with assms that fold_binary [OF const _ that] show ?thesis by (simp add: constant_op_def dispatch_binary)
  qed
  ultimately show ?thesis using assms
    by (cases "po_opcode op")
      (simp_all add: execute_op_def execute_current_op_def constant_op_def plain_opcodes_def unary_opcodes_def jump_opcodes_def dropped_opcodes_def
        load_constants [OF const] store_constants [OF const] fold_merge dispatch_def [of _ op])
qed

lemma entry_points_dropped:
  assumes "po_opcode op \<in> dropped_opcodes" and "list_all vn_is_constant (po_inrefs op)" and "em_within emu 1"
  shows "execute_current_op emu op = ret (emu\<lparr>em_instruction_count := em_instruction_count emu + 1\<rparr>, Continue) \<and>
    execute_op emu op = run_bind (Some (em_evaluate op)) (\<lambda>result.
      ret (case (result, po_output op) of
             (Some val, Some out) \<Rightarrow> em_set_value (emu\<lparr>em_instruction_count := em_instruction_count emu + 1\<rparr>) out val
           | _ \<Rightarrow> emu\<lparr>em_instruction_count := em_instruction_count emu + 1\<rparr>, Continue))"
proof -
  let ?emu = "emu\<lparr>em_instruction_count := em_instruction_count emu + 1\<rparr>"
  have up: "counted body emu = body ?emu" for body using count_up(1) [of emu 0] assms(3) by simp
  have "execute_op emu op = run_bind (fold_constant ?emu op) (\<lambda>emu. ret (emu, Continue))"
    using assms(1) by (auto simp: execute_op_def up dropped_opcodes_def)
  moreover have "run_bind (fold_constant ?emu op) (\<lambda>emu. ret (emu, Continue)) = run_bind (Some (em_evaluate op)) (\<lambda>result.
      ret (case (result, po_output op) of (Some val, Some out) \<Rightarrow> em_set_value ?emu out val | _ \<Rightarrow> ?emu, Continue))"
    using assms(2) by (cases "em_evaluate op") (auto simp: fold_constant_def em_evaluate_def run_bind_def ret_def split: option.splits)
  ultimately show ?thesis using dropped_ignored [OF assms(1)] by (simp add: execute_current_op_def up)
qed

text \<open>
  Property C27. The two entry points of the emulator on operations over constants. They do the same, counter, limit and panics included, when the
  operation is not a jump or a call, has at most one input if it is unary and at most three otherwise, and is none of \<open>CPUI_SUBPIECE\<close>,
  \<open>CPUI_POPCOUNT\<close> and \<open>CPUI_LZCOUNT\<close>. On these three, below the limit, \<open>execute_current_op\<close> only counts, while \<open>execute_op\<close> gives the output the
  value that evaluation has for it.
\<close>

theorem execute_op_agrees:
  "(constant_op op \<longrightarrow> execute_op emu op = execute_current_op emu op) \<and>
    (po_opcode op \<in> dropped_opcodes \<and> list_all vn_is_constant (po_inrefs op) \<and> em_within emu 1 \<longrightarrow>
       execute_current_op emu op = ret (emu\<lparr>em_instruction_count := em_instruction_count emu + 1\<rparr>, Continue) \<and>
       execute_op emu op = run_bind (Some (em_evaluate op)) (\<lambda>result.
         ret (case (result, po_output op) of
                (Some val, Some out) \<Rightarrow> em_set_value (emu\<lparr>em_instruction_count := em_instruction_count emu + 1\<rparr>) out val
              | _ \<Rightarrow> emu\<lparr>em_instruction_count := em_instruction_count emu + 1\<rparr>, Continue)))"
  using entry_points_same entry_points_dropped by blast

definition sample_mult :: pcode_op where
  "sample_mult = \<lparr>po_opcode = CPUI_INT_MULT, po_output = Some (vn_new_register 8 4), po_inrefs = [vn_new_constant 6 4, vn_new_constant 7 4]\<rparr>"

definition sample_count :: pcode_op where
  "sample_count = \<lparr>po_opcode = CPUI_POPCOUNT, po_output = Some (vn_new_register 8 4), po_inrefs = [vn_new_constant 7 4]\<rparr>"

theorem execute_op_agrees_witness:
  "execute_op sample_ram sample_mult = execute_current_op sample_ram sample_mult \<and>
   execute_current_op sample_ram sample_count = ret (sample_ram\<lparr>em_instruction_count := 1\<rparr>, Continue)"
proof -
  have "constant_op sample_mult"
    by (simp add: sample_mult_def constant_op_def plain_opcodes_def unary_opcodes_def jump_opcodes_def dropped_opcodes_def vn_defs)
  moreover have "po_opcode sample_count \<in> dropped_opcodes \<and> list_all vn_is_constant (po_inrefs sample_count) \<and> em_within sample_ram 1"
    by (simp add: sample_count_def dropped_opcodes_def vn_defs em_within_def sample_ram_ok)
  moreover have "em_instruction_count sample_ram = 0" by (simp add: sample_ram_def emulate_new_def)
  ultimately show ?thesis
    using execute_op_agrees [of sample_mult sample_ram] execute_op_agrees [of sample_count sample_ram] by simp
qed

section \<open>Where the emulator departs from the machine\<close>

text \<open>The two entry points differ on a piece of a constant.\<close>

lemma subpiece_differs:
  "execute_op emulate_new \<lparr>po_opcode = CPUI_SUBPIECE, po_output = Some (vn_new_unique 0 1), po_inrefs = [vn_new_constant 0x1234 2, vn_new_constant 1 4]\<rparr> \<noteq>
   execute_current_op emulate_new
     \<lparr>po_opcode = CPUI_SUBPIECE, po_output = Some (vn_new_unique 0 1), po_inrefs = [vn_new_constant 0x1234 2, vn_new_constant 1 4]\<rparr>"
proof -
  have "execute_op emulate_new \<lparr>po_opcode = CPUI_SUBPIECE, po_output = Some (vn_new_unique 0 1), po_inrefs = [vn_new_constant 0x1234 2, vn_new_constant 1 4]\<rparr> =
      ret (em_set_value (emulate_new\<lparr>em_instruction_count := 1\<rparr>) (vn_new_unique 0 1) 0x12, Continue)"
    by (simp add: execute_op_def counted_def emulate_new_def fold_constant_def em_evaluate_def evaluate_binary_def vn_defs calc_mask_def shr_u64_def
      shl_u64_def word_le_nat_alt flip: ret_def)
  moreover have "em_registers (em_set_value (emulate_new\<lparr>em_instruction_count := 1\<rparr>) (vn_new_unique 0 1) 0x12) \<noteq> Map.empty"
    by (simp add: em_set_value_def set_register_def)
  ultimately show ?thesis
    by (auto simp: execute_current_op_def counted_def subpiece_ignored emulate_new_def)
qed

text \<open>Reading a register at a smaller size than it was written with gives the whole value.\<close>

lemma register_read_not_truncated:
  "em_get_value (em_set_value emu (vn_new_register off 8) v) (vn_new_register off 1) = v"
  by (simp add: em_get_value_def em_set_value_def set_register_def get_register_def vn_defs)

text \<open>A load and a store go to the ram, whatever space their first input names.\<close>

lemma load_ignores_space:
  "execute_load emu \<lparr>po_opcode = opc, po_output = out, po_inrefs = [spc, a]\<rparr> =
   execute_load emu \<lparr>po_opcode = opc, po_output = out, po_inrefs = [spc', a]\<rparr>"
  "execute_store emu \<lparr>po_opcode = opc, po_output = out, po_inrefs = [spc, a, v]\<rparr> =
   execute_store emu \<lparr>po_opcode = opc, po_output = out, po_inrefs = [spc', a, v]\<rparr>"
  by (simp_all add: execute_load_def execute_store_def get_in_def)

text \<open>A varnode of the ram space is a register: a store to its address leaves its value.\<close>

lemma ram_varnode_apart:
  "execute_store emu op = ret emu' \<Longrightarrow> em_get_value emu' (vn_new_ram off sz) = em_get_value emu (vn_new_ram off sz)"
  by (auto simp: execute_store_def em_get_value_def get_register_def run_bind_def ret_def split: option.splits res.splits)

end
