(* ===== verification/Part_Map.thy ===== *)
theory Part_Map
  imports Rust_Prelude
begin

text \<open>
  Partition maps: a default value and a sorted map of split points, each with the value of the part that begins there (\<open>PartMap\<close> of
  src/src/rangemap.rs). A \<open>BTreeMap\<close> is the list of its entries in the order of the keys. An operation that returns a mutable
  reference takes the change that the caller makes through it.

  The locale \<open>partition\<close> says what splitting at a point and writing there promises. It is interpreted here, on the map of global
  properties in \<open>Prop_Flags\<close> and on the context database in \<open>Context_Db\<close>.
\<close>

unbundle bit_operations_syntax

section \<open>Sorted maps\<close>

type_synonym ('k, 'v) btree = "('k \<times> 'v) list"

definition bt_ok :: "('k :: linorder, 'v) btree \<Rightarrow> bool" where
  "bt_ok t \<longleftrightarrow> sorted_wrt (<) (map fst t)"

fun bt_insert :: "'k :: linorder \<Rightarrow> 'v \<Rightarrow> ('k, 'v) btree \<Rightarrow> ('k, 'v) btree" where
  "bt_insert k v [] = [(k, v)]"
| "bt_insert k v (e # t) =
     (if k < fst e then (k, v) # e # t else if k = fst e then (k, v) # t else e # bt_insert k v t)"

definition bt_modify :: "('k \<Rightarrow> bool) \<Rightarrow> ('v \<Rightarrow> 'v) \<Rightarrow> ('k, 'v) btree \<Rightarrow> ('k, 'v) btree" where
  "bt_modify sel f t = map (\<lambda>e. if sel (fst e) then (fst e, f (snd e)) else e) t"

text \<open>\<open>range(..=p).next_back()\<close>, \<open>range(..p).next_back()\<close> and the first entry after \<open>p\<close>.\<close>

definition last_where :: "('a \<Rightarrow> bool) \<Rightarrow> 'a list \<Rightarrow> 'a option" where
  "last_where q xs = (case rev (filter q xs) of [] \<Rightarrow> None | x # _ \<Rightarrow> Some x)"

definition bt_upto :: "('k :: linorder, 'v) btree \<Rightarrow> 'k \<Rightarrow> ('k \<times> 'v) option" where
  "bt_upto t p = last_where (\<lambda>e. fst e \<le> p) t"

definition bt_before :: "('k :: linorder, 'v) btree \<Rightarrow> 'k \<Rightarrow> ('k \<times> 'v) option" where
  "bt_before t p = last_where (\<lambda>e. fst e < p) t"

definition bt_after :: "('k :: linorder, 'v) btree \<Rightarrow> 'k \<Rightarrow> ('k \<times> 'v) option" where
  "bt_after t p = (case filter (\<lambda>e. p < fst e) t of [] \<Rightarrow> None | e # _ \<Rightarrow> Some e)"

lemma last_where_append: "last_where q (xs @ [x]) = (if q x then Some x else last_where q xs)"
  by (simp add: last_where_def)

lemma last_where_simps [simp]:
  "last_where q [] = None"
  "last_where q (x # xs) = (case last_where q xs of None \<Rightarrow> if q x then Some x else None | Some y \<Rightarrow> Some y)"
proof -
  show "last_where q [] = None" by (simp add: last_where_def)
  show "last_where q (x # xs) = (case last_where q xs of None \<Rightarrow> if q x then Some x else None | Some y \<Rightarrow> Some y)"
    by (cases "rev (filter q xs)") (auto simp: last_where_def)
qed

lemma last_where_None: "last_where q xs = None \<longleftrightarrow> (\<forall>x\<in>set xs. \<not> q x)"
  by (induction xs) (auto split: option.splits)

lemma last_where_SomeD: "last_where q xs = Some x \<Longrightarrow> x \<in> set xs \<and> q x"
  by (induction xs) (auto split: option.splits if_splits)

lemma bt_ok_simps [simp]:
  "bt_ok []" "bt_ok (e # t) \<longleftrightarrow> (\<forall>x\<in>set t. fst e < fst x) \<and> bt_ok t"
  by (auto simp: bt_ok_def)

lemma set_bt_insert: "bt_ok t \<Longrightarrow> set (bt_insert k v t) = insert (k, v) {e \<in> set t. fst e \<noteq> k}"
  by (induction t) auto

lemma keys_insert: "fst ` set (bt_insert k v t) = insert k (fst ` set t)"
  by (induction t) auto

lemma bt_ok_insert: "bt_ok t \<Longrightarrow> bt_ok (bt_insert k v t)"
  by (induction t) (auto simp: set_bt_insert)

lemma keys_modify [simp]: "map fst (bt_modify sel f t) = map fst t"
  by (simp add: bt_modify_def)

lemma bt_ok_modify [simp]: "bt_ok (bt_modify sel f t) \<longleftrightarrow> bt_ok t"
  by (simp only: bt_ok_def keys_modify)

lemma bt_ok_unique: "bt_ok t \<Longrightarrow> (k, v) \<in> set t \<Longrightarrow> (k, w) \<in> set t \<Longrightarrow> v = w"
  by (induction t) auto

lemma last_where_sorted:
  assumes "sorted_wrt R xs" and "last_where q xs = Some x" and "y \<in> set xs" and "q y"
  shows "y = x \<or> R y x"
  using assms
proof (induction xs)
  case (Cons z xs)
  show ?case
  proof (cases "last_where q xs")
    case None
    then have "\<not> q w" if "w \<in> set xs" for w using that by (simp add: last_where_None)
    with Cons.prems None show ?thesis by (auto split: if_splits)
  next
    case (Some w)
    with Cons.prems(2) have "w = x" by simp
    with Cons.IH Some Cons.prems last_where_SomeD [OF Some] show ?thesis by auto
  qed
qed simp

lemma bt_upto_greatest: "bt_ok t \<Longrightarrow> bt_upto t p = Some (k, v) \<Longrightarrow> e \<in> set t \<Longrightarrow> fst e \<le> p \<Longrightarrow> fst e \<le> k"
  unfolding bt_ok_def bt_upto_def sorted_wrt_map by (drule (3) last_where_sorted) auto

section \<open>Values of the parts\<close>

definition part_value :: "('k :: linorder, 'v) btree \<Rightarrow> 'v \<Rightarrow> 'k \<Rightarrow> 'v" where
  "part_value t d p = (case bt_upto t p of None \<Rightarrow> d | Some e \<Rightarrow> snd e)"

lemma part_value_at:
  assumes "bt_ok t" and "(k, v) \<in> set t" and "k \<le> p" and "\<And>e. e \<in> set t \<Longrightarrow> fst e \<le> p \<Longrightarrow> fst e \<le> k"
  shows "part_value t d p = v"
proof (cases "bt_upto t p")
  case None
  with assms(2,3) show ?thesis by (auto simp: bt_upto_def last_where_None)
next
  case (Some e)
  then have e: "e \<in> set t" "fst e \<le> p" by (auto simp: bt_upto_def dest: last_where_SomeD)
  have "k \<le> fst e" using bt_upto_greatest [OF assms(1), of p "fst e" "snd e" "(k, v)"] Some assms(2,3) by simp
  with assms(4) [OF e] have "fst e = k" by simp
  with e assms(2) bt_ok_unique [OF assms(1), of k "snd e" v] Some show ?thesis by (cases e) (auto simp: part_value_def)
qed

lemma part_value_default: "\<forall>e\<in>set t. \<not> fst e \<le> p \<Longrightarrow> part_value t d p = d"
  using last_where_None [of "\<lambda>e. fst e \<le> p" t] by (simp add: part_value_def bt_upto_def)

text \<open>Where a value comes from: the greatest split point, or the default before all of them.\<close>

lemma part_value_cases:
  assumes "bt_ok t"
  obtains k v where "(k, v) \<in> set t" "k \<le> p" "\<And>e. e \<in> set t \<Longrightarrow> fst e \<le> p \<Longrightarrow> fst e \<le> k" "part_value t d p = v"
  | "\<forall>e\<in>set t. \<not> fst e \<le> p" "part_value t d p = d"
proof (cases "bt_upto t p")
  case None
  then show thesis using that(2) by (auto simp: bt_upto_def last_where_None part_value_default)
next
  case (Some e)
  then have "e \<in> set t" "fst e \<le> p" by (auto simp: bt_upto_def dest: last_where_SomeD)
  then show thesis using that(1) [of "fst e" "snd e"] bt_upto_greatest [OF assms, of p "fst e" "snd e"] Some by (simp add: part_value_def)
qed

lemma part_value_cell:
  assumes "bt_ok t" and "a \<le> b" and "\<And>e. e \<in> set t \<Longrightarrow> \<not> (a < fst e \<and> fst e \<le> b)"
  shows "part_value t d b = part_value t d a"
proof (cases rule: part_value_cases [OF assms(1), of a d])
  case (1 k v)
  have "fst e \<le> k" if "e \<in> set t" "fst e \<le> b" for e using 1(3) assms(3) that not_le by blast
  from part_value_at [OF assms(1) 1(1) _ this] 1(2,4) assms(2) show ?thesis by simp
next
  case 2
  then have "\<forall>e\<in>set t. \<not> fst e \<le> b" using assms(3) not_le by blast
  with 2 show ?thesis by (simp add: part_value_default)
qed

section \<open>The interface\<close>

text \<open>
  \<open>look\<close> is the value at a point, \<open>cuts\<close> the split points, and \<open>put\<close> splits at a point and changes the part that begins there.
\<close>

definition same_part :: "'k :: linorder set \<Rightarrow> 'k \<Rightarrow> 'k \<Rightarrow> bool" where
  "same_part cs a b \<longleftrightarrow> a \<le> b \<and> (\<forall>c\<in>cs. \<not> (a < c \<and> c \<le> b))"

lemma same_part_simps [simp]: "same_part cs a a" "b < a \<Longrightarrow> \<not> same_part cs a b"
  by (auto simp: same_part_def)

locale partition =
  fixes inv :: "'s \<Rightarrow> bool" and look :: "'s \<Rightarrow> 'k :: linorder \<Rightarrow> 'v" and cuts :: "'s \<Rightarrow> 'k set"
    and put :: "'s \<Rightarrow> 'k \<Rightarrow> ('v \<Rightarrow> 'v) \<Rightarrow> 's"
  assumes inv_write: "inv s \<Longrightarrow> inv (put s a f)"
    and cuts_write: "inv s \<Longrightarrow> cuts (put s a f) = insert a (cuts s)"
    and look_write: "inv s \<Longrightarrow> look (put s a f) b = (if same_part (cuts s) a b then f (look s a) else look s b)"
    and look_part: "inv s \<Longrightarrow> same_part (cuts s) a b \<Longrightarrow> look s b = look s a"
begin

lemma look_write_below: "inv s \<Longrightarrow> b < a \<Longrightarrow> look (put s a f) b = look s b"
  by (simp add: look_write)

lemma look_write_at: "inv s \<Longrightarrow> look (put s a f) a = f (look s a)"
  by (simp add: look_write)

text \<open>Splitting alone changes no value.\<close>

lemma look_split: "inv s \<Longrightarrow> look (put s a (\<lambda>v. v)) b = look s b"
  by (simp add: look_write look_part)

text \<open>A part that is bounded first is written over exactly the interval.\<close>

lemma look_write_interval:
  assumes "inv s" and "a < b" and "\<And>c. c \<in> cuts s \<Longrightarrow> \<not> (a < c \<and> c < b)"
  shows "look (put (put s b (\<lambda>v. v)) a f) p = (if a \<le> p \<and> p < b then f (look s a) else look s p)"
proof -
  have "same_part (insert b (cuts s)) a p \<longleftrightarrow> a \<le> p \<and> p < b"
    using assms(2,3) by (auto simp: same_part_def not_less dest: leD intro: le_less_trans)
  then show ?thesis using look_write [OF inv_write [OF assms(1), of b], of "\<lambda>v. v" a f p] cuts_write [OF assms(1)] look_split [OF assms(1)]
    by simp
qed

lemma look_write_twice:
  assumes "inv s"
  shows "look (put (put s a f) a g) p = look (put s a (\<lambda>v. g (f v))) p"
proof -
  have "same_part (insert a (cuts s)) a p = same_part (cuts s) a p" by (auto simp: same_part_def)
  then show ?thesis using assms by (simp add: look_write inv_write cuts_write)
qed

end

section \<open>The generic map\<close>

record ('k, 'v) part_map =
  pm_database :: "('k, 'v) btree"
  pm_default :: 'v

definition pm_new :: "'v \<Rightarrow> ('k, 'v) part_map" where
  "pm_new d = \<lparr>pm_database = [], pm_default = d\<rparr>"

definition pm_get_value :: "('k :: linorder, 'v) part_map \<Rightarrow> 'k \<Rightarrow> 'v" where
  "pm_get_value m pnt = (case bt_upto (pm_database m) pnt of Some e \<Rightarrow> snd e | None \<Rightarrow> pm_default m)"

definition pm_get_value_mut :: "('k :: linorder, 'v) part_map \<Rightarrow> 'k \<Rightarrow> ('v \<Rightarrow> 'v) \<Rightarrow> ('k, 'v) part_map" where
  "pm_get_value_mut m pnt f = (case bt_upto (pm_database m) pnt of
      Some e \<Rightarrow> m\<lparr>pm_database := bt_modify (\<lambda>k. k = fst e) f (pm_database m)\<rparr>
    | None \<Rightarrow> m\<lparr>pm_default := f (pm_default m)\<rparr>)"

definition pm_split :: "('k :: linorder, 'v) part_map \<Rightarrow> 'k \<Rightarrow> ('v \<Rightarrow> 'v) \<Rightarrow> ('k, 'v) part_map" where
  "pm_split m pnt f =
     (if map_of (pm_database m) pnt \<noteq> None
      then m\<lparr>pm_database := bt_modify (\<lambda>k. k = pnt) f (pm_database m)\<rparr>
      else (let val = (case bt_before (pm_database m) pnt of Some e \<Rightarrow> snd e | None \<Rightarrow> pm_default m)
            in m\<lparr>pm_database := bt_insert pnt (f val) (pm_database m)\<rparr>))"

text \<open>The range between two excluded bounds panics unless the first is below the second.\<close>

definition pm_clear_range :: "('k :: linorder, 'v) part_map \<Rightarrow> 'k \<Rightarrow> 'k \<Rightarrow> ('k, 'v) part_map res" where
  "pm_clear_range m pnt1 pnt2 =
     (let m = pm_split m pnt1 (\<lambda>v. v);
          m = pm_split m pnt2 (\<lambda>v. v)
      in if pnt1 < pnt2
         then Ret (m\<lparr>pm_database := filter (\<lambda>e. \<not> (pnt1 < fst e \<and> fst e < pnt2)) (pm_database m)\<rparr>)
         else Panic)"

definition pm_clear :: "('k, 'v) part_map \<Rightarrow> ('k, 'v) part_map" where
  "pm_clear m = m\<lparr>pm_database := []\<rparr>"

definition pm_num_splits :: "('k, 'v) part_map \<Rightarrow> usize" where
  "pm_num_splits m = length (pm_database m)"

definition pm_bounds :: "('k :: {linorder, zero}, 'v) part_map \<Rightarrow> 'k \<Rightarrow> 'v \<times> 'k \<times> 'k \<times> i32" where
  "pm_bounds m pnt =
     (if pm_database m = [] then (pm_default m, 0, 0, 3)
      else case (bt_upto (pm_database m) pnt, bt_after (pm_database m) pnt) of
          (Some lo, Some hi) \<Rightarrow> (snd lo, fst lo, fst hi, 0)
        | (Some lo, None) \<Rightarrow> (snd lo, fst lo, 0, 2)
        | (None, Some hi) \<Rightarrow> (pm_default m, 0, fst hi, 1)
        | (None, None) \<Rightarrow> (pm_default m, 0, 0, 3))"

section \<open>Splitting and writing\<close>

definition pm_ok :: "('k :: linorder, 'v) part_map \<Rightarrow> bool" where
  "pm_ok m \<longleftrightarrow> bt_ok (pm_database m)"

definition pm_cuts :: "('k, 'v) part_map \<Rightarrow> 'k set" where
  "pm_cuts m = fst ` set (pm_database m)"

lemma pm_get_value_eq: "pm_get_value m p = part_value (pm_database m) (pm_default m) p"
  by (simp add: pm_get_value_def part_value_def split: option.split)

lemma bt_before_upto: "p \<notin> fst ` set t \<Longrightarrow> bt_before t p = bt_upto t p"
  unfolding bt_before_def bt_upto_def last_where_def
  by (rule arg_cong [where f = "\<lambda>xs. case rev xs of [] \<Rightarrow> None | x # _ \<Rightarrow> Some x"], rule filter_cong) (auto simp: le_less)

text \<open>One entry changed, or one entry put in: the values of its part change, and no other.\<close>

lemma bt_upto_modify:
  "bt_upto (bt_modify sel f t) b = map_option (\<lambda>e. if sel (fst e) then (fst e, f (snd e)) else e) (bt_upto t b)"
  unfolding bt_upto_def bt_modify_def by (induction t) (auto split: option.split)

lemma part_value_modify:
  assumes "bt_ok t" and "a \<in> fst ` set t"
  shows "part_value (bt_modify (\<lambda>k. k = a) f t) d b =
    (if same_part (fst ` set t) a b then f (part_value t d a) else part_value t d b)"
proof -
  from assms(2) obtain v where v: "(a, v) \<in> set t" by auto
  then have at: "part_value t d a = v" using part_value_at [OF assms(1) v] by simp
  have "fst e = a \<longleftrightarrow> same_part (fst ` set t) a b" if "bt_upto t b = Some e" for e
  proof -
    have e: "e \<in> set t" "fst e \<le> b" using that by (auto simp: bt_upto_def dest: last_where_SomeD)
    have "fst x \<le> fst e" if "x \<in> set t" "fst x \<le> b" for x
      using bt_upto_greatest [OF assms(1), of b "fst e" "snd e" x] that \<open>bt_upto t b = Some e\<close> by simp
    note great = this
    show ?thesis
    proof
      assume "fst e = a"
      with e great show "same_part (fst ` set t) a b" unfolding same_part_def using leD by blast
    next
      assume "same_part (fst ` set t) a b"
      then have "a \<le> b" "\<not> a < fst e" using e by (auto simp: same_part_def)
      with great [OF v] show "fst e = a" by simp
    qed
  qed
  moreover have "\<not> same_part (fst ` set t) a b" if "bt_upto t b = None"
    using that v by (auto simp: bt_upto_def last_where_None same_part_def)
  moreover have "snd e = v" if "bt_upto t b = Some e" "fst e = a" for e
    using bt_ok_unique [OF assms(1), of a "snd e" v] v that last_where_SomeD [of _ t e] by (cases e) (auto simp: bt_upto_def)
  ultimately show ?thesis using at by (auto simp: part_value_def bt_upto_modify split: option.split)
qed

lemma part_value_modify_between:
  assumes "bt_ok t" and "a \<in> fst ` set t" and "b \<in> fst ` set t"
  shows "part_value (bt_modify (\<lambda>k. a \<le> k \<and> k < b) f t) d p = (if a \<le> p \<and> p < b then f (part_value t d p) else part_value t d p)"
proof (cases "bt_upto t p")
  case None
  then have "\<not> a \<le> p" using assms(2) by (auto simp: bt_upto_def last_where_None)
  with None show ?thesis by (simp add: part_value_def bt_upto_modify)
next
  case (Some e)
  have e: "fst e \<le> p" using Some by (auto simp: bt_upto_def dest: last_where_SomeD)
  have "c \<le> fst e" if "c \<in> fst ` set t" "c \<le> p" for c
    using bt_upto_greatest [OF assms(1), of p "fst e" "snd e"] Some that by auto
  with e assms(2,3) have "a \<le> fst e \<and> fst e < b \<longleftrightarrow> a \<le> p \<and> p < b" by (meson le_less_trans leD linear not_le order_trans)
  with Some show ?thesis by (simp add: part_value_def bt_upto_modify)
qed

lemma part_value_insert:
  assumes "bt_ok t" and "a \<notin> fst ` set t"
  shows "part_value (bt_insert a w t) d b = (if same_part (fst ` set t) a b then w else part_value t d b)"
proof -
  have t: "set (bt_insert a w t) = insert (a, w) (set t)" using assms by (auto simp: set_bt_insert)
  note ok = bt_ok_insert [OF assms(1), of a w]
  show ?thesis
  proof (cases "same_part (fst ` set t) a b")
    case True
    then have "part_value (bt_insert a w t) d b = w"
      by (intro part_value_at [OF ok, of a]) (auto simp: t same_part_def not_less)
    with True show ?thesis by simp
  next
    case False
    show ?thesis
    proof (cases rule: part_value_cases [OF assms(1), of b d])
      case (1 k v)
      have "a \<le> k" if "a \<le> b"
      proof -
        from False that obtain e where "e \<in> set t" "a < fst e" "fst e \<le> b" by (auto simp: same_part_def)
        with 1(3) [of e] show ?thesis by simp
      qed
      then have "part_value (bt_insert a w t) d b = v" using 1 by (intro part_value_at [OF ok, of k]) (auto simp: t)
      with 1 False show ?thesis by simp
    next
      case 2
      with False have "\<not> a \<le> b" by (auto simp: same_part_def)
      with 2 have "part_value (bt_insert a w t) d b = d" by (intro part_value_default) (simp add: t)
      with 2 False show ?thesis by simp
    qed
  qed
qed

lemma pm_split_database:
  assumes "pm_ok m"
  shows "pm_database (pm_split m a f) =
      (if a \<in> pm_cuts m then bt_modify (\<lambda>k. k = a) f (pm_database m) else bt_insert a (f (pm_get_value m a)) (pm_database m))"
    and "pm_default (pm_split m a f) = pm_default m"
proof -
  have "map_of (pm_database m) a \<noteq> None \<longleftrightarrow> a \<in> pm_cuts m" by (auto simp: pm_cuts_def map_of_eq_None_iff)
  moreover have "(case bt_before (pm_database m) a of Some e \<Rightarrow> snd e | None \<Rightarrow> pm_default m) = pm_get_value m a" if "a \<notin> pm_cuts m"
    using that by (simp add: pm_cuts_def pm_get_value_def bt_before_upto)
  ultimately show "pm_database (pm_split m a f) =
      (if a \<in> pm_cuts m then bt_modify (\<lambda>k. k = a) f (pm_database m) else bt_insert a (f (pm_get_value m a)) (pm_database m))"
    and "pm_default (pm_split m a f) = pm_default m"
    by (simp_all add: pm_split_def)
qed

lemma pm_ok_split: "pm_ok m \<Longrightarrow> pm_ok (pm_split m a f)"
  by (simp add: pm_ok_def pm_split_database bt_ok_insert)

lemma pm_cuts_split: "pm_ok m \<Longrightarrow> pm_cuts (pm_split m a f) = insert a (pm_cuts m)"
proof -
  assume ok: "pm_ok m"
  have "fst ` set (bt_modify (\<lambda>k. k = a) f (pm_database m)) = pm_cuts m"
    by (simp add: pm_cuts_def flip: set_map)
  moreover have "fst ` set (bt_insert a w (pm_database m)) = insert a (pm_cuts m)" for w
    by (simp add: pm_cuts_def keys_insert)
  ultimately show ?thesis using ok by (auto simp: pm_split_database pm_cuts_def [of "pm_split m a f"])
qed

lemma pm_get_split:
  assumes "pm_ok m"
  shows "pm_get_value (pm_split m a f) b = (if same_part (pm_cuts m) a b then f (pm_get_value m a) else pm_get_value m b)"
  using assms part_value_modify [of "pm_database m" a f "pm_default m" b] part_value_insert [of "pm_database m" a]
  by (simp add: pm_split_database [OF assms] pm_get_value_eq pm_cuts_def pm_ok_def)

lemma pm_get_part: "pm_ok m \<Longrightarrow> same_part (pm_cuts m) a b \<Longrightarrow> pm_get_value m b = pm_get_value m a"
  unfolding pm_get_value_eq by (rule part_value_cell) (auto simp: pm_ok_def same_part_def pm_cuts_def)

interpretation pm: partition pm_ok pm_get_value pm_cuts pm_split
  by unfold_locales (simp_all add: pm_ok_split pm_cuts_split pm_get_split, rule pm_get_part)

section \<open>Clearing a range\<close>

lemma bt_ok_filter: "bt_ok t \<Longrightarrow> bt_ok (filter q t)"
  by (induction t) auto

text \<open>Dropping split points keeps the values of the parts that keep their split point.\<close>

lemma part_value_filter:
  assumes "bt_ok t" and "\<And>k. k \<in> fst ` set t \<Longrightarrow> k \<le> p \<Longrightarrow> (\<And>c. c \<in> fst ` set t \<Longrightarrow> c \<le> p \<Longrightarrow> c \<le> k) \<Longrightarrow> q k"
  shows "part_value (filter (\<lambda>e. q (fst e)) t) d p = part_value t d p"
proof (cases rule: part_value_cases [OF assms(1), of p d])
  case (1 k v)
  then have "q k" using assms(2) by (force simp: image_iff)
  with 1 have "part_value (filter (\<lambda>e. q (fst e)) t) d p = v"
    by (intro part_value_at [OF bt_ok_filter [OF assms(1)], of k]) auto
  with 1 show ?thesis by simp
next
  case 2
  then show ?thesis by (simp add: part_value_default)
qed

text \<open>
  Property C29. Clearing a range of a partition map gives every point of it the value at its start, changes no other value, and leaves no split point
  inside; it panics when the range is empty.
\<close>

theorem pm_clear_range_exact:
  assumes "pm_ok m"
  shows "if a < b
    then (\<exists>m'. pm_clear_range m a b = Ret m' \<and> pm_ok m' \<and>
      (\<forall>p. pm_get_value m' p = (if a \<le> p \<and> p < b then pm_get_value m a else pm_get_value m p)) \<and>
      pm_cuts m' = insert a (insert b {c \<in> pm_cuts m. \<not> (a < c \<and> c < b)}))
    else pm_clear_range m a b = Panic"
proof (cases "a < b")
  case True
  let ?s = "pm_split (pm_split m a (\<lambda>v. v)) b (\<lambda>v. v)"
  let ?m = "?s\<lparr>pm_database := filter (\<lambda>e. \<not> (a < fst e \<and> fst e < b)) (pm_database ?s)\<rparr>"
  have ok: "pm_ok ?s" and val: "pm_get_value ?s p = pm_get_value m p" for p
    using assms by (simp_all add: pm_ok_split pm.look_split)
  have cuts: "pm_cuts ?s = insert b (insert a (pm_cuts m))" using assms by (simp add: pm_ok_split pm_cuts_split)
  then have keys: "a \<in> fst ` set (pm_database ?s)" "b \<in> fst ` set (pm_database ?s)" by (simp_all add: pm_cuts_def)
  have ok': "pm_ok ?m" using ok by (simp add: pm_ok_def bt_ok_filter)
  have cuts': "pm_cuts ?m = insert a (insert b {c \<in> pm_cuts m. \<not> (a < c \<and> c < b)})"
  proof -
    have "pm_cuts ?m = {c \<in> pm_cuts ?s. \<not> (a < c \<and> c < b)}" by (auto simp: pm_cuts_def)
    then show ?thesis by (auto simp: cuts)
  qed
  have out: "pm_get_value ?m p = pm_get_value m p" if "\<not> (a < p \<and> p < b)" for p
  proof -
    have "\<not> (a < k \<and> k < b)" if "k \<le> p" "\<And>c. c \<in> fst ` set (pm_database ?s) \<Longrightarrow> c \<le> p \<Longrightarrow> c \<le> k" for k
      using that(1) that(2) [OF keys(2)] \<open>\<not> (a < p \<and> p < b)\<close> by (auto simp: not_less)
    then have "pm_get_value ?m p = pm_get_value ?s p"
      using ok part_value_filter [of "pm_database ?s" p "\<lambda>k. \<not> (a < k \<and> k < b)"] by (simp add: pm_get_value_eq pm_ok_def)
    then show ?thesis by (simp add: val)
  qed
  have "pm_get_value ?m p = pm_get_value m a" if "a \<le> p" "p < b" for p
  proof -
    have "same_part (pm_cuts ?m) a p" unfolding cuts' using that by (auto simp: same_part_def)
    from pm_get_part [OF ok' this] out [of a] show ?thesis by simp
  qed
  with True ok' cuts' out show ?thesis by (auto simp: pm_clear_range_def Let_def)
qed (simp add: pm_clear_range_def Let_def)

theorem pm_clear_range_exact_witness:
  "\<exists>m'. pm_clear_range (pm_split (pm_new (0 :: nat)) (5 :: nat) (\<lambda>v. 7)) 3 9 = Ret m' \<and> pm_get_value m' 6 = 0 \<and> pm_get_value m' 9 = 7"
proof -
  have "pm_ok (pm_split (pm_new (0 :: nat)) (5 :: nat) (\<lambda>v. 7))" by (intro pm_ok_split) (simp add: pm_ok_def pm_new_def)
  from pm_clear_range_exact [OF this, of 3 9] show ?thesis
    by (auto simp: pm_get_value_def pm_split_def pm_new_def bt_upto_def bt_before_def)
qed

section \<open>Bounds of a part\<close>

lemma bt_after_least:
  assumes "bt_ok t" and "bt_after t p = Some e"
  shows "e \<in> set t" and "p < fst e" and "x \<in> set t \<Longrightarrow> p < fst x \<Longrightarrow> fst e \<le> fst x"
proof -
  from assms(2) obtain rest where f: "filter (\<lambda>e. p < fst e) t = e # rest" by (auto simp: bt_after_def split: list.splits)
  then have "e \<in> set (filter (\<lambda>e. p < fst e) t)" by simp
  then show "e \<in> set t" and "p < fst e" by simp_all
  have "bt_ok (e # rest)" using bt_ok_filter [OF assms(1)] f by metis
  moreover have "x = e \<or> x \<in> set rest" if "x \<in> set t" "p < fst x"
  proof -
    have "x \<in> set (filter (\<lambda>e. p < fst e) t)" using that by simp
    then show ?thesis by (simp add: f)
  qed
  ultimately show "fst e \<le> fst x" if "x \<in> set t" "p < fst x" using that by fastforce
qed

lemma bt_after_None: "bt_after t p = None \<longleftrightarrow> (\<forall>e\<in>set t. \<not> p < fst e)"
proof -
  have "(case xs of [] \<Rightarrow> None | e # _ \<Rightarrow> Some e) = None \<longleftrightarrow> xs = []" for xs :: "('a \<times> 'b) list" by (cases xs) simp_all
  then show ?thesis by (simp add: bt_after_def filter_empty_conv)
qed

lemma part_value_between:
  assumes "bt_ok t" and "\<And>lo. bt_upto t p = Some lo \<Longrightarrow> fst lo \<le> q" and "\<And>hi. bt_after t p = Some hi \<Longrightarrow> q < fst hi"
  shows "part_value t d q = part_value t d p"
proof -
  have up: "\<not> (p < fst e \<and> fst e \<le> q)" if "e \<in> set t" for e
  proof (cases "bt_after t p")
    case None
    with that show ?thesis by (simp add: bt_after_None)
  next
    case (Some hi)
    from bt_after_least(3) [OF assms(1) Some that] assms(3) [OF Some] show ?thesis by auto
  qed
  show ?thesis
  proof (cases "bt_upto t p")
    case None
    then have "\<forall>e\<in>set t. \<not> fst e \<le> p" by (simp add: bt_upto_def last_where_None)
    moreover from this up have "\<forall>e\<in>set t. \<not> fst e \<le> q" by (auto simp: not_le)
    ultimately show ?thesis by (simp add: part_value_default)
  next
    case (Some lo)
    then have lo: "lo \<in> set t" by (auto simp: bt_upto_def dest: last_where_SomeD)
    have "fst e \<le> fst lo" if "e \<in> set t" "fst e \<le> q" for e
      using bt_upto_greatest [OF assms(1), of p "fst lo" "snd lo" e] up [of e] that Some by (auto simp: not_less)
    with part_value_at [OF assms(1), of "fst lo" "snd lo" q d] lo assms(2) Some show ?thesis by (simp add: part_value_def [of t d p])
  qed
qed

text \<open>
  The bounds reported for a point tell by their code which of the two exist, and the value reported is that of
  every point between them.
\<close>

theorem pm_bounds_enclose:
  assumes "pm_ok m" and "pm_bounds m p = (v, before, after, code)"
  shows "pm_get_value m p = v \<and> (code \<in> {0, 2} \<longleftrightarrow> (\<exists>c\<in>pm_cuts m. c \<le> p)) \<and> (code \<in> {0, 1} \<longleftrightarrow> (\<exists>c\<in>pm_cuts m. p < c)) \<and>
    (\<forall>q. (code \<in> {0, 2} \<longrightarrow> before \<le> q) \<longrightarrow> (code \<in> {0, 1} \<longrightarrow> q < after) \<longrightarrow> pm_get_value m q = v)"
proof -
  let ?t = "pm_database m"
  have ok: "bt_ok ?t" using assms(1) by (simp add: pm_ok_def)
  have v: "pm_get_value m p = v"
    using assms(2) by (auto simp: pm_bounds_def pm_get_value_def bt_upto_def split: if_splits option.splits)
  have lower: "(\<exists>c\<in>pm_cuts m. c \<le> p) \<longleftrightarrow> bt_upto ?t p \<noteq> None" by (auto simp: pm_cuts_def bt_upto_def last_where_None)
  have upper: "(\<exists>c\<in>pm_cuts m. p < c) \<longleftrightarrow> bt_after ?t p \<noteq> None" by (auto simp: pm_cuts_def bt_after_None)
  have code: "code \<in> {0, 2} \<longleftrightarrow> bt_upto ?t p \<noteq> None" "code \<in> {0, 1} \<longleftrightarrow> bt_after ?t p \<noteq> None"
    "bt_upto ?t p = Some lo \<Longrightarrow> before = fst lo" "bt_after ?t p = Some hi \<Longrightarrow> after = fst hi" for lo hi
    using assms(2) by (auto simp: pm_bounds_def bt_upto_def bt_after_def split: if_splits option.splits)
  have "pm_get_value m q = v" if "code \<in> {0, 2} \<longrightarrow> before \<le> q" "code \<in> {0, 1} \<longrightarrow> q < after" for q
    using part_value_between [OF ok, of p q "pm_default m"] that code v by (auto simp: pm_get_value_eq)
  with v lower upper code show ?thesis by blast
qed

theorem pm_bounds_enclose_witness:
  "pm_bounds (pm_split (pm_split (pm_new (0 :: nat)) (5 :: nat) (\<lambda>v. 7)) 9 (\<lambda>v. 8)) 6 = (7, 5, 9, 0) \<and>
   pm_get_value (pm_split (pm_split (pm_new (0 :: nat)) (5 :: nat) (\<lambda>v. 7)) 9 (\<lambda>v. 8)) 8 = 7"
proof -
  let ?m = "pm_split (pm_split (pm_new (0 :: nat)) (5 :: nat) (\<lambda>v. 7)) 9 (\<lambda>v. 8)"
  have "pm_ok ?m" by (intro pm_ok_split) (simp add: pm_ok_def pm_new_def)
  moreover have b: "pm_bounds ?m 6 = (7, 5, 9, 0)"
    by (simp add: pm_bounds_def pm_split_def pm_new_def bt_upto_def bt_before_def bt_after_def)
  ultimately show ?thesis using pm_bounds_enclose [of ?m 6 7 5 9 0] by auto
qed

section \<open>Writing without splitting\<close>

text \<open>Writing through the reference of \<open>get_value_mut\<close> changes the whole part of the point, from its split point on.\<close>

lemma pm_get_value_mut_part:
  assumes "pm_ok m" and "bt_upto (pm_database m) p = Some e"
  shows "pm_get_value_mut m p f = pm_split m (fst e) f" and "same_part (pm_cuts m) (fst e) p"
proof -
  have e: "e \<in> set (pm_database m)" "fst e \<le> p" using assms(2) by (auto simp: bt_upto_def dest: last_where_SomeD)
  then have "fst e \<in> pm_cuts m" by (simp add: pm_cuts_def)
  then have "map_of (pm_database m) (fst e) \<noteq> None" by (auto simp: pm_cuts_def map_of_eq_None_iff)
  then show "pm_get_value_mut m p f = pm_split m (fst e) f" by (simp add: pm_get_value_mut_def pm_split_def assms(2))
  show "same_part (pm_cuts m) (fst e) p"
  proof -
    have "fst x \<le> fst e" if "x \<in> set (pm_database m)" "fst x \<le> p" for x
      using bt_upto_greatest [of "pm_database m" p "fst e" "snd e" x] assms that by (simp add: pm_ok_def)
    with e show ?thesis unfolding same_part_def pm_cuts_def by (metis (no_types, lifting) image_iff leD)
  qed
qed

end
