(* ===== verification/Prop_Flags.thy ===== *)
theory Prop_Flags
  imports Range_List Part_Map Addr_Laws
begin

text \<open>
  The map of global properties of memory (\<open>PartMap\<close> and the property operations of \<open>Database\<close>, src/src/database.rs): flags over ranges of addresses, kept
  as a partition map whose keys are addresses in the order of \<open>Address::cmp\<close> (src/src/address.rs): an address without a space comes before every address
  of a space, spaces come in the order of their indices, and offsets decide inside a space. A key is stored as \<open>ad_key\<close> of its address, the tuple by
  which that order compares (the interpretation \<open>ad_ord\<close> of \<open>Addr_Laws\<close>), under the table of interned spaces. The debug assertions of the source,
  that keys and queries carry no space, are compiled out of release builds and left out here.
\<close>

unbundle bit_operations_syntax

type_synonym address_key = "nat \<times> int \<times> u64 \<times> nat"

type_synonym flag_base = "(address_key, u32) part_map"

section \<open>The map\<close>

text \<open>\<open>entry(k).or_insert(d)\<close>, with the change made through the reference.\<close>

definition bt_entry :: "'k :: linorder \<Rightarrow> 'v \<Rightarrow> ('v \<Rightarrow> 'v) \<Rightarrow> ('k, 'v) btree \<Rightarrow> ('k, 'v) btree" where
  "bt_entry k d f t = (if map_of t k = None then bt_insert k (f d) t else bt_modify (\<lambda>j. j = k) f t)"

definition flag_get_value :: "space_table \<Rightarrow> flag_base \<Rightarrow> address \<Rightarrow> u32" where
  "flag_get_value tbl m pnt = (case bt_upto (pm_database m) (ad_key tbl pnt) of Some e \<Rightarrow> snd e | None \<Rightarrow> pm_default m)"

definition flag_split :: "space_table \<Rightarrow> flag_base \<Rightarrow> address \<Rightarrow> (u32 \<Rightarrow> u32) \<Rightarrow> flag_base" where
  "flag_split tbl m pnt f = (case bt_before (pm_database m) (ad_key tbl pnt) of
      Some e \<Rightarrow> m\<lparr>pm_database := bt_entry (ad_key tbl pnt) (snd e) f (pm_database m)\<rparr>
    | None \<Rightarrow> m\<lparr>pm_database := bt_entry (ad_key tbl pnt) (pm_default m) f (pm_database m)\<rparr>)"

text \<open>A range of a \<open>BTreeMap\<close> whose start is above its end panics.\<close>

definition flag_change_range :: "space_table \<Rightarrow> flag_base \<Rightarrow> (u32 \<Rightarrow> u32) \<Rightarrow> address \<Rightarrow> address \<Rightarrow> flag_base res" where
  "flag_change_range tbl m f first last_open =
     (let m = flag_split tbl m first (\<lambda>v. v);
          m = flag_split tbl m last_open (\<lambda>v. v)
      in if ad_key tbl first \<le> ad_key tbl last_open
         then Ret (m\<lparr>pm_database := bt_modify (\<lambda>k. ad_key tbl first \<le> k \<and> k < ad_key tbl last_open) f (pm_database m)\<rparr>)
         else Panic)"

definition flag_set_property_range :: "space_table \<Rightarrow> flag_base \<Rightarrow> u32 \<Rightarrow> address \<Rightarrow> address \<Rightarrow> flag_base res" where
  "flag_set_property_range tbl m flags first last_open = flag_change_range tbl m (\<lambda>value. value OR flags) first last_open"

definition flag_clear_property_range :: "space_table \<Rightarrow> flag_base \<Rightarrow> u32 \<Rightarrow> address \<Rightarrow> address \<Rightarrow> flag_base res" where
  "flag_clear_property_range tbl m flags first last_open = flag_change_range tbl m (\<lambda>value. value AND NOT flags) first last_open"

section \<open>The operations of the database\<close>

definition get_property :: "space_table \<Rightarrow> flag_base \<Rightarrow> address \<Rightarrow> u32" where
  "get_property tbl m addr = flag_get_value tbl m addr"

definition set_property_range :: "space_table \<Rightarrow> flag_base \<Rightarrow> u32 \<Rightarrow> range \<Rightarrow> flag_base res" where
  "set_property_range tbl m flags r =
     res_bind (range_last_addr_open tbl r) (\<lambda>addr2. flag_set_property_range tbl m flags (rg_first r) addr2)"

definition clear_property_range :: "space_table \<Rightarrow> flag_base \<Rightarrow> u32 \<Rightarrow> range \<Rightarrow> flag_base res" where
  "clear_property_range tbl m flags r =
     res_bind (range_last_addr_open tbl r) (\<lambda>addr2. flag_clear_property_range tbl m flags (rg_first r) addr2)"

section \<open>A partition map\<close>

text \<open>The keys are sorted, and each is the key of an address whose space is in the table.\<close>

definition flags_ok :: "space_table \<Rightarrow> flag_base \<Rightarrow> bool" where
  "flags_ok tbl m \<longleftrightarrow> pm_ok m \<and> pm_cuts m \<subseteq> ad_key tbl ` {a. ad_in tbl a}"

lemma flag_get_value_pm: "flag_get_value tbl m a = pm_get_value m (ad_key tbl a)"
  by (simp add: flag_get_value_def pm_get_value_def)

lemma flag_split_pm: "flag_split tbl m a f = pm_split m (ad_key tbl a) f"
  by (auto simp: flag_split_def pm_split_def bt_entry_def split: option.split)

lemma flags_ok_split: "flags_ok tbl m \<Longrightarrow> ad_in tbl a \<Longrightarrow> flags_ok tbl (flag_split tbl m a f)"
  by (auto simp: flags_ok_def flag_split_pm pm_ok_split pm_cuts_split)

text \<open>The order of the keys: offsets among the addresses without a space, and all of these before the others.\<close>

lemma ad_key_spaceless [simp]:
  "ad_space a = None \<Longrightarrow> ad_space b = None \<Longrightarrow> ad_key tbl a \<le> ad_key tbl b \<longleftrightarrow> ad_offset a \<le> ad_offset b"
  "ad_space a = None \<Longrightarrow> ad_space b = None \<Longrightarrow> ad_key tbl a < ad_key tbl b \<longleftrightarrow> ad_offset a < ad_offset b"
  "ad_space a = None \<Longrightarrow> ad_space b = None \<Longrightarrow> ad_key tbl a = ad_key tbl b \<longleftrightarrow> ad_offset a = ad_offset b"
  by (auto simp: ad_key_def)

lemma ad_key_tagged: "ad_space a = None \<Longrightarrow> ad_space b = Some t \<Longrightarrow> ad_key tbl a < ad_key tbl b"
  by (simp add: ad_key_def)

lemma ad_new_fields [simp]: "ad_space (ad_new k) = None" "ad_offset (ad_new k) = k" "ad_in tbl (ad_new k)"
  by (simp_all add: ad_new_def ad_in_def)

definition flag_cuts :: "space_table \<Rightarrow> flag_base \<Rightarrow> u64 set" where
  "flag_cuts tbl m = {k. ad_key tbl (ad_new k) \<in> pm_cuts m}"

lemma same_part_flags:
  assumes "flags_ok tbl m"
  shows "same_part (pm_cuts m) (ad_key tbl (ad_new a)) (ad_key tbl (ad_new b)) \<longleftrightarrow> same_part (flag_cuts tbl m) a b"
proof -
  have "\<exists>k. c = ad_key tbl (ad_new k)" if c: "c \<in> pm_cuts m" "c \<le> ad_key tbl (ad_new b)" for c
  proof -
    obtain x where x: "c = ad_key tbl x" using assms c(1) by (auto simp: flags_ok_def)
    have "ad_space x = None" using ad_key_tagged [of "ad_new b" x] c(2) by (cases "ad_space x") (auto simp: x dest: leD)
    then have "x = ad_new (ad_offset x)" by (cases x) (simp add: ad_new_def)
    with x show ?thesis by metis
  qed
  then show ?thesis by (auto simp: same_part_def flag_cuts_def) (metis ad_key_spaceless(1,2) ad_new_fields(1,2))
qed

interpretation flags: partition "flags_ok tbl" "\<lambda>m k. flag_get_value tbl m (ad_new k)" "flag_cuts tbl" "\<lambda>m k. flag_split tbl m (ad_new k)" for tbl
proof unfold_locales
  fix m a b and f :: "u32 \<Rightarrow> u32" assume m: "flags_ok tbl m"
  then have ok: "pm_ok m" by (simp add: flags_ok_def)
  show "flags_ok tbl (flag_split tbl m (ad_new a) f)" using flags_ok_split [OF m] by simp
  show "flag_cuts tbl (flag_split tbl m (ad_new a) f) = insert a (flag_cuts tbl m)"
    by (auto simp: flag_cuts_def flag_split_pm pm_cuts_split [OF ok])
  show "flag_get_value tbl (flag_split tbl m (ad_new a) f) (ad_new b) =
      (if same_part (flag_cuts tbl m) a b then f (flag_get_value tbl m (ad_new a)) else flag_get_value tbl m (ad_new b))"
    unfolding flag_get_value_pm flag_split_pm same_part_flags [OF m, symmetric] by (rule pm.look_write [OF ok])
  show "same_part (flag_cuts tbl m) a b \<Longrightarrow> flag_get_value tbl m (ad_new b) = flag_get_value tbl m (ad_new a)"
    unfolding flag_get_value_pm same_part_flags [OF m, symmetric] by (rule pm.look_part [OF ok])
qed

lemma flag_change_range_exact:
  assumes "flags_ok tbl m" and "ad_in tbl first" and "ad_in tbl last_open"
  shows "if ad_key tbl first \<le> ad_key tbl last_open
    then (\<exists>m'. flag_change_range tbl m f first last_open = Ret m' \<and> flags_ok tbl m' \<and>
      (\<forall>a. flag_get_value tbl m' a = (if ad_key tbl first \<le> ad_key tbl a \<and> ad_key tbl a < ad_key tbl last_open
         then f (flag_get_value tbl m a) else flag_get_value tbl m a)))
    else flag_change_range tbl m f first last_open = Panic"
proof (cases "ad_key tbl first \<le> ad_key tbl last_open")
  case True
  let ?s = "pm_split (pm_split m (ad_key tbl first) (\<lambda>v. v)) (ad_key tbl last_open) (\<lambda>v. v)"
  have m: "pm_ok m" using assms(1) by (simp add: flags_ok_def)
  then have ok: "pm_ok ?s" and val: "pm_get_value ?s p = pm_get_value m p" for p by (simp_all add: pm_ok_split pm.look_split)
  have fok: "flags_ok tbl ?s" using flags_ok_split [OF flags_ok_split [OF assms(1,2)] assms(3)] by (simp add: flag_split_pm)
  have "pm_cuts ?s = insert (ad_key tbl last_open) (insert (ad_key tbl first) (pm_cuts m))" using m by (simp add: pm_ok_split pm_cuts_split)
  then have "ad_key tbl first \<in> fst ` set (pm_database ?s)" "ad_key tbl last_open \<in> fst ` set (pm_database ?s)" by (simp_all add: pm_cuts_def)
  from part_value_modify_between [OF _ this, of f "pm_default ?s"] ok val True fok show ?thesis
    by (simp add: flag_change_range_def flag_split_pm flag_get_value_pm flags_ok_def pm_ok_def pm_cuts_def pm_get_value_eq Let_def
      flip: set_map)
qed (simp add: flag_change_range_def)

lemma last_open_offset:
  assumes "ad_space (rg_last r) = None"
  shows "\<exists>a. range_last_addr_open tbl r = Ret a \<and> ad_offset a = last_off r + 1 \<and> ad_space a = None"
  using assms by (simp add: range_last_addr_open_def ad_next_def ad_add_def ad_get_space_def as_u64_def)

section \<open>Properties over ranges\<close>

text \<open>A range whose ends carry no space holds the addresses without a space at its offsets.\<close>

lemma spaceless_interval:
  assumes "ad_space x = None" and "ad_space y = None"
  shows "ad_key tbl x \<le> ad_key tbl a \<and> ad_key tbl a < ad_key tbl y \<longleftrightarrow>
    ad_space a = None \<and> ad_offset x \<le> ad_offset a \<and> ad_offset a < ad_offset y"
  using assms ad_key_tagged [OF assms(2), of a] by (cases "ad_space a") (auto dest: less_asym)

lemma change_range_points:
  assumes "flags_ok tbl m" and "ad_space (rg_first r) = None" and "ad_space (rg_last r) = None" and "first_off r \<le> last_off r"
    and "last_off r < U64_MAX"
  shows "\<exists>m'. res_bind (range_last_addr_open tbl r) (\<lambda>addr2. flag_change_range tbl m f (rg_first r) addr2) = Ret m' \<and> flags_ok tbl m' \<and>
    (\<forall>a. flag_get_value tbl m' a =
       (if ad_space a = None \<and> range_contains r a then f (flag_get_value tbl m a) else flag_get_value tbl m a))"
proof -
  from last_open_offset [OF assms(3)] obtain b where b: "range_last_addr_open tbl r = Ret b" "ad_offset b = last_off r + 1" "ad_space b = None"
    by blast
  have u: "unat (last_off r + 1) = unat (last_off r) + 1"
    using assms(5) by (simp add: U64_MAX_def word_less_nat_alt unat_word_ariths)
  then have "first_off r \<le> ad_offset b" using assms(4) by (simp add: b(2) word_le_nat_alt)
  moreover have "x < last_off r + 1 \<longleftrightarrow> x \<le> last_off r" for x using u by (simp add: word_less_nat_alt word_le_nat_alt) linarith
  moreover have "ad_in tbl (rg_first r)" "ad_in tbl b" using assms(2) b(3) by (simp_all add: ad_in_def)
  ultimately show ?thesis using flag_change_range_exact [OF assms(1), of "rg_first r" b f] b assms(2)
    by (simp add: range_contains_def spaceless_interval)
qed

text \<open>
  Property C25. Over a range whose ends carry no space, as the source requires, and that ends below the greatest offset, setting flags adds them at
  exactly the addresses without a space in the range and clearing removes them there; every other address, those that carry a space included, and
  every other flag keep their values, whatever ranges were set before.
\<close>

theorem property_range_exact:
  assumes "flags_ok tbl m" and "ad_space (rg_first r) = None" and "ad_space (rg_last r) = None" and "first_off r \<le> last_off r"
    and "last_off r < U64_MAX"
  shows "(\<exists>m'. set_property_range tbl m flags r = Ret m' \<and> flags_ok tbl m' \<and>
      (\<forall>a. get_property tbl m' a =
         (if ad_space a = None \<and> range_contains r a then get_property tbl m a OR flags else get_property tbl m a))) \<and>
    (\<exists>m'. clear_property_range tbl m flags r = Ret m' \<and> flags_ok tbl m' \<and>
      (\<forall>a. get_property tbl m' a =
         (if ad_space a = None \<and> range_contains r a then get_property tbl m a AND NOT flags else get_property tbl m a)))"
  using change_range_points [OF assms, of "\<lambda>v. v OR flags"] change_range_points [OF assms, of "\<lambda>v. v AND NOT flags"]
  unfolding set_property_range_def clear_property_range_def flag_set_property_range_def flag_clear_property_range_def get_property_def
  by (rule conjI)

lemma flags_ok_new: "flags_ok tbl (pm_new d)"
  by (simp add: flags_ok_def pm_ok_def pm_new_def pm_cuts_def)

lemma get_property_new: "get_property tbl (pm_new d) a = d"
  by (simp add: get_property_def flag_get_value_def pm_new_def bt_upto_def)

theorem property_range_exact_witness:
  "\<exists>m'. set_property_range [ram_space] (pm_new 0) 4 \<lparr>rg_first = ad_new 0x10, rg_last = ad_new 0x1f\<rparr> = Ret m' \<and>
    get_property [ram_space] m' (ad_new 0x1f) = 4 \<and> get_property [ram_space] m' (ad_new 0x20) = 0 \<and>
    get_property [ram_space] m' \<lparr>ad_offset = 0x18, ad_space = Some 0\<rparr> = 0"
  using property_range_exact [OF flags_ok_new, of "\<lparr>rg_first = ad_new 0x10, rg_last = ad_new 0x1f\<rparr>" "[ram_space]" 0 4]
  by (auto simp: get_property_new U64_MAX_def range_contains_def)

text \<open>
  A range that ends at the greatest address has its open end at zero. Then setting flags panics, or, for the range of all addresses, sets none.
\<close>

lemma property_range_to_top:
  assumes "flags_ok tbl m" and "ad_space (rg_first r) = None" and "ad_space (rg_last r) = None" and "last_off r = U64_MAX"
  shows "if 0 < first_off r then set_property_range tbl m flags r = Panic
    else (\<exists>m'. set_property_range tbl m flags r = Ret m' \<and> (\<forall>a. get_property tbl m' a = get_property tbl m a))"
proof -
  from last_open_offset [OF assms(3)] assms(4) obtain b where b: "range_last_addr_open tbl r = Ret b" "ad_offset b = 0" "ad_space b = None"
    by (auto simp: U64_MAX_eq)
  then have "ad_in tbl (rg_first r)" "ad_in tbl b" using assms(2) by (simp_all add: ad_in_def)
  then show ?thesis using flag_change_range_exact [OF assms(1), of "rg_first r" b "\<lambda>v. v OR flags"] b assms(2)
    by (auto simp: set_property_range_def flag_set_property_range_def get_property_def word_neq_0_conv spaceless_interval split: if_splits)
qed

end
