(* ===== verification/Context_Db.thy ===== *)
theory Context_Db
  imports Addr_Space Part_Map
begin

text \<open>
  The database of context variables and tracked registers (src/src/context.rs). A context is a blob of 32-bit words, a variable a range of bits of
  one word, and the database maps addresses to blobs: a sorted vector of the addresses where the context changes. The interpretation of
  \<open>partition\<close> shows that a blob reaches from its address to the next change, and what a variable holds follows from it.
\<close>

unbundle bit_operations_syntax

section \<open>Bit ranges\<close>

definition shl_u32 :: "u32 \<Rightarrow> u32 \<Rightarrow> u32" where
  [rust_defs]: "shl_u32 x n = push_bit (unat n mod 32) x"

definition shr_u32 :: "u32 \<Rightarrow> u32 \<Rightarrow> u32" where
  [rust_defs]: "shr_u32 x n = drop_bit (unat n mod 32) x"

record context_bit_range =
  cbr_word :: usize
  cbr_startbit :: i32
  cbr_endbit :: i32
  cbr_shift :: u32
  cbr_mask :: u32

definition WORD_BITS :: nat where
  "WORD_BITS = 32"

definition cbr_new :: "i32 \<Rightarrow> i32 \<Rightarrow> context_bit_range" where
  "cbr_new sbit ebit =
     (let word = nat (sbit mod 2 ^ 64) div WORD_BITS;
          base = wrap_i32 (wrap_i32 (int word) * int WORD_BITS);
          startbit = wrap_i32 (sbit - base);
          endbit = wrap_i32 (ebit - base);
          shift = word_of_int (wrap_i32 (int WORD_BITS - endbit - 1)) :: u32;
          sum = word_of_int startbit + shift
      in \<lparr>cbr_word = word, cbr_startbit = startbit, cbr_endbit = endbit, cbr_shift = shift,
          cbr_mask = (if sum \<ge> of_nat WORD_BITS then 0xffffffff else shr_u32 0xffffffff sum)\<rparr>)"

definition cbr_set_value :: "context_bit_range \<Rightarrow> u32 list \<Rightarrow> u32 \<Rightarrow> u32 list res" where
  "cbr_set_value r vec val =
     (if cbr_word r < length vec
      then (let newval = vec ! cbr_word r;
                newval = newval AND NOT (shl_u32 (cbr_mask r) (cbr_shift r));
                newval = newval OR shl_u32 (val AND cbr_mask r) (cbr_shift r)
            in Ret (vec[cbr_word r := newval]))
      else Panic)"

definition cbr_get_value :: "context_bit_range \<Rightarrow> u32 list \<Rightarrow> u32 res" where
  "cbr_get_value r vec =
     (if cbr_word r < length vec then Ret (shr_u32 (vec ! cbr_word r) (cbr_shift r) AND cbr_mask r) else Panic)"

section \<open>Blobs and tracked registers\<close>

record tracked_context =
  tc_offset :: u64
  tc_size :: u32
  tc_val :: u64

type_synonym tracked_set = "tracked_context list"

record context_blob =
  cb_array :: "u32 list"
  cb_mask :: "u32 list"

definition vec_resize :: "'a list \<Rightarrow> nat \<Rightarrow> 'a \<Rightarrow> 'a list" where
  "vec_resize xs n x = take n xs @ replicate (n - length xs) x"

definition blob_new :: "usize \<Rightarrow> context_blob" where
  "blob_new sz = \<lparr>cb_array = replicate sz 0, cb_mask = replicate sz 0\<rparr>"

definition blob_reset :: "context_blob \<Rightarrow> usize \<Rightarrow> context_blob" where
  "blob_reset b sz = \<lparr>cb_array = vec_resize (cb_array b) sz 0, cb_mask = vec_resize (cb_mask b) sz 0\<rparr>"

section \<open>The database\<close>

record context_internal =
  ci_size :: usize
  ci_variables :: "string \<rightharpoonup> context_bit_range"
  ci_default_blob :: context_blob
  ci_database :: "(address \<times> context_blob) list"
  ci_default_tracked :: tracked_set
  ci_trackbase :: "(address \<times> tracked_set) list"

definition ci_new :: context_internal where
  "ci_new = \<lparr>ci_size = 0, ci_variables = Map.empty, ci_default_blob = blob_new 0, ci_database = [], ci_default_tracked = [], ci_trackbase = []\<rparr>"

definition get_variable :: "context_internal \<Rightarrow> string \<Rightarrow> context_bit_range option" where
  "get_variable ci nm = ci_variables ci nm"

definition set_variable_default :: "context_internal \<Rightarrow> string \<Rightarrow> u32 \<Rightarrow> context_internal res" where
  "set_variable_default ci nm val = (case ci_variables ci nm of
      None \<Rightarrow> Ret ci
    | Some var \<Rightarrow>
        res_map (\<lambda>arr. ci\<lparr>ci_default_blob := (ci_default_blob ci)\<lparr>cb_array := arr\<rparr>\<rparr>)
          (cbr_set_value var (cb_array (ci_default_blob ci)) val))"

definition get_default_value_for :: "context_internal \<Rightarrow> string \<Rightarrow> u32 res" where
  "get_default_value_for ci nm = (case ci_variables ci nm of
      None \<Rightarrow> Ret 0
    | Some var \<Rightarrow> cbr_get_value var (cb_array (ci_default_blob ci)))"

definition find_blob :: "context_internal \<Rightarrow> address \<Rightarrow> u32 list" where
  "find_blob ci addr = (case find (\<lambda>e. ad_offset addr \<ge> ad_offset (fst e)) (rev (ci_database ci)) of
      Some e \<Rightarrow> cb_array (snd e)
    | None \<Rightarrow> cb_array (ci_default_blob ci))"

definition position :: "('a \<Rightarrow> bool) \<Rightarrow> 'a list \<Rightarrow> nat option" where
  "position q xs = (let n = length (takeWhile (\<lambda>x. \<not> q x) xs) in if n < length xs then Some n else None)"

text \<open>The database with a blob at the address, and the index of that blob.\<close>

definition get_or_create_blob_at :: "context_internal \<Rightarrow> address \<Rightarrow> (context_internal \<times> nat) res" where
  "get_or_create_blob_at ci addr = (case position (\<lambda>e. ad_offset (fst e) = ad_offset addr) (ci_database ci) of
      Some idx \<Rightarrow> Ret (ci, idx)
    | None \<Rightarrow>
        (let blob = \<lparr>cb_array = find_blob ci addr, cb_mask = replicate (ci_size ci) 0\<rparr>;
             db = sort_key (\<lambda>e. ad_offset (fst e)) (ci_database ci @ [(addr, blob)])
         in case position (\<lambda>e. ad_offset (fst e) = ad_offset addr) db of
              Some idx \<Rightarrow> Ret (ci\<lparr>ci_database := db\<rparr>, idx)
            | None \<Rightarrow> Panic))"

definition set_variable :: "context_internal \<Rightarrow> string \<Rightarrow> address \<Rightarrow> u32 \<Rightarrow> context_internal res" where
  "set_variable ci nm addr val = (case ci_variables ci nm of
      None \<Rightarrow> Ret ci
    | Some bitrange \<Rightarrow>
        res_bind (get_or_create_blob_at ci addr) (\<lambda>(ci, idx).
          let e = ci_database ci ! idx
          in res_map (\<lambda>arr. ci\<lparr>ci_database := (ci_database ci)[idx := (fst e, (snd e)\<lparr>cb_array := arr\<rparr>)]\<rparr>)
               (cbr_set_value bitrange (cb_array (snd e)) val)))"

definition get_variable_at :: "context_internal \<Rightarrow> string \<Rightarrow> address \<Rightarrow> u32 res" where
  "get_variable_at ci nm addr = (case ci_variables ci nm of
      None \<Rightarrow> Ret 0
    | Some bitrange \<Rightarrow> cbr_get_value bitrange (find_blob ci addr))"

definition get_context :: "context_internal \<Rightarrow> address \<Rightarrow> u32 list" where
  "get_context ci addr = find_blob ci addr"

definition get_tracked_set :: "context_internal \<Rightarrow> address \<Rightarrow> tracked_set" where
  "get_tracked_set ci addr = (case find (\<lambda>e. ad_offset addr \<ge> ad_offset (fst e)) (rev (ci_trackbase ci)) of
      Some e \<Rightarrow> snd e
    | None \<Rightarrow> ci_default_tracked ci)"

definition create_set :: "context_internal \<Rightarrow> address \<Rightarrow> address \<Rightarrow> (tracked_set \<Rightarrow> tracked_set) \<Rightarrow> context_internal res" where
  "create_set ci addr1 addr2 f =
     (let tb = sort_key (\<lambda>e. ad_offset (fst e)) (ci_trackbase ci @ [(addr1, [])])
      in case position (\<lambda>e. ad_offset (fst e) = ad_offset addr1) tb of
           Some idx \<Rightarrow> Ret (ci\<lparr>ci_trackbase := tb[idx := (fst (tb ! idx), f (snd (tb ! idx)))]\<rparr>)
         | None \<Rightarrow> Panic)"

definition get_tracked_value :: "context_internal \<Rightarrow> u64 \<Rightarrow> u32 \<Rightarrow> address \<Rightarrow> u64" where
  "get_tracked_value ci offset sz point =
     (case find (\<lambda>tc. tc_offset tc = offset \<and> tc_size tc = sz) (get_tracked_set ci point) of
        Some tc \<Rightarrow> tc_val tc
      | None \<Rightarrow> 0)"

definition register_variable :: "context_internal \<Rightarrow> string \<Rightarrow> i32 \<Rightarrow> i32 \<Rightarrow> context_internal" where
  "register_variable ci nm sbit ebit =
     (let bitrange = cbr_new sbit ebit;
          needed_size = cbr_word bitrange + 1;
          ci = (if needed_size > ci_size ci
                then ci\<lparr>ci_size := needed_size, ci_default_blob := blob_reset (ci_default_blob ci) needed_size\<rparr> else ci)
      in ci\<lparr>ci_variables := (ci_variables ci)(nm \<mapsto> bitrange)\<rparr>)"

section \<open>Vectors sorted by address\<close>

lemma find_rev: "find q (rev xs) = last_where q xs"
  by (induction xs rule: rev_induct) (auto simp: last_where_append)

lemma map_insort: "map g (insort_key (\<lambda>e. fst (g e)) x xs) = insort_key fst (g x) (map g xs)"
  by (induction xs) auto

lemma foldr_insort:
  assumes "bt_ok t" and "k \<notin> fst ` set t"
  shows "foldr (insort_key fst) t [(k, v)] = bt_insert k v t"
  using assms
proof (induction t)
  case (Cons e t)
  then have "foldr (insort_key fst) t [(k, v)] = bt_insert k v t" by simp
  moreover have "insort_key fst e (bt_insert k v t) = bt_insert k v (e # t)"
  proof (cases "k < fst e")
    case True
    then have "bt_insert k v t = (k, v) # t" using Cons.prems by (cases t) (auto simp: less_trans)
    moreover have "insort_key fst e t = e # t" using Cons.prems by (cases t) auto
    ultimately show ?thesis using True by (auto dest: leD)
  next
    case False
    then have "fst e < k" using Cons.prems by auto
    moreover have "fst e \<le> fst x" if "x \<in> set (bt_insert k v t)" for x
      using that Cons.prems \<open>fst e < k\<close> by (auto simp: set_bt_insert less_imp_le)
    then have "insort_key fst e (bt_insert k v t) = e # bt_insert k v t" by (intro insort_is_Cons) simp
    ultimately show ?thesis by auto
  qed
  ultimately show ?case by simp
qed simp

lemma sort_snoc:
  assumes "bt_ok (map g xs)" and "fst (g x) \<notin> fst ` set (map g xs)"
  shows "map g (sort_key (\<lambda>e. fst (g e)) (xs @ [x])) = bt_insert (fst (g x)) (snd (g x)) (map g xs)"
proof -
  have "map g (foldr (insort_key (\<lambda>e. fst (g e))) ys zs) = foldr (insort_key fst) (map g ys) (map g zs)" for ys zs
    by (induction ys) (simp_all add: map_insort)
  from this [of xs "[x]"] show ?thesis using foldr_insort [OF assms, of "snd (g x)"] by (simp add: sort_key_def)
qed

lemma position_Some: "position q xs = Some i \<Longrightarrow> i < length xs \<and> q (xs ! i)"
  using nth_length_takeWhile [of "\<lambda>x. \<not> q x" xs] by (auto simp: position_def Let_def split: if_splits)

lemma position_None: "position q xs = None \<longleftrightarrow> (\<forall>x\<in>set xs. \<not> q x)"
  by (induction xs) (auto simp: position_def Let_def)

lemma update_modify:
  assumes "bt_ok (map g xs)" and "position (\<lambda>e. fst (g e) = k) xs = Some i" and "g e' = (k, f (snd (g (xs ! i))))"
  shows "map g (xs[i := e']) = bt_modify (\<lambda>j. j = k) f (map g xs)"
proof (rule nth_equalityI)
  fix j assume j: "j < length (map g (xs[i := e']))"
  have i: "i < length xs" "fst (g (xs ! i)) = k" using position_Some [OF assms(2)] by auto
  have "distinct (map fst (map g xs))" using assms(1) by (simp add: bt_ok_def strict_sorted_iff)
  then have "fst (g (xs ! j)) \<noteq> k" if "j \<noteq> i"
    using i j that nth_eq_iff_index_eq [of "map fst (map g xs)" j i] by auto
  then show "map g (xs[i := e']) ! j = bt_modify (\<lambda>j. j = k) f (map g xs) ! j"
    using i j assms(3) by (auto simp: bt_modify_def nth_list_update prod_eq_iff)
qed (simp add: bt_modify_def)

lemma modify_insert: "bt_ok t \<Longrightarrow> k \<notin> fst ` set t \<Longrightarrow> bt_modify (\<lambda>j. j = k) f (bt_insert k w t) = bt_insert k (f w) t"
  by (induction t) (auto simp: bt_modify_def intro!: map_idI dest: image_eqI [of _ fst, OF fst_conv [symmetric]])

section \<open>Blobs by address\<close>

definition blob_entry :: "address \<times> context_blob \<Rightarrow> u64 \<times> u32 list" where
  "blob_entry e = (ad_offset (fst e), cb_array (snd e))"

definition blob_tree :: "context_internal \<Rightarrow> (u64, u32 list) btree" where
  "blob_tree ci = map blob_entry (ci_database ci)"

definition blobs_ok :: "context_internal \<Rightarrow> bool" where
  "blobs_ok ci \<longleftrightarrow> bt_ok (blob_tree ci)"

definition blob_cuts :: "context_internal \<Rightarrow> u64 set" where
  "blob_cuts ci = fst ` set (blob_tree ci)"

text \<open>What \<open>set_variable\<close> does to the database, with the change of the words as an argument.\<close>

definition put_blob :: "context_internal \<Rightarrow> address \<Rightarrow> (u32 list \<Rightarrow> u32 list) \<Rightarrow> context_internal" where
  "put_blob ci addr f = (case get_or_create_blob_at ci addr of
      Panic \<Rightarrow> ci
    | Ret (ci', idx) \<Rightarrow>
        (let e = ci_database ci' ! idx
         in ci'\<lparr>ci_database := (ci_database ci')[idx := (fst e, (snd e)\<lparr>cb_array := f (cb_array (snd e))\<rparr>)]\<rparr>))"

lemma find_blob_eq: "find_blob ci a = part_value (blob_tree ci) (cb_array (ci_default_blob ci)) (ad_offset a)"
proof -
  have "last_where (\<lambda>e. fst e \<le> k) (map blob_entry xs) = map_option blob_entry (last_where (\<lambda>e. ad_offset (fst e) \<le> k) xs)" for xs k
    by (induction xs) (auto simp: blob_entry_def split: option.split)
  then show ?thesis
    by (simp add: find_blob_def find_rev part_value_def bt_upto_def blob_tree_def blob_entry_def split: option.split)
qed

lemma blob_position: "position (\<lambda>e. ad_offset (fst e) = k) xs = position (\<lambda>e. fst (blob_entry e) = k) xs"
  by (simp add: blob_entry_def)

lemma get_or_create_run:
  assumes "blobs_ok ci"
  shows "\<exists>ci' idx. get_or_create_blob_at ci a = Ret (ci', idx) \<and>
    position (\<lambda>e. fst (blob_entry e) = ad_offset a) (ci_database ci') = Some idx \<and>
    blob_tree ci' = (if ad_offset a \<in> blob_cuts ci then blob_tree ci else bt_insert (ad_offset a) (find_blob ci a) (blob_tree ci)) \<and>
    ci' = ci\<lparr>ci_database := ci_database ci'\<rparr>"
proof (cases "position (\<lambda>e. fst (blob_entry e) = ad_offset a) (ci_database ci)")
  case None
  then have out: "ad_offset a \<notin> blob_cuts ci" by (auto simp: position_None blob_cuts_def blob_tree_def)
  define blob where "blob = \<lparr>cb_array = find_blob ci a, cb_mask = replicate (ci_size ci) (0 :: u32)\<rparr>"
  define db where "db = sort_key (\<lambda>e. ad_offset (fst e)) (ci_database ci @ [(a, blob)])"
  have tree: "map blob_entry db = bt_insert (ad_offset a) (find_blob ci a) (blob_tree ci)"
    using sort_snoc [of blob_entry "ci_database ci" "(a, blob)"] assms out
    by (simp add: db_def blob_def blobs_ok_def blob_tree_def blob_cuts_def blob_entry_def)
  have "(a, blob) \<in> set db" by (simp add: db_def)
  then obtain idx where "position (\<lambda>e. fst (blob_entry e) = ad_offset a) db = Some idx"
    by (cases "position (\<lambda>e. fst (blob_entry e) = ad_offset a) db") (auto simp: position_None blob_entry_def)
  with None tree out show ?thesis
    by (auto simp: get_or_create_blob_at_def blob_position blob_tree_def Let_def simp flip: db_def blob_def)
next
  case (Some idx)
  then have "ad_offset a \<in> blob_cuts ci" using position_Some [OF Some]
    by (auto simp: blob_cuts_def blob_tree_def image_image intro!: image_eqI [where x = "ci_database ci ! idx"])
  with Some show ?thesis by (simp add: get_or_create_blob_at_def blob_position)
qed

lemma put_blob_tree:
  assumes "blobs_ok ci"
  shows "blob_tree (put_blob ci a f) =
      (if ad_offset a \<in> blob_cuts ci then bt_modify (\<lambda>k. k = ad_offset a) f (blob_tree ci)
       else bt_insert (ad_offset a) (f (find_blob ci a)) (blob_tree ci))"
    and "put_blob ci a f = ci\<lparr>ci_database := ci_database (put_blob ci a f)\<rparr>"
proof -
  from get_or_create_run [OF assms, of a] obtain ci' idx where g: "get_or_create_blob_at ci a = Ret (ci', idx)"
    "position (\<lambda>e. fst (blob_entry e) = ad_offset a) (ci_database ci') = Some idx"
    "blob_tree ci' = (if ad_offset a \<in> blob_cuts ci then blob_tree ci else bt_insert (ad_offset a) (find_blob ci a) (blob_tree ci))"
    "ci' = ci\<lparr>ci_database := ci_database ci'\<rparr>" by blast
  have "bt_ok (blob_tree ci')" using assms by (simp add: g(3) blobs_ok_def bt_ok_insert)
  then have ok: "bt_ok (map blob_entry (ci_database ci'))" by (simp add: blob_tree_def)
  let ?e = "ci_database ci' ! idx"
  have "blob_entry (fst ?e, (snd ?e)\<lparr>cb_array := f (cb_array (snd ?e))\<rparr>) = (ad_offset a, f (snd (blob_entry ?e)))"
    using position_Some [OF g(2)] by (simp add: blob_entry_def)
  from update_modify [where f = f, OF ok g(2) this] have "blob_tree (put_blob ci a f) = bt_modify (\<lambda>k. k = ad_offset a) f (blob_tree ci')"
    by (simp add: put_blob_def g(1) blob_tree_def Let_def)
  then show "blob_tree (put_blob ci a f) =
      (if ad_offset a \<in> blob_cuts ci then bt_modify (\<lambda>k. k = ad_offset a) f (blob_tree ci)
       else bt_insert (ad_offset a) (f (find_blob ci a)) (blob_tree ci))"
    using assms by (auto simp: g(3) modify_insert blobs_ok_def blob_cuts_def)
  show "put_blob ci a f = ci\<lparr>ci_database := ci_database (put_blob ci a f)\<rparr>"
    unfolding put_blob_def g(1) by (subst (1 2) g(4)) (simp add: Let_def)
qed

lemma put_blob_default [simp]: "blobs_ok ci \<Longrightarrow> ci_default_blob (put_blob ci a f) = ci_default_blob ci"
  by (subst put_blob_tree(2)) simp_all

lemma blobs_ok_put: "blobs_ok ci \<Longrightarrow> blobs_ok (put_blob ci a f)"
  by (simp add: blobs_ok_def [of "put_blob ci a f"] put_blob_tree(1)) (simp add: blobs_ok_def bt_ok_insert)

lemma blob_cuts_put:
  assumes "blobs_ok ci"
  shows "blob_cuts (put_blob ci a f) = insert (ad_offset a) (blob_cuts ci)"
proof -
  have "fst ` set (bt_modify (\<lambda>k. k = ad_offset a) f (blob_tree ci)) = blob_cuts ci" by (simp add: blob_cuts_def flip: set_map)
  then show ?thesis using assms
    by (simp add: blob_cuts_def [of "put_blob ci a f"] put_blob_tree(1) keys_insert) (simp add: blob_cuts_def insert_absorb)
qed

lemma find_blob_put:
  assumes "blobs_ok ci"
  shows "find_blob (put_blob ci a f) b =
    (if same_part (blob_cuts ci) (ad_offset a) (ad_offset b) then f (find_blob ci a) else find_blob ci b)"
  using assms part_value_modify [of "blob_tree ci" "ad_offset a"] part_value_insert [of "blob_tree ci" "ad_offset a"]
  by (simp add: find_blob_eq put_blob_tree(1) blob_cuts_def blobs_ok_def)

lemma find_blob_part:
  assumes "blobs_ok ci" and "same_part (blob_cuts ci) (ad_offset a) (ad_offset b)"
  shows "find_blob ci b = find_blob ci a"
  unfolding find_blob_eq by (rule part_value_cell) (use assms in \<open>auto simp: blobs_ok_def same_part_def blob_cuts_def\<close>)

interpretation ctx: partition blobs_ok "\<lambda>ci k. find_blob ci (ad_new k)" blob_cuts "\<lambda>ci k. put_blob ci (ad_new k)"
  by unfold_locales (simp_all add: blobs_ok_put blob_cuts_put find_blob_put ad_new_def find_blob_part)

section \<open>Bits of a word\<close>

definition cbr_bits :: "context_bit_range \<Rightarrow> nat \<Rightarrow> bool" where
  "cbr_bits r n \<longleftrightarrow> cbr_mask r = mask n \<and> 1 \<le> n \<and> unat (cbr_shift r) + n \<le> 32"

definition cbr_ok :: "context_bit_range \<Rightarrow> bool" where
  "cbr_ok r \<longleftrightarrow> (\<exists>n. cbr_bits r n)"

text \<open>Two ranges share no bit.\<close>

definition cbr_apart :: "context_bit_range \<Rightarrow> context_bit_range \<Rightarrow> bool" where
  "cbr_apart r q \<longleftrightarrow> cbr_word r \<noteq> cbr_word q \<or> shl_u32 (cbr_mask r) (cbr_shift r) AND shl_u32 (cbr_mask q) (cbr_shift q) = 0"

definition set_bits :: "context_bit_range \<Rightarrow> u32 \<Rightarrow> u32 list \<Rightarrow> u32 list" where
  "set_bits r val vec = vec[cbr_word r := (vec ! cbr_word r AND NOT (shl_u32 (cbr_mask r) (cbr_shift r))) OR
     shl_u32 (val AND cbr_mask r) (cbr_shift r)]"

lemma cbr_set_value_eq: "cbr_word r < length vec \<Longrightarrow> cbr_set_value r vec val = Ret (set_bits r val vec)"
  by (simp add: cbr_set_value_def set_bits_def)

lemma length_set_bits [simp]: "length (set_bits r val vec) = length vec"
  by (simp add: set_bits_def)

lemma bits_read_back:
  fixes x v :: u32
  assumes "s + n \<le> 32"
  shows "drop_bit s ((x AND NOT (push_bit s (mask n))) OR push_bit s (v AND mask n)) AND mask n = v AND mask n"
  by (rule bit_word_eqI) (use assms in \<open>auto simp: bit_simps\<close>)

lemma get_set_bits:
  assumes "cbr_ok r" and "cbr_word r < length vec"
  shows "cbr_get_value r (set_bits r val vec) = Ret (val AND cbr_mask r)"
proof -
  from assms(1) obtain n where n: "cbr_mask r = mask n" "1 \<le> n" "unat (cbr_shift r) + n \<le> 32" by (auto simp: cbr_ok_def cbr_bits_def)
  then have s: "unat (cbr_shift r) mod 32 = unat (cbr_shift r)" by simp
  from bits_read_back [OF n(3), of "vec ! cbr_word r" val] show ?thesis
    using assms(2) by (simp add: cbr_get_value_def set_bits_def shl_u32_def shr_u32_def n(1) s)
qed

lemma get_set_bits_apart:
  assumes "cbr_ok r" and "cbr_ok q" and "cbr_apart r q" and "cbr_word r < length vec"
  shows "cbr_get_value q (set_bits r val vec) = cbr_get_value q vec"
proof (cases "cbr_word r = cbr_word q")
  case False
  then show ?thesis by (simp add: cbr_get_value_def set_bits_def)
next
  case True
  from assms(1) obtain n where n: "cbr_mask r = mask n" "1 \<le> n" "unat (cbr_shift r) + n \<le> 32" by (auto simp: cbr_ok_def cbr_bits_def)
  from assms(2) obtain m where m: "cbr_mask q = mask m" "1 \<le> m" "unat (cbr_shift q) + m \<le> 32" by (auto simp: cbr_ok_def cbr_bits_def)
  let ?s = "unat (cbr_shift r)" and ?t = "unat (cbr_shift q)"
  have st: "?s mod 32 = ?s" "?t mod 32 = ?t" using n m by simp_all
  have "(push_bit ?s (mask n) AND push_bit ?t (mask m) :: u32) = 0"
    using assms(3) True by (simp add: cbr_apart_def shl_u32_def n(1) m(1) st)
  then have zero: "\<not> (bit (push_bit ?s (mask n) :: u32) j \<and> bit (push_bit ?t (mask m) :: u32) j)" for j
    by (metis bit_0_eq bit_and_iff bot_apply bot_bool_def)
  have "drop_bit ?t ((x AND NOT (push_bit ?s (mask n))) OR push_bit ?s (v AND mask n)) AND mask m = drop_bit ?t x AND mask m" for x v :: u32
  proof (rule bit_word_eqI)
    fix i assume "i < LENGTH(32)"
    then show "bit (drop_bit ?t ((x AND NOT (push_bit ?s (mask n))) OR push_bit ?s (v AND mask n)) AND mask m) i = bit (drop_bit ?t x AND mask m) i"
      using zero [of "?t + i"] m(3) by (auto simp: bit_simps)
  qed
  then show ?thesis using True assms(4) by (simp add: cbr_get_value_def set_bits_def shl_u32_def shr_u32_def n(1) m(1) st)
qed

section \<open>Variables\<close>

definition ci_ok :: "context_internal \<Rightarrow> bool" where
  "ci_ok ci \<longleftrightarrow> blobs_ok ci \<and> length (cb_array (ci_default_blob ci)) = ci_size ci \<and>
     (\<forall>e\<in>set (blob_tree ci). length (snd e) = ci_size ci) \<and>
     (\<forall>nm r. ci_variables ci nm = Some r \<longrightarrow> cbr_ok r \<and> cbr_word r < ci_size ci)"

lemma wrap_i32_id: "0 \<le> i \<Longrightarrow> i < 2 ^ 31 \<Longrightarrow> wrap_i32 i = i"
  unfolding wrap_i32_def by (rule signed_take_bit_int_eq_self) simp_all

lemma unat_word_of_int: "0 \<le> i \<Longrightarrow> i < 2 ^ 32 \<Longrightarrow> unat (word_of_int i :: u32) = nat i"
  by (simp add: unsigned_of_int take_bit_int_eq_self)

text \<open>
  A range within one word, with the bits counted from the most significant bit of the first word: the word, the distance of the last bit from the
  right end and the mask of as many bits as the range has.
\<close>

lemma cbr_new_eq:
  assumes "0 \<le> sbit" and "sbit \<le> ebit" and "ebit < 2 ^ 31" and "sbit div 32 = ebit div 32"
  shows "cbr_word (cbr_new sbit ebit) = nat (sbit div 32)" and "unat (cbr_shift (cbr_new sbit ebit)) = nat (31 - ebit mod 32)"
    and "cbr_mask (cbr_new sbit ebit) = mask (nat (ebit - sbit + 1))"
proof -
  have word: "nat (sbit mod 2 ^ 64) div 32 = nat (sbit div 32)" using assms(1-3) by (simp add: nat_div_distrib)
  have base: "wrap_i32 (wrap_i32 (int (nat (sbit div 32))) * 32) = sbit div 32 * 32"
    using assms(1-3) by (simp add: wrap_i32_id)
  have se: "sbit - sbit div 32 * 32 = sbit mod 32" "ebit - sbit div 32 * 32 = ebit mod 32" "ebit mod 32 - sbit mod 32 = ebit - sbit"
    using assms(4) div_mult_mod_eq [of sbit 32] div_mult_mod_eq [of ebit 32] by linarith+
  have bounds: "0 \<le> sbit mod 32" "ebit mod 32 < 32" "sbit mod 32 \<le> ebit mod 32" using se(3) assms(2) by auto
  have shift: "unat (word_of_int (31 - ebit mod 32) :: u32) = nat (31 - ebit mod 32)"
    using bounds by (intro unat_word_of_int) simp_all
  have sum: "word_of_int (sbit mod 32) + word_of_int (31 - ebit mod 32) = (word_of_int (31 - (ebit - sbit)) :: u32)"
  proof -
    have "sbit mod 32 + (31 - ebit mod 32) = 31 - (ebit - sbit)" using se(3) by linarith
    then show ?thesis by (simp only: flip: of_int_add)
  qed
  have usum: "unat (word_of_int (31 - (ebit - sbit)) :: u32) = nat (31 - (ebit - sbit))"
  proof -
    have "0 \<le> 31 - (ebit - sbit)" "31 - (ebit - sbit) < 32" using bounds se(3) assms(2) by linarith+
    then show ?thesis by (intro unat_word_of_int) simp_all
  qed
  have "drop_bit k (0xffffffff :: u32) = mask (32 - k)" if "k < 32" for k
  proof -
    have full: "(0xffffffff :: u32) = mask 32" by (simp add: mask_eq_exp_minus_1)
    show ?thesis unfolding full using that by (intro bit_word_eqI) (auto simp: bit_simps bit_mask_iff simp del: mask_numeral)
  qed
  moreover have "nat (31 - (ebit - sbit)) < 32" "32 - nat (31 - (ebit - sbit)) = nat (ebit - sbit + 1)" using bounds se(3) assms(2) by linarith+
  ultimately have mask: "(if (word_of_int (31 - (ebit - sbit)) :: u32) \<ge> 32 then 0xffffffff else shr_u32 0xffffffff (word_of_int (31 - (ebit - sbit)))) =
      mask (nat (ebit - sbit + 1))"
    by (simp add: word_le_nat_alt usum shr_u32_def del: of_int_diff)
  have new: "cbr_new sbit ebit = \<lparr>cbr_word = nat (sbit div 32), cbr_startbit = sbit mod 32, cbr_endbit = ebit mod 32,
      cbr_shift = word_of_int (31 - ebit mod 32), cbr_mask = mask (nat (ebit - sbit + 1))\<rparr>"
    unfolding cbr_new_def WORD_BITS_def Let_def of_nat_numeral word base se using bounds mask
    by (simp add: wrap_i32_id sum del: of_int_diff split: if_splits)
  show "cbr_word (cbr_new sbit ebit) = nat (sbit div 32)" "unat (cbr_shift (cbr_new sbit ebit)) = nat (31 - ebit mod 32)"
    "cbr_mask (cbr_new sbit ebit) = mask (nat (ebit - sbit + 1))"
    by (simp_all add: new shift del: of_int_diff)
qed

lemma cbr_new_ok:
  assumes "0 \<le> sbit" and "sbit \<le> ebit" and "ebit < 2 ^ 31" and "sbit div 32 = ebit div 32"
  shows "cbr_ok (cbr_new sbit ebit)"
proof -
  have "ebit mod 32 = ebit - sbit div 32 * 32" "0 \<le> sbit - sbit div 32 * 32" using assms(4) by (simp_all add: minus_div_mult_eq_mod)
  then have "nat (31 - ebit mod 32) + nat (ebit - sbit + 1) \<le> 32" "1 \<le> nat (ebit - sbit + 1)" using assms(2) by auto
  then show ?thesis using cbr_new_eq [OF assms] by (auto simp: cbr_ok_def cbr_bits_def intro!: exI [of _ "nat (ebit - sbit + 1)"])
qed

lemma find_blob_length: "ci_ok ci \<Longrightarrow> length (find_blob ci a) = ci_size ci"
proof -
  assume ok: "ci_ok ci"
  then have "bt_ok (blob_tree ci)" by (simp add: ci_ok_def blobs_ok_def)
  then show ?thesis using ok
    by (cases rule: part_value_cases [of "blob_tree ci" "ad_offset a" "cb_array (ci_default_blob ci)"]) (auto simp: find_blob_eq ci_ok_def)
qed

lemma put_blob_variables [simp]:
  "blobs_ok ci \<Longrightarrow> ci_variables (put_blob ci a f) = ci_variables ci" "blobs_ok ci \<Longrightarrow> ci_size (put_blob ci a f) = ci_size ci"
  by (subst put_blob_tree(2); simp)+

lemma ci_ok_put:
  assumes "ci_ok ci" and "\<And>xs. length (f xs) = length xs"
  shows "ci_ok (put_blob ci a f)"
proof -
  have ok: "blobs_ok ci" using assms(1) by (simp add: ci_ok_def)
  have "length (snd e) = ci_size ci" if "e \<in> set (blob_tree (put_blob ci a f))" for e
    using that assms ok find_blob_length [OF assms(1)]
    by (auto simp: put_blob_tree(1) [OF ok] bt_modify_def ci_ok_def set_bt_insert [OF ok [unfolded blobs_ok_def]] split: if_splits)
  then show ?thesis using assms(1) ok by (simp add: ci_ok_def blobs_ok_put)
qed

lemma set_variable_put:
  assumes "ci_ok ci" and "ci_variables ci nm = Some r"
  shows "set_variable ci nm a v = Ret (put_blob ci a (set_bits r v))"
proof -
  have ok: "blobs_ok ci" using assms(1) by (simp add: ci_ok_def)
  from get_or_create_run [OF ok, of a] obtain ci' idx where g: "get_or_create_blob_at ci a = Ret (ci', idx)"
    "position (\<lambda>e. fst (blob_entry e) = ad_offset a) (ci_database ci') = Some idx"
    "blob_tree ci' = (if ad_offset a \<in> blob_cuts ci then blob_tree ci else bt_insert (ad_offset a) (find_blob ci a) (blob_tree ci))" by blast
  have "blob_entry (ci_database ci' ! idx) \<in> set (blob_tree ci')" using position_Some [OF g(2)] by (simp add: blob_tree_def)
  then have "length (cb_array (snd (ci_database ci' ! idx))) = ci_size ci"
    using assms(1) find_blob_length [OF assms(1)] set_bt_insert [OF ok [unfolded blobs_ok_def]]
    by (auto simp: g(3) ci_ok_def blob_entry_def split: if_splits)
  then have "cbr_word r < length (cb_array (snd (ci_database ci' ! idx)))" using assms by (simp add: ci_ok_def)
  then show ?thesis by (simp add: set_variable_def assms(2) g(1) put_blob_def Let_def cbr_set_value_eq)
qed

text \<open>
  Property C3. Setting a context variable at an address holds up to the next address where the context changes: there the variable reads as the
  value cut to its bits, everywhere else it is as before, and a variable on other bits is unchanged at every address.
\<close>

theorem set_variable_exact:
  assumes "ci_ok ci" and "ci_variables ci nm = Some r"
  shows "\<exists>ci'. set_variable ci nm a v = Ret ci' \<and> ci_ok ci' \<and>
    (\<forall>b. get_variable_at ci' nm b =
       (if same_part (blob_cuts ci) (ad_offset a) (ad_offset b) then Ret (v AND cbr_mask r) else get_variable_at ci nm b)) \<and>
    (\<forall>other q b. ci_variables ci other = Some q \<longrightarrow> cbr_apart r q \<longrightarrow> get_variable_at ci' other b = get_variable_at ci other b) \<and>
    blob_cuts ci' = insert (ad_offset a) (blob_cuts ci)"
proof -
  let ?ci = "put_blob ci a (set_bits r v)"
  have ok: "blobs_ok ci" using assms(1) by (simp add: ci_ok_def)
  have r: "cbr_ok r" "cbr_word r < length (find_blob ci b)" for b using assms by (simp_all add: ci_ok_def find_blob_length)
  have same: "get_variable_at ?ci nm b =
      (if same_part (blob_cuts ci) (ad_offset a) (ad_offset b) then Ret (v AND cbr_mask r) else get_variable_at ci nm b)" for b
    using assms(2) ok r get_set_bits [OF r] by (simp add: get_variable_at_def find_blob_put)
  have "get_variable_at ?ci other b = get_variable_at ci other b" if "ci_variables ci other = Some q" "cbr_apart r q" for other q b
  proof -
    have "cbr_ok q" using assms(1) that(1) by (auto simp: ci_ok_def)
    then show ?thesis using that ok r get_set_bits_apart [of r q "find_blob ci a"] find_blob_part [OF ok, of a b]
      by (simp add: get_variable_at_def find_blob_put)
  qed
  with same show ?thesis using set_variable_put [OF assms] ci_ok_put [OF assms(1), of "set_bits r v"] blob_cuts_put [OF ok] by simp
qed

section \<open>Registering variables\<close>

lemma register_ok:
  assumes "ci_ok ci" and "ci_database ci = [] \<or> nat (sbit div 32) < ci_size ci"
    and "0 \<le> sbit" and "sbit \<le> ebit" and "ebit < 2 ^ 31" and "sbit div 32 = ebit div 32"
  shows "ci_ok (register_variable ci nm sbit ebit)"
  using assms(1,2) cbr_new_ok [OF assms(3-6)] cbr_new_eq(1) [OF assms(3-6)]
  by (auto simp: ci_ok_def register_variable_def Let_def blobs_ok_def blob_tree_def blob_reset_def vec_resize_def intro: less_trans)

lemma ci_new_ok: "ci_ok ci_new"
  by (simp add: ci_ok_def ci_new_def blobs_ok_def blob_tree_def blob_new_def)

definition sample_context :: context_internal where
  "sample_context = register_variable (register_variable ci_new ''mode'' 0 3) ''flag'' 4 4"

lemma sample_context_ok: "ci_ok sample_context"
  unfolding sample_context_def by (intro register_ok ci_new_ok) (simp_all add: ci_new_def register_variable_def Let_def)

theorem set_variable_exact_witness:
  "\<exists>ci'. set_variable sample_context ''mode'' (ad_new 0x1000) 0x25 = Ret ci' \<and>
    get_variable_at ci' ''mode'' (ad_new 0x2000) = Ret 5 \<and> get_variable_at ci' ''mode'' (ad_new 0x500) = Ret 0 \<and>
    get_variable_at ci' ''flag'' (ad_new 0x2000) = Ret 0"
proof -
  have var: "ci_variables sample_context ''mode'' = Some (cbr_new 0 3)" "ci_variables sample_context ''flag'' = Some (cbr_new 4 4)"
    by (simp_all add: sample_context_def register_variable_def Let_def)
  have new: "cbr_word (cbr_new 0 3) = 0" "cbr_shift (cbr_new 0 3) = 28" "cbr_mask (cbr_new 0 3) = 0xf"
    "cbr_word (cbr_new 4 4) = 0" "cbr_shift (cbr_new 4 4) = 27" "cbr_mask (cbr_new 4 4) = 1"
    by (simp_all add: cbr_new_def WORD_BITS_def wrap_i32_id shr_u32_def)
  have old: "get_variable_at sample_context ''mode'' b = Ret 0" "get_variable_at sample_context ''flag'' b = Ret 0" for b
    by (simp_all add: get_variable_at_def var cbr_get_value_def new find_blob_def sample_context_def register_variable_def ci_new_def blob_new_def
      blob_reset_def vec_resize_def Let_def shr_u32_def)
  have "cbr_apart (cbr_new 0 3) (cbr_new 4 4)" by (simp add: cbr_apart_def new shl_u32_def)
  moreover have "blob_cuts sample_context = {}" by (simp add: blob_cuts_def blob_tree_def sample_context_def register_variable_def ci_new_def Let_def)
  ultimately show ?thesis
    using set_variable_exact [OF sample_context_ok var(1), of "ad_new 0x1000" "0x25"] old new(3) var(2)
    by (auto simp: same_part_def ad_new_def)
qed

text \<open>
  Registering a variable in a word that no blob has yet lengthens the default blob only. At an address with a blob of its own the variable cannot
  be read: the index is out of range.
\<close>

lemma late_variable_panics:
  "\<exists>ci. set_variable (register_variable ci_new ''a'' 0 3) ''a'' (ad_new 0x1000) 1 = Ret ci \<and>
    get_variable_at (register_variable ci ''b'' 32 35) ''b'' (ad_new 0x1000) = Panic \<and>
    get_variable_at (register_variable ci ''b'' 32 35) ''b'' (ad_new 0x500) = Ret 0"
  by (simp add: set_variable_def register_variable_def ci_new_def Let_def cbr_new_def WORD_BITS_def wrap_i32_id get_or_create_blob_at_def position_def
    find_blob_def blob_new_def blob_reset_def vec_resize_def cbr_set_value_def cbr_get_value_def get_variable_at_def ad_new_def shr_u32_def)

section \<open>Tracked registers\<close>

text \<open>
  A set created at an address where there is none is read from that address up to the next one, as the caller filled it. A second set at the same address is
  never filled: the reference returned is to the first, and lookups find the second, which stays empty.
\<close>

lemma create_set_again_empty:
  "\<exists>ci1 ci2. create_set ci_new (ad_new 0x1000) (ad_new 0x2000) (\<lambda>ts. ts @ [tc]) = Ret ci1 \<and> get_tracked_set ci1 (ad_new 0x1500) = [tc] \<and>
    create_set ci1 (ad_new 0x1000) (ad_new 0x2000) (\<lambda>ts. ts @ [tc']) = Ret ci2 \<and> get_tracked_set ci2 (ad_new 0x1500) = []"
  by (simp add: create_set_def ci_new_def ad_new_def position_def Let_def get_tracked_set_def sort_key_def)

end
