(* ===== verification/Spec2Isabelle.thy ===== *)
theory Spec2Isabelle
  imports Circle_Push Op_Trait_Laws Registry_Clients Crc32 Mem_Laws Emulate_Laws Prop_Flags Context_Db
begin

text \<open>
  Verification of the value-level core of Rudra, a decompiler in Rust (a port of the Ghidra
  decompiler). The decompiler lifts machine code to p-code, a small operation language, and
  simplifies the p-code of a function. The parts modelled here are the ones all of its passes
  rest on: how an operation computes, how a set of values moves through an operation,
  how addresses and sets of addresses are represented, and the memory and the emulator on which p-code is run.

  \<^bold>\<open>Parts and theories.\<close>

  \<^item> \<open>Rust_Prelude\<close>: machine integers, panics (\<open>'a res\<close>), shared lemmas on words and masks. The arithmetic is
    that of a release build: \<open>+ - *\<close> wrap, a shift amount is taken modulo the width, and
    only division by zero, \<open>i64::MIN / -1\<close>, an index out of bounds and explicit panics stop. \<open>u64\<close> and
    \<open>u32\<close> are words, \<open>i32\<close> and \<open>i64\<close> integers with the wrap written out, \<open>usize\<close> a natural number
    (in the memory theories a 64-bit word, because sizes are subtracted there and may wrap).
  \<^item> \<open>Bit_Helpers\<close>: masks, sign bits, bit positions and sign extension
    (src/src/address.rs, src/src/opbehavior.rs, src/src/rangeutil.rs).
  \<^item> \<open>Op_Codes\<close>: the p-code operation codes, their numbers, names, classes and negations
    (src/src/opcodes.rs).
  \<^item> \<open>Op_Behavior\<close>: constant evaluation of an operation and recovery of an operand from a result, the free
    functions of src/src/opbehavior.rs. \<open>Op_Semantics\<close> gives their meaning over unsigned
    and two's complement readings, and the inverse laws.
  \<^item> \<open>Op_Trait\<close>: the trait \<open>OpBehavior\<close>, its implementations as constructors of a datatype, and the table
    \<open>OpBehaviorFactory\<close> of the same file. \<open>Op_Trait_Laws\<close> shows that the table is complete and that
    its objects refine the free functions. The float formats of src/src/float_emulate.rs are a
    record of functions that the table takes as an argument.
  \<^item> \<open>Circle_Range\<close>: \<open>CircleRange\<close> of src/src/rangeutil.rs, an interval on the ring of w-bit values with a
    stride: constructors, membership, size, complement, union, intersection, widening.
    \<open>Circle_Arcs\<close>, \<open>Circle_Sets\<close> and \<open>Circle_Values\<close> give its abstraction to a set of values and
    show what each operation is on that set.
  \<^item> \<open>Circle_Flow\<close>: the transfer functions of the same file, pull-back and push-forward through an operation and
    the translation of a range into a comparison. \<open>Circle_Pull\<close> and \<open>Circle_Push\<close> relate them to
    constant evaluation of \<open>Op_Behavior\<close>: the two components agree on what an operation computes.
  \<^item> \<open>Addr_Space\<close>: address spaces (src/src/space.rs), addresses and sequence numbers (src/src/address.rs), the
    table of interned spaces passed explicitly. \<open>Addr_Laws\<close>: offset wrapping, address
    arithmetic, overlap, containment, and the total orders, through the locale \<open>ord_by_key\<close>.
  \<^item> \<open>Range_List\<close>: ranges and lists of disjoint ranges (src/src/address.rs), as implementations of the locale
    \<open>range_set\<close>, sets of addresses under insertion and removal of ranges.
  \<^item> \<open>Space_Range_List\<close>: the ranges and range lists that carry their space (\<open>SpaceRange\<close> and \<open>SpaceRangeList\<close> of
    src/src/address.rs), kept sorted and searched by bisection. \<open>Space_Range_Laws\<close> interprets
    \<open>range_set\<close> on them, for every assignment of indices to spaces.
  \<^item> \<open>Space_Heap\<close>: spaces as shared mutable cells (src/src/space.rs), virtual spaces and their base registers.
    \<open>Join_Tables\<close>: the records of joined variables (\<open>manager_join\<close> of the same file), with their laws in
    \<open>Join_Laws\<close>. \<open>Space_Registry\<close>: the manager of the spaces, \<open>SpaceRegistry\<close>.
    \<open>Registry_Laws\<close>: its invariant and registration. \<open>Registry_Runs\<close>: the step relation of the manager, the states
    it reaches, iteration, joins, and range lists over its spaces.
  \<^item> \<open>Packed_Format\<close>: the packed encoder and decoder of src/src/marshal.rs. \<open>Packed_Laws\<close>: what is written is
    read back. \<open>Registry_Clients\<close>: the operations of the two files above that ask the manager.
  \<^item> \<open>Crc32\<close>: the table-driven checksum of src/src/crc32.rs against the bitwise register.
  \<^item> \<open>Mem_Words\<close>: values, bytes and slices of src/src/memstate.rs, and \<open>get_value\<close> and \<open>set_value\<close>, which its banks share. \<open>Mem_Bytes\<close>: memory as
    an array of bytes, and the locales \<open>word_store\<close> and \<open>total_store\<close>, what the words of a bank promise, from which the two routines are shown
    to read and write bytes. A run \<open>'a run\<close> is \<open>None\<close> when it does not end.
  \<^item> \<open>Mem_Bank\<close>: \<open>MemoryBank\<close> with its pages and chunks. \<open>Mem_Chunks\<close>: the chunk loops over the locale \<open>page_store\<close>. \<open>Mem_Overlay\<close>:
    \<open>MemoryPageOverlay\<close>, copy on write by pages. \<open>Mem_Hash\<close>: \<open>MemoryHashOverlay\<close>, an open-addressing table. \<open>Load_Image\<close>: the raw and
    in-memory images of src/src/loadimage.rs and \<open>MemoryImage\<close>, the bank over an image, with the loader as a function. \<open>Mem_State\<close>:
    \<open>MemState\<close>, a bank for each space. \<open>Mem_Laws\<close>: their properties, each bank an interpretation of the locales.
  \<^item> \<open>Emulate\<close>: the emulator of src/src/emulate.rs, which runs operations with \<open>Op_Behavior\<close> on registers and on \<open>Mem_State\<close>. \<open>Emulate_Laws\<close>: a machine
    of registers and bytes, and the emulator as its refinement.
  \<^item> \<open>Part_Map\<close>: the partition map of src/src/rangemap.rs and the locale \<open>partition\<close>, a function with split points that is written part by part.
    \<open>Prop_Flags\<close>: the flags over memory of src/src/database.rs, keyed by addresses in their order, without the debug assertions. \<open>Context_Db\<close>: context variables and tracked registers (src/src/context.rs).
    The three interpret \<open>partition\<close>.

  \<^bold>\<open>Correspondence.\<close> A definition has the name of the Rust function it translates, with the prefix of its
  type where two types share a method name (\<open>sa_\<close> for \<open>SpaceAddress\<close>, \<open>ad_\<close> for
  \<open>Address\<close>, \<open>sn_\<close> for \<open>SeqNum\<close>, \<open>rl_\<close> for \<open>RangeList\<close>, \<open>sr_\<close> and \<open>srl_\<close> for \<open>SpaceRange\<close>
  and \<open>SpaceRangeList\<close>, \<open>jr_\<close> for \<open>JoinRecord\<close>, \<open>pd_\<close> for \<open>PackedDecode\<close>, \<open>circle_\<close> for \<open>CircleRange\<close>,
  \<open>bank_\<close>, \<open>overlay_\<close>, \<open>hash_\<close>, \<open>image_\<close> and \<open>state_\<close> for the kinds of memory, \<open>raw_\<close> and \<open>mem_\<close> for the images, \<open>em_\<close> for \<open>Emulate\<close>,
  \<open>vn_\<close> for \<open>Varnode\<close>, \<open>pm_\<close> and \<open>flag_\<close> for the partition maps, \<open>cbr_\<close> and \<open>ci_\<close> for the context database). A method
  that mutates its receiver returns the new record. Branches of long matches are definitions of their own
  (\<open>less_arm\<close>, \<open>push_add\<close>, \<open>sless_arm\<close>). A handle to a shared space is a number into a heap that the
  operations take and return; code that only reads a space takes the record itself, whose \<open>sp_identity\<close> is the handle.

  \<^bold>\<open>What is shown.\<close> Evaluation: comparisons, carries, shifts, divisions and concatenation mean what their
  names say at every size up to eight bytes, recovery inverts evaluation, flipping a
  comparison negates it. Ranges: well-formedness is kept, union and intersection are exact when
  they report success, pull-back through comparisons and sums with constants is exact, push-forward
  is sound, and a range is translated to a comparison that holds of exactly its values, or to none when there is none (or for a single value with a stride).
  Addresses: wrapping never panics and stays in the space, arithmetic is invertible, orders are total. Range lists: the
  representation stays canonical and the operations are union and difference. Manager: after any calls, refused ones included, a space
  is found by its index, its shortcut leads to a registered space that has it, and its name leads to it unless a call was refused for that name alone; registration fails exactly on a conflict, iteration is complete, joins
  are found again and never overlap, and the indices it gives are what the range lists need. Marshalling: a document
  written in the packed format is read back, references to spaces through the manager included. Memory: every bank of eight-byte words is an array
  of bytes under its reads and writes, aligned or not, an overlay, below its last page, leaves the bank below alone, the hash table keeps the invariant that its probe
  needs, chunks are read back, and the checksum is the bitwise one. Emulator: runnable code (no jumps, none of the three operations that its
  dispatch drops, loads and stores of the ram only) over varnodes of consistent sizes runs as on a plain machine of registers and bytes, with panics
  exactly at overflowing divisions, values stay within their sizes, limits and returns end a run, and its two entry points agree on constants except for the three dropped operations. Partition maps: flags and context
  variables hold from where they are set to the next split point, and nothing else changes.

  \<^bold>\<open>Loops.\<close> Loops over a list are structural recursion, bisections recurse on the length of the interval. The loops over bits carry the number
  of remaining bits (at most 64) as their argument. The step loops of multiplication and left shift are fuelled; \<open>push_mult_returns\<close>
  gives the fuel that suffices for every bound on the step up to \<open>2 ^ 30\<close>, and
  \<open>mult_step_loop_stuck\<close> shows that the loop does not stop for some larger bound. The scan of
  \<open>peek_element\<close> is a partial function with value \<open>None\<close> where it does not return, which \<open>peek_element_may_not_return\<close> shows to happen
  for some bytes; on the bytes of a written document it returns. The page and chunk loops of the memory banks are partial functions too, with value
  \<open>None\<close> where they do not return; the round trips of chunks show that they return for words of eight bytes. The emulator's
  loop over a sequence is structural recursion.

  \<^bold>\<open>Not modelled.\<close> The shared mutable graph of varnodes, operations and blocks and all that rewrites it
  (funcdata, heritage, rules, actions), the value set solver of src/src/rangeutil.rs, which walks that
  graph, the XML encoders and decoders, the table of call specifications in the manager, printing and hashing. Of the parts above: reading an image from a file and
  the symbols and sections of images, the marshalling of the context database and its cache, the map of overlapping records in
  src/src/rangemap.rs, and the fields of varnodes and operations that link the graph.
\<close>

end
